(* ===== verification/Prelude.thy ===== *)
theory Prelude
  imports Complex_Main "HOL-Library.Word" "HOL-Library.Multiset" "HOL-Library.Signed_Division"
begin

text \<open>
  Shared vocabulary of the development: IEEE values with their non-finite
  members, the standard-library helpers the C++ code calls on them
  (\<open>std::clamp\<close>, \<open>std::hypot\<close>, \<open>std::atan2\<close>, \<open>std::isfinite\<close>), integer remainder
  with C++ truncation, and the list lemmas that several components use.

  A \<open>double\<close> or \<open>float\<close> that the code tests with \<open>isfinite\<close>, or that may carry an
  infinity or a NaN from a message, is a value of type \<open>dbl\<close>; comparisons
  with NaN are false, as in C++. A quantity the code has already tested, a
  parameter and a clock reading are of type \<open>real\<close>. Arithmetic on finite values is
  exact: rounding, overflow to infinity and the sign of zero are not modelled.
\<close>

named_theorems handler_defs
named_theorems state_simps
named_theorems inv_intros

section \<open>Floating-point values\<close>

datatype dbl = Fin real | PInf | NInf | NaN

primrec isfinite :: "dbl \<Rightarrow> bool" where
  "isfinite (Fin r) = True"
| "isfinite PInf = False"
| "isfinite NInf = False"
| "isfinite NaN = False"

primrec isnan :: "dbl \<Rightarrow> bool" where
  "isnan (Fin r) = False"
| "isnan PInf = False"
| "isnan NInf = False"
| "isnan NaN = True"

primrec val_of :: "dbl \<Rightarrow> real" where
  "val_of (Fin r) = r"
| "val_of PInf = 0"
| "val_of NInf = 0"
| "val_of NaN = 0"

instantiation dbl :: ord
begin

fun less_eq_dbl :: "dbl \<Rightarrow> dbl \<Rightarrow> bool" where
  "less_eq_dbl (Fin a) (Fin b) = (a \<le> b)"
| "less_eq_dbl NInf y = (y \<noteq> NaN)"
| "less_eq_dbl x PInf = (x \<noteq> NaN)"
| "less_eq_dbl x y = False"

fun less_dbl :: "dbl \<Rightarrow> dbl \<Rightarrow> bool" where
  "less_dbl (Fin a) (Fin b) = (a < b)"
| "less_dbl NInf y = (y \<noteq> NaN \<and> y \<noteq> NInf)"
| "less_dbl x PInf = (x \<noteq> NaN \<and> x \<noteq> PInf)"
| "less_dbl x y = False"

instance ..

end

instantiation dbl :: "{plus, minus, uminus, times, abs, zero}"
begin

definition zero_dbl :: dbl where
  "zero_dbl = Fin 0"

fun plus_dbl :: "dbl \<Rightarrow> dbl \<Rightarrow> dbl" where
  "plus_dbl (Fin a) (Fin b) = Fin (a + b)"
| "plus_dbl PInf (Fin b) = PInf"
| "plus_dbl (Fin a) PInf = PInf"
| "plus_dbl PInf PInf = PInf"
| "plus_dbl NInf (Fin b) = NInf"
| "plus_dbl (Fin a) NInf = NInf"
| "plus_dbl NInf NInf = NInf"
| "plus_dbl x y = NaN"

fun uminus_dbl :: "dbl \<Rightarrow> dbl" where
  "uminus_dbl (Fin a) = Fin (- a)"
| "uminus_dbl PInf = NInf"
| "uminus_dbl NInf = PInf"
| "uminus_dbl NaN = NaN"

definition minus_dbl :: "dbl \<Rightarrow> dbl \<Rightarrow> dbl" where
  "minus_dbl x y = x + (- y)"

fun times_dbl :: "dbl \<Rightarrow> dbl \<Rightarrow> dbl" where
  "times_dbl (Fin a) (Fin b) = Fin (a * b)"
| "times_dbl PInf (Fin b) = (if b = 0 then NaN else if b > 0 then PInf else NInf)"
| "times_dbl (Fin a) PInf = (if a = 0 then NaN else if a > 0 then PInf else NInf)"
| "times_dbl NInf (Fin b) = (if b = 0 then NaN else if b > 0 then NInf else PInf)"
| "times_dbl (Fin a) NInf = (if a = 0 then NaN else if a > 0 then NInf else PInf)"
| "times_dbl PInf PInf = PInf"
| "times_dbl NInf NInf = PInf"
| "times_dbl PInf NInf = NInf"
| "times_dbl NInf PInf = NInf"
| "times_dbl x y = NaN"

fun abs_dbl :: "dbl \<Rightarrow> dbl" where
  "abs_dbl (Fin a) = Fin \<bar>a\<bar>"
| "abs_dbl PInf = PInf"
| "abs_dbl NInf = PInf"
| "abs_dbl NaN = NaN"

instance ..

end

fun dsqrt :: "dbl \<Rightarrow> dbl" where
  "dsqrt (Fin a) = (if a < 0 then NaN else Fin (sqrt a))"
| "dsqrt PInf = PInf"
| "dsqrt NInf = NaN"
| "dsqrt NaN = NaN"

lemma minus_dbl_Fin [simp]: "Fin a - Fin b = Fin (a - b)"
  by (simp add: minus_dbl_def)

lemma isfinite_Fin: "isfinite d \<longleftrightarrow> (\<exists>r. d = Fin r)"
  by (cases d) auto

lemma Fin_val_of [simp]: "isfinite d \<Longrightarrow> Fin (val_of d) = d"
  by (cases d) auto

lemma dbl_less_irrefl [simp]: "\<not> (d::dbl) < d"
  by (cases d) auto

lemma dbl_less_trans: "(a::dbl) < b \<Longrightarrow> b < c \<Longrightarrow> a < c"
  by (cases a; cases b; cases c) auto

lemma dbl_not_less_finite:
  "isfinite a \<Longrightarrow> isfinite b \<Longrightarrow> \<not> a < b \<longleftrightarrow> b \<le> a"
  by (cases a; cases b) auto

lemma dbl_le_trans: "(a::dbl) \<le> b \<Longrightarrow> b \<le> c \<Longrightarrow> a \<le> c"
  by (cases a; cases b; cases c) auto

lemma dbl_less_imp_le: "(a::dbl) < b \<Longrightarrow> a \<le> b"
  by (cases a; cases b) auto

lemma dbl_refl: "isfinite d \<Longrightarrow> d \<le> d"
  by (cases d) auto

lemma NaN_compare [simp]: "\<not> NaN < d" "\<not> d < NaN" "\<not> NaN \<le> d" "\<not> d \<le> NaN"
  by (cases d; simp)+

section \<open>Standard-library helpers\<close>

definition clamp :: "real \<Rightarrow> real \<Rightarrow> real \<Rightarrow> real" where
  "clamp v lo hi = (if v < lo then lo else if hi < v then hi else v)"

definition hypot :: "real \<Rightarrow> real \<Rightarrow> real" where
  "hypot x y = sqrt (x * x + y * y)"

definition atan2 :: "real \<Rightarrow> real \<Rightarrow> real" where
  "atan2 y x = Arg (Complex x y)"

definition ctrunc :: "real \<Rightarrow> int" where
  \<comment> \<open>a C++ cast of a floating value to an integer type rounds towards zero\<close>
  "ctrunc r = (if r < 0 then - \<lfloor>- r\<rfloor> else \<lfloor>r\<rfloor>)"

lemma clamp_bounds: "lo \<le> hi \<Longrightarrow> lo \<le> clamp v lo hi \<and> clamp v lo hi \<le> hi"
  by (auto simp: clamp_def)

lemma clamp_id: "lo \<le> v \<Longrightarrow> v \<le> hi \<Longrightarrow> clamp v lo hi = v"
  by (simp add: clamp_def)

lemma hypot_nonneg [simp]: "0 \<le> hypot x y"
  by (simp add: hypot_def)

lemma hypot_zero [simp]: "hypot 0 0 = 0"
  by (simp add: hypot_def)

lemma ctrunc_nonneg: "0 \<le> r \<Longrightarrow> 0 \<le> ctrunc r"
  by (simp add: ctrunc_def)

text \<open>The measure of a loop that advances by a step of at least \<open>c\<close> up to a limit.\<close>

lemma march_measure:
  fixes x hi c k :: real
  assumes "0 < c" "c \<le> k" "x \<le> hi"
  shows "nat \<lceil>(hi - (x + k)) / c + 1\<rceil> < nat \<lceil>(hi - x) / c + 1\<rceil>"
proof -
  have "(hi - (x + k)) / c + 1 \<le> (hi - x) / c"
    using assms by (simp add: field_simps)
  then have "\<lceil>(hi - (x + k)) / c + 1\<rceil> \<le> \<lceil>(hi - x) / c\<rceil>"
    by (rule ceiling_mono)
  moreover have "\<lceil>(hi - x) / c + 1\<rceil> = \<lceil>(hi - x) / c\<rceil> + 1"
    by simp
  moreover have "0 < \<lceil>(hi - x) / c + 1\<rceil>"
    using assms by (simp add: less_ceiling_iff add_pos_nonneg add.commute [of _ 1] pos_add_strict)
  ultimately show ?thesis by linarith
qed

section \<open>Lists\<close>

lemma fold_invariant_list:
  assumes "P s" "\<And>x s. x \<in> set xs \<Longrightarrow> P s \<Longrightarrow> P (f x s)"
  shows "P (fold f xs s)"
  using assms by (induction xs arbitrary: s) auto

lemma fold_measure:
  assumes "\<And>x s. x \<in> set xs \<Longrightarrow> g (f x s) = g s"
  shows "g (fold f xs s) = g s"
  using assms by (induction xs arbitrary: s) auto

lemma concat_rows_nth:
  "\<lbrakk>\<forall>r \<in> set rows. length r = w; y < length rows; x < w\<rbrakk> \<Longrightarrow>
   concat rows ! (y * w + x) = rows ! y ! x"
proof (induction rows arbitrary: y)
  case (Cons r rows)
  then show ?case by (cases y) (auto simp: nth_append add.assoc)
qed simp

lemma length_concat_rows: "\<forall>r \<in> set rows. length r = w \<Longrightarrow> length (concat rows) = length rows * w"
  by (induction rows) auto

lemma sum_of_bool_none: "(\<And>x. x \<in> set xs \<Longrightarrow> \<not> P x) \<Longrightarrow> sum_list (map (\<lambda>x. of_bool (P x)) xs) = (0::int)"
  by (induction xs) auto

lemma sum_of_bool_le_one:
  "distinct xs \<Longrightarrow> (\<And>x. x \<in> set xs \<Longrightarrow> P x \<Longrightarrow> x = a) \<Longrightarrow>
   sum_list (map (\<lambda>x. of_bool (P x)) xs) \<le> (1::int)"
proof (induction xs)
  case (Cons x xs)
  show ?case
  proof (cases "P x")
    case True
    then have "sum_list (map (\<lambda>x. of_bool (P x)) xs) = (0::int)"
      using Cons.prems by (intro sum_of_bool_none) (metis distinct.simps(2) list.set_intros(1,2))
    with True show ?thesis by simp
  qed (use Cons in simp)
qed simp

section \<open>Order statistics\<close>

definition nth_smallest :: "real list \<Rightarrow> nat \<Rightarrow> real" where
  \<comment> \<open>the element \<open>std::nth_element\<close> puts at position \<open>k\<close>\<close>
  "nth_smallest xs k = sort xs ! k"

lemma sorted_filter_less_nth:
  assumes "sorted xs" "k < length xs"
  shows "length (filter (\<lambda>v. v < xs ! k) xs) \<le> k"
proof -
  have "filter (\<lambda>v. v < xs ! k) (drop k xs) = []"
    using assms by (auto simp: filter_empty_conv in_set_conv_nth sorted_nth_mono not_less)
  then have "filter (\<lambda>v. v < xs ! k) xs = filter (\<lambda>v. v < xs ! k) (take k xs)"
    by (metis append_Nil2 append_take_drop_id filter_append)
  then show ?thesis
    by (metis length_filter_le length_take le_trans min.cobounded2)
qed

lemma sorted_filter_le_nth:
  assumes "sorted xs" "k < length xs"
  shows "k < length (filter (\<lambda>v. v \<le> xs ! k) xs)"
proof -
  have "filter (\<lambda>v. v \<le> xs ! k) (take (Suc k) xs) = take (Suc k) xs"
    using assms by (auto simp: filter_id_conv in_set_conv_nth sorted_nth_mono)
  moreover have "length (filter (\<lambda>v. v \<le> xs ! k) (take (Suc k) xs)) \<le> length (filter (\<lambda>v. v \<le> xs ! k) xs)"
    by (metis append_take_drop_id filter_append le_add1 length_append)
  ultimately show ?thesis using assms(2) by simp
qed

lemma length_filter_sort: "length (filter P (sort xs)) = length (filter P (xs :: real list))"
  by (metis mset_filter mset_sort size_mset)

lemma nth_smallest_counts:
  assumes "k < length xs"
  shows "length (filter (\<lambda>v. v < nth_smallest xs k) xs) \<le> k"
    and "k < length (filter (\<lambda>v. v \<le> nth_smallest xs k) xs)"
    and "nth_smallest xs k \<in> set xs"
  using sorted_filter_less_nth [of "sort xs" k] sorted_filter_le_nth [of "sort xs" k] assms
  by (simp_all add: nth_smallest_def length_filter_sort)
    (metis length_sort nth_mem set_sort)

end
