(* ===== verification/Messages.thy ===== *)
theory Messages
  imports Prelude
begin

text \<open>
  Messages that several nodes exchange: the vision and fusion message types of
  \<open>src/vision_interfaces/msg\<close> and \<open>src/fusion_interfaces/msg\<close>, and what the code reads of
  a header. A \<open>float32\<close> field whose finiteness some node tests is a \<open>dbl\<close>;
  box corners and positions are finite. Transforms come from the TF library: a lookup is
  a parameter that answers with a transform or with the exception it throws.
\<close>

type_synonym u32 = "32 word"
type_synonym point3 = "real \<times> real \<times> real"
type_synonym cloud = "(dbl \<times> dbl \<times> dbl) list"

record header =
  stamp :: real
  frame_id :: string

record detection2d =
  class_id :: int
  class_name :: string
  score :: dbl
  x1 :: real
  y1 :: real
  x2 :: real
  y2 :: real
  is_in_lane :: bool
  is_stop_sign :: bool
  sign_real_prob :: dbl
  distance :: dbl
  n_pts :: u32
  depth_valid :: bool
  position :: point3

record tracked_obstacle =
  ob_id :: u32
  ob_class_id :: int
  ob_class_name :: string
  position_base :: point3
  position_odom :: point3
  ob_range :: real
  ob_hits :: u32

record tracked_obstacle_array =
  array_header :: header
  tracked :: "tracked_obstacle list"
  nearest_in_lane_id :: u32

datatype tf_error = ExtrapolationError | LookupError

text \<open>What the fusion nodes keep of a \<open>CameraInfo\<close> message.\<close>

record camera =
  cam_fx :: real
  cam_fy :: real
  cam_cx :: real
  cam_cy :: real
  cam_width :: u32
  cam_height :: u32
  cam_frame :: string

text \<open>Vectors of the Eigen and TF libraries.\<close>

fun vsub :: "point3 \<Rightarrow> point3 \<Rightarrow> point3" where
  "vsub (a, b, c) (x, y, z) = (a - x, b - y, c - z)"

fun vadd :: "point3 \<Rightarrow> point3 \<Rightarrow> point3" where
  "vadd (a, b, c) (x, y, z) = (a + x, b + y, c + z)"

fun vscale :: "real \<Rightarrow> point3 \<Rightarrow> point3" where
  "vscale k (x, y, z) = (k * x, k * y, k * z)"

fun vnorm :: "point3 \<Rightarrow> real" where
  "vnorm (x, y, z) = sqrt (x * x + y * y + z * z)"

text \<open>
  \<open>lookup target source (Some t)\<close> asks for the transform at time \<open>t\<close>, \<open>lookup target source None\<close>
  for the latest one.
\<close>

type_synonym 'tr lookup = "string \<Rightarrow> string \<Rightarrow> real option \<Rightarrow> tf_error + 'tr"

definition plain_detection :: "string \<Rightarrow> real \<Rightarrow> detection2d" where
  "plain_detection cl d = \<lparr>class_id = 0, class_name = cl, score = Fin 1, x1 = 0, y1 = 0, x2 = 0,
     y2 = 0, is_in_lane = False, is_stop_sign = False, sign_real_prob = Fin 0,
     distance = Fin d, n_pts = 9, depth_valid = True, position = (0, 0, 0)\<rparr>"

end
