(* ===== verification/In_Lane_Filter.thy ===== *)
theory In_Lane_Filter
  imports Messages
begin

text \<open>
  \<open>src/lidar_cam_fusion/src/in_lane_filter.cpp\<close>, class \<open>InLaneFilter\<close> (the live half of the file;
  its first half is commented out): the fit of a lane line to a cloud, the age test, the
  evaluation of a line at a distance, the in-lane test, the detections callback, the debug counters, messages
  and markers. TF is the record \<open>lane_tf\<close>, the steady clock an argument and the least-squares solver of
  Eigen a parameter \<open>solve\<close> that gets the rows of the design matrix and the right-hand side.
\<close>

section \<open>Parameters and state\<close>

record 'tr lane_tf =
  l_lookup :: "'tr lookup"
  l_cloud :: "'tr \<Rightarrow> cloud \<Rightarrow> cloud"
  l_point :: "'tr \<Rightarrow> point3 \<Rightarrow> point3"

type_synonym solver = "real list list \<Rightarrow> real list \<Rightarrow> real list"

record filter_config =
  f_ground_frame :: string
  max_lane_width :: real
  min_lane_width :: real
  lane_width :: real
  lane_margin :: real
  lane_max_age :: real
  in_lane_unknown :: bool
  bin_size :: real
  min_bin_points :: int
  min_fit_span :: real
  max_extrapolation :: real
  max_slope :: real
  track_tol :: real
  require_bracket :: bool
  f_debug :: bool
  debug_period :: real

type_synonym p2 = "real \<times> real"

record curve =
  c_ok :: bool
  x_min :: real
  x_max :: real
  c_a :: real
  c_b :: real
  c_c :: real
  y_near :: real

definition no_curve :: curve where
  "no_curve = \<lparr>c_ok = False, x_min = 0, x_max = 0, c_a = 0, c_b = 0, c_c = 0, y_near = 0\<rparr>"

record lane_cloud =
  lc_curve :: curve
  lc_stamp :: real
  lc_valid :: bool

record stats =
  st_n :: "64 word"
  st_prev :: "64 word"
  fit_fail :: "64 word"
  flips :: "64 word"
  st_last :: real
  st_any :: bool

record filter_state =
  white :: lane_cloud
  yellow :: lane_cloud
  white_stats :: stats
  yellow_stats :: stats
  det_stats :: stats
  published :: "64 word"
  published_prev :: "64 word"
  dbg_white_t :: real
  dbg_yellow_t :: real
  dbg_det_t :: real

definition new_lane :: lane_cloud where
  "new_lane = \<lparr>lc_curve = no_curve, lc_stamp = 0, lc_valid = False\<rparr>"

definition new_stats :: stats where
  "new_stats = \<lparr>st_n = 0, st_prev = 0, fit_fail = 0, flips = 0, st_last = 0, st_any = False\<rparr>"

definition new_filter :: filter_state where
  "new_filter = \<lparr>white = new_lane, yellow = new_lane, white_stats = new_stats, yellow_stats = new_stats,
     det_stats = new_stats, published = 0, published_prev = 0, dbg_white_t = 0, dbg_yellow_t = 0, dbg_det_t = 0\<rparr>"

datatype lane = In_Lane | Out_Of_Lane | Unknown

section \<open>Debug clock and counters\<close>

definition due :: "filter_config \<Rightarrow> real \<Rightarrow> real \<Rightarrow> bool \<times> real" where
  \<comment> \<open>\<open>due\<close> returns its answer and the new value of the clock reading it keeps\<close>
  "due c t t0 =
    (if \<not> f_debug c then (False, t0)
     else if debug_period c > 0 \<and> t - t0 < debug_period c then (False, t0)
     else (True, t))"

definition count_message :: "real \<Rightarrow> stats \<Rightarrow> stats" where
  "count_message t st = st\<lparr>st_n := st_n st + 1, st_last := t, st_any := True\<rparr>"

definition since_last :: "real \<Rightarrow> stats \<Rightarrow> real" where
  "since_last t st = (if st_any st then t - st_last st else - 1)"

record heartbeat_msg =
  hb_counts :: "64 word list"
  hb_ago :: "real list"
  hb_valid :: "bool \<times> bool"
  hb_fails :: "64 word list"

definition heartbeat :: "filter_config \<Rightarrow> real \<Rightarrow> filter_state \<Rightarrow> heartbeat_msg option \<times> filter_state" where
  "heartbeat c t s =
    (if \<not> f_debug c then (None, s)
     else
      (Some \<lparr>hb_counts = [st_n (white_stats s) - st_prev (white_stats s),
               st_n (yellow_stats s) - st_prev (yellow_stats s),
               st_n (det_stats s) - st_prev (det_stats s), published s - published_prev s],
             hb_ago = [since_last t (white_stats s), since_last t (yellow_stats s), since_last t (det_stats s)],
             hb_valid = (lc_valid (white s), lc_valid (yellow s)),
             hb_fails = [fit_fail (white_stats s), fit_fail (yellow_stats s),
               flips (white_stats s), flips (yellow_stats s)]\<rparr>,
       s\<lparr>white_stats := (white_stats s)\<lparr>st_prev := st_n (white_stats s)\<rparr>,
         yellow_stats := (yellow_stats s)\<lparr>st_prev := st_n (yellow_stats s)\<rparr>,
         det_stats := (det_stats s)\<lparr>st_prev := st_n (det_stats s)\<rparr>,
         published_prev := published s\<rparr>))"

section \<open>The fit of a lane line\<close>

definition bin_of :: "filter_config \<Rightarrow> p2 \<Rightarrow> int" where
  "bin_of c p = \<lfloor>fst p / bin_size c\<rfloor>"

definition usable :: "filter_config \<Rightarrow> p2 \<Rightarrow> bool" where
  "usable c p \<longleftrightarrow> \<not> (fst p < 0 \<or> \<bar>snd p\<bar> > max_lane_width c)"

definition bins :: "filter_config \<Rightarrow> p2 list \<Rightarrow> (int \<times> p2 list) list" where
  \<comment> \<open>the \<open>std::map\<close> of bins in key order, each with its points in cloud order\<close>
  "bins c pts = (let kept = filter (usable c) pts in
     map (\<lambda>k. (k, filter (\<lambda>p. bin_of c p = k) kept)) (sort (remdups (map (bin_of c) kept))))"

primrec nearest_to :: "real \<Rightarrow> p2 list \<Rightarrow> p2 option \<Rightarrow> p2 option" where
  \<comment> \<open>the search of the point closest to a lateral offset, the first one on a tie\<close>
  "nearest_to y0 [] best = best"
| "nearest_to y0 (p # ps) best = nearest_to y0 ps
     (case best of None \<Rightarrow> Some p | Some q \<Rightarrow> if \<bar>snd p - y0\<bar> < \<bar>snd q - y0\<bar> then Some p else best)"

definition accept_point :: "filter_config \<Rightarrow> p2 option \<Rightarrow> p2 \<Rightarrow> bool" where
  \<comment> \<open>\<open>prev = None\<close> while no point has been accepted (\<open>seeded\<close> is false)\<close>
  "accept_point c prev best = (case prev of
     None \<Rightarrow> \<not> \<bar>snd best\<bar> > lane_width c
   | Some (px, py) \<Rightarrow> \<not> \<bar>snd best - py\<bar> > track_tol c + max_slope c * (fst best - px))"

primrec trace_line :: "filter_config \<Rightarrow> (int \<times> p2 list) list \<Rightarrow> p2 option \<Rightarrow> p2 list" where
  "trace_line c [] prev = []"
| "trace_line c (kv # kvs) prev =
    (if int (length (snd kv)) < min_bin_points c then trace_line c kvs prev
     else case nearest_to (case prev of None \<Rightarrow> 0 | Some q \<Rightarrow> snd q) (snd kv) None of
       None \<Rightarrow> trace_line c kvs prev
     | Some best \<Rightarrow>
         if accept_point c prev best then best # trace_line c kvs (Some best)
         else trace_line c kvs prev)"

definition design_row :: "nat \<Rightarrow> p2 \<Rightarrow> real list" where
  "design_row deg p = (if deg = 2 then [1, fst p, fst p * fst p] else [1, fst p])"

definition fit_curve :: "filter_config \<Rightarrow> solver \<Rightarrow> p2 list \<Rightarrow> curve" where
  "fit_curve c solve pts =
    (let s = trace_line c (bins c pts) None in
     if length s < 2 then no_curve
     else let span = fst (last s) - fst (hd s) in
       if span < min_fit_span c then no_curve
       else
        (let deg = (if 4 \<le> length s \<and> 3 \<le> span then 2 else 1);
             k = solve (map (design_row deg) s) (map snd s);
             a = k ! 0; b = k ! 1; q = (if deg = 2 then k ! 2 else 0); x0 = fst (hd s) in
         \<lparr>c_ok = True, x_min = x0, x_max = fst (last s), c_a = a, c_b = b, c_c = q,
           y_near = a + b * x0 + q * x0 * x0\<rparr>))"

definition finite_points :: "cloud \<Rightarrow> p2 list" where
  "finite_points pts = map (\<lambda>(x, y, z). (val_of x, val_of y))
     (filter (\<lambda>(x, y, z). isfinite x \<and> isfinite y \<and> isfinite z) pts)"

definition update_lane ::
  "filter_config \<Rightarrow> 'tr lane_tf \<Rightarrow> solver \<Rightarrow> header \<Rightarrow> cloud \<Rightarrow> real \<Rightarrow> lane_cloud \<times> stats \<times> real \<Rightarrow> lane_cloud \<times> stats \<times> real"
where
  "update_lane c tf solve h pts t ls =
    (let (l, st, dbg_t) = ls; st = count_message t st; dbg_t = snd (due c t dbg_t) in
     case l_lookup tf (f_ground_frame c) (frame_id h) None of
       Inl e \<Rightarrow> (l, st, dbg_t)
     | Inr g \<Rightarrow>
        (let cv = fit_curve c solve (finite_points (l_cloud tf g pts)) in
         (\<lparr>lc_curve = cv, lc_stamp = stamp h, lc_valid = c_ok cv\<rparr>,
          (if \<not> c_ok cv then st\<lparr>fit_fail := fit_fail st + 1,
              flips := (if lc_valid l then flips st + 1 else flips st)\<rparr> else st),
          dbg_t)))"

definition white_callback ::
  "filter_config \<Rightarrow> 'tr lane_tf \<Rightarrow> solver \<Rightarrow> header \<Rightarrow> cloud \<Rightarrow> real \<Rightarrow> filter_state \<Rightarrow> filter_state" where
  "white_callback c tf solve h pts t s =
    (let (l, st, d) = update_lane c tf solve h pts t (white s, white_stats s, dbg_white_t s) in
     s\<lparr>white := l, white_stats := st, dbg_white_t := d\<rparr>)"

definition yellow_callback ::
  "filter_config \<Rightarrow> 'tr lane_tf \<Rightarrow> solver \<Rightarrow> header \<Rightarrow> cloud \<Rightarrow> real \<Rightarrow> filter_state \<Rightarrow> filter_state" where
  "yellow_callback c tf solve h pts t s =
    (let (l, st, d) = update_lane c tf solve h pts t (yellow s, yellow_stats s, dbg_yellow_t s) in
     s\<lparr>yellow := l, yellow_stats := st, dbg_yellow_t := d\<rparr>)"

section \<open>Using the lines\<close>

definition fresh :: "filter_config \<Rightarrow> lane_cloud \<Rightarrow> real \<Rightarrow> bool" where
  "fresh c l t \<longleftrightarrow> lc_valid l \<and> \<bar>t - lc_stamp l\<bar> \<le> lane_max_age c"

definition curve_at :: "curve \<Rightarrow> real \<Rightarrow> real" where
  "curve_at cv x = c_a cv + c_b cv * x + c_c cv * x * x"

definition eval :: "filter_config \<Rightarrow> curve \<Rightarrow> real \<Rightarrow> real option" where
  "eval c cv x =
    (if \<not> c_ok cv \<or> x < x_min cv - max_extrapolation c \<or> x > x_max cv + max_extrapolation c then None
     else
      (let xe = clamp x (x_min cv) (x_max cv); y = curve_at cv xe in
       if x \<noteq> xe then Some (y + clamp (c_b cv + 2 * c_c cv * xe) (- max_slope c) (max_slope c) * (x - xe))
       else Some y))"

datatype reason =
    Curve_Not_Valid
  | Reject_Before real
  | Reject_Beyond real
  | Extrapolating real real real
  | Inside_Range

definition eval_reason :: "filter_config \<Rightarrow> curve \<Rightarrow> real \<Rightarrow> reason" where
  \<comment> \<open>the message with its numbers, without the formatting\<close>
  "eval_reason c cv x =
    (if \<not> c_ok cv then Curve_Not_Valid
     else if x < x_min cv - max_extrapolation c then Reject_Before (x_min cv - x)
     else if x > x_max cv + max_extrapolation c then Reject_Beyond (x - x_max cv)
     else if x < x_min cv \<or> x > x_max cv then
       (let xe = clamp x (x_min cv) (x_max cv); raw = c_b cv + 2 * c_c cv * xe in
        Extrapolating (if x < x_min cv then x_min cv - x else x - x_max cv) raw (clamp raw (- max_slope c) (max_slope c)))
     else Inside_Range)"

definition check :: "filter_config \<Rightarrow> filter_state \<Rightarrow> real \<Rightarrow> real option \<Rightarrow> real option \<Rightarrow> lane" where
  \<comment> \<open>an offset is \<open>None\<close> where the code passes \<open>has_white\<close> or \<open>has_yellow\<close> false\<close>
  "check c s y yw yy =
    (let inside = (\<lambda>lo hi. if lo - lane_margin c \<le> y \<and> y \<le> hi + lane_margin c then In_Lane else Out_Of_Lane);
         one = (\<lambda>cv y_line. if y_near cv > 0 then inside (y_line - lane_width c) y_line
                             else inside y_line (y_line + lane_width c)) in
     case (yw, yy) of
       (Some w, Some l) \<Rightarrow>
         if require_bracket c \<and> y_near (lc_curve (white s)) * y_near (lc_curve (yellow s)) \<ge> 0 then Unknown
         else (let lo = min w l; hi = max w l in
           if hi - lo > max_lane_width c \<or> hi - lo < min_lane_width c then Unknown else inside lo hi)
     | (None, Some l) \<Rightarrow> one (lc_curve (yellow s)) l
     | (Some w, None) \<Rightarrow> one (lc_curve (white s)) w
     | (None, None) \<Rightarrow> Unknown)"

definition filter_lookup :: "'tr lane_tf \<Rightarrow> string \<Rightarrow> string \<Rightarrow> real \<Rightarrow> 'tr option" where
  "filter_lookup tf target source t =
    (case l_lookup tf target source (Some t) of
       Inr g \<Rightarrow> Some g
     | Inl e \<Rightarrow> (case l_lookup tf target source None of Inr g \<Rightarrow> Some g | Inl e \<Rightarrow> None))"

definition classify :: "filter_config \<Rightarrow> filter_state \<Rightarrow> bool \<Rightarrow> bool \<Rightarrow> point3 \<Rightarrow> lane" where
  "classify c s white_fresh yellow_fresh p = (case p of (x, y, z) \<Rightarrow>
     check c s y (if white_fresh then eval c (lc_curve (white s)) x else None)
       (if yellow_fresh then eval c (lc_curve (yellow s)) x else None))"

definition lane_flag :: "filter_config \<Rightarrow> lane \<Rightarrow> bool" where
  "lane_flag c r \<longleftrightarrow> r = In_Lane \<or> r = Unknown \<and> in_lane_unknown c"

definition judge ::
  "filter_config \<Rightarrow> filter_state \<Rightarrow> bool \<Rightarrow> bool \<Rightarrow> (point3 \<Rightarrow> point3) option \<Rightarrow> detection2d
    \<Rightarrow> detection2d \<times> (point3 \<times> lane) option" where
  \<comment> \<open>the loop body: the rewritten detection and what is pushed on \<open>evaluated_detections\<close>\<close>
  "judge c s fw fy tr item =
    (if \<not> depth_valid item then (item\<lparr>is_in_lane := False\<rparr>, None)
     else case tr of
       None \<Rightarrow> (item\<lparr>is_in_lane := lane_flag c Unknown\<rparr>, None)
     | Some g \<Rightarrow> (let p = g (position item); r = classify c s fw fy p in
         (item\<lparr>is_in_lane := lane_flag c r\<rparr>, Some (p, r))))"

section \<open>Debug markers\<close>

function strip_xs :: "real \<Rightarrow> real \<Rightarrow> real list" where
  \<comment> \<open>the abscissae of a line strip, half a metre apart\<close>
  "strip_xs x hi = (if x \<le> hi then x # strip_xs (x + 1 / 2) hi else [])"
  by pat_completeness auto

termination
  by (relation "measure (\<lambda>(x, hi). nat \<lceil>(hi - x) / (1 / 2) + 1\<rceil>)")
    (simp, simp only: in_measure split_conv, rule march_measure, simp_all)

declare strip_xs.simps [simp del]

datatype marker = Line_Strip nat "point3 list" | Sphere nat point3 lane

definition curve_strip :: "curve \<Rightarrow> point3 list" where
  "curve_strip cv = map (\<lambda>x. (x, curve_at cv x, 0)) (strip_xs (x_min cv) (x_max cv))"

definition debug_markers :: "bool \<Rightarrow> bool \<Rightarrow> (point3 \<times> lane) list \<Rightarrow> filter_state \<Rightarrow> marker list" where
  "debug_markers fw fy es s =
    (let ws = (if fw \<and> c_ok (lc_curve (white s)) then [Line_Strip 0 (curve_strip (lc_curve (white s)))] else []);
         ys = (if fy \<and> c_ok (lc_curve (yellow s)) then [Line_Strip (length ws) (curve_strip (lc_curve (yellow s)))] else []);
         i0 = length ws + length ys in
     ws @ ys @ map (\<lambda>(i, p, r). Sphere (i0 + i) p r) (zip [0..<length es] es))"

section \<open>The detections callback\<close>

record filter_out =
  out_detections :: "detection2d list"
  out_markers :: "marker list"

definition lane_detections ::
  "filter_config \<Rightarrow> 'tr lane_tf \<Rightarrow> header \<Rightarrow> detection2d list \<Rightarrow> real \<Rightarrow> filter_state \<Rightarrow> filter_out \<times> filter_state" where
  "lane_detections c tf h ds t s =
    (let fw = fresh c (white s) (stamp h);
         fy = fresh c (yellow s) (stamp h);
         tr = (if fw \<or> fy then filter_lookup tf (f_ground_frame c) (frame_id h) (stamp h) else None);
         rs = map (judge c s fw fy (map_option (l_point tf) tr)) ds in
     (\<lparr>out_detections = map fst rs,
       out_markers = debug_markers fw fy (List.map_filter snd rs) s\<rparr>,
      s\<lparr>det_stats := count_message t (det_stats s), dbg_det_t := snd (due c t (dbg_det_t s)),
        published := published s + 1\<rparr>))"

section \<open>The accepted points\<close>

definition line_step :: "filter_config \<Rightarrow> p2 \<Rightarrow> p2 \<Rightarrow> bool" where
  "line_step c p q \<longleftrightarrow> fst p < fst q \<and> \<bar>snd q - snd p\<bar> \<le> track_tol c + max_slope c * (fst q - fst p)"

definition before_bins :: "filter_config \<Rightarrow> p2 \<Rightarrow> (int \<times> p2 list) list \<Rightarrow> bool" where
  "before_bins c q kvs \<longleftrightarrow> (\<forall>kv \<in> set kvs. \<forall>p \<in> set (snd kv). fst q < fst p)"

lemma nearest_to_mem: "nearest_to y0 ps best = Some p \<Longrightarrow> p \<in> set ps \<or> best = Some p"
  by (induction ps arbitrary: best) (auto split: option.splits if_splits)

lemma nearest_to_closest:
  "nearest_to y0 ps best = Some p \<Longrightarrow>
   (\<forall>q \<in> set ps. \<bar>snd p - y0\<bar> \<le> \<bar>snd q - y0\<bar>) \<and> (\<forall>q. best = Some q \<longrightarrow> \<bar>snd p - y0\<bar> \<le> \<bar>snd q - y0\<bar>)"
proof (induction ps arbitrary: best)
  case (Cons q qs)
  let ?b = "case best of None \<Rightarrow> Some q | Some r \<Rightarrow> if \<bar>snd q - y0\<bar> < \<bar>snd r - y0\<bar> then Some q else best"
  have "nearest_to y0 qs ?b = Some p" using Cons.prems by simp
  from Cons.IH [OF this] show ?case by (cases q) (auto split: option.splits if_splits)
qed simp

definition bins_ordered :: "(int \<times> p2 list) list \<Rightarrow> bool" where
  "bins_ordered kvs \<longleftrightarrow> sorted_wrt (\<lambda>kv kw. \<forall>p \<in> set (snd kv). \<forall>q \<in> set (snd kw). fst p < fst q) kvs"

lemma bin_of_less: "0 < bin_size c \<Longrightarrow> bin_of c p < bin_of c q \<Longrightarrow> fst p < fst q"
  unfolding bin_of_def
  by (metis divide_right_mono floor_mono less_le_not_le not_less)

lemma bins_are_ordered: "0 < bin_size c \<Longrightarrow> bins_ordered (bins c pts)"
proof -
  assume b: "0 < bin_size c"
  let ?kept = "filter (usable c) pts"
  have "sorted_wrt (<) (sort (remdups (map (bin_of c) ?kept)))"
    by (simp add: strict_sorted_iff)
  then show ?thesis
    unfolding bins_ordered_def bins_def Let_def
    by (auto simp: sorted_wrt_map dest: bin_of_less [OF b] intro!: sorted_wrt_mono_rel [of _ "(<)"])
qed

lemma bins_points: "kv \<in> set (bins c pts) \<Longrightarrow> p \<in> set (snd kv) \<Longrightarrow> p \<in> set pts \<and> usable c p"
  by (auto simp: bins_def Let_def)

lemma trace_line_subset: "p \<in> set (trace_line c kvs prev) \<Longrightarrow> \<exists>kv \<in> set kvs. p \<in> set (snd kv)"
  by (induction kvs arbitrary: prev) (auto split: if_splits option.splits dest!: nearest_to_mem)

lemma trace_line_chain:
  assumes "bins_ordered kvs" "\<And>q. prev = Some q \<Longrightarrow> before_bins c q kvs"
  shows "successively (line_step c) (trace_line c kvs prev) \<and>
    (trace_line c kvs prev \<noteq> [] \<longrightarrow>
      (case prev of None \<Rightarrow> \<bar>snd (hd (trace_line c kvs prev))\<bar> \<le> lane_width c
       | Some q \<Rightarrow> line_step c q (hd (trace_line c kvs prev))))"
  using assms
proof (induction kvs arbitrary: prev)
  case (Cons kv kvs)
  have tail: "bins_ordered kvs" using Cons.prems(1) by (simp add: bins_ordered_def)
  have skip: "before_bins c q kvs" if "prev = Some q" for q
    using Cons.prems(2) [OF that] by (simp add: before_bins_def)
  show ?case
  proof (cases "trace_line c (kv # kvs) prev = trace_line c kvs prev")
    case True
    show ?thesis unfolding True by (rule Cons.IH [OF tail skip])
  next
    case False
    then obtain b where b: "nearest_to (case prev of None \<Rightarrow> 0 | Some q \<Rightarrow> snd q) (snd kv) None = Some b"
        "accept_point c prev b" "trace_line c (kv # kvs) prev = b # trace_line c kvs (Some b)"
      by (auto split: if_splits option.splits)
    have mem: "b \<in> set (snd kv)" using nearest_to_mem [OF b(1)] by simp
    have after: "before_bins c b kvs"
      using Cons.prems(1) mem by (auto simp: before_bins_def bins_ordered_def)
    have "case prev of None \<Rightarrow> \<bar>snd b\<bar> \<le> lane_width c | Some q \<Rightarrow> line_step c q b"
    proof (cases prev)
      case (Some q)
      then show ?thesis using b(2) Cons.prems(2) [OF Some] mem
        by (auto simp: accept_point_def line_step_def before_bins_def split: prod.splits)
    qed (use b(2) in \<open>simp add: accept_point_def\<close>)
    moreover have "successively (line_step c) (trace_line c kvs (Some b)) \<and>
        (trace_line c kvs (Some b) \<noteq> [] \<longrightarrow> line_step c b (hd (trace_line c kvs (Some b))))"
      using Cons.IH [of "Some b"] tail after by simp
    ultimately show ?thesis
      unfolding b(3) list.sel by (cases "trace_line c kvs (Some b)") simp_all
  qed
qed simp

text \<open>
  A fitted line rests on a line of points. When a fit succeeds there are at least two cloud points, none behind
  the robot nor farther sideways than the greatest lane width, that start within a lane width of the centre line,
  strictly advance in \<open>x\<close>, jump sideways no more than the tracking tolerance and the
  greatest slope allow, and span exactly the fitted range, which is at least the smallest span.
\<close>

theorem fitted_line_has_support:
  assumes "0 < bin_size c" and "c_ok (fit_curve c solve pts)"
  shows "\<exists>ps. 2 \<le> length ps \<and> (\<forall>p \<in> set ps. p \<in> set pts \<and> 0 \<le> fst p \<and> \<bar>snd p\<bar> \<le> max_lane_width c) \<and>
    \<bar>snd (hd ps)\<bar> \<le> lane_width c \<and>
    (\<forall>i. Suc i < length ps \<longrightarrow> fst (ps ! i) < fst (ps ! Suc i) \<and>
      \<bar>snd (ps ! Suc i) - snd (ps ! i)\<bar> \<le> track_tol c + max_slope c * (fst (ps ! Suc i) - fst (ps ! i))) \<and>
    x_min (fit_curve c solve pts) = fst (hd ps) \<and> x_max (fit_curve c solve pts) = fst (last ps) \<and>
    min_fit_span c \<le> fst (last ps) - fst (hd ps)"
proof -
  let ?s = "trace_line c (bins c pts) None"
  have f: "2 \<le> length ?s" "min_fit_span c \<le> fst (last ?s) - fst (hd ?s)"
      "x_min (fit_curve c solve pts) = fst (hd ?s)" "x_max (fit_curve c solve pts) = fst (last ?s)"
    using assms(2) by (auto simp: fit_curve_def Let_def no_curve_def split: if_splits)
  have "p \<in> set pts \<and> usable c p" if "p \<in> set ?s" for p
    using trace_line_subset [OF that] bins_points by blast
  moreover have "successively (line_step c) ?s \<and> (?s \<noteq> [] \<longrightarrow> \<bar>snd (hd ?s)\<bar> \<le> lane_width c)"
    using trace_line_chain [OF bins_are_ordered [OF assms(1)], of None] by simp
  moreover have "?s \<noteq> []" using f(1) by auto
  ultimately show ?thesis
    using f by (intro exI [of _ ?s]) (auto simp: usable_def successively_conv_nth line_step_def not_less)
qed

section \<open>Evaluation of a line\<close>

lemma eval_reason_agrees:
  "eval c cv x = None \<longleftrightarrow> eval_reason c cv x = Curve_Not_Valid \<or>
    (\<exists>d. eval_reason c cv x = Reject_Before d \<or> eval_reason c cv x = Reject_Beyond d)"
  by (auto simp: eval_def eval_reason_def Let_def)

lemma eval_inside: "c_ok cv \<Longrightarrow> x_min cv \<le> x \<Longrightarrow> x \<le> x_max cv \<Longrightarrow> 0 \<le> max_extrapolation c \<Longrightarrow>
    eval c cv x = Some (curve_at cv x)"
  by (simp add: eval_def clamp_id)

lemma clamp_distance: "lo \<le> hi \<Longrightarrow> 0 \<le> m \<Longrightarrow> lo - m \<le> x \<Longrightarrow> x \<le> hi + m \<Longrightarrow> \<bar>x - clamp x lo hi\<bar> \<le> m"
  by (auto simp: clamp_def)

lemma eval_drift:
  assumes "eval c cv x = Some y" "x_min cv \<le> x_max cv" "0 \<le> max_slope c" "0 \<le> max_extrapolation c"
  shows "\<bar>y - curve_at cv (clamp x (x_min cv) (x_max cv))\<bar> \<le> max_slope c * max_extrapolation c"
proof -
  let ?xe = "clamp x (x_min cv) (x_max cv)"
  let ?k = "clamp (c_b cv + 2 * c_c cv * ?xe) (- max_slope c) (max_slope c)"
  have "\<bar>x - ?xe\<bar> \<le> max_extrapolation c"
    using assms by (intro clamp_distance) (auto simp: eval_def split: if_splits)
  moreover have "\<bar>?k\<bar> \<le> max_slope c"
    using clamp_bounds [of "- max_slope c" "max_slope c"] assms(3) by (simp add: abs_le_iff) (metis minus_le_iff)
  ultimately have "\<bar>?k * (x - ?xe)\<bar> \<le> max_slope c * max_extrapolation c"
    unfolding abs_mult by (intro mult_mono) (use assms(3) in auto)
  with assms(1,3,4) show ?thesis by (auto simp: eval_def Let_def split: if_splits)
qed

section \<open>The published flags\<close>

definition opposite_sides :: "filter_state \<Rightarrow> bool" where
  "opposite_sides s \<longleftrightarrow> y_near (lc_curve (white s)) * y_near (lc_curve (yellow s)) < 0"

text \<open>
  The stretch of ground between the lines at a distance, as the filter should understand it: between two lines that
  are a plausible lane apart, or one lane width towards the robot's side of the only line.
\<close>

definition one_line_band :: "filter_config \<Rightarrow> lane_cloud \<Rightarrow> real \<Rightarrow> real \<Rightarrow> real \<Rightarrow> bool" where
  "one_line_band c l y lo hi \<longleftrightarrow>
    (if y_near (lc_curve l) > 0 then lo = y - lane_width c \<and> hi = y else lo = y \<and> hi = y + lane_width c)"

fun band_between :: "filter_config \<Rightarrow> filter_state \<Rightarrow> real option \<Rightarrow> real option \<Rightarrow> real \<Rightarrow> real \<Rightarrow> bool" where
  "band_between c s (Some w) (Some y) lo hi \<longleftrightarrow> (require_bracket c \<longrightarrow> opposite_sides s) \<and>
     lo = min w y \<and> hi = max w y \<and> min_lane_width c \<le> hi - lo \<and> hi - lo \<le> max_lane_width c"
| "band_between c s (Some w) None lo hi \<longleftrightarrow> one_line_band c (white s) w lo hi"
| "band_between c s None (Some y) lo hi \<longleftrightarrow> one_line_band c (yellow s) y lo hi"
| "band_between c s None None lo hi \<longleftrightarrow> False"

definition line_at :: "filter_config \<Rightarrow> lane_cloud \<Rightarrow> real \<Rightarrow> real \<Rightarrow> real option" where
  "line_at c l t x = (if fresh c l t then eval c (lc_curve l) x else None)"

definition lane_band :: "filter_config \<Rightarrow> filter_state \<Rightarrow> real \<Rightarrow> real \<Rightarrow> real \<Rightarrow> real \<Rightarrow> bool" where
  "lane_band c s t x = band_between c s (line_at c (white s) t x) (line_at c (yellow s) t x)"

lemma check_in_lane:
  "check c s y yw yy = In_Lane \<longleftrightarrow>
   (\<exists>lo hi. band_between c s yw yy lo hi \<and> lo - lane_margin c \<le> y \<and> y \<le> hi + lane_margin c)"
  by (cases yw; cases yy)
    (simp_all add: check_def opposite_sides_def one_line_band_def Let_def not_less not_le conj_ac)

lemma classify_in_lane:
  "classify c s (fresh c (white s) t) (fresh c (yellow s) t) (x, y, z) = In_Lane \<longleftrightarrow>
   (\<exists>lo hi. lane_band c s t x lo hi \<and> lo - lane_margin c \<le> y \<and> y \<le> hi + lane_margin c)"
  by (simp add: classify_def check_in_lane lane_band_def line_at_def)

lemma no_lane_no_band: "\<not> fresh c (white s) t \<Longrightarrow> \<not> fresh c (yellow s) t \<Longrightarrow> \<not> lane_band c s t x lo hi"
  by (simp add: lane_band_def line_at_def)

definition band_transform :: "filter_config \<Rightarrow> 'tr lane_tf \<Rightarrow> header \<Rightarrow> filter_state \<Rightarrow> 'tr option" where
  \<comment> \<open>the transform the callback uses: none is looked up when both lines are old\<close>
  "band_transform c tf h s =
    (if fresh c (white s) (stamp h) \<or> fresh c (yellow s) (stamp h) then filter_lookup tf (f_ground_frame c) (frame_id h) (stamp h) else None)"

lemma judge_keeps: "fst (judge c s fw fy tr d) = d\<lparr>is_in_lane := is_in_lane (fst (judge c s fw fy tr d))\<rparr>"
  by (auto simp: judge_def Let_def split: option.splits)

lemma judge_in_band:
  assumes "\<not> in_lane_unknown c"
  shows "is_in_lane (fst (judge c s (fresh c (white s) (stamp h)) (fresh c (yellow s) (stamp h)) (map_option (l_point tf) (band_transform c tf h s)) d)) \<longleftrightarrow>
    depth_valid d \<and>
    (\<exists>g x y z lo hi. filter_lookup tf (f_ground_frame c) (frame_id h) (stamp h) = Some g \<and>
      l_point tf g (position d) = (x, y, z) \<and> lane_band c s (stamp h) x lo hi \<and> lo - lane_margin c \<le> y \<and> y \<le> hi + lane_margin c)"
proof -
  let ?fw = "fresh c (white s) (stamp h)" and ?fy = "fresh c (yellow s) (stamp h)" and ?tr = "band_transform c tf h s"
  have "is_in_lane (fst (judge c s ?fw ?fy (map_option (l_point tf) ?tr) d)) \<longleftrightarrow>
      depth_valid d \<and> (\<exists>g. ?tr = Some g \<and> classify c s ?fw ?fy (l_point tf g (position d)) = In_Lane)"
    using assms by (auto simp: judge_def lane_flag_def Let_def split: option.splits)
  moreover have "(\<exists>g. ?tr = Some g \<and> classify c s ?fw ?fy (l_point tf g p) = In_Lane) \<longleftrightarrow>
      (\<exists>g x y z lo hi. filter_lookup tf (f_ground_frame c) (frame_id h) (stamp h) = Some g \<and>
        l_point tf g p = (x, y, z) \<and> lane_band c s (stamp h) x lo hi \<and>
        lo - lane_margin c \<le> y \<and> y \<le> hi + lane_margin c)" for p
    using no_lane_no_band [of c s "stamp h"] classify_in_lane [of c s "stamp h"]
    by (auto simp: band_transform_def split: if_splits) (metis prod_cases3)+
  ultimately show ?thesis by simp
qed

text \<open>
  C17: What a published in-lane flag means. The output has the input's detections in order with nothing but the flag
  changed. With the default for undecided detections (not in the lane), the flag is set exactly when the detection
  has a depth, the transform to the ground frame is known and the transformed position lies, up to the margin, in the
  lane band of the fresh lines.
\<close>

theorem in_lane_flag_means_in_band:
  assumes "lane_detections c tf h ds t s = (out, s')" and "\<not> in_lane_unknown c" and "i < length ds"
  shows "length (out_detections out) = length ds \<and>
    out_detections out ! i = (ds ! i)\<lparr>is_in_lane := is_in_lane (out_detections out ! i)\<rparr> \<and>
    (is_in_lane (out_detections out ! i) \<longleftrightarrow> depth_valid (ds ! i) \<and>
      (\<exists>g x y z lo hi. filter_lookup tf (f_ground_frame c) (frame_id h) (stamp h) = Some g \<and>
        l_point tf g (position (ds ! i)) = (x, y, z) \<and> lane_band c s (stamp h) x lo hi \<and>
        lo - lane_margin c \<le> y \<and> y \<le> hi + lane_margin c))"
proof -
  let ?fw = "fresh c (white s) (stamp h)" and ?fy = "fresh c (yellow s) (stamp h)"
  have out: "out_detections out = map (\<lambda>d. fst (judge c s ?fw ?fy (map_option (l_point tf) (band_transform c tf h s)) d)) ds"
    using assms(1) by (auto simp: lane_detections_def band_transform_def Let_def)
  have len: "length (out_detections out) = length ds" by (simp add: out)
  have i: "out_detections out ! i = fst (judge c s ?fw ?fy (map_option (l_point tf) (band_transform c tf h s)) (ds ! i))"
    using assms(3) by (simp add: out)
  from len judge_keeps [of c s ?fw ?fy "map_option (l_point tf) (band_transform c tf h s)" "ds ! i"] judge_in_band [OF assms(2)] show ?thesis
    unfolding i by blast
qed

section \<open>The heartbeat counters\<close>

lemma heartbeat_resets:
  assumes "heartbeat c t s = (Some m, s')"
  shows "map st_prev [white_stats s', yellow_stats s', det_stats s'] = map st_n [white_stats s', yellow_stats s', det_stats s']
    \<and> published_prev s' = published s'"
  using assms by (auto simp: heartbeat_def split: if_splits)

lemma update_lane_counts: "st_n (fst (snd (update_lane c tf solve h pts t (l, st, d)))) = st_n st + 1"
  by (simp add: update_lane_def Let_def count_message_def split: sum.splits)

lemma failed_fit_is_counted:
  assumes "update_lane c tf solve h pts t (l, st, d) = (l', st', d')" and "l_lookup tf (f_ground_frame c) (frame_id h) None = Inr g"
  shows "fit_fail st' = fit_fail st + of_bool (\<not> lc_valid l') \<and>
    flips st' = flips st + of_bool (lc_valid l \<and> \<not> lc_valid l')"
  using assms by (auto simp: update_lane_def Let_def count_message_def split: if_splits)

section \<open>Witnesses\<close>

definition filter_test :: filter_config where
  \<comment> \<open>the declared defaults of the node\<close>
  "filter_test = \<lparr>f_ground_frame = ''link_base'', max_lane_width = 4.2, min_lane_width = 3.2, lane_width = 3.7,
     lane_margin = 0, lane_max_age = 0.5, in_lane_unknown = False, bin_size = 1, min_bin_points = 2,
     min_fit_span = 2, max_extrapolation = 15, max_slope = 0.6, track_tol = 0.3, require_bracket = True,
     f_debug = True, debug_period = 0.5\<rparr>"

definition line_solver :: solver where
  \<comment> \<open>the normal equations of a straight-line fit\<close>
  "line_solver rows ys =
    (let n = of_nat (length ys); xs = map (\<lambda>r. r ! 1) rows; sx = sum_list xs; sy = sum_list ys;
         sxx = sum_list (map (\<lambda>x. x * x) xs); sxy = sum_list (map2 (*) xs ys);
         k = (n * sxy - sx * sy) / (n * sxx - sx * sx) in
     [(sy - k * sx) / n, k])"

theorem fitted_line_has_support_witness:
  "x_min (fit_curve filter_test line_solver [(1.5, 2), (3.5, 2), (1.2, 2), (3.6, 2.1), (- 1, 2), (2, 9)]) = 1.5
    \<and> (\<exists>ps :: p2 list. 2 \<le> length ps \<and> x_max (fit_curve filter_test line_solver
        [(1.5, 2), (3.5, 2), (1.2, 2), (3.6, 2.1), (- 1, 2), (2, 9)]) = fst (last ps))"
proof -
  let ?pts = "[(1.5, 2), (3.5, 2), (1.2, 2), (3.6, 2.1), (- 1, 2), (2, 9)] :: p2 list"
  have "bins filter_test ?pts = [(1, [(1.5, 2), (1.2, 2)]), (3, [(3.5, 2), (3.6, 2.1)])]"
    by (simp add: bins_def filter_test_def usable_def bin_of_def)
  then have tr: "trace_line filter_test (bins filter_test ?pts) None = [(1.5, 2), (3.5, 2)]"
    by (simp add: filter_test_def accept_point_def)
  then have ok: "c_ok (fit_curve filter_test line_solver ?pts)"
    by (simp add: fit_curve_def Let_def) (simp add: filter_test_def)
  have size: "0 < bin_size filter_test" by (simp add: filter_test_def)
  obtain ps :: "p2 list" where "2 \<le> length ps" "x_max (fit_curve filter_test line_solver ?pts) = fst (last ps)"
    using fitted_line_has_support [OF size ok] by (elim exE conjE) (rule that)
  then have "\<exists>ps :: p2 list. 2 \<le> length ps \<and> x_max (fit_curve filter_test line_solver ?pts) = fst (last ps)" by blast
  with tr show ?thesis by (simp add: fit_curve_def Let_def) (simp add: filter_test_def)
qed

definition flat_line :: "real \<Rightarrow> curve" where
  "flat_line y = \<lparr>c_ok = True, x_min = 1, x_max = 9, c_a = y, c_b = 0, c_c = 0, y_near = y\<rparr>"

definition both_lines :: filter_state where
  "both_lines = new_filter\<lparr>white := \<lparr>lc_curve = flat_line (- 1.8), lc_stamp = 1, lc_valid = True\<rparr>,
     yellow := \<lparr>lc_curve = flat_line 1.8, lc_stamp = 1, lc_valid = True\<rparr>\<rparr>"

definition still_lane_tf :: "unit lane_tf" where
  "still_lane_tf = \<lparr>l_lookup = (\<lambda>_ _ _. Inr ()), l_cloud = (\<lambda>_ pts. pts), l_point = (\<lambda>_ p. p)\<rparr>"

theorem in_lane_flag_means_in_band_witness:
  "is_in_lane (out_detections (fst (lane_detections filter_test still_lane_tf \<lparr>stamp = 1.2, frame_id = ''camera''\<rparr>
     [(plain_detection ''barrel'' 5)\<lparr>position := (5, 1, 0)\<rparr>] 7 both_lines)) ! 0)"
proof -
  let ?h = "\<lparr>stamp = 1.2, frame_id = ''camera''\<rparr>"
  let ?ds = "[(plain_detection ''barrel'' 5)\<lparr>position := (5, 1, 0)\<rparr>]"
  let ?r = "lane_detections filter_test still_lane_tf ?h ?ds 7 both_lines"
  have "lane_band filter_test both_lines 1.2 5 (- 1.8) 1.8"
    by (simp add: lane_band_def line_at_def fresh_def eval_def both_lines_def flat_line_def filter_test_def
        curve_at_def opposite_sides_def clamp_def min_def max_def)
  moreover have "filter_lookup still_lane_tf ''link_base'' ''camera'' 1.2 = Some ()"
    by (simp add: filter_lookup_def still_lane_tf_def)
  moreover have "f_ground_frame filter_test = ''link_base''" "lane_margin filter_test = 0"
      "\<not> in_lane_unknown filter_test" "l_point still_lane_tf () p = p" "depth_valid (plain_detection cl d)" for p cl d
    by (simp_all add: filter_test_def still_lane_tf_def plain_detection_def)
  ultimately show ?thesis
    using in_lane_flag_means_in_band [of filter_test still_lane_tf ?h ?ds 7 both_lines "fst ?r" "snd ?r" 0]
    by simp fastforce
qed

end
