(* ===== verification/Obstacle_Memory.thy ===== *)
theory Obstacle_Memory
  imports Messages
begin

text \<open>
  The obstacle tracker, \<open>src/lidar_cam_fusion/src/obstacle_memory.cpp\<close>: detections with depth are associated with
  tracks in the odometry frame, tracks are confirmed, expire and are published with the id of the nearest one
  ahead. A track is a record, the list of tracks keeps the vector's order. TF and the
  transform of a point are parameters; positions are real vectors, the distance of a detection may be
  non-finite and then matches nothing.

  The lemmas show that published ids are unique and never reused, that a list of detections advances a
  track at most once, how the position estimate moves, and what the timer publishes.
\<close>

section \<open>Data\<close>

record track =
  t_id :: u32
  t_class_id :: int
  t_class_name :: string
  t_position :: point3
  t_hits :: int
  t_age :: int
  t_misses :: int
  t_out_of_lane :: int
  t_confirmed :: bool
  t_matched :: bool

definition new_track :: track where
  "new_track = \<lparr>t_id = 0, t_class_id = 0, t_class_name = [], t_position = (0, 0, 0), t_hits = 1, t_age = 1,
     t_misses = 0, t_out_of_lane = 0, t_confirmed = False, t_matched = False\<rparr>"

record memory_config =
  m_odom_frame :: string
  m_base_frame :: string
  gate_base :: real
  gate_range :: real
  pass_margin :: real
  max_visible_range :: real
  confirm_hits :: int
  confirm_window :: int
  max_out_of_lane :: int
  max_visible_misses :: int

record memory =
  tracks :: "track list"
  next_id :: u32
  camera_info :: "camera option"

record 'tr memory_tf =
  mem_lookup :: "'tr lookup"
  mem_point :: "'tr \<Rightarrow> point3 \<Rightarrow> point3"

definition new_memory :: memory where
  "new_memory = \<lparr>tracks = [], next_id = 1, camera_info = None\<rparr>"

section \<open>Operations\<close>

definition is_visible :: "memory_config \<Rightarrow> camera \<Rightarrow> ('tr \<Rightarrow> point3 \<Rightarrow> point3) \<Rightarrow> 'tr \<Rightarrow> point3 \<Rightarrow> bool" where
  "is_visible c cam tp camera_from_odom p =
     (let (x, y, z) = tp camera_from_odom p;
          x_optical = - y; y_optical = - z; z_optical = x
      in if z_optical \<le> 0.2 \<or> z_optical > max_visible_range c then False
         else let u = (cam_fx cam * x_optical / z_optical) + cam_cx cam;
                  v = (cam_fy cam * y_optical / z_optical) + cam_cy cam
              in u \<ge> 0 \<and> u < real (unat (cam_width cam)) \<and> v \<ge> 0 \<and> v < real (unat (cam_height cam)))"

definition camera_callback :: "camera \<Rightarrow> memory \<Rightarrow> memory" where
  "camera_callback cam m = m\<lparr>camera_info := Some cam\<rparr>"

fun find_best ::
    "nat \<Rightarrow> track list \<Rightarrow> int \<Rightarrow> point3 \<Rightarrow> nat option \<times> dbl \<Rightarrow> nat option \<times> dbl" where
  \<comment> \<open>the pair is (best_index, best_distance)\<close>
  "find_best i [] cid meas best = best"
| "find_best i (t # ts) cid meas best =
     find_best (i + 1) ts cid meas
       (if t_matched t \<or> t_class_id t \<noteq> cid then best
        else let d = Fin (vnorm (vsub (t_position t) meas)) in
             if d < snd best then (Some i, d) else best)"

definition gate :: "memory_config \<Rightarrow> detection2d \<Rightarrow> dbl" where
  "gate c d = Fin (gate_base c) + Fin (gate_range c) * distance d"

definition gain :: "track \<Rightarrow> real" where
  "gain t = max (1 / (of_int (t_hits t) + 1)) 0.2"

definition update_track :: "memory_config \<Rightarrow> detection2d \<Rightarrow> point3 \<Rightarrow> u32 \<Rightarrow> track \<Rightarrow> track \<times> u32" where
  "update_track c d meas nx t =
     (let t1 = t\<lparr>t_position := vadd (t_position t) (vscale (gain t) (vsub meas (t_position t))),
                 t_hits := t_hits t + 1, t_misses := 0, t_matched := True,
                 t_out_of_lane := (if is_in_lane d then 0 else t_out_of_lane t + 1)\<rparr>
      in if t_confirmed t1 = False \<and> t_hits t1 \<ge> confirm_hits c \<and> t_age t1 \<le> confirm_window c
         then (t1\<lparr>t_confirmed := True, t_id := nx\<rparr>, nx + 1)
         else (t1, nx))"

definition see_detection ::
    "memory_config \<Rightarrow> (point3 \<Rightarrow> point3) \<Rightarrow> detection2d \<Rightarrow> track list \<times> u32 \<times> bool \<Rightarrow> track list \<times> u32 \<times> bool" where
  \<comment> \<open>the body of the loop over the detections; the flag is \<open>any_invalid\<close>\<close>
  "see_detection c to_odom d s =
     (let (ts, nx, invalid) = s in
      if is_stop_sign d then s
      else if \<not> depth_valid d then (ts, nx, True)
      else let meas = to_odom (position d) in
        case fst (find_best 0 ts (class_id d) meas (None, gate c d)) of
          Some i \<Rightarrow> let (t', nx') = update_track c d meas nx (ts ! i) in (ts[i := t'], nx', invalid)
        | None \<Rightarrow>
            if is_in_lane d
            then (ts @ [new_track\<lparr>t_class_id := class_id d, t_class_name := class_name d,
                         t_position := meas, t_matched := True\<rparr>], nx, invalid)
            else s)"

definition begin_frame :: "track \<Rightarrow> track" where
  "begin_frame t = t\<lparr>t_matched := False, t_age := t_age t + 1\<rparr>"

definition count_miss :: "(point3 \<Rightarrow> bool) \<Rightarrow> track \<Rightarrow> track" where
  "count_miss visible t =
     (if t_matched t = False \<and> visible (t_position t) then t\<lparr>t_misses := t_misses t + 1\<rparr> else t)"

definition memory_detections ::
    "memory_config \<Rightarrow> 'tr memory_tf \<Rightarrow> header \<Rightarrow> detection2d list \<Rightarrow> memory \<Rightarrow> memory" where
  \<comment> \<open>the member function \<open>detection_callback\<close>\<close>
  "memory_detections c tf h ds m =
     (case mem_lookup tf (m_odom_frame c) (frame_id h) (Some (stamp h)) of
        Inl e \<Rightarrow> m
      | Inr odom_from_source \<Rightarrow>
          let (ts, nx, invalid) = fold (see_detection c (mem_point tf odom_from_source)) ds
                (map begin_frame (tracks m), next_id m, False);
              ts' = (case camera_info m of
                  None \<Rightarrow> ts
                | Some cam \<Rightarrow>
                    if invalid then ts
                    else (case mem_lookup tf (cam_frame cam) (m_odom_frame c) (Some (stamp h)) of
                        Inl e \<Rightarrow> ts
                      | Inr cf \<Rightarrow> map (count_miss (is_visible c cam (mem_point tf) cf)) ts))
          in m\<lparr>tracks := ts', next_id := nx\<rparr>)"

definition expires :: "memory_config \<Rightarrow> point3 \<Rightarrow> track \<Rightarrow> bool" where
  "expires c in_base t \<longleftrightarrow>
     fst in_base < - pass_margin c \<or> t_out_of_lane t \<ge> max_out_of_lane c \<or>
     t_misses t \<ge> max_visible_misses c \<or> (t_confirmed t = False \<and> t_age t > confirm_window c)"

definition obstacle_msg :: "point3 \<Rightarrow> track \<Rightarrow> tracked_obstacle" where
  "obstacle_msg in_base t = \<lparr>ob_id = t_id t, ob_class_id = t_class_id t, ob_class_name = t_class_name t,
     position_base = in_base, position_odom = t_position t,
     ob_range = hypot (fst in_base) (fst (snd in_base)), ob_hits = word_of_int (t_hits t)\<rparr>"

fun publish_loop ::
    "memory_config \<Rightarrow> (point3 \<Rightarrow> point3) \<Rightarrow> track list \<Rightarrow> tracked_obstacle list \<Rightarrow> u32 \<Rightarrow> real option \<Rightarrow>
     track list \<times> tracked_obstacle list \<times> u32" where
  \<comment> \<open>the accumulators are the message's obstacles, \<open>nearest_in_lane_id\<close> and \<open>nearest_forward\<close> (\<open>None\<close>: the
    largest double)\<close>
  "publish_loop c to_base [] obs nid nf = ([], obs, nid)"
| "publish_loop c to_base (t # ts) obs nid nf =
     (let in_base = to_base (t_position t) in
      if expires c in_base t then publish_loop c to_base ts obs nid nf
      else let (obs1, nid1, nf1) =
                 (if t_confirmed t then
                    (let closer = fst in_base > 0 \<and> (case nf of None \<Rightarrow> True | Some n \<Rightarrow> fst in_base < n) in
                     (obs @ [obstacle_msg in_base t], if closer then t_id t else nid,
                      if closer then Some (fst in_base) else nf))
                  else (obs, nid, nf));
               (ts', obs', nid') = publish_loop c to_base ts obs1 nid1 nf1
           in (t # ts', obs', nid'))"

definition timer_callback ::
    "memory_config \<Rightarrow> 'tr memory_tf \<Rightarrow> real \<Rightarrow> memory \<Rightarrow> memory \<times> tracked_obstacle_array option" where
  "timer_callback c tf now m =
     (case mem_lookup tf (m_base_frame c) (m_odom_frame c) None of
        Inl e \<Rightarrow> (m, None)
      | Inr base_from_odom \<Rightarrow>
          let (ts, obs, nid) = publish_loop c (mem_point tf base_from_odom) (tracks m) [] 0 None
          in (m\<lparr>tracks := ts\<rparr>,
              Some \<lparr>array_header = \<lparr>stamp = now, frame_id = m_base_frame c\<rparr>, tracked = obs,
                    nearest_in_lane_id = nid\<rparr>))"

section \<open>Runs\<close>

datatype 'tr memory_event =
    Detections "'tr memory_tf" header "detection2d list"
  | CameraInfo camera
  | Publish "'tr memory_tf" real

fun memory_step :: "memory_config \<Rightarrow> memory \<Rightarrow> 'tr memory_event \<Rightarrow> memory" where
  "memory_step c m (Detections tf h ds) = memory_detections c tf h ds m"
| "memory_step c m (CameraInfo cam) = camera_callback cam m"
| "memory_step c m (Publish tf now) = fst (timer_callback c tf now m)"

definition memory_run :: "memory_config \<Rightarrow> memory \<Rightarrow> 'tr memory_event list \<Rightarrow> memory" where
  "memory_run c m es = foldl (memory_step c) m es"

fun seen_count :: "'tr memory_event list \<Rightarrow> nat" where
  "seen_count [] = 0"
| "seen_count (Detections tf h ds # es) = length ds + seen_count es"
| "seen_count (e # es) = seen_count es"

section \<open>Association\<close>

definition candidate :: "track list \<Rightarrow> int \<Rightarrow> nat \<Rightarrow> bool" where
  "candidate ts cid i \<longleftrightarrow> i < length ts \<and> \<not> t_matched (ts ! i) \<and> t_class_id (ts ! i) = cid"

definition track_dist :: "track list \<Rightarrow> point3 \<Rightarrow> nat \<Rightarrow> dbl" where
  "track_dist ts meas i = Fin (vnorm (vsub (t_position (ts ! i)) meas))"

definition best_of :: "track list \<Rightarrow> int \<Rightarrow> point3 \<Rightarrow> dbl \<Rightarrow> nat \<Rightarrow> nat option \<times> dbl \<Rightarrow> bool" where
  \<comment> \<open>the best candidate among the first \<open>k\<close> tracks\<close>
  "best_of ts cid meas g k b \<longleftrightarrow>
     (case fst b of
        None \<Rightarrow> snd b = g \<and> (\<forall>j < k. candidate ts cid j \<longrightarrow> \<not> track_dist ts meas j < g)
      | Some i \<Rightarrow> i < k \<and> candidate ts cid i \<and> snd b = track_dist ts meas i \<and> track_dist ts meas i < g \<and>
          (\<forall>j < k. candidate ts cid j \<longrightarrow> track_dist ts meas i \<le> track_dist ts meas j))"

lemma best_of_step:
  assumes "best_of ts cid meas g k b" "k < length ts"
  shows "best_of ts cid meas g (Suc k)
    (if t_matched (ts ! k) \<or> t_class_id (ts ! k) \<noteq> cid then b
     else let d = Fin (vnorm (vsub (t_position (ts ! k)) meas)) in if d < snd b then (Some k, d) else b)"
proof (cases "candidate ts cid k")
  case False
  with assms show ?thesis
    by (auto simp: best_of_def candidate_def less_Suc_eq split: option.splits)
next
  case True
  have below: "a \<le> d" if "Fin a < g" "\<not> Fin d < g" for a d
    using that dbl_less_trans [of "Fin d" "Fin a" g] by (meson less_dbl.simps(1) linorder_not_le)
  have lower: "Fin a < g" if "a < d" "Fin d < g" for a d
    using that dbl_less_trans [of "Fin a" "Fin d" g] by simp
  from True assms show ?thesis
    by (cases b; cases "fst b")
      (auto simp: best_of_def candidate_def Let_def track_dist_def less_Suc_eq intro: below lower)
qed

lemma find_best_of:
  assumes "best_of ts cid meas g k b" "k \<le> length ts"
  shows "best_of ts cid meas g (length ts) (find_best k (drop k ts) cid meas b)"
  using assms
proof (induction "length ts - k" arbitrary: k b)
  case 0
  then show ?case by simp
next
  case (Suc n)
  then have k: "k < length ts" by simp
  have d: "drop k ts = ts ! k # drop (Suc k) ts" using k by (simp add: Cons_nth_drop_Suc)
  from Suc(1) [of "Suc k", OF _ best_of_step [OF Suc(3) k]] Suc(2) k show ?case
    unfolding d by simp
qed

lemma find_best_spec: "best_of ts cid meas g (length ts) (find_best 0 ts cid meas (None, g))"
  using find_best_of [of ts cid meas g 0 "(None, g)"] by (simp add: best_of_def)

lemma find_best_Some:
  assumes "fst (find_best 0 ts cid meas (None, g)) = Some i"
  shows "candidate ts cid i" "i < length ts"
  using find_best_spec [of ts cid meas g] assms by (auto simp: best_of_def)

section \<open>What a detection does to the tracks\<close>

lemma update_track_fields:
  assumes "update_track c d meas nx t = (t', nx')"
  shows "t_class_id t' = t_class_id t" "t_class_name t' = t_class_name t" "t_hits t' = t_hits t + 1"
    "t_matched t'" "t_age t' = t_age t" "t_misses t' = 0"
    "t_confirmed t \<Longrightarrow> t_confirmed t' \<and> t_id t' = t_id t \<and> nx' = nx"
    "\<not> t_confirmed t \<Longrightarrow> t_confirmed t' \<Longrightarrow> t_id t' = nx \<and> nx' = nx + 1"
    "\<not> t_confirmed t' \<Longrightarrow> nx' = nx"
    "t_position t' = vadd (t_position t) (vscale (gain t) (vsub meas (t_position t)))"
  using assms by (auto simp: update_track_def Let_def split: if_splits)

lemma see_detection_cases:
  assumes "see_detection c f d (ts, nx, v) = (ts', nx', v')"
  obtains (skip) "ts' = ts" "nx' = nx"
  | (new) t where "ts' = ts @ [t]" "nx' = nx" "\<not> t_confirmed t" "t_matched t" "t_hits t = 1"
  | (hit) i t' where "candidate ts (class_id d) i" "update_track c d (f (position d)) nx (ts ! i) = (t', nx')"
      "ts' = ts[i := t']"
proof (cases "is_stop_sign d \<or> \<not> depth_valid d")
  case True
  with assms have "ts' = ts" "nx' = nx" by (auto simp: see_detection_def split: if_splits)
  then show ?thesis by (rule skip)
next
  case False
  let ?b = "fst (find_best 0 ts (class_id d) (f (position d)) (None, gate c d))"
  show ?thesis
  proof (cases ?b)
    case None
    show ?thesis
    proof (cases "is_in_lane d")
      case True
      with None False assms show ?thesis
        by (intro new [of "new_track\<lparr>t_class_id := class_id d, t_class_name := class_name d,
              t_position := f (position d), t_matched := True\<rparr>"])
          (auto simp: see_detection_def new_track_def Let_def)
    next
      case False
      with None \<open>\<not> (is_stop_sign d \<or> \<not> depth_valid d)\<close> assms have "ts' = ts" "nx' = nx"
        by (auto simp: see_detection_def Let_def)
      then show ?thesis by (rule skip)
    qed
  next
    case (Some i)
    obtain t' n' where u: "update_track c d (f (position d)) nx (ts ! i) = (t', n')" by fastforce
    with Some False assms have "ts' = ts[i := t']" "nx' = n'"
      by (auto simp: see_detection_def Let_def)
    with u find_best_Some(1) [OF Some] show ?thesis by (intro hit) simp_all
  qed
qed

definition ids_ok :: "track list \<Rightarrow> u32 \<Rightarrow> bool" where
  "ids_ok ts nx \<longleftrightarrow>
     (\<forall>t \<in> set ts. t_confirmed t \<longrightarrow> 0 < t_id t \<and> t_id t < nx) \<and>
     sorted_wrt (\<lambda>s t. t_confirmed s \<and> t_confirmed t \<longrightarrow> t_id s \<noteq> t_id t) ts"

definition same_track :: "track \<Rightarrow> track \<Rightarrow> bool" where
  "same_track s t \<longleftrightarrow> t_confirmed s \<and> t_confirmed t \<and> t_id s = t_id t \<and> t_class_id s = t_class_id t \<and>
     t_class_name s = t_class_name t"

definition extends :: "track list \<Rightarrow> u32 \<Rightarrow> track list \<Rightarrow> u32 \<Rightarrow> bool" where
  \<comment> \<open>later confirmed tracks are earlier ones, or have ids assigned since\<close>
  "extends ts n ts' n' \<longleftrightarrow> n \<le> n' \<and>
     (\<forall>t \<in> set ts'. t_confirmed t \<longrightarrow> (\<exists>s \<in> set ts. same_track s t) \<or> n \<le> t_id t)"

lemma extends_refl: "extends ts n ts n"
  by (auto simp: extends_def same_track_def)

lemma extends_trans:
  assumes 1: "extends ts n ts' n'" and 2: "extends ts' n' ts'' n''"
  shows "extends ts n ts'' n''"
  unfolding extends_def
proof (intro conjI ballI impI)
  show "n \<le> n''" using 1 2 by (auto simp: extends_def)
  fix t assume t: "t \<in> set ts''" "t_confirmed t"
  with 2 consider s' where "s' \<in> set ts'" "same_track s' t" | "n' \<le> t_id t"
    by (auto simp: extends_def)
  then show "(\<exists>s \<in> set ts. same_track s t) \<or> n \<le> t_id t"
  proof cases
    case (1 s')
    then have "t_confirmed s'" by (simp add: same_track_def)
    with 1(1) assms(1) have "(\<exists>s \<in> set ts. same_track s s') \<or> n \<le> t_id s'"
      by (auto simp: extends_def)
    with 1(2) show ?thesis by (auto simp: same_track_def)
  next
    case 2
    with assms(1) show ?thesis by (auto simp: extends_def)
  qed
qed

lemma next_id_up: "unat nx + 1 < 2 ^ 32 \<Longrightarrow> nx < nx + 1 \<and> unat (nx + 1) = unat nx + 1" for nx :: u32
  by (simp add: word_less_nat_alt unat_word_ariths)

lemma ids_ok_update:
  assumes ok: "ids_ok ts nx" and i: "i < length ts" and room: "unat nx + 1 < 2 ^ 32" and pos: "0 < nx"
    and u: "update_track c d meas nx (ts ! i) = (t', nx')"
  shows "ids_ok (ts[i := t']) nx'" "extends ts nx (ts[i := t']) nx'"
    "unat nx' \<le> unat nx + 1 \<and> 0 < nx'"
proof -
  note up = next_id_up [OF room]
  note f = update_track_fields [OF u]
  have n': "nx' = nx \<or> nx' = nx + 1 \<and> \<not> t_confirmed (ts ! i) \<and> t_confirmed t'"
    using f(7,8,9) by blast
  with up have le: "nx \<le> nx'" by auto
  show b: "unat nx' \<le> unat nx + 1 \<and> 0 < nx'" using n' up pos by auto
  have old: "0 < t_id t \<and> t_id t < nx" if "t \<in> set ts" "t_confirmed t" for t
    using ok that by (simp add: ids_ok_def)
  have id: "t_id t' = t_id (ts ! i) \<and> t_confirmed (ts ! i) \<and> t_id t' < nx \<and> 0 < t_id t' \<or>
      t_id t' = nx \<and> nx < nx'" if c: "t_confirmed t'"
  proof (cases "t_confirmed (ts ! i)")
    case True
    with f(7) [OF True] old [of "ts ! i"] i show ?thesis by simp
  next
    case False
    with f(8) [OF False c] up show ?thesis by simp
  qed
  have diff: "t_id (ts ! a) \<noteq> t_id (ts ! b)"
    if "a < b" "b < length ts" "t_confirmed (ts ! a)" "t_confirmed (ts ! b)" for a b
    using ok that by (auto simp: ids_ok_def sorted_wrt_iff_nth_less)
  have apart: "t_id (ts ! a) \<noteq> t_id t'" if "a < length ts" "a \<noteq> i" "t_confirmed (ts ! a)" "t_confirmed t'" for a
    using id [OF that(4)] diff [of a i] diff [of i a] that i old [of "ts ! a"]
    by (metis nth_mem nat_neq_iff less_irrefl)
  show "ids_ok (ts[i := t']) nx'"
    unfolding ids_ok_def
  proof (intro conjI ballI impI)
    fix t assume "t \<in> set (ts[i := t'])" "t_confirmed t"
    then have "t = t' \<or> t \<in> set ts" using set_update_subset_insert by fastforce
    then show "0 < t_id t" "t_id t < nx'"
      using id old \<open>t_confirmed t\<close> le pos by (auto intro: order_less_le_trans)
  next
    show "sorted_wrt (\<lambda>s t. t_confirmed s \<and> t_confirmed t \<longrightarrow> t_id s \<noteq> t_id t) (ts[i := t'])"
      unfolding sorted_wrt_iff_nth_less
    proof (intro allI impI)
      fix a b assume "a < b" "b < length (ts[i := t'])"
        and c: "t_confirmed (ts[i := t'] ! a) \<and> t_confirmed (ts[i := t'] ! b)"
      then have ab: "a < b" "b < length ts" "a < length ts" by simp_all
      show "t_id (ts[i := t'] ! a) \<noteq> t_id (ts[i := t'] ! b)"
        using ab c diff [of a b] apart [of a] apart [of b] i
        by (cases "a = i"; cases "b = i") auto
    qed
  qed
  show "extends ts nx (ts[i := t']) nx'"
    unfolding extends_def
  proof (intro conjI ballI impI le)
    fix t assume "t \<in> set (ts[i := t'])" "t_confirmed t"
    then have "t = t' \<or> t \<in> set ts" using set_update_subset_insert by fastforce
    then show "(\<exists>s \<in> set ts. same_track s t) \<or> nx \<le> t_id t"
    proof
      assume "t = t'"
      with id \<open>t_confirmed t\<close> f(1,2) i show ?thesis by (auto simp: same_track_def intro!: bexI [of _ "ts ! i"])
    next
      assume "t \<in> set ts"
      with \<open>t_confirmed t\<close> show ?thesis by (auto simp: same_track_def)
    qed
  qed
qed

lemma ids_ok_append:
  "ids_ok ts nx \<Longrightarrow> \<not> t_confirmed t \<Longrightarrow> ids_ok (ts @ [t]) nx \<and> extends ts nx (ts @ [t]) nx"
  by (auto simp: ids_ok_def extends_def same_track_def sorted_wrt_append)

lemma ids_ok_see:
  assumes "see_detection c f d (ts, nx, v) = (ts', nx', v')"
    and "ids_ok ts nx" "unat nx + 1 < 2 ^ 32" "0 < nx"
  shows "ids_ok ts' nx' \<and> extends ts nx ts' nx' \<and> unat nx' \<le> unat nx + 1 \<and> 0 < nx'"
  using assms(1)
proof (cases rule: see_detection_cases)
  case (hit i t')
  with ids_ok_update [OF assms(2) _ assms(3,4), of i c d "f (position d)" t' nx'] show ?thesis
    by (simp add: candidate_def)
qed (use assms(2,4) ids_ok_append extends_refl in auto)

lemma ids_ok_see_all:
  assumes "fold (see_detection c f) ds (ts, nx, v) = (ts', nx', v')"
    and "ids_ok ts nx" "unat nx + length ds < 2 ^ 32" "0 < nx"
  shows "ids_ok ts' nx' \<and> extends ts nx ts' nx' \<and> unat nx' \<le> unat nx + length ds \<and> 0 < nx'"
  using assms
proof (induction ds arbitrary: ts nx v)
  case (Cons d ds)
  obtain ts1 n1 v1 where s: "see_detection c f d (ts, nx, v) = (ts1, n1, v1)"
    using prod_cases3 by blast
  have 1: "ids_ok ts1 n1 \<and> extends ts nx ts1 n1 \<and> unat n1 \<le> unat nx + 1 \<and> 0 < n1"
    using ids_ok_see [OF s] Cons.prems by simp
  then have "ids_ok ts' nx' \<and> extends ts1 n1 ts' nx' \<and> unat nx' \<le> unat n1 + length ds \<and> 0 < nx'"
    using Cons.IH [of ts1 n1 v1] Cons.prems s by simp
  with 1 show ?case using extends_trans by (auto intro: extends_trans)
qed (simp add: extends_refl)

text \<open>Changes that keep the identity of each track keep the invariant.\<close>

lemma ids_ok_map:
  assumes "\<And>t. t_id (f t) = t_id t \<and> t_confirmed (f t) = t_confirmed t \<and> t_class_id (f t) = t_class_id t \<and>
      t_class_name (f t) = t_class_name t"
    and "ids_ok ts n"
  shows "ids_ok (map f ts) n" "extends ts n (map f ts) n"
proof -
  have "sorted_wrt (\<lambda>s t. t_confirmed (f s) \<and> t_confirmed (f t) \<longrightarrow> t_id (f s) \<noteq> t_id (f t)) ts"
    using assms by (simp add: ids_ok_def)
  with assms show "ids_ok (map f ts) n" by (auto simp: ids_ok_def sorted_wrt_map)
  show "extends ts n (map f ts) n" using assms(1) by (auto simp: extends_def same_track_def)
qed

lemma ids_ok_filter: "ids_ok ts n \<Longrightarrow> ids_ok (filter P ts) n" "extends ts n (filter P ts) n"
  by (auto simp: ids_ok_def extends_def same_track_def sorted_wrt_filter)

lemma publish_loop_spec:
  "publish_loop c f ts obs nid nf = (ts', obs', nid') \<Longrightarrow>
   ts' = filter (\<lambda>t. \<not> expires c (f (t_position t)) t) ts \<and>
   obs' = obs @ map (\<lambda>t. obstacle_msg (f (t_position t)) t) (filter t_confirmed ts')"
proof (induction ts arbitrary: obs nid nf ts' obs' nid')
  case (Cons t ts)
  show ?case
  proof (cases "expires c (f (t_position t)) t")
    case True
    with Cons.prems have "publish_loop c f ts obs nid nf = (ts', obs', nid')" by (simp add: Let_def)
    from Cons.IH [OF this] True show ?thesis by simp
  next
    case False
    let ?o = "if t_confirmed t then obs @ [obstacle_msg (f (t_position t)) t] else obs"
    obtain nid1 nf1 ts1 obs1 nid2 where p: "publish_loop c f ts ?o nid1 nf1 = (ts1, obs1, nid2)"
      "ts' = t # ts1" "obs' = obs1"
      using Cons.prems False by (cases "t_confirmed t") (auto simp: Let_def split: prod.splits)
    from Cons.IH [OF p(1)] p(2,3) False show ?thesis by (cases "t_confirmed t") simp_all
  qed
qed simp

lemma ids_ok_step:
  assumes "ids_ok (tracks m) (next_id m)" "0 < next_id m"
    and "unat (next_id m) + seen_count [e] < 2 ^ 32"
  shows "ids_ok (tracks (memory_step c m e)) (next_id (memory_step c m e)) \<and>
    extends (tracks m) (next_id m) (tracks (memory_step c m e)) (next_id (memory_step c m e)) \<and>
    0 < next_id (memory_step c m e) \<and>
    unat (next_id (memory_step c m e)) \<le> unat (next_id m) + seen_count [e]"
proof (cases e)
  case (Detections tf h ds)
  show ?thesis
  proof (cases "mem_lookup tf (m_odom_frame c) (frame_id h) (Some (stamp h))")
    case (Inr tr)
    let ?ts0 = "map begin_frame (tracks m)"
    have 0: "ids_ok ?ts0 (next_id m)" "extends (tracks m) (next_id m) ?ts0 (next_id m)"
      by (rule ids_ok_map; simp add: begin_frame_def assms(1))+
    obtain ts n v where f: "fold (see_detection c (mem_point tf tr)) ds (?ts0, next_id m, False) = (ts, n, v)"
      using prod_cases3 by blast
    have 1: "ids_ok ts n" "extends ?ts0 (next_id m) ts n" "unat n \<le> unat (next_id m) + length ds" "0 < n"
      using ids_ok_see_all [OF f 0(1) _ assms(2)] assms(3) Detections by simp_all
    have 2: "ids_ok (map (count_miss p) ts) n" "extends ts n (map (count_miss p) ts) n" for p
      by (rule ids_ok_map; simp add: count_miss_def 1)+
    let ?ts' = "case camera_info m of
        None \<Rightarrow> ts
      | Some cam \<Rightarrow>
          if v then ts
          else (case mem_lookup tf (cam_frame cam) (m_odom_frame c) (Some (stamp h)) of
              Inl e \<Rightarrow> ts
            | Inr cf \<Rightarrow> map (count_miss (is_visible c cam (mem_point tf) cf)) ts)"
    have "?ts' = ts \<or> (\<exists>p. ?ts' = map (count_miss p) ts)"
      by (auto split: option.splits sum.splits)
    moreover have "memory_step c m e = m\<lparr>tracks := ?ts', next_id := n\<rparr>"
      using Detections Inr f by (simp add: memory_detections_def Let_def)
    ultimately obtain ts' where m': "memory_step c m e = m\<lparr>tracks := ts', next_id := n\<rparr>"
      "ts' = ts \<or> (\<exists>p. ts' = map (count_miss p) ts)" by blast
    from m'(2) have 3: "ids_ok ts' n \<and> extends ts n ts' n" using 1 2 extends_refl by auto
    have "extends (tracks m) (next_id m) ts' n"
      using extends_trans [OF extends_trans [OF 0(2) 1(2)]] 3 by blast
    with 1 3 m'(1) Detections show ?thesis by simp
  qed (use Detections assms in \<open>simp add: memory_detections_def extends_refl\<close>)
next
  case (CameraInfo cam)
  with assms show ?thesis by (simp add: camera_callback_def extends_refl)
next
  case (Publish tf now)
  have "\<exists>P. tracks (memory_step c m e) = filter P (tracks m)"
    using Publish by (auto simp: timer_callback_def split: sum.splits prod.splits dest!: publish_loop_spec
        intro: exI [of _ "\<lambda>_. True"])
  then obtain P where "tracks (memory_step c m e) = filter P (tracks m)" by blast
  moreover have "next_id (memory_step c m e) = next_id m"
    using Publish by (auto simp: timer_callback_def split: sum.splits prod.splits)
  ultimately show ?thesis using ids_ok_filter(1) [OF assms(1), of P] assms(2) ids_ok_filter(2) by simp
qed

lemma seen_count_append: "seen_count (es @ fs) = seen_count es + seen_count fs"
  by (induction es rule: seen_count.induct) simp_all

lemma memory_run_simps [simp]:
  "memory_run c m [] = m" "memory_run c m (e # es) = memory_run c (memory_step c m e) es"
  by (simp_all add: memory_run_def)

lemma ids_ok_run:
  assumes "ids_ok (tracks m) (next_id m)" "0 < next_id m" "unat (next_id m) + seen_count es < 2 ^ 32"
  shows "ids_ok (tracks (memory_run c m es)) (next_id (memory_run c m es)) \<and>
    extends (tracks m) (next_id m) (tracks (memory_run c m es)) (next_id (memory_run c m es)) \<and>
    0 < next_id (memory_run c m es) \<and>
    unat (next_id (memory_run c m es)) \<le> unat (next_id m) + seen_count es"
  using assms
proof (induction es arbitrary: m)
  case (Cons e es)
  have sc: "seen_count (e # es) = seen_count [e] + seen_count es"
    using seen_count_append [of "[e]" es] by simp
  have 1: "ids_ok (tracks (memory_step c m e)) (next_id (memory_step c m e)) \<and>
    extends (tracks m) (next_id m) (tracks (memory_step c m e)) (next_id (memory_step c m e)) \<and>
    0 < next_id (memory_step c m e) \<and>
    unat (next_id (memory_step c m e)) \<le> unat (next_id m) + seen_count [e]"
    using Cons.prems sc by (intro ids_ok_step) simp_all
  have 2: "ids_ok (tracks (memory_run c (memory_step c m e) es)) (next_id (memory_run c (memory_step c m e) es)) \<and>
    extends (tracks (memory_step c m e)) (next_id (memory_step c m e))
      (tracks (memory_run c (memory_step c m e) es)) (next_id (memory_run c (memory_step c m e) es)) \<and>
    0 < next_id (memory_run c (memory_step c m e) es) \<and>
    unat (next_id (memory_run c (memory_step c m e) es)) \<le> unat (next_id (memory_step c m e)) + seen_count es"
    using 1 Cons.prems(3) sc by (intro Cons.IH) linarith+
  show ?case
    unfolding memory_run_simps
    using 2 1 sc extends_trans [of "tracks m" "next_id m"] by (intro conjI) (blast, blast, blast, linarith)
qed (simp add: extends_refl)

lemma distinct_if_apart: "sorted_wrt (\<lambda>s t. f s \<noteq> f t) xs \<Longrightarrow> distinct (map f xs)"
  by (induction xs) auto

lemma timer_publishes:
  assumes "snd (timer_callback c tf now m) = Some msg"
  obtains tr where "mem_lookup tf (m_base_frame c) (m_odom_frame c) None = Inr tr"
    "publish_loop c (mem_point tf tr) (tracks m) [] 0 None =
       (tracks (fst (timer_callback c tf now m)), tracked msg, nearest_in_lane_id msg)"
proof (cases "mem_lookup tf (m_base_frame c) (m_odom_frame c) None")
  case (Inl e')
  with assms show ?thesis by (simp add: timer_callback_def)
next
  case (Inr tr)
  obtain ts obs nid where p: "publish_loop c (mem_point tf tr) (tracks m) [] 0 None = (ts, obs, nid)"
    using prod_cases3 by blast
  with Inr assms have "tracks (fst (timer_callback c tf now m)) = ts" "tracked msg = obs" "nearest_in_lane_id msg = nid"
    by (auto simp: timer_callback_def)
  with p Inr that show ?thesis by simp
qed

lemma ids_ok_distinct: "ids_ok ts n \<Longrightarrow> distinct (map t_id (filter t_confirmed ts)) \<and> 0 \<notin> set (map t_id (filter t_confirmed ts))"
proof -
  assume ok: "ids_ok ts n"
  then have "sorted_wrt (\<lambda>s t. t_confirmed s \<and> t_confirmed t \<longrightarrow> t_id s \<noteq> t_id t) (filter t_confirmed ts)"
    by (simp add: ids_ok_def sorted_wrt_filter)
  then have "sorted_wrt (\<lambda>s t. t_id s \<noteq> t_id t) (filter t_confirmed ts)"
    by (rule sorted_wrt_mono_rel [rotated]) auto
  with ok show ?thesis
    using distinct_if_apart by (auto simp: ids_ok_def)
qed

section \<open>Properties\<close>

lemma new_memory_ids: "ids_ok (tracks new_memory) (next_id new_memory)" "next_id new_memory = 1"
  by (simp_all add: new_memory_def ids_ok_def)

text \<open>
  C15: An obstacle id means one obstacle. Over any run with fewer than 2^32 - 1 detections, the confirmed
  tracks have distinct non-zero ids, and so have the obstacles the timer publishes; and an id that was
  already assigned at some earlier point of the run belongs, as long as it is in use, to a track
  that was confirmed with it then, with the same class.
\<close>

theorem obstacle_ids_are_unique:
  fixes es fs :: "'tr memory_event list"
  assumes "seen_count (es @ fs) + 1 < 2 ^ 32"
    and "m1 = memory_run c new_memory es" and "m2 = memory_run c m1 fs"
  shows "distinct (map t_id (filter t_confirmed (tracks m2))) \<and>
    0 \<notin> set (map t_id (filter t_confirmed (tracks m2))) \<and>
    (\<forall>(tf :: 'tr memory_tf) now msg. snd (timer_callback c tf now m2) = Some msg \<longrightarrow> distinct (map ob_id (tracked msg))) \<and>
    (\<forall>t \<in> set (tracks m2). t_confirmed t \<and> t_id t < next_id m1 \<longrightarrow>
       (\<exists>s \<in> set (tracks m1). same_track s t))"
proof -
  have 1: "ids_ok (tracks m1) (next_id m1)" "0 < next_id m1" "unat (next_id m1) \<le> 1 + seen_count es"
    using ids_ok_run [OF new_memory_ids(1), of es c] assms(1,2)
    by (simp_all add: new_memory_ids(2) seen_count_append)
  then have 2: "ids_ok (tracks m2) (next_id m2)" "extends (tracks m1) (next_id m1) (tracks m2) (next_id m2)"
    using ids_ok_run [OF 1(1,2), of fs c] assms(1,3) by (simp_all add: seen_count_append)
  have "distinct (map ob_id (tracked msg))" if msg: "snd (timer_callback c tf now m2) = Some msg"
    for tf :: "'tr memory_tf" and now msg
  proof -
    obtain f ts' nid where p: "publish_loop c f (tracks m2) [] 0 None = (ts', tracked msg, nid)"
      using timer_publishes [OF msg] by metis
    from publish_loop_spec [OF p] have "map ob_id (tracked msg) = map t_id (filter t_confirmed ts')"
      "\<exists>P. ts' = filter P (tracks m2)"
      by (auto simp: obstacle_msg_def)
    with ids_ok_filter(1) [OF 2(1)] ids_ok_distinct show ?thesis by metis
  qed
  with ids_ok_distinct [OF 2(1)] 2(2) show ?thesis
    by (auto simp: extends_def not_le)
qed

text \<open>The nearest obstacle ahead, as the loop accumulates it.\<close>

definition nearest_ahead :: "(point3 \<Rightarrow> point3) \<Rightarrow> track list \<Rightarrow> u32 \<Rightarrow> real option \<Rightarrow> bool" where
  "nearest_ahead f ts nid nf \<longleftrightarrow>
     (case nf of
        None \<Rightarrow> nid = 0 \<and> (\<forall>t \<in> set ts. t_confirmed t \<longrightarrow> fst (f (t_position t)) \<le> 0)
      | Some x \<Rightarrow> 0 < x \<and> (\<exists>t \<in> set ts. t_confirmed t \<and> t_id t = nid \<and> fst (f (t_position t)) = x) \<and>
          (\<forall>t \<in> set ts. t_confirmed t \<and> 0 < fst (f (t_position t)) \<longrightarrow> x \<le> fst (f (t_position t))))"

lemma publish_loop_nearest:
  assumes "publish_loop c f ts obs nid nf = (ts', obs', nid')" "nearest_ahead f us nid nf"
  shows "\<exists>nf'. nearest_ahead f (us @ ts') nid' nf'"
  using assms
proof (induction ts arbitrary: obs nid nf ts' obs' nid' us)
  case (Cons t ts)
  let ?x = "fst (f (t_position t))"
  show ?case
  proof (cases "expires c (f (t_position t)) t")
    case True
    with Cons.prems have "publish_loop c f ts obs nid nf = (ts', obs', nid')" by (simp add: Let_def)
    from Cons.IH [OF this Cons.prems(2)] show ?thesis .
  next
    case False
    let ?closer = "t_confirmed t \<and> ?x > 0 \<and> (case nf of None \<Rightarrow> True | Some n \<Rightarrow> ?x < n)"
    let ?nid = "if ?closer then t_id t else nid" and ?nf = "if ?closer then Some ?x else nf"
    obtain o1 ts1 where p: "publish_loop c f ts o1 ?nid ?nf = (ts1, obs', nid')" "ts' = t # ts1"
      using Cons.prems(1) False by (cases "t_confirmed t") (auto simp: Let_def split: prod.splits)
    have "nearest_ahead f (us @ [t]) ?nid ?nf"
      using Cons.prems(2) by (cases nf) (auto simp: nearest_ahead_def)
    from Cons.IH [OF p(1) this] p(2) show ?thesis by simp
  qed
qed auto

text \<open>
  What the timer publishes. When the transform to the base frame is available, the tracks that are kept are
  exactly those that are not behind the robot, not out of the lane, not missed and not
  expired as tentative; the message holds one obstacle per confirmed track kept, in order,
  and its nearest id is that of a confirmed track kept with the least positive forward
  distance, or 0 when none of them is ahead.
\<close>

theorem timer_publishes_survivors:
  assumes "mem_lookup tf (m_base_frame c) (m_odom_frame c) None = Inr tr"
    and "timer_callback c tf now m = (m', Some msg)"
    and "ahead = filter (\<lambda>t. 0 < fst (mem_point tf tr (t_position t))) (filter t_confirmed (tracks m'))"
  shows "tracks m' = filter (\<lambda>t. \<not> expires c (mem_point tf tr (t_position t)) t) (tracks m) \<and>
    tracked msg = map (\<lambda>t. obstacle_msg (mem_point tf tr (t_position t)) t) (filter t_confirmed (tracks m')) \<and>
    (if ahead = [] then nearest_in_lane_id msg = 0
     else \<exists>t \<in> set ahead. nearest_in_lane_id msg = t_id t \<and>
       (\<forall>s \<in> set ahead. fst (mem_point tf tr (t_position t)) \<le> fst (mem_point tf tr (t_position s))))"
proof -
  have p: "publish_loop c (mem_point tf tr) (tracks m) [] 0 None = (tracks m', tracked msg, nearest_in_lane_id msg)"
    using timer_publishes [of c tf now m msg] assms(1,2) by auto
  have "nearest_ahead (mem_point tf tr) [] 0 None" by (simp add: nearest_ahead_def)
  from publish_loop_nearest [OF p this] obtain nf where
    n: "nearest_ahead (mem_point tf tr) (tracks m') (nearest_in_lane_id msg) nf" by auto
  show ?thesis
  proof (cases nf)
    case None
    with n have "ahead = []" "nearest_in_lane_id msg = 0"
      by (auto simp: nearest_ahead_def assms(3) filter_empty_conv not_less)
    with publish_loop_spec [OF p] show ?thesis by simp
  next
    case (Some x)
    with n obtain t where t: "t \<in> set ahead" "t_id t = nearest_in_lane_id msg"
      "fst (mem_point tf tr (t_position t)) = x" "0 < x"
      by (auto simp: nearest_ahead_def assms(3))
    moreover have "\<forall>s \<in> set ahead. x \<le> fst (mem_point tf tr (t_position s))"
      using n Some by (auto simp: nearest_ahead_def assms(3))
    moreover have "ahead \<noteq> []" using t(1) by auto
    ultimately show ?thesis using publish_loop_spec [OF p] t by (auto intro!: bexI [of _ t])
  qed
qed

text \<open>
  A detection goes to the nearest free track of its class. If the search finds a track, that track is
  unmatched, of the detection's class, strictly inside the gate and at least as near as every other
  unmatched track of the class; if it finds none, no such track is inside the gate. And over a whole list of
  detections an existing track is hit at most once, exactly when it ends up matched.
\<close>

theorem detection_matches_nearest_track:
  "(case fst (find_best 0 ts cid meas (None, g)) of
      None \<Rightarrow> \<forall>j. candidate ts cid j \<longrightarrow> \<not> track_dist ts meas j < g
    | Some i \<Rightarrow> candidate ts cid i \<and> track_dist ts meas i < g \<and>
        (\<forall>j. candidate ts cid j \<longrightarrow> track_dist ts meas i \<le> track_dist ts meas j)) \<and>
   (let (ts', nx', v') = fold (see_detection c f) ds (map begin_frame old, nx, False) in
      length old \<le> length ts' \<and>
      (\<forall>i < length old. t_hits (ts' ! i) = t_hits (old ! i) + (if t_matched (ts' ! i) then 1 else 0)))"
proof (rule conjI)
  show "case fst (find_best 0 ts cid meas (None, g)) of
      None \<Rightarrow> \<forall>j. candidate ts cid j \<longrightarrow> \<not> track_dist ts meas j < g
    | Some i \<Rightarrow> candidate ts cid i \<and> track_dist ts meas i < g \<and>
        (\<forall>j. candidate ts cid j \<longrightarrow> track_dist ts meas i \<le> track_dist ts meas j)"
    using find_best_spec [of ts cid meas g]
    by (auto simp: best_of_def candidate_def split: option.splits)
next
  let ?P = "\<lambda>(ts' :: track list, nx' :: u32, v' :: bool). length old \<le> length ts' \<and>
      (\<forall>i < length old. t_hits (ts' ! i) = t_hits (old ! i) + (if t_matched (ts' ! i) then 1 else 0))"
  have "?P (fold (see_detection c f) ds (map begin_frame old, nx, False))"
  proof (rule fold_invariant_list)
    show "?P (map begin_frame old, nx, False)" by (simp add: begin_frame_def)
    fix d s assume "?P s"
    obtain ts1 n1 v1 where s: "s = (ts1, n1, v1)" by (cases s) auto
    obtain ts2 n2 v2 where s': "see_detection c f d (ts1, n1, v1) = (ts2, n2, v2)" using prod_cases3 by blast
    from s' have "?P (ts2, n2, v2)"
    proof (cases rule: see_detection_cases)
      case (hit i t')
      with \<open>?P s\<close> update_track_fields(3,4) [OF hit(2)] show ?thesis
        by (auto simp: s candidate_def nth_list_update)
    qed (use \<open>?P s\<close> in \<open>auto simp: s nth_append\<close>)
    then show "?P (see_detection c f d s)" by (simp add: s s')
  qed
  then show "let (ts', nx', v') = fold (see_detection c f) ds (map begin_frame old, nx, False) in
      length old \<le> length ts' \<and>
      (\<forall>i < length old. t_hits (ts' ! i) = t_hits (old ! i) + (if t_matched (ts' ! i) then 1 else 0))"
    by (simp add: Let_def case_prod_beta)
qed

text \<open>
  The position estimate. Each hit moves the estimate towards the measurement by a gain between one fifth and one half, so
  the distance to the measurement shrinks by the complementary factor; up to the fifth
  measurement the estimate is the exact mean of all of them.
\<close>

theorem estimate_is_running_mean:
  assumes "update_track c d meas nx t = (t', nx')" and "1 \<le> t_hits t"
  shows "0.2 \<le> gain t \<and> gain t \<le> 0.5 \<and>
    vnorm (vsub (t_position t') meas) = (1 - gain t) * vnorm (vsub (t_position t) meas) \<and>
    (t_hits t \<le> 4 \<longrightarrow>
      vscale (of_int (t_hits t')) (t_position t') = vadd (vscale (of_int (t_hits t)) (t_position t)) meas)"
proof -
  have h: "1 \<le> real_of_int (t_hits t)" using assms(2) by simp
  then have "1 / (of_int (t_hits t) + 1) \<le> (0.5::real)" by (simp add: field_simps)
  then have g: "0.2 \<le> gain t" "gain t \<le> 0.5" by (auto simp: gain_def)
  obtain a b e where p: "t_position t = (a, b, e)" by (cases "t_position t") auto
  obtain x y z where m: "meas = (x, y, z)" by (cases meas) auto
  let ?k = "1 - gain t"
  have p': "t_position t' = (a + gain t * (x - a), b + gain t * (y - b), e + gain t * (z - e))"
    using update_track_fields(10) [OF assms(1)] by (simp add: p m)
  have "vnorm (vsub (t_position t') meas) = sqrt (?k\<^sup>2 * ((a - x) * (a - x) + (b - y) * (b - y) + (e - z) * (e - z)))"
    by (simp add: p' m power2_eq_square algebra_simps)
  also have "\<dots> = ?k * vnorm (vsub (t_position t) meas)"
    using g by (simp add: p m real_sqrt_mult)
  finally have n: "vnorm (vsub (t_position t') meas) = ?k * vnorm (vsub (t_position t) meas)" .
  have "vscale (of_int (t_hits t')) (t_position t') = vadd (vscale (of_int (t_hits t)) (t_position t)) meas"
    if "t_hits t \<le> 4"
  proof -
    have "gain t = 1 / (of_int (t_hits t) + 1)"
      using that h by (auto simp: gain_def max_def field_simps)
    then have "(of_int (t_hits t) + 1) * gain t = 1" using h by simp
    then have "(of_int (t_hits t) + 1) * (u + gain t * (w - u)) = of_int (t_hits t) * u + w" for u w
      by algebra
    then show ?thesis
      using update_track_fields(3) [OF assms(1)] by (simp add: p' p m add.commute)
  qed
  with g n show ?thesis by simp
qed

section \<open>Witnesses\<close>

definition fixed_tf :: "unit memory_tf" where
  "fixed_tf = \<lparr>mem_lookup = (\<lambda>_ _ _. Inr ()), mem_point = (\<lambda>_ p. p)\<rparr>"

definition mem_config :: memory_config where
  "mem_config = \<lparr>m_odom_frame = ''odom'', m_base_frame = ''link_base'', gate_base = 0.5, gate_range = 0.05,
     pass_margin = 0.5, max_visible_range = 12, confirm_hits = 2, confirm_window = 10,
     max_out_of_lane = 4, max_visible_misses = 10\<rparr>"

definition barrel_at :: "real \<Rightarrow> detection2d" where
  "barrel_at x = (plain_detection ''barrel'' x)\<lparr>is_in_lane := True, position := (x, 0, 0)\<rparr>"

definition seen_barrel :: "unit memory_event" where
  "seen_barrel = Detections fixed_tf \<lparr>stamp = 1, frame_id = ''camera''\<rparr> [barrel_at 5]"

definition barrel_track :: track where
  "barrel_track = new_track\<lparr>t_class_name := ''barrel'', t_position := (5, 0, 0), t_matched := True\<rparr>"

lemma barrel_fields:
  "is_stop_sign (barrel_at x) = False" "depth_valid (barrel_at x)" "class_id (barrel_at x) = 0"
  "position (barrel_at x) = (x, 0, 0)" "is_in_lane (barrel_at x)" "class_name (barrel_at x) = ''barrel''"
  "distance (barrel_at x) = Fin x"
  by (simp_all add: barrel_at_def plain_detection_def)

lemma first_barrel: "memory_step mem_config new_memory seen_barrel = new_memory\<lparr>tracks := [barrel_track]\<rparr>"
  by (simp add: seen_barrel_def memory_detections_def fixed_tf_def new_memory_def see_detection_def barrel_fields
      barrel_track_def new_track_def)

definition kept_barrel :: track where
  "kept_barrel = barrel_track\<lparr>t_hits := 2, t_age := 2, t_confirmed := True, t_id := 1\<rparr>"

lemma second_barrel:
  "memory_step mem_config (new_memory\<lparr>tracks := [barrel_track]\<rparr>) seen_barrel =
     new_memory\<lparr>tracks := [kept_barrel], next_id := 2\<rparr>"
  by (simp add: seen_barrel_def memory_detections_def fixed_tf_def new_memory_def see_detection_def barrel_fields
      barrel_track_def kept_barrel_def new_track_def begin_frame_def gate_def mem_config_def update_track_def gain_def)

theorem obstacle_ids_are_unique_witness:
  "\<exists>t. set (tracks (memory_run mem_config new_memory [seen_barrel, seen_barrel])) = {t} \<and>
     t_id t = 1 \<and> 0 \<notin> set (map t_id (filter t_confirmed (tracks (memory_run mem_config new_memory [seen_barrel, seen_barrel]))))"
proof -
  have count: "seen_count ([seen_barrel, seen_barrel] @ []) + 1 < 2 ^ 32" by (simp add: seen_barrel_def)
  have run: "tracks (memory_run mem_config new_memory [seen_barrel, seen_barrel]) = [kept_barrel]"
    by (simp add: first_barrel second_barrel)
  show ?thesis
    using obstacle_ids_are_unique [OF count refl refl, of mem_config]
    by (simp only: run memory_run_simps(1)) (simp add: kept_barrel_def)
qed

theorem timer_publishes_survivors_witness:
  "\<exists>msg. snd (timer_callback mem_config fixed_tf 2 (new_memory\<lparr>tracks := [kept_barrel], next_id := 2\<rparr>)) = Some msg \<and>
     nearest_in_lane_id msg = 1"
proof -
  let ?m = "new_memory\<lparr>tracks := [kept_barrel], next_id := 2\<rparr>"
  have e: "\<not> expires mem_config (5, 0, 0) kept_barrel" "t_position kept_barrel = (5, 0, 0)" "t_confirmed kept_barrel"
    "t_id kept_barrel = 1"
    by (simp_all add: expires_def mem_config_def kept_barrel_def barrel_track_def new_track_def)
  have l: "mem_lookup fixed_tf (m_base_frame mem_config) (m_odom_frame mem_config) None = Inr ()"
    "mem_point fixed_tf () p = p" for p
    by (simp_all add: fixed_tf_def)
  obtain msg m' where t: "timer_callback mem_config fixed_tf 2 ?m = (m', Some msg)"
    by (simp add: timer_callback_def l e Let_def)
  note p = timer_publishes_survivors [OF l(1) t refl]
  from p have k: "tracks m' = [kept_barrel]" by (simp add: l e)
  from p t show ?thesis unfolding k by (simp add: l e)
qed

theorem detection_matches_nearest_track_witness:
  "fst (find_best 0 [barrel_track\<lparr>t_matched := False\<rparr>] 0 (5, 0, 0) (None, Fin 0.75)) = Some 0"
proof -
  let ?ts = "[barrel_track\<lparr>t_matched := False\<rparr>]"
  have "candidate ?ts 0 0" "track_dist ?ts (5, 0, 0) 0 < Fin 0.75"
    by (simp_all add: candidate_def track_dist_def barrel_track_def new_track_def)
  with detection_matches_nearest_track [of ?ts 0 "(5, 0, 0)" "Fin 0.75" mem_config id "[]" "[]" 0]
  show ?thesis by (auto simp: candidate_def split: option.splits simp del: find_best.simps)
qed

theorem estimate_is_running_mean_witness:
  "vscale 2 (t_position (fst (update_track mem_config (barrel_at 6) (6, 0, 0) 1 barrel_track))) = (11, 0, 0)"
proof -
  have h: "t_hits barrel_track = 1" "t_position barrel_track = (5, 0, 0)"
    by (simp_all add: barrel_track_def new_track_def)
  obtain t' n' where u: "update_track mem_config (barrel_at 6) (6, 0, 0) 1 barrel_track = (t', n')" by fastforce
  then have "t_hits t' = 2" using update_track_fields(3) [OF u] h by simp
  with estimate_is_running_mean [OF u] h show ?thesis by (simp add: u)
qed

end
