(* ===== verification/Decision.thy ===== *)
theory Decision
  imports Prelude
begin

text \<open>
  The decision core of the behaviour executor, \<open>src/bt/include/bt/decision.hpp\<close>:
  the class \<open>Decider\<close> turns one list of detections into the action the robot takes.
  Its member arrays of length three are functions of the slot (0 = CHANGE, 1 = STOP,
  2 = INTERSECTION). Distances, scores and positions come from messages and may be
  non-finite, so they are \<open>dbl\<close>; configuration and clock readings are finite.

  The lemmas show what the filters let through, that the chosen candidate of a slot is
  a nearest one, that nothing is reported before enough consecutive lists have confirmed
  it, and that a handled obstacle stays silent while it is remembered.
\<close>

section \<open>Data\<close>

datatype action = NONE | CHANGE | STOP | INTERSECTION

definition to_string :: "action \<Rightarrow> string" where
  "to_string a = (case a of
       CHANGE \<Rightarrow> ''change''
     | STOP \<Rightarrow> ''stop''
     | INTERSECTION \<Rightarrow> ''intersection''
     | NONE \<Rightarrow> ''none'')"

definition slot :: "action \<Rightarrow> nat" where
  "slot a = (if a = STOP then 1 else if a = INTERSECTION then 2 else 0)"

record detection =
  det_cls :: string
  det_score :: dbl
  det_n_pts :: int
  det_valid :: bool
  det_distance :: dbl
  det_id :: int
  det_x :: dbl
  det_y :: dbl
  det_observed_at :: dbl
  det_local_y :: dbl

definition default_detection :: detection where
  "default_detection = \<lparr>det_cls = [], det_score = Fin 0, det_n_pts = 0, det_valid = False,
     det_distance = Fin 0, det_id = -1, det_x = Fin 0, det_y = Fin 0,
     det_observed_at = NaN, det_local_y = Fin 0\<rparr>"

record class_rule =
  rule_action :: action
  trigger_distance :: real
  mark_stop_sign :: bool

record decision_config =
  classes :: "string \<rightharpoonup> class_rule"
  min_score :: real
  min_points :: int
  min_distance :: real
  max_lateral_offset :: real
  confirm_change :: int
  confirm_stop :: int
  confirm_intersection :: int
  hold_time :: real
  handled_ttl :: real
  pseudo_ttl :: real
  same_obstacle_tol :: real
  intersection_hold :: real
  stop_sign_ttl :: real

definition default_config :: decision_config where
  "default_config = \<lparr>classes = Map.empty, min_score = 0.5, min_points = 1, min_distance = 0.5,
     max_lateral_offset = 1.2, confirm_change = 3, confirm_stop = 3, confirm_intersection = 3,
     hold_time = 0.5, handled_ttl = 30, pseudo_ttl = 2, same_obstacle_tol = 0.5,
     intersection_hold = 20, stop_sign_ttl = 20\<rparr>"

record decision =
  dec_action :: action
  obstacle_id :: int
  dec_distance :: dbl
  dec_cls :: string
  dec_x :: dbl
  dec_y :: dbl
  needs_stop :: bool

definition no_decision :: decision where
  "no_decision = \<lparr>dec_action = NONE, obstacle_id = -1, dec_distance = PInf, dec_cls = [],
     dec_x = Fin 0, dec_y = Fin 0, needs_stop = False\<rparr>"

record handled_obstacle =
  h_id :: int
  h_cls :: string
  h_distance :: dbl
  h_x :: dbl
  h_y :: dbl
  last_seen :: real

record decider =
  cfg :: decision_config
  hits :: "nat \<Rightarrow> int"
  hold_until :: "nat \<Rightarrow> real"
  last_det :: "nat \<Rightarrow> detection"
  handled_list :: "handled_obstacle list"
  stop_sign_time :: real

definition new_decider :: "decision_config \<Rightarrow> decider" where
  "new_decider c = \<lparr>cfg = c, hits = (\<lambda>_. 0), hold_until = (\<lambda>_. 0),
     last_det = (\<lambda>_. default_detection), handled_list = [], stop_sign_time = - 1000000000\<rparr>"

section \<open>Operations\<close>

definition make_decision :: "action \<Rightarrow> detection \<Rightarrow> decision" where
  "make_decision a d = no_decision\<lparr>dec_action := a, obstacle_id := det_id d,
     dec_distance := det_distance d, dec_cls := det_cls d, dec_x := det_x d, dec_y := det_y d\<rparr>"

definition matches_handled :: "detection \<Rightarrow> handled_obstacle \<Rightarrow> bool" where
  "matches_handled d h \<longleftrightarrow>
     (det_id d \<ge> 0 \<and> h_id h \<ge> 0 \<and> h_id h = det_id d) \<or>
     (let dx = det_x d - h_x h; dy = det_y d - h_y h; spatial_dist = dsqrt (dx * dx + dy * dy)
      in h_cls h = det_cls d \<and> spatial_dist \<le> Fin 1.8)"

fun handled :: "detection \<Rightarrow> real \<Rightarrow> handled_obstacle list \<Rightarrow> bool \<times> handled_obstacle list" where
  "handled d now [] = (False, [])"
| "handled d now (h # hs) =
     (if matches_handled d h then (True, h\<lparr>last_seen := now\<rparr> # hs)
      else let (b, hs') = handled d now hs in (b, h # hs'))"

definition expired :: "decision_config \<Rightarrow> real \<Rightarrow> handled_obstacle \<Rightarrow> bool" where
  "expired c now h \<longleftrightarrow> now - last_seen h > (if h_id h \<ge> 0 then handled_ttl c else pseudo_ttl c)"

definition expire :: "real \<Rightarrow> decider \<Rightarrow> decider" where
  "expire now s = s\<lparr>handled_list := filter (\<lambda>h. \<not> expired (cfg s) now h) (handled_list s)\<rparr>"

definition det_rule :: "decision_config \<Rightarrow> detection \<Rightarrow> class_rule option" where
  \<comment> \<open>the filters of the loop body before the stop-sign mark\<close>
  "det_rule c d =
     (if \<not> det_valid d \<or> det_score d < Fin (min_score c) \<or> det_n_pts d < min_points c then None
      else case classes c (det_cls d) of
        None \<Rightarrow> None
      | Some r \<Rightarrow>
          let min_dist = (if rule_action r = INTERSECTION \<or> mark_stop_sign r then 0 else min_distance c) in
          if \<not> isfinite (det_distance d) \<or> det_distance d < Fin min_dist then None
          else if Fin (max_lateral_offset c) < \<bar>det_local_y d\<bar> then None
          else Some r)"

record scan =
  best :: "nat \<Rightarrow> detection option"
  scan_handled :: "handled_obstacle list"
  scan_sign :: real

definition keep_nearer :: "nat \<Rightarrow> detection \<Rightarrow> scan \<Rightarrow> scan" where
  "keep_nearer i d s =
     (case best s i of
        None \<Rightarrow> s\<lparr>best := (best s)(i := Some d)\<rparr>
      | Some b \<Rightarrow> if det_distance d < det_distance b then s\<lparr>best := (best s)(i := Some d)\<rparr> else s)"

definition scan_det :: "decision_config \<Rightarrow> real \<Rightarrow> detection \<Rightarrow> scan \<Rightarrow> scan" where
  \<comment> \<open>the body of the loop over the detections\<close>
  "scan_det c now d s =
     (case det_rule c d of
        None \<Rightarrow> s
      | Some r \<Rightarrow>
          let s1 = (if mark_stop_sign r \<and> det_distance d \<le> Fin (trigger_distance r)
                    then s\<lparr>scan_sign := (if isfinite (det_observed_at d)
                                         then val_of (det_observed_at d) else now)\<rparr>
                    else s) in
          if rule_action r = NONE then s1
          else if Fin (trigger_distance r) < det_distance d then s1
          else if rule_action r = CHANGE \<or> rule_action r = INTERSECTION then
            let (b, hs) = handled d now (scan_handled s1);
                s2 = s1\<lparr>scan_handled := hs\<rparr>
            in if b then s2 else keep_nearer (slot (rule_action r)) d s2
          else keep_nearer (slot (rule_action r)) d s1)"

definition confirm_of :: "decision_config \<Rightarrow> nat \<Rightarrow> int" where
  "confirm_of c i = (if i = 0 then confirm_change c else if i = 1 then confirm_stop c
     else confirm_intersection c)"

definition hold_of :: "decision_config \<Rightarrow> nat \<Rightarrow> real" where
  "hold_of c i = (if i = 2 then intersection_hold c else hold_time c)"

definition scan_dets :: "decider \<Rightarrow> detection list \<Rightarrow> real \<Rightarrow> scan" where
  "scan_dets s dets now =
     fold (scan_det (cfg s) now) dets
       \<lparr>best = (\<lambda>_. None), scan_handled = handled_list s, scan_sign = stop_sign_time s\<rparr>"

definition fires :: "decider \<Rightarrow> scan \<Rightarrow> nat \<Rightarrow> bool" where
  "fires s r i \<longleftrightarrow> best r i \<noteq> None \<and> hits s i + 1 \<ge> confirm_of (cfg s) i"

definition settle :: "decider \<Rightarrow> scan \<Rightarrow> real \<Rightarrow> decider" where
  \<comment> \<open>the loop over the three slots\<close>
  "settle s r now = s\<lparr>
     hits := (\<lambda>i. if best r i \<noteq> None then hits s i + 1 else 0),
     hold_until := (\<lambda>i. if fires s r i then now + hold_of (cfg s) i else hold_until s i),
     last_det := (\<lambda>i. if fires s r i then the (best r i) else last_det s i),
     handled_list := scan_handled r,
     stop_sign_time := scan_sign r\<rparr>"

definition slot_active :: "decider \<Rightarrow> scan \<Rightarrow> real \<Rightarrow> nat \<Rightarrow> bool" where
  "slot_active s r now i \<longleftrightarrow> fires s r i \<or> now < hold_until (settle s r now) i"

definition update :: "decider \<Rightarrow> detection list \<Rightarrow> real \<Rightarrow> decision \<times> decider" where
  "update s0 dets now =
     (let s = expire now s0;
          r = scan_dets s dets now;
          s' = settle s r now;
          out = (if slot_active s r now 1 then make_decision STOP (last_det s' 1)
                 else if slot_active s r now 2 then
                   (make_decision INTERSECTION (last_det s' 2))
                     \<lparr>needs_stop := now - stop_sign_time s' < stop_sign_ttl (cfg s')\<rparr>
                 else if slot_active s r now 0 then make_decision CHANGE (last_det s' 0)
                 else no_decision)
      in (out, s'))"

definition clear_stop_sign :: "decider \<Rightarrow> decider" where
  "clear_stop_sign s = s\<lparr>stop_sign_time := - 1000000000\<rparr>"

definition mark_handled :: "decision \<Rightarrow> real \<Rightarrow> decider \<Rightarrow> decider" where
  "mark_handled d now s =
     (if dec_action d \<noteq> CHANGE \<and> dec_action d \<noteq> INTERSECTION then s
      else let h = \<lparr>h_id = obstacle_id d, h_cls = dec_cls d, h_distance = dec_distance d,
                    h_x = dec_x d, h_y = dec_y d, last_seen = now\<rparr>;
               i = slot (dec_action d);
               s1 = s\<lparr>handled_list := handled_list s @ [h],
                      hold_until := (hold_until s)(i := 0),
                      hits := (hits s)(i := 0)\<rparr>
           in if dec_action d = INTERSECTION then s1\<lparr>stop_sign_time := - 1000000000\<rparr> else s1)"


section \<open>Basic facts\<close>

lemma slot_less [simp]: "slot a < 3"
  by (simp add: slot_def)

lemma slot_simps [simp]: "slot CHANGE = 0" "slot STOP = 1" "slot INTERSECTION = 2"
  by (simp_all add: slot_def)

lemma slot_inj: "a \<noteq> NONE \<Longrightarrow> b \<noteq> NONE \<Longrightarrow> slot a = slot b \<longleftrightarrow> a = b"
  by (cases a; cases b) (simp_all add: slot_def)

lemma slot_eq [simp]:
  "a \<noteq> NONE \<Longrightarrow> slot a = 0 \<longleftrightarrow> a = CHANGE"
  "slot a = Suc 0 \<longleftrightarrow> a = STOP"
  "slot a = 2 \<longleftrightarrow> a = INTERSECTION"
  by (cases a; simp add: slot_def)+

lemma make_decision_simps [simp]:
  "dec_action (make_decision a d) = a"
  "obstacle_id (make_decision a d) = det_id d"
  "dec_distance (make_decision a d) = det_distance d"
  "dec_cls (make_decision a d) = det_cls d"
  "dec_x (make_decision a d) = det_x d"
  "dec_y (make_decision a d) = det_y d"
  "needs_stop (make_decision a d) = False"
  by (simp_all add: make_decision_def no_decision_def)

lemma no_decision_action [simp]: "dec_action no_decision = NONE" "needs_stop no_decision = False"
  by (simp_all add: no_decision_def)

lemma expire_simps [simp]:
  "cfg (expire now s) = cfg s"
  "hits (expire now s) = hits s"
  "hold_until (expire now s) = hold_until s"
  "last_det (expire now s) = last_det s"
  "stop_sign_time (expire now s) = stop_sign_time s"
  by (simp_all add: expire_def)

lemma settle_simps [simp]:
  "cfg (settle s r now) = cfg s"
  "handled_list (settle s r now) = scan_handled r"
  "stop_sign_time (settle s r now) = scan_sign r"
  by (simp_all add: settle_def)

lemma update_state: "snd (update s dets now) =
    settle (expire now s) (scan_dets (expire now s) dets now) now"
  by (simp add: update_def Let_def)

lemma cfg_update [simp]: "cfg (snd (update s dets now)) = cfg s"
  by (simp add: update_state)

lemma cfg_mark_handled [simp]: "cfg (mark_handled d now s) = cfg s"
  by (simp add: mark_handled_def Let_def)

lemma cfg_clear_stop_sign [simp]: "cfg (clear_stop_sign s) = cfg s"
  by (simp add: clear_stop_sign_def)

section \<open>The handled list during one scan\<close>

text \<open>Refreshing an entry never changes which detections match the list.\<close>

definition is_handled :: "detection \<Rightarrow> handled_obstacle list \<Rightarrow> bool" where
  "is_handled d hs \<longleftrightarrow> (\<exists>h \<in> set hs. matches_handled d h)"

lemma matches_refresh [simp]:
  "matches_handled d (h\<lparr>last_seen := t\<rparr>) = matches_handled d h"
  by (simp add: matches_handled_def)

lemma handled_fst: "fst (handled d now hs) = is_handled d hs"
  by (induction hs) (auto simp: is_handled_def split: prod.splits)

lemma handled_snd_matches: "is_handled e (snd (handled d now hs)) = is_handled e hs"
  by (induction hs) (auto simp: is_handled_def split: prod.splits)

lemma length_handled [simp]: "length (snd (handled d now hs)) = length hs"
  by (induction hs) (auto split: prod.splits)

lemma handled_refreshes:
  "is_handled d hs \<Longrightarrow> \<exists>h \<in> set (snd (handled d now hs)). matches_handled d h \<and> last_seen h = now"
  by (induction hs) (auto simp: is_handled_def case_prod_beta)

section \<open>What a scan selects\<close>

text \<open>
  Specification of the scan: a detection competes for a slot when it passes the filters,
  its class has that slot's action, it is inside its trigger distance, and it is not a
  handled obstacle.
\<close>

definition competes :: "decision_config \<Rightarrow> handled_obstacle list \<Rightarrow> detection \<Rightarrow> nat \<Rightarrow> bool" where
  "competes c hs d i \<longleftrightarrow>
     (\<exists>r. det_rule c d = Some r \<and> rule_action r \<noteq> NONE \<and> slot (rule_action r) = i \<and>
          \<not> Fin (trigger_distance r) < det_distance d \<and>
          \<not> ((rule_action r = CHANGE \<or> rule_action r = INTERSECTION) \<and> is_handled d hs))"

lemma det_rule_finite: "det_rule c d = Some r \<Longrightarrow> isfinite (det_distance d)"
  by (auto simp: det_rule_def Let_def split: if_splits option.splits)

lemma competes_finite: "competes c hs d i \<Longrightarrow> isfinite (det_distance d)"
  by (auto simp: competes_def dest: det_rule_finite)

lemma keep_nearer_simps [simp]:
  "scan_handled (keep_nearer i d s) = scan_handled s"
  "scan_sign (keep_nearer i d s) = scan_sign s"
  "j \<noteq> i \<Longrightarrow> best (keep_nearer i d s) j = best s j"
  by (auto simp: keep_nearer_def split: option.splits)

lemma keep_nearer_sign [simp]:
  "best (keep_nearer i d (s\<lparr>scan_sign := t\<rparr>)) = best (keep_nearer i d s)"
  "best (keep_nearer i d (s\<lparr>scan_handled := hs\<rparr>)) = best (keep_nearer i d s)"
  by (auto simp: keep_nearer_def split: option.splits)

lemma scan_det_best:
  "best (scan_det c now d s) i =
     (if competes c (scan_handled s) d i then best (keep_nearer i d s) i else best s i)"
proof (cases "det_rule c d")
  case None
  then show ?thesis by (simp add: scan_det_def competes_def)
next
  case (Some r)
  then show ?thesis
    by (cases "slot (rule_action r) = i")
      (auto simp: scan_det_def competes_def Let_def handled_fst case_prod_beta)
qed

lemma scan_det_handled:
  "is_handled e (scan_handled (scan_det c now d s)) = is_handled e (scan_handled s)"
proof -
  have "\<And>b hs. handled d now (scan_handled s) = (b, hs) \<Longrightarrow>
      is_handled e hs = is_handled e (scan_handled s)"
    by (metis handled_snd_matches snd_conv)
  then show ?thesis
    by (auto simp: scan_det_def Let_def split: option.splits prod.splits if_splits)
qed

lemma competes_cong:
  "(\<And>e. is_handled e hs = is_handled e hs') \<Longrightarrow> competes c hs d i = competes c hs' d i"
  by (simp add: competes_def)

definition nearest_of :: "detection option \<Rightarrow> detection set \<Rightarrow> bool" where
  \<comment> \<open>the specification: none of an empty set, otherwise a member at minimal distance\<close>
  "nearest_of b D \<longleftrightarrow> (case b of None \<Rightarrow> D = {}
     | Some d \<Rightarrow> d \<in> D \<and> (\<forall>e \<in> D. det_distance d \<le> det_distance e))"

lemma nearest_of_insert:
  assumes "nearest_of (best s i) D" "isfinite (det_distance d)"
    and "\<And>e. e \<in> D \<Longrightarrow> isfinite (det_distance e)"
  shows "nearest_of (best (keep_nearer i d s) i) (insert d D)"
proof (cases "best s i")
  case None
  with assms show ?thesis by (auto simp: nearest_of_def keep_nearer_def intro: dbl_refl)
next
  case (Some b)
  with assms(1) have b: "b \<in> D" "\<forall>e \<in> D. det_distance b \<le> det_distance e"
    by (auto simp: nearest_of_def)
  show ?thesis
  proof (cases "det_distance d < det_distance b")
    case True
    with Some b assms(2) show ?thesis
      by (auto simp: nearest_of_def keep_nearer_def intro: dbl_refl dbl_le_trans dbl_less_imp_le)
  next
    case False
    with assms(2,3) b(1) have "det_distance b \<le> det_distance d"
      by (simp add: dbl_not_less_finite)
    with Some b False show ?thesis
      by (auto simp: nearest_of_def keep_nearer_def)
  qed
qed

lemma scan_fold_nearest:
  assumes "nearest_of (best s i) D" "\<And>e. e \<in> D \<Longrightarrow> isfinite (det_distance e)"
  shows "nearest_of (best (fold (scan_det c now) dets s) i)
           (D \<union> {d \<in> set dets. competes c (scan_handled s) d i})"
  using assms
proof (induction dets arbitrary: s D)
  case Nil
  then show ?case by simp
next
  case (Cons d dets)
  let ?s = "scan_det c now d s"
  let ?D = "if competes c (scan_handled s) d i then insert d D else D"
  have step: "nearest_of (best ?s i) ?D"
    using Cons.prems by (auto simp: scan_det_best intro: nearest_of_insert competes_finite)
  have fin: "\<And>e. e \<in> ?D \<Longrightarrow> isfinite (det_distance e)"
    using Cons.prems(2) by (auto split: if_splits dest: competes_finite)
  have same: "competes c (scan_handled ?s) e i = competes c (scan_handled s) e i" for e
    by (rule competes_cong) (rule scan_det_handled)
  have "?D \<union> {e \<in> set dets. competes c (scan_handled ?s) e i} =
      D \<union> {e \<in> set (d # dets). competes c (scan_handled s) e i}"
    by (auto simp: same)
  with Cons.IH [OF step fin] show ?case by simp
qed

lemma scan_dets_nearest:
  "nearest_of (best (scan_dets s dets now) i) {d \<in> set dets. competes (cfg s) (handled_list s) d i}"
  using scan_fold_nearest [of "\<lparr>best = (\<lambda>_. None), scan_handled = handled_list s,
      scan_sign = stop_sign_time s\<rparr>" i "{}" "cfg s" now dets]
  by (simp add: nearest_of_def scan_dets_def)

lemma scan_dets_handled:
  "is_handled e (scan_handled (scan_dets s dets now)) = is_handled e (handled_list s)"
  unfolding scan_dets_def
  using fold_measure [of dets "\<lambda>r. is_handled e (scan_handled r)" "scan_det (cfg s) now"]
  by (simp add: scan_det_handled)

lemma scan_best_None:
  "best (scan_dets s dets now) i = None \<longleftrightarrow>
     \<not> (\<exists>d \<in> set dets. competes (cfg s) (handled_list s) d i)"
  using scan_dets_nearest [of s dets now i] by (auto simp: nearest_of_def split: option.splits)

section \<open>Well-formed decision states\<close>

text \<open>
  A slot that may still be held remembers a detection of a class configured for that
  slot's action, seen inside its trigger distance.
\<close>

definition configured_for :: "decision_config \<Rightarrow> string \<Rightarrow> dbl \<Rightarrow> nat \<Rightarrow> bool" where
  "configured_for c cl dst i \<longleftrightarrow>
     (\<exists>r. classes c cl = Some r \<and> rule_action r \<noteq> NONE \<and> slot (rule_action r) = i \<and>
          isfinite dst \<and> dst \<le> Fin (trigger_distance r))"

definition decider_wf :: "decider \<Rightarrow> bool" where
  "decider_wf s \<longleftrightarrow> (\<forall>i. 0 < hold_until s i \<longrightarrow>
     configured_for (cfg s) (det_cls (last_det s i)) (det_distance (last_det s i)) i)"

lemma det_rule_classes: "det_rule c d = Some r \<Longrightarrow> classes c (det_cls d) = Some r"
  by (auto simp: det_rule_def Let_def split: if_splits option.splits)

lemma competes_configured:
  "competes c hs d i \<Longrightarrow> configured_for c (det_cls d) (det_distance d) i"
  unfolding competes_def configured_for_def
  by (metis det_rule_classes det_rule_finite dbl_not_less_finite isfinite.simps(1))

lemma scan_best_competes:
  "best (scan_dets s dets now) i = Some d \<Longrightarrow>
     d \<in> set dets \<and> competes (cfg s) (handled_list s) d i"
  using scan_dets_nearest [of s dets now i] by (auto simp: nearest_of_def)

lemma decider_wf_new [simp]: "decider_wf (new_decider c)"
  by (simp add: decider_wf_def new_decider_def)

lemma decider_wf_clear [simp]: "decider_wf (clear_stop_sign s) = decider_wf s"
  by (simp add: decider_wf_def clear_stop_sign_def)

lemma decider_wf_expire [simp]: "decider_wf (expire now s) = decider_wf s"
  by (simp add: decider_wf_def)

lemma decider_wf_mark: "decider_wf s \<Longrightarrow> decider_wf (mark_handled d now s)"
  by (auto simp: decider_wf_def mark_handled_def Let_def)

lemma fires_configured:
  assumes "fires s (scan_dets s dets now) i"
  shows "configured_for (cfg s) (det_cls (last_det (settle s (scan_dets s dets now) now) i))
           (det_distance (last_det (settle s (scan_dets s dets now) now) i)) i"
proof -
  from assms obtain d where d: "best (scan_dets s dets now) i = Some d"
    by (auto simp: fires_def)
  then have "competes (cfg s) (handled_list s) d i"
    by (simp add: scan_best_competes)
  with assms d show ?thesis
    by (simp add: settle_def competes_configured)
qed

lemma decider_wf_settle:
  assumes "decider_wf s"
  shows "decider_wf (settle s (scan_dets s dets now) now)"
  unfolding decider_wf_def
proof (intro allI impI)
  fix i
  assume pos: "0 < hold_until (settle s (scan_dets s dets now) now) i"
  show "configured_for (cfg (settle s (scan_dets s dets now) now))
      (det_cls (last_det (settle s (scan_dets s dets now) now) i))
      (det_distance (last_det (settle s (scan_dets s dets now) now) i)) i"
  proof (cases "fires s (scan_dets s dets now) i")
    case True
    then show ?thesis by (simp add: fires_configured)
  next
    case False
    with pos assms show ?thesis by (simp add: decider_wf_def settle_def)
  qed
qed

lemma decider_wf_update: "decider_wf s \<Longrightarrow> decider_wf (snd (update s dets now))"
  by (simp add: update_state decider_wf_settle)

lemma slot_active_configured:
  assumes "decider_wf s" "0 \<le> now" "slot_active s (scan_dets s dets now) now i"
  shows "configured_for (cfg s) (det_cls (last_det (settle s (scan_dets s dets now) now) i))
           (det_distance (last_det (settle s (scan_dets s dets now) now) i)) i"
proof (cases "fires s (scan_dets s dets now) i")
  case True
  then show ?thesis by (rule fires_configured)
next
  case False
  with assms have "0 < hold_until (settle s (scan_dets s dets now) now) i"
    by (auto simp: slot_active_def)
  with decider_wf_settle [OF assms(1)] show ?thesis
    by (metis decider_wf_def settle_simps(1))
qed

lemma update_action_active:
  "dec_action (fst (update s dets now)) = a \<Longrightarrow> a \<noteq> NONE \<Longrightarrow>
     slot_active (expire now s) (scan_dets (expire now s) dets now) now (slot a) \<and>
     dec_cls (fst (update s dets now)) = det_cls (last_det (snd (update s dets now)) (slot a)) \<and>
     dec_distance (fst (update s dets now)) = det_distance (last_det (snd (update s dets now)) (slot a))"
  by (auto simp: update_def Let_def split: if_splits)

lemma update_configured:
  assumes "decider_wf s" "0 \<le> now" "dec_action (fst (update s dets now)) = a" "a \<noteq> NONE"
  shows "configured_for (cfg s) (dec_cls (fst (update s dets now)))
           (dec_distance (fst (update s dets now))) (slot a)"
  using update_action_active [OF assms(3,4)] slot_active_configured [of "expire now s" now dets "slot a"]
    assms(1,2)
  by (simp add: update_state)

section \<open>Runs of a decider\<close>

datatype decider_event = Upd "detection list" real | Mark decision real | ClearSign

fun decider_step :: "decider \<Rightarrow> decider_event \<Rightarrow> decider" where
  "decider_step s (Upd dets now) = snd (update s dets now)"
| "decider_step s (Mark d now) = mark_handled d now s"
| "decider_step s ClearSign = clear_stop_sign s"

definition decider_run :: "decider \<Rightarrow> decider_event list \<Rightarrow> decider" where
  "decider_run s es = foldl decider_step s es"

lemma decider_run_simps [simp]:
  "decider_run s [] = s"
  "decider_run s (es @ fs) = decider_run (decider_run s es) fs"
  "decider_run s (e # es) = decider_run (decider_step s e) es"
  by (simp_all add: decider_run_def)

lemma cfg_decider_step [simp]: "cfg (decider_step s e) = cfg s"
  by (cases e) simp_all

lemma cfg_decider_run [simp]: "cfg (decider_run s es) = cfg s"
  by (induction es arbitrary: s) simp_all

lemma decider_wf_step: "decider_wf s \<Longrightarrow> decider_wf (decider_step s e)"
  by (cases e) (simp_all add: decider_wf_update decider_wf_mark)

lemma decider_wf_run: "decider_wf s \<Longrightarrow> decider_wf (decider_run s es)"
  by (induction es arbitrary: s) (simp_all add: decider_wf_step)

section \<open>Confirmation\<close>

text \<open>
  A stretch of a run is unbroken for a slot when every list in it has a candidate for
  that slot and no handled mark resets the slot; \<open>updates\<close> counts its lists.
\<close>

fun unbroken :: "decider \<Rightarrow> decider_event list \<Rightarrow> nat \<Rightarrow> bool" where
  "unbroken s [] i = True"
| "unbroken s (Upd dets now # es) i =
     ((\<exists>d \<in> set dets. competes (cfg s) (handled_list (expire now s)) d i) \<and>
      unbroken (decider_step s (Upd dets now)) es i)"
| "unbroken s (Mark d now # es) i =
     (\<not> (dec_action d \<in> {CHANGE, INTERSECTION} \<and> slot (dec_action d) = i) \<and>
      unbroken (decider_step s (Mark d now)) es i)"
| "unbroken s (ClearSign # es) i = unbroken (decider_step s ClearSign) es i"

fun updates :: "decider_event list \<Rightarrow> int" where
  "updates [] = 0"
| "updates (Upd dets now # es) = updates es + 1"
| "updates (Mark d now # es) = updates es"
| "updates (ClearSign # es) = updates es"

lemma unbroken_append [simp]:
  "unbroken s (es @ fs) i = (unbroken s es i \<and> unbroken (decider_run s es) fs i)"
  by (induction s es i rule: unbroken.induct) auto

lemma updates_append [simp]: "updates (es @ fs) = updates es + updates fs"
  by (induction es rule: updates.induct) auto

lemma hits_mark [simp]:
  "hits (mark_handled d now s) i =
     (if dec_action d \<in> {CHANGE, INTERSECTION} \<and> slot (dec_action d) = i then 0 else hits s i)"
  by (auto simp: mark_handled_def Let_def)

lemma hold_until_mark:
  "hold_until (mark_handled d now s) i =
     (if dec_action d \<in> {CHANGE, INTERSECTION} \<and> slot (dec_action d) = i then 0 else hold_until s i)"
  by (auto simp: mark_handled_def Let_def)

lemma hits_clear [simp]: "hits (clear_stop_sign s) = hits s"
  "hold_until (clear_stop_sign s) = hold_until s"
  by (simp_all add: clear_stop_sign_def)

lemma hits_update:
  "hits (snd (update s dets now)) i =
     (if \<exists>d \<in> set dets. competes (cfg s) (handled_list (expire now s)) d i
      then hits s i + 1 else 0)"
  using scan_best_None [of "expire now s" dets now i]
  by (auto simp: update_state settle_def)

definition streak :: "decider \<Rightarrow> decider_event list \<Rightarrow> nat \<Rightarrow> int \<Rightarrow> bool" where
  "streak s es i n \<longleftrightarrow> (\<exists>pre mid. es = pre @ mid \<and> unbroken (decider_run s pre) mid i \<and> updates mid = n)"

lemma streak_zero: "streak s es i 0"
  unfolding streak_def by (rule exI [of _ es], rule exI [of _ "[]"]) simp

lemma streak_snoc:
  assumes "streak s es i n" "unbroken (decider_run s es) [e] i"
  shows "streak s (es @ [e]) i (n + updates [e])"
proof -
  from assms(1) obtain pre mid where "es = pre @ mid" "unbroken (decider_run s pre) mid i" "updates mid = n"
    by (auto simp: streak_def)
  with assms(2) show ?thesis
    unfolding streak_def by (intro exI [of _ pre] exI [of _ "mid @ [e]"]) simp
qed

lemma hits_streak: "streak (new_decider c) es i (hits (decider_run (new_decider c) es) i)"
proof (induction es rule: rev_induct)
  case Nil
  then show ?case by (simp add: new_decider_def streak_zero)
next
  case (snoc e es)
  let ?s = "decider_run (new_decider c) es"
  show ?case
  proof (cases "unbroken ?s [e] i")
    case True
    with streak_snoc [OF snoc.IH] have "streak (new_decider c) (es @ [e]) i (hits ?s i + updates [e])" .
    moreover have "hits (decider_step ?s e) i = hits ?s i + updates [e]"
      using True by (cases e) (auto simp: hits_update)
    ultimately show ?thesis by simp
  next
    case False
    then have "hits (decider_step ?s e) i = 0"
      by (cases e) (auto simp: hits_update)
    then show ?thesis by (simp add: streak_zero)
  qed
qed

text \<open>A confirmed list: at time \<open>t\<close>, the last of an unbroken stretch that is long enough.\<close>

definition confirmed_at :: "decider \<Rightarrow> decider_event list \<Rightarrow> nat \<Rightarrow> real \<Rightarrow> bool" where
  "confirmed_at s es i t \<longleftrightarrow>
     (\<exists>pre mid dets. es = pre @ mid @ [Upd dets t] \<and>
        unbroken (decider_run s pre) (mid @ [Upd dets t]) i \<and>
        confirm_of (cfg s) i \<le> updates mid + 1)"

lemma fires_confirmed:
  assumes "fires (expire now s) (scan_dets (expire now s) dets now) i"
    and "s = decider_run (new_decider c) es"
  shows "confirmed_at (new_decider c) (es @ [Upd dets now]) i now"
proof -
  from hits_streak [of c es i] obtain pre mid where
    st: "es = pre @ mid" "unbroken (decider_run (new_decider c) pre) mid i" "updates mid = hits s i"
    by (auto simp: streak_def assms(2))
  have "\<exists>d \<in> set dets. competes (cfg s) (handled_list (expire now s)) d i"
    using assms(1) scan_best_None [of "expire now s" dets now i] by (auto simp: fires_def)
  with st assms show ?thesis
    unfolding confirmed_at_def
    by (intro exI [of _ pre] exI [of _ mid] exI [of _ dets])
      (simp add: fires_def new_decider_def)
qed

lemma hold_until_update:
  "hold_until (snd (update s dets now)) i =
     (if fires (expire now s) (scan_dets (expire now s) dets now) i
      then now + hold_of (cfg s) i else hold_until s i)"
  by (simp add: update_state settle_def)

lemma hold_until_confirmed:
  "hold_until (decider_run (new_decider c) es) i = 0 \<or>
   (\<exists>pre post t. es = pre @ post \<and> confirmed_at (new_decider c) pre i t \<and>
      hold_until (decider_run (new_decider c) es) i = t + hold_of c i)"
proof (induction es rule: rev_induct)
  case Nil
  then show ?case by (simp add: new_decider_def)
next
  case (snoc e es)
  let ?s = "decider_run (new_decider c) es"
  show ?case
  proof (cases "hold_until (decider_step ?s e) i = hold_until ?s i")
    case True
    with snoc.IH show ?thesis by (auto simp del: append_assoc) (metis append_assoc)
  next
    case False
    show ?thesis
    proof (cases e)
      case (Upd dets now)
      with False have f: "fires (expire now ?s) (scan_dets (expire now ?s) dets now) i"
        by (auto simp: hold_until_update split: if_splits)
      from fires_confirmed [OF f refl] f Upd show ?thesis
        by (intro disjI2 exI [of _ "es @ [e]"] exI [of _ "[]"] exI [of _ now])
          (simp add: hold_until_update new_decider_def)
    next
      case (Mark d now)
      with False show ?thesis by (auto simp: hold_until_mark split: if_splits)
    next
      case ClearSign
      with False show ?thesis by simp
    qed
  qed
qed

section \<open>A concrete table\<close>

text \<open>The configuration and the detections that the witnesses below evaluate.\<close>

definition road_config :: decision_config where
  "road_config = default_config\<lparr>confirm_change := 2, classes :=
     [''barrel'' \<mapsto> \<lparr>rule_action = CHANGE, trigger_distance = 4, mark_stop_sign = False\<rparr>,
      ''pedestrian'' \<mapsto> \<lparr>rule_action = STOP, trigger_distance = 5, mark_stop_sign = False\<rparr>,
      ''stopline'' \<mapsto> \<lparr>rule_action = INTERSECTION, trigger_distance = 4, mark_stop_sign = False\<rparr>,
      ''sign'' \<mapsto> \<lparr>rule_action = NONE, trigger_distance = 8, mark_stop_sign = True\<rparr>]\<rparr>"

definition seen :: "string \<Rightarrow> int \<Rightarrow> real \<Rightarrow> detection" where
  "seen cl k m = default_detection\<lparr>det_cls := cl, det_score := Fin 1, det_n_pts := 9,
     det_valid := True, det_distance := Fin m, det_id := k, det_x := Fin m\<rparr>"

lemma road_classes:
  "classes road_config ''barrel'' = Some \<lparr>rule_action = CHANGE, trigger_distance = 4, mark_stop_sign = False\<rparr>"
  "classes road_config ''pedestrian'' = Some \<lparr>rule_action = STOP, trigger_distance = 5, mark_stop_sign = False\<rparr>"
  "classes road_config ''stopline'' = Some \<lparr>rule_action = INTERSECTION, trigger_distance = 4, mark_stop_sign = False\<rparr>"
  "classes road_config ''sign'' = Some \<lparr>rule_action = NONE, trigger_distance = 8, mark_stop_sign = True\<rparr>"
  by (simp_all add: road_config_def)

lemma road_params:
  "min_score road_config = 0.5" "min_points road_config = 1" "min_distance road_config = 0.5"
  "max_lateral_offset road_config = 1.2" "confirm_change road_config = 2"
  "confirm_stop road_config = 3" "confirm_intersection road_config = 3"
  "hold_time road_config = 0.5" "handled_ttl road_config = 30" "pseudo_ttl road_config = 2"
  "intersection_hold road_config = 20" "stop_sign_ttl road_config = 20"
  by (simp_all add: road_config_def default_config_def)

lemma seen_fields:
  "det_cls (seen cl k m) = cl" "det_score (seen cl k m) = Fin 1" "det_n_pts (seen cl k m) = 9"
  "det_valid (seen cl k m)" "det_distance (seen cl k m) = Fin m" "det_id (seen cl k m) = k"
  "det_x (seen cl k m) = Fin m" "det_y (seen cl k m) = Fin 0" "det_observed_at (seen cl k m) = NaN"
  "det_local_y (seen cl k m) = Fin 0"
  by (simp_all add: seen_def default_detection_def)

lemmas decider_eval =
  road_classes road_params seen_fields new_decider_def
  update_def Let_def expire_def scan_dets_def scan_det_def det_rule_def keep_nearer_def
  slot_active_def settle_def fires_def confirm_of_def hold_of_def
  expired_def matches_handled_def

section \<open>Properties\<close>

text \<open>
  C2: No action without confirmation. Whatever lists, handled marks and sign resets came
  before, when a decider that started empty reports an action, the history contains
  enough consecutive lists with a candidate for that action (the configured number, with
  no reset between them), and the last of them is the current list or is no older than
  the hold time.
\<close>

theorem action_is_confirmed:
  assumes "0 \<le> now"
    and "dec_action (fst (update (decider_run (new_decider c) es) dets now)) = a" and "a \<noteq> NONE"
  shows "\<exists>pre post t. es @ [Upd dets now] = pre @ post \<and>
           confirmed_at (new_decider c) pre (slot a) t \<and>
           (post = [] \<or> now < t + hold_of c (slot a))"
proof -
  let ?s = "decider_run (new_decider c) es"
  let ?r = "scan_dets (expire now ?s) dets now"
  have act: "slot_active (expire now ?s) ?r now (slot a)"
    using update_action_active [OF assms(2,3)] by simp
  show ?thesis
  proof (cases "fires (expire now ?s) ?r (slot a)")
    case True
    from fires_confirmed [OF True refl] show ?thesis
      by (intro exI [of _ "es @ [Upd dets now]"] exI [of _ "[]"] exI [of _ now]) simp
  next
    case False
    with act have "now < hold_until ?s (slot a)"
      by (simp add: slot_active_def settle_def)
    with assms(1) hold_until_confirmed [of c es "slot a"] obtain pre post t where
      "es = pre @ post" "confirmed_at (new_decider c) pre (slot a) t" "now < t + hold_of c (slot a)"
      by auto
    then show ?thesis
      by (intro exI [of _ pre] exI [of _ "post @ [Upd dets now]"] exI [of _ t]) simp
  qed
qed

theorem action_is_confirmed_witness:
  "dec_action (fst (update (decider_run (new_decider road_config) [Upd [seen ''barrel'' 7 3] 9])
      [seen ''barrel'' 7 3] 10)) = CHANGE \<and>
   (\<exists>pre post t. [Upd [seen ''barrel'' 7 3] 9] @ [Upd [seen ''barrel'' 7 3] 10] = pre @ post \<and>
      confirmed_at (new_decider road_config) pre (slot CHANGE) t \<and>
      (post = [] \<or> 10 < t + hold_of road_config (slot CHANGE)))"
proof -
  have act: "dec_action (fst (update (decider_run (new_decider road_config)
      [Upd [seen ''barrel'' 7 3] 9]) [seen ''barrel'' 7 3] 10)) = CHANGE"
    by (simp add: decider_eval)
  show ?thesis
    using act action_is_confirmed [OF _ act] by simp
qed

text \<open>
  A reported action is a configured one. Along any run, the class a decision names is
  in the table, the table gives it that very action, and the reported distance is finite
  and inside that class's trigger distance, even while the decision is only being held.
\<close>

theorem decision_is_configured:
  assumes "0 \<le> now"
    and "dec_action (fst (update (decider_run (new_decider c) es) dets now)) = a" and "a \<noteq> NONE"
  shows "\<exists>r. classes c (dec_cls (fst (update (decider_run (new_decider c) es) dets now))) = Some r \<and>
     rule_action r = a \<and>
     isfinite (dec_distance (fst (update (decider_run (new_decider c) es) dets now))) \<and>
     dec_distance (fst (update (decider_run (new_decider c) es) dets now)) \<le> Fin (trigger_distance r)"
  using update_configured [OF decider_wf_run [OF decider_wf_new] assms] assms(3)
  by (auto simp: configured_for_def slot_inj new_decider_def)

theorem decision_is_configured_witness:
  "\<exists>r. classes road_config (dec_cls (fst (update (decider_run (new_decider road_config)
        [Upd [seen ''barrel'' 7 3] 8, Upd [seen ''barrel'' 7 3] 9]) [] (37 / 4)))) = Some r \<and>
     rule_action r = CHANGE"
proof -
  have act: "dec_action (fst (update (decider_run (new_decider road_config)
      [Upd [seen ''barrel'' 7 3] 8, Upd [seen ''barrel'' 7 3] 9]) [] (37 / 4))) = CHANGE"
    by (simp add: decider_eval)
  show ?thesis
    using decision_is_configured [OF _ act] by auto
qed

text \<open>
  The candidate of a slot is a nearest competitor. After a scan, the slot holds no
  candidate exactly when no detection of the list competes for it, and otherwise a
  competing detection of the list at minimal distance, where competing means passing the
  score, point-count, class, range and lateral filters, lying inside the trigger distance
  of its class and, for lane changes and intersections, not being a handled obstacle.
\<close>

theorem candidate_is_nearest:
  "nearest_of (best (scan_dets s dets now) i)
     {d \<in> set dets. competes (cfg s) (handled_list s) d i}"
  by (rule scan_dets_nearest)

text \<open>
  A handled obstacle stays silent. After \<open>mark_handled\<close> for a lane change or an
  intersection, no detection that matches the marked obstacle (same non-negative id, or
  same class within 1.8 m) can become the candidate of a lane change or an intersection
  while the mark is younger than its time to live, and the mark itself is refreshed.
\<close>

theorem handled_obstacle_silent:
  assumes "dec_action d \<in> {CHANGE, INTERSECTION}"
    and "h = \<lparr>h_id = obstacle_id d, h_cls = dec_cls d, h_distance = dec_distance d,
              h_x = dec_x d, h_y = dec_y d, last_seen = t\<rparr>"
    and "now - t \<le> (if 0 \<le> obstacle_id d then handled_ttl (cfg s) else pseudo_ttl (cfg s))"
    and "matches_handled e h" and "i \<noteq> slot STOP"
  shows "best (scan_dets (expire now (mark_handled d t s)) dets now) i \<noteq> Some e"
proof
  assume "best (scan_dets (expire now (mark_handled d t s)) dets now) i = Some e"
  then have comp: "competes (cfg s) (handled_list (expire now (mark_handled d t s))) e i"
    by (auto dest: scan_best_competes)
  have "h \<in> set (handled_list (mark_handled d t s))"
    using assms(1,2) by (auto simp: mark_handled_def Let_def)
  moreover have "\<not> expired (cfg s) now h"
    using assms(2,3) by (auto simp: expired_def)
  ultimately have "is_handled e (handled_list (expire now (mark_handled d t s)))"
    using assms(4) by (auto simp: is_handled_def expire_def)
  with comp assms(5) show False
    by (auto simp: competes_def) (metis action.exhaust slot_simps(2) One_nat_def)
qed

theorem handled_obstacle_silent_witness:
  "best (scan_dets (expire 20 (mark_handled (make_decision CHANGE (seen ''barrel'' 7 3)) 1
      (new_decider road_config))) [seen ''barrel'' 7 2] 20) 0 \<noteq> Some (seen ''barrel'' 7 2)"
  by (rule handled_obstacle_silent [where s = "new_decider road_config" and t = 1 and now = 20, OF _ refl])
    (simp_all add: decider_eval)

end
