(* ===== verification/Shared_State.thy ===== *)
theory Shared_State
  imports Decision
begin

text \<open>
  The state shared by the behaviour-tree nodes, \<open>src/bt/include/bt/shared_state.hpp\<close>:
  an obstacle decider and an intersection decider, their latest decisions, the latched
  intersection, and the queue of turns. Every public member function takes the mutex for
  its whole body, so each is one atomic operation here; the clock the code reads is an
  argument, one per reading.

  The lemmas show that the two deciders keep to their own classes, that a latched
  intersection outlives everything but its completion, and that only a fresh STOP can
  preempt it.
\<close>

section \<open>What the shared state relies on\<close>

text \<open>
  A decision source is what \<open>SharedState\<close> calls of a decider. It promises to report only
  actions its table holds, and that no operation changes the table.
\<close>

locale decision_source =
  fixes upd :: "'s \<Rightarrow> detection list \<Rightarrow> real \<Rightarrow> decision \<times> 's"
    and mark :: "decision \<Rightarrow> real \<Rightarrow> 's \<Rightarrow> 's"
    and clear :: "'s \<Rightarrow> 's"
    and ok :: "'s \<Rightarrow> bool"
    and actions :: "'s \<Rightarrow> action set"
  assumes ok_upd: "ok s \<Longrightarrow> ok (snd (upd s dets t))"
    and ok_mark: "ok s \<Longrightarrow> ok (mark d t s)"
    and ok_clear: "ok s \<Longrightarrow> ok (clear s)"
    and actions_upd: "actions (snd (upd s dets t)) = actions s"
    and actions_mark: "actions (mark d t s) = actions s"
    and actions_clear: "actions (clear s) = actions s"
    and out_action: "ok s \<Longrightarrow> 0 \<le> t \<Longrightarrow> dec_action (fst (upd s dets t)) \<in> insert NONE (actions s)"
begin

lemmas ok_intros = ok_upd ok_mark ok_clear
lemmas actions_simps = actions_upd actions_mark actions_clear

lemma out_not:
  "ok s \<Longrightarrow> 0 \<le> t \<Longrightarrow> a \<noteq> NONE \<Longrightarrow> a \<notin> actions s \<Longrightarrow> dec_action (fst (upd s dets t)) \<noteq> a"
  using out_action [of s t dets] by auto

lemma out_not_after_clear:
  "ok s \<Longrightarrow> 0 \<le> t \<Longrightarrow> a \<noteq> NONE \<Longrightarrow> a \<notin> actions s \<Longrightarrow>
     dec_action (fst (upd (clear s) dets t)) \<noteq> a"
  using out_not [of "clear s" t a dets] by (simp add: ok_clear actions_clear)

end

definition decider_actions :: "decider \<Rightarrow> action set" where
  "decider_actions s = {rule_action r | r n. classes (cfg s) n = Some r}"

lemma configured_action:
  "configured_for (cfg s) cl dst (slot a) \<Longrightarrow> a \<noteq> NONE \<Longrightarrow> a \<in> decider_actions s"
  by (auto simp: configured_for_def decider_actions_def slot_inj)

interpretation dec: decision_source update mark_handled clear_stop_sign decider_wf decider_actions
proof
  fix s :: decider and t :: real and dets
  assume "decider_wf s" "0 \<le> t"
  then show "dec_action (fst (update s dets t)) \<in> insert NONE (decider_actions s)"
    using update_configured [OF _ _ refl, of s t dets] configured_action by blast
qed (simp_all add: decider_wf_update decider_wf_mark decider_actions_def)

section \<open>State and operations\<close>

type_synonym u8 = "8 word"

record shared_state =
  obstacles :: decider
  intersections :: decider
  obstacle :: decision
  intersection :: decision
  active :: decision
  stale :: real
  obstacle_time :: real
  intersection_time :: real
  last_completed :: real
  turns :: "u8 list"

definition is_intersection_rule :: "class_rule \<Rightarrow> bool" where
  "is_intersection_rule r \<longleftrightarrow> rule_action r = INTERSECTION \<or> mark_stop_sign r"

definition rules_for :: "decision_config \<Rightarrow> bool \<Rightarrow> decision_config" where
  "rules_for c for_line =
     (let c1 = (if for_line then c\<lparr>pseudo_ttl := handled_ttl c\<rparr> else c)
      in c1\<lparr>classes := (\<lambda>n. case classes c1 n of
             None \<Rightarrow> None
           | Some r \<Rightarrow> if is_intersection_rule r \<noteq> for_line then None else Some r)\<rparr>)"

definition new_shared :: "decision_config \<Rightarrow> real \<Rightarrow> shared_state" where
  "new_shared c stale_timeout = \<lparr>
     obstacles = new_decider (rules_for c False),
     intersections = new_decider (rules_for c True),
     obstacle = no_decision, intersection = no_decision, active = no_decision,
     stale = stale_timeout, obstacle_time = - 1000000000, intersection_time = - 1000000000,
     last_completed = - 1000000000, turns = []\<rparr>"

definition on_detections :: "detection list \<Rightarrow> real \<Rightarrow> shared_state \<Rightarrow> shared_state" where
  "on_detections dets now s =
     (let (d, o') = update (obstacles s) dets now
      in s\<lparr>obstacle_time := now, obstacle := d, obstacles := o'\<rparr>)"

definition on_intersection_detections ::
    "detection list \<Rightarrow> bool \<Rightarrow> real \<Rightarrow> shared_state \<Rightarrow> shared_state" where
  "on_intersection_detections dets reset_stop_sign now s =
     (let i0 = (if reset_stop_sign then clear_stop_sign (intersections s) else intersections s);
          (d, i') = update i0 dets now
      in s\<lparr>intersection_time := now, intersection := d, intersections := i'\<rparr>)"

definition current :: "real \<Rightarrow> shared_state \<Rightarrow> decision" where
  "current t s =
     (let fresh_obstacle = (t - obstacle_time s \<le> stale s) in
      if fresh_obstacle \<and> dec_action (obstacle s) = STOP then obstacle s
      else if dec_action (active s) = INTERSECTION then active s
      else if t - intersection_time s \<le> stale s \<and> dec_action (intersection s) = INTERSECTION
        then intersection s
      else if fresh_obstacle then obstacle s else no_decision)"

definition begin_intersection :: "real \<Rightarrow> shared_state \<Rightarrow> decision \<times> shared_state" where
  "begin_intersection t s =
     (let s' = (if dec_action (active s) \<noteq> INTERSECTION then
                  let d = current t s in
                  if dec_action d = INTERSECTION then s\<lparr>active := d\<rparr> else s
                else s)
      in (active s', s'))"

definition active_intersection :: "shared_state \<Rightarrow> decision" where
  "active_intersection s = active s"

definition mark_intersection_stopped :: "shared_state \<Rightarrow> shared_state" where
  "mark_intersection_stopped s = s\<lparr>active := (active s)\<lparr>needs_stop := False\<rparr>\<rparr>"

definition complete_intersection :: "decision \<Rightarrow> real \<Rightarrow> real \<Rightarrow> shared_state \<Rightarrow> shared_state" where
  "complete_intersection sent t1 t2 s = s\<lparr>
     intersections := mark_handled sent t1 (intersections s),
     last_completed := t2,
     active := no_decision, intersection := no_decision,
     turns := (case turns s of [] \<Rightarrow> [] | _ # ts \<Rightarrow> ts)\<rparr>"

definition last_intersection_completed :: "shared_state \<Rightarrow> real" where
  "last_intersection_completed s = last_completed s"

definition obstacle_handled :: "decision \<Rightarrow> real \<Rightarrow> shared_state \<Rightarrow> shared_state" where
  \<comment> \<open>the member function \<open>SharedState::mark_handled\<close>\<close>
  "obstacle_handled d t s =
     (let s1 = s\<lparr>obstacles := mark_handled d t (obstacles s)\<rparr>
      in if dec_action (obstacle s1) = dec_action d \<and> obstacle_id (obstacle s1) = obstacle_id d
         then s1\<lparr>obstacle := no_decision\<rparr> else s1)"

definition set_turns :: "u8 list \<Rightarrow> shared_state \<Rightarrow> shared_state" where
  "set_turns ts s = s\<lparr>turns := ts\<rparr>"

definition peek_turn :: "shared_state \<Rightarrow> u8 option" where
  "peek_turn s = (case turns s of [] \<Rightarrow> None | t # _ \<Rightarrow> Some t)"

section \<open>Operations as events\<close>

datatype shared_op =
    OnDetections "detection list" real
  | OnIntersection "detection list" bool real
  | BeginIntersection real
  | MarkStopped
  | Complete decision real real
  | MarkHandled decision real
  | SetTurns "u8 list"

fun shared_step :: "shared_state \<Rightarrow> shared_op \<Rightarrow> shared_state" where
  "shared_step s (OnDetections dets t) = on_detections dets t s"
| "shared_step s (OnIntersection dets r t) = on_intersection_detections dets r t s"
| "shared_step s (BeginIntersection t) = snd (begin_intersection t s)"
| "shared_step s MarkStopped = mark_intersection_stopped s"
| "shared_step s (Complete d t1 t2) = complete_intersection d t1 t2 s"
| "shared_step s (MarkHandled d t) = obstacle_handled d t s"
| "shared_step s (SetTurns ts) = set_turns ts s"

definition shared_run :: "shared_state \<Rightarrow> shared_op list \<Rightarrow> shared_state" where
  "shared_run s ops = foldl shared_step s ops"

fun op_time :: "shared_op \<Rightarrow> real" where
  "op_time (OnDetections dets t) = t"
| "op_time (OnIntersection dets r t) = t"
| "op_time (BeginIntersection t) = t"
| "op_time (Complete d t1 t2) = t1"
| "op_time (MarkHandled d t) = t"
| "op_time op = 0"

fun completes :: "shared_op \<Rightarrow> bool" where
  "completes (Complete d t1 t2) = True"
| "completes op = False"

lemma shared_run_simps [simp]:
  "shared_run s [] = s"
  "shared_run s (op # ops) = shared_run (shared_step s op) ops"
  by (simp_all add: shared_run_def)

section \<open>The invariant\<close>

definition shared_inv :: "shared_state \<Rightarrow> bool" where
  "shared_inv s \<longleftrightarrow> decider_wf (obstacles s) \<and> decider_wf (intersections s) \<and>
     INTERSECTION \<notin> decider_actions (obstacles s) \<and>
     dec_action (obstacle s) \<noteq> INTERSECTION \<and>
     dec_action (active s) \<in> {NONE, INTERSECTION}"

lemmas shared_ops = on_detections_def on_intersection_detections_def begin_intersection_def
  mark_intersection_stopped_def complete_intersection_def obstacle_handled_def set_turns_def

lemma shared_inv_new: "shared_inv (new_shared c st)"
  by (auto simp: shared_inv_def new_shared_def decider_actions_def new_decider_def rules_for_def
      Let_def is_intersection_rule_def no_decision_def decider_wf_def split: option.splits if_splits)

lemma shared_inv_step: "shared_inv s \<Longrightarrow> 0 \<le> op_time op \<Longrightarrow> shared_inv (shared_step s op)"
  by (cases op)
    (auto simp: shared_inv_def shared_ops Let_def case_prod_beta dec.ok_intros dec.actions_simps
      dec.out_not)

lemma shared_inv_run:
  "shared_inv s \<Longrightarrow> list_all (\<lambda>op. 0 \<le> op_time op) ops \<Longrightarrow> shared_inv (shared_run s ops)"
  by (induction ops arbitrary: s) (auto simp: shared_inv_step)

lemma current_cases:
  assumes "shared_inv s"
  shows "dec_action (current t s) = INTERSECTION \<Longrightarrow>
      current t s = active s \<or> current t s = intersection s"
  using assms by (auto simp: current_def Let_def shared_inv_def split: if_splits)

definition discharged :: "decision \<Rightarrow> shared_op list \<Rightarrow> decision" where
  \<comment> \<open>a latched decision after the operations: its stop is done once one of them says so\<close>
  "discharged d ops = (if MarkStopped \<in> set ops then d\<lparr>needs_stop := False\<rparr> else d)"

fun heard_times :: "shared_op list \<Rightarrow> real list" where
  \<comment> \<open>the times at which the obstacle stream was updated\<close>
  "heard_times [] = []"
| "heard_times (OnDetections dets t # ops) = t # heard_times ops"
| "heard_times (op # ops) = heard_times ops"

lemma active_step:
  assumes "\<not> completes op" "dec_action (active s) = INTERSECTION"
  shows "active (shared_step s op) = discharged (active s) [op]"
  using assms by (cases op) (auto simp: discharged_def shared_ops Let_def case_prod_beta)

lemma active_run:
  assumes "list_all (\<lambda>op. \<not> completes op) ops" "dec_action (active s) = INTERSECTION"
  shows "active (shared_run s ops) = discharged (active s) ops"
  using assms
proof (induction ops arbitrary: s)
  case Nil
  then show ?case by (simp add: discharged_def)
next
  case (Cons op ops)
  then have *: "active (shared_step s op) = discharged (active s) [op]"
    by (intro active_step) auto
  then have "dec_action (active (shared_step s op)) = INTERSECTION"
    using Cons.prems by (simp add: discharged_def)
  with Cons.IH [of "shared_step s op"] Cons.prems show ?case
    by (auto simp: * discharged_def)
qed

lemma stale_run [simp]: "stale (shared_run s ops) = stale s"
proof (induction ops arbitrary: s)
  case (Cons op ops)
  show ?case by (simp add: Cons.IH, cases op) (auto simp: shared_ops Let_def case_prod_beta)
qed simp

lemma obstacle_time_run:
  "obstacle_time (shared_run s ops) = last (obstacle_time s # heard_times ops)"
  by (induction ops arbitrary: s rule: heard_times.induct)
    (auto simp: shared_ops Let_def case_prod_beta)

lemma turns_step:
  "\<not> (\<exists>ts. op = SetTurns ts) \<Longrightarrow>
     turns (shared_step s op) = drop (if completes op then 1 else 0) (turns s)"
  by (cases op) (auto simp: shared_ops Let_def case_prod_beta drop_Suc split: list.splits)

section \<open>Properties\<close>

text \<open>
  C3: A latched intersection can only be preempted by a fresh emergency stop. From the moment
  an intersection is latched, whatever detections, stops and lane-change marks follow,
  and as long as none of them completes the manoeuvre, the latch holds the same decision (its
  stop requirement discharged exactly when \<open>mark_intersection_stopped\<close> was called), and
  the decision handed to the tree at time \<open>t\<close> is the STOP of the obstacle stream, if the
  stream holds one and was updated no longer than the staleness limit ago, and the latched
  decision in every other case: neither a stale STOP nor a lane change nor plain lane
  following can take over.
\<close>

theorem latched_intersection_persists:
  assumes "dec_action (active s) = INTERSECTION"
    and "list_all (\<lambda>op. \<not> completes op) ops"
  shows "active (shared_run s ops) = discharged (active s) ops \<and>
     current t (shared_run s ops) =
       (if t - last (obstacle_time s # heard_times ops) \<le> stale s \<and>
           dec_action (obstacle (shared_run s ops)) = STOP
        then obstacle (shared_run s ops) else discharged (active s) ops)"
  using active_run [OF assms(2,1)] assms(1)
  by (auto simp: current_def Let_def obstacle_time_run discharged_def)

definition line_decision :: decision where
  "line_decision = make_decision INTERSECTION (seen ''stopline'' (- 1) 3)"

definition latched_state :: shared_state where
  \<comment> \<open>a latched stop line, and a STOP of the obstacle stream heard at time 2\<close>
  "latched_state = (new_shared road_config 1)\<lparr>active := line_decision,
     obstacle := no_decision\<lparr>dec_action := STOP\<rparr>, obstacle_time := 2\<rparr>"

theorem latched_intersection_persists_witness:
  "dec_action (current 3 (shared_run latched_state [MarkStopped, SetTurns []])) = STOP \<and>
   current 4 (shared_run latched_state [MarkStopped, SetTurns []]) =
     line_decision\<lparr>needs_stop := False\<rparr>"
  using latched_intersection_persists [of latched_state "[MarkStopped, SetTurns []]" 3]
    latched_intersection_persists [of latched_state "[MarkStopped, SetTurns []]" 4]
  by (simp add: latched_state_def line_decision_def new_shared_def discharged_def
      shared_run_def mark_intersection_stopped_def set_turns_def)

text \<open>
  The streams stay separate. In every state reachable from the constructor, with
  readings of a non-negative clock, the obstacle stream never reports an intersection,
  the latch holds an intersection or nothing, and an intersection is only reported from
  the latch or from the intersection stream.
\<close>

theorem streams_stay_separate:
  assumes "list_all (\<lambda>op. 0 \<le> op_time op) ops"
  shows "dec_action (obstacle (shared_run (new_shared c st) ops)) \<noteq> INTERSECTION \<and>
     dec_action (active (shared_run (new_shared c st) ops)) \<in> {NONE, INTERSECTION} \<and>
     (dec_action (current t (shared_run (new_shared c st) ops)) \<noteq> INTERSECTION \<or>
      current t (shared_run (new_shared c st) ops) = active (shared_run (new_shared c st) ops) \<or>
      current t (shared_run (new_shared c st) ops) = intersection (shared_run (new_shared c st) ops))"
  using shared_inv_run [OF shared_inv_new assms] current_cases
  by (auto simp: shared_inv_def)

theorem streams_stay_separate_witness:
  "dec_action (obstacle (shared_run (new_shared road_config 1)
     [OnDetections [seen ''barrel'' 7 3] 2, BeginIntersection 3])) \<noteq> INTERSECTION"
  using streams_stay_separate [of "[OnDetections [seen ''barrel'' 7 3] 2, BeginIntersection 3]"
      road_config 1] by simp

text \<open>
  One turn per completed intersection. While no new turn list is set, the queue of
  turns after a run is the initial queue without its first elements, one for each
  completion, so a turn is used exactly once and in the configured order.
\<close>

theorem turns_consumed_in_order:
  assumes "list_all (\<lambda>op. \<not> (\<exists>ts. op = SetTurns ts)) ops"
  shows "turns (shared_run s ops) = drop (length (filter completes ops)) (turns s)"
  using assms
proof (induction ops arbitrary: s)
  case Nil
  then show ?case by simp
next
  case (Cons op ops)
  then show ?case by (cases "completes op") (simp_all add: turns_step)
qed

theorem turns_consumed_in_order_witness:
  "turns (shared_run (set_turns [0, 2, 1] (new_shared road_config 1))
     [Complete line_decision 3 4, MarkStopped, Complete line_decision 9 9]) = [1]"
  using turns_consumed_in_order [of "[Complete line_decision 3 4, MarkStopped, Complete line_decision 9 9]"
      "set_turns [0, 2, 1] (new_shared road_config 1)"]
  by (simp add: set_turns_def numeral_2_eq_2)

end
