(* ===== verification/Intersection_Input.thy ===== *)
theory Intersection_Input
  imports Shared_State Messages
begin

text \<open>
  The intersection inputs, \<open>src/bt/include/bt/intersection_input.hpp\<close>: sign detections
  with stop-line depth and the raw stop-line cloud become detection lists for the
  intersection decider. The TF buffer is a record of functions; the clock is a sequence of
  readings, in the order the handler takes them.

  The lemmas show that a manoeuvre only ever has to stop for a sign that was observed to be
  real, that the cloud is silent while signs are seen, and which distance the cloud yields.
\<close>

section \<open>State\<close>

type_synonym clock = "nat \<Rightarrow> real"

record 'tr tf_buffer =
  tf_lookup :: "'tr lookup"
  tf_time :: "'tr \<Rightarrow> real"
  tf_point :: "'tr \<Rightarrow> dbl \<Rightarrow> dbl \<times> dbl"
  tf_cloud :: "'tr \<Rightarrow> cloud \<Rightarrow> cloud"

record input_config =
  in_base :: string
  in_odom :: string
  in_sign_class :: string
  in_max_age :: real
  in_tf_tolerance :: real
  in_sign_ttl :: real
  in_min_score :: real
  in_real_threshold :: real
  in_half_width :: real
  in_min_points :: int

record input_state =
  shared :: shared_state
  real_sign_stamp :: real
  sign_input_stamp :: real

definition new_input :: "shared_state \<Rightarrow> input_state" where
  "new_input s = \<lparr>shared = s, real_sign_stamp = - 1000000000, sign_input_stamp = - 1000000000\<rparr>"

section \<open>Operations\<close>

definition fresh :: "input_config \<Rightarrow> real \<Rightarrow> real \<Rightarrow> bool" where
  "fresh c now st \<longleftrightarrow> (let age = now - st in age \<ge> - 0.05 \<and> age \<le> in_max_age c)"

definition line_detection ::
    "'tr tf_buffer \<Rightarrow> input_config \<Rightarrow> real \<Rightarrow> dbl \<Rightarrow> int \<Rightarrow> header \<Rightarrow> tf_error + detection" where
  "line_detection tf c now dst points h =
     (let found = (case tf_lookup tf (in_odom c) (frame_id h) (Some (stamp h)) of
          Inr tr \<Rightarrow> Inr tr
        | Inl ExtrapolationError \<Rightarrow>
            (if \<not> in_tf_tolerance c > 0 then Inl ExtrapolationError
             else case tf_lookup tf (in_odom c) (frame_id h) None of
               Inl e \<Rightarrow> Inl e
             | Inr tr \<Rightarrow>
                 if \<bar>tf_time tf tr - stamp h\<bar> > in_tf_tolerance c \<or>
                    \<bar>now - tf_time tf tr\<bar> > in_max_age c
                 then Inl ExtrapolationError else Inr tr)
        | Inl e \<Rightarrow> Inl e)
      in case found of
           Inl e \<Rightarrow> Inl e
         | Inr tr \<Rightarrow>
             let (wx, wy) = tf_point tf tr dst in
             Inr (default_detection\<lparr>det_cls := ''stopline'', det_valid := True, det_score := Fin 1,
                  det_n_pts := points, det_distance := dst, det_x := wx, det_y := wy\<rparr>))"

definition add_real_sign ::
    "input_config \<Rightarrow> real \<Rightarrow> input_state \<Rightarrow> detection list \<Rightarrow> detection list" where
  "add_real_sign c now s dets =
     (if dets \<noteq> [] \<and> now - real_sign_stamp s \<le> in_sign_ttl c \<and>
         real_sign_stamp s > last_intersection_completed (shared s)
      then dets @ [(hd dets)\<lparr>det_cls := ''sign'', det_observed_at := Fin (real_sign_stamp s)\<rparr>]
      else dets)"

definition sign_candidate :: "input_config \<Rightarrow> detection2d \<Rightarrow> bool" where
  "sign_candidate c d \<longleftrightarrow>
     (class_name d = in_sign_class c \<or> is_stop_sign d) \<and>
     \<not> (\<not> isfinite (score d) \<or> score d < Fin (in_min_score c))"

definition sign_has_depth :: "input_config \<Rightarrow> detection2d \<Rightarrow> bool" where
  "sign_has_depth c d \<longleftrightarrow>
     \<not> (\<not> depth_valid d \<or> \<not> isfinite (distance d) \<or> distance d < Fin 0 \<or>
        n_pts d < word_of_int (max 1 (in_min_points c)))"

definition sign_loop :: "input_config \<Rightarrow> detection2d \<Rightarrow> detection2d option \<times> bool \<Rightarrow> detection2d option \<times> bool" where
  \<comment> \<open>the body of the loop over the detections; the pair is (nearest, saw_sign)\<close>
  "sign_loop c d st =
     (let (nearest, saw) = st in
      if \<not> sign_candidate c d then (nearest, saw)
      else if \<not> sign_has_depth c d then (nearest, True)
      else case nearest of
        None \<Rightarrow> (Some d, True)
      | Some n \<Rightarrow> if distance d < distance n then (Some d, True) else (nearest, True))"

definition real_sign :: "input_config \<Rightarrow> detection2d \<Rightarrow> bool" where
  "real_sign c d \<longleftrightarrow> is_stop_sign d \<and> isfinite (sign_real_prob d) \<and>
     Fin (in_real_threshold c) \<le> sign_real_prob d \<and> sign_real_prob d \<le> Fin 1"

definition on_signs ::
    "'tr tf_buffer \<Rightarrow> input_config \<Rightarrow> clock \<Rightarrow> header \<Rightarrow> detection2d list \<Rightarrow> input_state \<Rightarrow> input_state" where
  "on_signs tf c clk h ds s =
     (if \<not> fresh c (clk 0) (stamp h) then s
      else let (nearest, saw) = fold (sign_loop c) ds (None, False) in
        if \<not> saw then s
        else let s1 = s\<lparr>sign_input_stamp := stamp h\<rparr> in
          case nearest of
            None \<Rightarrow> s1\<lparr>shared := on_intersection_detections [] False (clk 3) (shared s1)\<rparr>
          | Some d \<Rightarrow>
              let s2 = s1\<lparr>real_sign_stamp := (if real_sign c d then stamp h else - 1000000000)\<rparr>;
                  dets = (case line_detection tf c (clk 1) (distance d) (sint (n_pts d)) h of
                            Inl e \<Rightarrow> []
                          | Inr l \<Rightarrow> add_real_sign c (clk 2) s2 [l])
              in s2\<lparr>shared := on_intersection_detections dets True (clk 3) (shared s2)\<rparr>)"

definition forward_points :: "input_config \<Rightarrow> cloud \<Rightarrow> real list" where
  "forward_points c pts =
     map (\<lambda>(x, y, z). val_of x)
       (filter (\<lambda>(x, y, z). isfinite x \<and> isfinite y \<and> isfinite z \<and> Fin 0 \<le> x \<and>
                  \<bar>y\<bar> \<le> Fin (in_half_width c)) pts)"

definition base_cloud :: "'tr tf_buffer \<Rightarrow> input_config \<Rightarrow> header \<Rightarrow> cloud \<Rightarrow> tf_error + cloud" where
  "base_cloud tf c h pts =
     (if frame_id h = in_base c then Inr pts
      else case tf_lookup tf (in_base c) (frame_id h) (Some (stamp h)) of
             Inl e \<Rightarrow> Inl e | Inr tr \<Rightarrow> Inr (tf_cloud tf tr pts))"

definition line_points :: "'tr tf_buffer \<Rightarrow> input_config \<Rightarrow> clock \<Rightarrow> header \<Rightarrow> cloud \<Rightarrow> input_state \<Rightarrow> detection list" where
  \<comment> \<open>the \<open>try\<close> block of the cloud handler: the list it has built when it ends or throws\<close>
  "line_points tf c clk h pts s =
     (case base_cloud tf c h pts of
        Inl e \<Rightarrow> []
      | Inr cl \<Rightarrow>
          let forward = forward_points c cl in
          if length forward \<ge> nat (max 1 (in_min_points c)) then
            let edge = length forward div 10 in
            case line_detection tf c (clk 2) (Fin (nth_smallest forward edge)) (int (length forward))
                   (h\<lparr>frame_id := in_base c\<rparr>) of
              Inl e \<Rightarrow> []
            | Inr l \<Rightarrow> add_real_sign c (clk 3) s [l]
          else [])"

definition on_line ::
    "'tr tf_buffer \<Rightarrow> input_config \<Rightarrow> clock \<Rightarrow> header \<Rightarrow> cloud \<Rightarrow> input_state \<Rightarrow> input_state" where
  "on_line tf c clk h pts s =
     (if \<not> fresh c (clk 0) (stamp h) \<or> fresh c (clk 1) (sign_input_stamp s) then s
      else s\<lparr>shared := on_intersection_detections (line_points tf c clk h pts s) False (clk 4) (shared s)\<rparr>)"

lemma length_forward_points: "length (forward_points c pts) \<le> length pts"
  by (simp add: forward_points_def)

section \<open>Where a stop requirement comes from\<close>

datatype input_event =
    Signs clock header "detection2d list"
  | Line clock header cloud
  | Other shared_op

fun input_step :: "'tr tf_buffer \<Rightarrow> input_config \<Rightarrow> input_state \<Rightarrow> input_event \<Rightarrow> input_state" where
  "input_step tf c s (Signs clk h ds) = on_signs tf c clk h ds s"
| "input_step tf c s (Line clk h pts) = on_line tf c clk h pts s"
| "input_step tf c s (Other op) = s\<lparr>shared := shared_step (shared s) op\<rparr>"

definition input_run :: "'tr tf_buffer \<Rightarrow> input_config \<Rightarrow> input_state \<Rightarrow> input_event list \<Rightarrow> input_state" where
  "input_run tf c s es = foldl (input_step tf c) s es"

fun event_ok :: "input_event \<Rightarrow> bool" where
  \<comment> \<open>the clock is non-negative, and only the two inputs feed the intersection stream\<close>
  "event_ok (Signs clk h ds) = (0 \<le> clk 3)"
| "event_ok (Line clk h pts) = (0 \<le> clk 4)"
| "event_ok (Other (OnIntersection dets r t)) = False"
| "event_ok (Other op) = (0 \<le> op_time op)"

definition real_stamps :: "input_config \<Rightarrow> input_event list \<Rightarrow> real set" where
  "real_stamps c es = {stamp h | clk h ds. Signs clk h ds \<in> set es \<and>
     (\<exists>d \<in> set ds. sign_candidate c d \<and> sign_has_depth c d \<and> real_sign c d)}"

fun feed_time :: "input_event \<Rightarrow> real option" where
  \<comment> \<open>the reading of the clock at which an input hands its detections to the decider\<close>
  "feed_time (Signs clk h ds) = Some (clk 3)"
| "feed_time (Line clk h pts) = Some (clk 4)"
| "feed_time (Other op) = None"

definition decided_for ::
    "'tr tf_buffer \<Rightarrow> input_config \<Rightarrow> decision_config \<Rightarrow> real \<Rightarrow> input_event list \<Rightarrow> decision \<Rightarrow> bool" where
  \<comment> \<open>the decision was made at an event of the run, within the lifetime of a real sign seen by then\<close>
  "decided_for tf c dc st es d \<longleftrightarrow> (\<exists>pre e post u. es = pre @ e # post \<and> feed_time e = Some u \<and>
     d = intersection (shared (input_run tf c (new_input (new_shared dc st)) (pre @ [e]))) \<and>
     (\<exists>\<tau> \<in> real_stamps c (pre @ [e]). u - \<tau> < stop_sign_ttl dc))"

definition stop_source ::
    "decision_config \<Rightarrow> real set \<Rightarrow> (decision \<Rightarrow> bool) \<Rightarrow> input_state \<Rightarrow> bool" where
  "stop_source dc R D s \<longleftrightarrow> shared_inv (shared s) \<and>
     cfg (intersections (shared s)) = rules_for dc True \<and>
     real_sign_stamp s \<in> insert (- 1000000000) R \<and>
     stop_sign_time (intersections (shared s)) \<in> insert (- 1000000000) R \<and>
     (needs_stop (intersection (shared s)) \<longrightarrow> D (intersection (shared s))) \<and>
     (needs_stop (active (shared s)) \<longrightarrow> D (active (shared s)))"

lemma sign_loop_nearest:
  assumes "fst st = Some d \<longrightarrow> d \<in> D \<and> sign_candidate c d \<and> sign_has_depth c d"
    and "fst (fold (sign_loop c) ds st) = Some d"
  shows "d \<in> D \<union> set ds \<and> sign_candidate c d \<and> sign_has_depth c d"
  using assms
proof (induction ds arbitrary: st D)
  case Nil
  then show ?case by simp
next
  case (Cons e ds)
  have "fst (sign_loop c e st) = Some d \<longrightarrow> d \<in> insert e D \<and> sign_candidate c d \<and> sign_has_depth c d"
    using Cons.prems(1) by (auto simp: sign_loop_def Let_def split: prod.splits option.splits if_splits)
  from Cons.IH [OF this] Cons.prems(2) show ?case by auto
qed

lemma scan_sign_det:
  "scan_sign (scan_det dc now d r) = scan_sign r \<or>
   (\<exists>k. classes dc (det_cls d) = Some k \<and> mark_stop_sign k \<and>
      scan_sign (scan_det dc now d r) = (if isfinite (det_observed_at d) then val_of (det_observed_at d) else now))"
  by (auto simp: scan_det_def Let_def case_prod_beta dest: det_rule_classes split: option.splits)

lemma scan_sign_dets:
  assumes "\<And>d k. d \<in> set dets \<Longrightarrow> classes (cfg s) (det_cls d) = Some k \<Longrightarrow> mark_stop_sign k \<Longrightarrow>
      (if isfinite (det_observed_at d) then val_of (det_observed_at d) else now) \<in> S"
    and "stop_sign_time s \<in> S"
  shows "scan_sign (scan_dets s dets now) \<in> S"
  unfolding scan_dets_def
proof (rule fold_invariant_list [where P = "\<lambda>r. scan_sign r \<in> S"])
  fix d and r :: scan
  assume "d \<in> set dets" "scan_sign r \<in> S"
  with assms(1) [of d] scan_sign_det [of "cfg s" now d r] show "scan_sign (scan_det (cfg s) now d r) \<in> S"
    by metis
qed (simp add: assms(2))

lemma update_needs_stop:
  "needs_stop (fst (update s dets now)) \<Longrightarrow>
     now - stop_sign_time (snd (update s dets now)) < stop_sign_ttl (cfg s)"
  by (auto simp: update_def Let_def split: if_splits)

lemma stop_sign_time_update:
  assumes "\<And>d k. d \<in> set dets \<Longrightarrow> classes (cfg s) (det_cls d) = Some k \<Longrightarrow> mark_stop_sign k \<Longrightarrow>
      (if isfinite (det_observed_at d) then val_of (det_observed_at d) else now) \<in> S"
    and "stop_sign_time s \<in> S"
  shows "stop_sign_time (snd (update s dets now)) \<in> S"
  using scan_sign_dets [of dets "expire now s" now S] assms by (simp add: update_state)

lemma line_detection_shape:
  "line_detection tf c now dst n h = Inr l \<Longrightarrow> det_cls l = ''stopline'' \<and> det_distance l = dst \<and>
     det_n_pts l = n \<and> det_observed_at l = NaN"
  by (auto simp: line_detection_def default_detection_def Let_def split: sum.splits prod.splits)

definition fed :: "input_state \<Rightarrow> detection list \<Rightarrow> bool" where
  \<comment> \<open>what the two inputs hand to the decider\<close>
  "fed s dets \<longleftrightarrow> (\<forall>d \<in> set dets. det_cls d = ''stopline'' \<or>
     (det_cls d = ''sign'' \<and> det_observed_at d = Fin (real_sign_stamp s)))"

lemma fed_Nil [simp]: "fed s []"
  by (simp add: fed_def)

lemma fed_add_real_sign: "det_cls l = ''stopline'' \<Longrightarrow> fed s (add_real_sign c now s [l])"
  by (simp add: fed_def add_real_sign_def)

lemma fed_line_points: "fed s (line_points tf c clk h pts s)"
  by (auto simp: line_points_def Let_def split: sum.splits dest: line_detection_shape
      intro: fed_add_real_sign)

lemma stop_source_feed:
  assumes src: "stop_source dc R D s" and fed: "fed s dets" and now: "0 \<le> now"
    and plain: "\<And>k. classes dc ''stopline'' = Some k \<Longrightarrow> \<not> mark_stop_sign k"
    and ttl: "stop_sign_ttl dc \<le> 1000000000"
    and D: "\<And>\<tau>. \<tau> \<in> R \<Longrightarrow> now - \<tau> < stop_sign_ttl dc \<Longrightarrow>
      D (intersection (on_intersection_detections dets b now (shared s)))"
  shows "stop_source dc R D (s\<lparr>shared := on_intersection_detections dets b now (shared s)\<rparr>)"
proof -
  let ?i = "if b then clear_stop_sign (intersections (shared s)) else intersections (shared s)"
  have rules: "cfg ?i = rules_for dc True" using src by (auto simp: stop_source_def)
  have cl: "classes (rules_for dc True) n = Some k \<Longrightarrow> classes dc n = Some k" for n k
    by (auto simp: rules_for_def Let_def split: option.splits if_splits)
  have time: "stop_sign_time (snd (update ?i dets now)) \<in> insert (- 1000000000) R"
  proof (rule stop_sign_time_update)
    fix d k
    assume d: "d \<in> set dets" and k: "classes (cfg ?i) (det_cls d) = Some k" "mark_stop_sign k"
    from k(1) have "classes dc (det_cls d) = Some k" by (simp only: rules cl)
    with plain k(2) have "det_cls d \<noteq> ''stopline''" by metis
    with fed d have "det_observed_at d = Fin (real_sign_stamp s)" unfolding fed_def by blast
    with src show "(if isfinite (det_observed_at d) then val_of (det_observed_at d) else now)
        \<in> insert (- 1000000000) R"
      by (simp add: stop_source_def)
  next
    show "stop_sign_time ?i \<in> insert (- 1000000000) R"
      using src by (simp add: stop_source_def clear_stop_sign_def)
  qed
  have "stop_sign_ttl (cfg ?i) = stop_sign_ttl dc"
    by (simp add: rules rules_for_def Let_def)
  then have need: "needs_stop (fst (update ?i dets now)) \<Longrightarrow> D (fst (update ?i dets now))"
    using update_needs_stop [of ?i dets now] time now ttl
      D [of "stop_sign_time (snd (update ?i dets now))"]
    by (auto simp: on_intersection_detections_def Let_def case_prod_beta)
  have "shared_inv (on_intersection_detections dets b now (shared s))"
    using src now shared_inv_step [of "shared s" "OnIntersection dets b now"]
    by (simp add: stop_source_def)
  with src time need rules show ?thesis
    by (auto simp: stop_source_def on_intersection_detections_def Let_def case_prod_beta)
qed

lemma stop_source_mono:
  "stop_source dc R D s \<Longrightarrow> R \<subseteq> R' \<Longrightarrow> (\<And>d. D d \<Longrightarrow> D' d) \<Longrightarrow> stop_source dc R' D' s"
  by (auto simp: stop_source_def)

lemma event_ok_time: "event_ok (Other op) \<Longrightarrow> 0 \<le> op_time op"
  by (cases op) auto

lemma stop_source_other:
  assumes "stop_source dc R D s" "event_ok (Other op)"
  shows "stop_source dc R D (s\<lparr>shared := shared_step (shared s) op\<rparr>)"
proof -
  have inv: "shared_inv (shared s)" using assms(1) by (simp add: stop_source_def)
  have "shared_inv (shared_step (shared s) op)"
    using inv event_ok_time [OF assms(2)] by (rule shared_inv_step)
  moreover have "needs_stop (current t (shared s)) \<Longrightarrow> dec_action (current t (shared s)) = INTERSECTION \<Longrightarrow>
      D (current t (shared s))" for t
    using current_cases [OF inv, of t] assms(1) by (auto simp: stop_source_def)
  ultimately show ?thesis
    using assms by (cases op)
      (auto simp: stop_source_def shared_ops Let_def case_prod_beta mark_handled_def
        simp del: op_time.simps)
qed

lemma fed_cong: "real_sign_stamp s' = real_sign_stamp s \<Longrightarrow> fed s' dets = fed s dets"
  by (simp add: fed_def)

lemma stop_source_stamp:
  "stop_source dc R D s \<Longrightarrow> t \<in> insert (- 1000000000) R \<Longrightarrow>
     stop_source dc R D (s\<lparr>sign_input_stamp := u, real_sign_stamp := t\<rparr>)"
  "stop_source dc R D s \<Longrightarrow> stop_source dc R D (s\<lparr>sign_input_stamp := u\<rparr>)"
  by (auto simp: stop_source_def)

lemma on_signs_ignored:
  "\<not> fresh c (clk 0) (stamp h) \<Longrightarrow> on_signs tf c clk h ds s = s"
  "fold (sign_loop c) ds (None, False) = (n, False) \<Longrightarrow> on_signs tf c clk h ds s = s"
  by (auto simp: on_signs_def)

definition sign_dets ::
    "'tr tf_buffer \<Rightarrow> input_config \<Rightarrow> clock \<Rightarrow> header \<Rightarrow> detection2d \<Rightarrow> input_state \<Rightarrow> detection list" where
  "sign_dets tf c clk h d s = (case line_detection tf c (clk 1) (distance d) (sint (n_pts d)) h of
     Inl e \<Rightarrow> [] | Inr l \<Rightarrow> add_real_sign c (clk 2) s [l])"

lemma on_signs_seen:
  assumes "fresh c (clk 0) (stamp h)" "fold (sign_loop c) ds (None, False) = (n, True)"
  shows "on_signs tf c clk h ds s =
    (case n of
       None \<Rightarrow> let s1 = s\<lparr>sign_input_stamp := stamp h\<rparr>
         in s1\<lparr>shared := on_intersection_detections [] False (clk 3) (shared s1)\<rparr>
     | Some d \<Rightarrow> let s2 = s\<lparr>sign_input_stamp := stamp h,
           real_sign_stamp := (if real_sign c d then stamp h else - 1000000000)\<rparr>
         in s2\<lparr>shared := on_intersection_detections (sign_dets tf c clk h d s2) True (clk 3) (shared s2)\<rparr>)"
  using assms by (auto simp: on_signs_def sign_dets_def Let_def split: option.splits)

lemma fed_sign_dets: "fed s (sign_dets tf c clk h d s)"
  by (auto simp: sign_dets_def split: sum.splits dest: line_detection_shape intro: fed_add_real_sign)

lemma stop_source_signs:
  assumes src: "stop_source dc R D s" and now: "0 \<le> clk 3"
    and plain: "\<And>k. classes dc ''stopline'' = Some k \<Longrightarrow> \<not> mark_stop_sign k"
    and ttl: "stop_sign_ttl dc \<le> 1000000000"
    and R: "(\<exists>d \<in> set ds. sign_candidate c d \<and> sign_has_depth c d \<and> real_sign c d) \<Longrightarrow> stamp h \<in> R"
    and D: "\<And>\<tau>. \<tau> \<in> R \<Longrightarrow> clk 3 - \<tau> < stop_sign_ttl dc \<Longrightarrow>
      D (intersection (shared (on_signs tf c clk h ds s)))"
  shows "stop_source dc R D (on_signs tf c clk h ds s)"
proof -
  obtain n saw where fold: "fold (sign_loop c) ds (None, False) = (n, saw)" by fastforce
  show ?thesis
  proof (cases "fresh c (clk 0) (stamp h) \<and> saw")
    case False
    with src fold show ?thesis by (auto simp: on_signs_ignored)
  next
    case True
    note seen = on_signs_seen [of c clk h ds n tf s]
    show ?thesis
    proof (cases n)
      case None
      have "stop_source dc R D (s\<lparr>sign_input_stamp := stamp h\<rparr>)"
        using src by (rule stop_source_stamp)
      from stop_source_feed [OF this fed_Nil now plain ttl, of False] None seen fold True D
      show ?thesis by (simp add: Let_def)
    next
      case (Some d)
      let ?t = "if real_sign c d then stamp h else - 1000000000"
      have "d \<in> set ds \<and> sign_candidate c d \<and> sign_has_depth c d"
        using sign_loop_nearest [of "(None, False)" d "{}" c ds] Some fold by simp
      with R have "?t \<in> insert (- 1000000000) R" by auto
      with src have "stop_source dc R D (s\<lparr>sign_input_stamp := stamp h, real_sign_stamp := ?t\<rparr>)"
        by (rule stop_source_stamp)
      from stop_source_feed [OF this fed_sign_dets now plain ttl, of tf c clk h d True]
        Some seen fold True D
      show ?thesis by (simp add: Let_def split del: if_split)
    qed
  qed
qed

lemma stop_source_line:
  assumes "stop_source dc R D s" "0 \<le> clk 4"
    and "\<And>k. classes dc ''stopline'' = Some k \<Longrightarrow> \<not> mark_stop_sign k"
    and "stop_sign_ttl dc \<le> 1000000000"
    and D: "\<And>\<tau>. \<tau> \<in> R \<Longrightarrow> clk 4 - \<tau> < stop_sign_ttl dc \<Longrightarrow>
      D (intersection (shared (on_line tf c clk h pts s)))"
  shows "stop_source dc R D (on_line tf c clk h pts s)"
proof (cases "fresh c (clk 0) (stamp h) \<and> \<not> fresh c (clk 1) (sign_input_stamp s)")
  case True
  with stop_source_feed [OF assms(1) fed_line_points assms(2,3,4), of tf c clk h pts False] D
  show ?thesis by (simp add: on_line_def)
qed (use assms(1) in \<open>auto simp: on_line_def\<close>)

lemma stop_source_new: "stop_source dc {} D (new_input (new_shared dc st))"
  by (simp add: stop_source_def new_input_def shared_inv_new)
    (simp add: new_shared_def new_decider_def)

lemma decided_for_snoc: "decided_for tf c dc st es d \<Longrightarrow> decided_for tf c dc st (es @ [e]) d"
  unfolding decided_for_def by (metis append.assoc append_Cons)

lemma decided_for_last:
  assumes "feed_time e = Some u" "\<tau> \<in> real_stamps c (es @ [e])" "u - \<tau> < stop_sign_ttl dc"
  shows "decided_for tf c dc st (es @ [e])
     (intersection (shared (input_step tf c (input_run tf c (new_input (new_shared dc st)) es) e)))"
  unfolding decided_for_def
  by (rule exI [of _ es], rule exI [of _ e], rule exI [of _ "[]"], rule exI [of _ u])
    (use assms in \<open>auto simp: input_run_def\<close>)

lemma stop_source_run:
  assumes "list_all event_ok es"
    and "\<And>k. classes dc ''stopline'' = Some k \<Longrightarrow> \<not> mark_stop_sign k"
    and "stop_sign_ttl dc \<le> 1000000000"
  shows "stop_source dc (real_stamps c es) (decided_for tf c dc st es)
     (input_run tf c (new_input (new_shared dc st)) es)"
  using assms(1)
proof (induction es rule: rev_induct)
  case Nil
  then show ?case by (simp add: input_run_def real_stamps_def stop_source_new)
next
  case (snoc e es)
  let ?s = "input_run tf c (new_input (new_shared dc st)) es"
  let ?P = "stop_source dc (real_stamps c (es @ [e])) (decided_for tf c dc st (es @ [e]))"
  have "real_stamps c es \<subseteq> real_stamps c (es @ [e])"
    by (auto simp: real_stamps_def)
  with snoc have src: "?P ?s"
    using stop_source_mono [OF _ _ decided_for_snoc] by simp
  have "?P (input_step tf c ?s e)"
  proof (cases e)
    case (Signs clk h ds)
    have "?P (on_signs tf c clk h ds ?s)"
    proof (rule stop_source_signs [OF src _ assms(2,3)])
      show "0 \<le> clk 3" using snoc.prems Signs by simp
      show "stamp h \<in> real_stamps c (es @ [e])"
        if "\<exists>d \<in> set ds. sign_candidate c d \<and> sign_has_depth c d \<and> real_sign c d"
        using that Signs unfolding real_stamps_def by (auto intro!: exI [of _ h])
    qed (use decided_for_last [of e "clk 3"] Signs in auto)
    with Signs show ?thesis by simp
  next
    case (Line clk h pts)
    have "?P (on_line tf c clk h pts ?s)"
    proof (rule stop_source_line [OF src _ assms(2,3)])
      show "0 \<le> clk 4" using snoc.prems Line by simp
    qed (use decided_for_last [of e "clk 4"] Line in auto)
    with Line show ?thesis by simp
  next
    case (Other op)
    with snoc.prems have "event_ok (Other op)" by simp
    from stop_source_other [OF src this] Other show ?thesis by simp
  qed
  then show ?case by (simp add: input_run_def)
qed

section \<open>Properties\<close>

text \<open>
  C4: The robot stops only for real signs, and only while they are valid. Suppose the class
  table does not itself mark the stop line as a sign, the sign lifetime \<open>stop_sign_ttl\<close> is
  at most the 1e9 seconds by which the code puts the initial stamps in the past, and the clock
  is non-negative. Then any intersection decision requiring a stop, in any state the
  inputs can reach, is the one made at some event of the run, when the clock showed \<open>u\<close>;
  and by that event a sign detection had arrived, with depth and with a reported authenticity
  that is finite, at least the configured threshold, and at most 1, whose stamp was less than
  the sign lifetime before \<open>u\<close>. Fake, unclassified and expired signs never cause a stop.
\<close>

theorem stop_requires_real_sign:
  assumes "list_all event_ok es"
    and "\<And>k. classes dc ''stopline'' = Some k \<Longrightarrow> \<not> mark_stop_sign k"
    and "stop_sign_ttl dc \<le> 1000000000"
    and "dec_action (current t (shared (input_run tf c (new_input (new_shared dc st)) es))) = INTERSECTION"
    and "needs_stop (current t (shared (input_run tf c (new_input (new_shared dc st)) es)))"
  shows "\<exists>pre e post u clk h ds d. es = pre @ e # post \<and> feed_time e = Some u \<and>
     current t (shared (input_run tf c (new_input (new_shared dc st)) es)) =
       intersection (shared (input_run tf c (new_input (new_shared dc st)) (pre @ [e]))) \<and>
     Signs clk h ds \<in> set (pre @ [e]) \<and> u - stamp h < stop_sign_ttl dc \<and>
     d \<in> set ds \<and> sign_candidate c d \<and> sign_has_depth c d \<and> real_sign c d"
proof -
  let ?s = "input_run tf c (new_input (new_shared dc st)) es"
  have src: "stop_source dc (real_stamps c es) (decided_for tf c dc st es) ?s"
    using assms(1-3) by (rule stop_source_run)
  then have "shared_inv (shared ?s)" by (simp add: stop_source_def)
  from current_cases [OF this assms(4)] assms(5) src
  have "decided_for tf c dc st es (current t (shared ?s))"
    by (auto simp: stop_source_def)
  then show ?thesis unfolding decided_for_def real_stamps_def by fast
qed

text \<open>
  The cloud's stop-line distance resists outliers. When the stop-line handler produces a
  detection from a cloud, its distance is that of one of the points inside the corridor,
  at most one tenth of those points are strictly nearer, and strictly more than one tenth
  (rounded down) are at least as near.
\<close>

theorem line_distance_percentile:
  assumes "line_points tf c clk h pts s = l # rest" and "base_cloud tf c h pts = Inr cl"
  shows "\<exists>m \<in> set (forward_points c cl). det_distance l = Fin m \<and>
     length (filter (\<lambda>v. v < m) (forward_points c cl)) \<le> length (forward_points c cl) div 10 \<and>
     length (forward_points c cl) div 10 < length (filter (\<lambda>v. v \<le> m) (forward_points c cl))"
proof -
  let ?f = "forward_points c cl"
  let ?m = "nth_smallest ?f (length ?f div 10)"
  from assms have big: "nat (max 1 (in_min_points c)) \<le> length ?f" and "det_distance l = Fin ?m"
    by (auto simp: line_points_def Let_def add_real_sign_def split: if_splits sum.splits
        dest!: line_detection_shape)
  moreover from big have "length ?f div 10 < length ?f" by linarith
  ultimately show ?thesis
    using nth_smallest_counts [of "length ?f div 10" ?f] by blast
qed

section \<open>Witnesses\<close>

definition flat_tf :: "unit tf_buffer" where
  \<comment> \<open>a TF buffer in which every frame coincides with every other\<close>
  "flat_tf = \<lparr>tf_lookup = (\<lambda>_ _ _. Inr ()), tf_time = (\<lambda>_. 0), tf_point = (\<lambda>_ d. (d, Fin 0)),
     tf_cloud = (\<lambda>_ pts. pts)\<rparr>"

definition sign_input :: input_config where
  "sign_input = \<lparr>in_base = ''link_base'', in_odom = ''odom'', in_sign_class = ''sign'',
     in_max_age = 0.5, in_tf_tolerance = 0.1, in_sign_ttl = 20, in_min_score = 0.5,
     in_real_threshold = 0.5, in_half_width = 1.2, in_min_points = 5\<rparr>"

definition real_stop_sign :: detection2d where
  "real_stop_sign = (plain_detection ''sign'' 3)\<lparr>is_stop_sign := True, sign_real_prob := Fin 1\<rparr>"

definition quick_config :: decision_config where
  "quick_config = road_config\<lparr>confirm_intersection := 1\<rparr>"

lemma quick_rules:
  "classes (rules_for quick_config True) ''stopline'' =
     Some \<lparr>rule_action = INTERSECTION, trigger_distance = 4, mark_stop_sign = False\<rparr>"
  "classes (rules_for quick_config True) ''sign'' =
     Some \<lparr>rule_action = NONE, trigger_distance = 8, mark_stop_sign = True\<rparr>"
  "min_score (rules_for quick_config True) = 0.5" "min_points (rules_for quick_config True) = 1"
  "max_lateral_offset (rules_for quick_config True) = 1.2"
  "confirm_intersection (rules_for quick_config True) = 1"
  "intersection_hold (rules_for quick_config True) = 20" "stop_sign_ttl (rules_for quick_config True) = 20"
  "confirm_stop (rules_for quick_config True) = 3" "confirm_change (rules_for quick_config True) = 2"
  "hold_time (rules_for quick_config True) = 0.5"
  by (simp_all add: rules_for_def Let_def quick_config_def road_classes road_params is_intersection_rule_def)

definition sign_seen :: input_state where
  "sign_seen = input_run flat_tf sign_input (new_input (new_shared quick_config 1))
     [Signs (\<lambda>_. 10) \<lparr>stamp = 10, frame_id = ''link_base''\<rparr> [real_stop_sign]]"

lemma sign_seen_line:
  "line_detection flat_tf sign_input 10 (Fin 3) 9 h =
     Inr (default_detection\<lparr>det_cls := ''stopline'', det_valid := True, det_score := Fin 1,
       det_n_pts := 9, det_distance := Fin 3, det_x := Fin 3, det_y := Fin 0\<rparr>)"
  by (simp add: line_detection_def flat_tf_def Let_def)

lemma sign_seen_current:
  "dec_action (current 10 (shared sign_seen)) = INTERSECTION \<and> needs_stop (current 10 (shared sign_seen))"
proof -
  have real: "real_sign sign_input real_stop_sign" "sign_candidate sign_input real_stop_sign"
    "sign_has_depth sign_input real_stop_sign" "distance real_stop_sign = Fin 3" "n_pts real_stop_sign = 9"
    by (simp_all add: real_sign_def sign_candidate_def sign_has_depth_def sign_input_def
        real_stop_sign_def plain_detection_def)
  show ?thesis
    by (simp add: sign_seen_def input_run_def on_signs_def fresh_def sign_loop_def real sign_seen_line
        Let_def new_input_def new_shared_def add_real_sign_def last_intersection_completed_def
        on_intersection_detections_def clear_stop_sign_def case_prod_beta)
      (simp add: sign_input_def current_def update_def new_decider_def Let_def expire_def scan_dets_def
        scan_det_def det_rule_def keep_nearer_def slot_active_def settle_def fires_def confirm_of_def
        hold_of_def quick_rules default_detection_def)
qed

theorem stop_requires_real_sign_witness:
  "\<exists>pre e post u clk h ds d.
     [Signs (\<lambda>_. 10) \<lparr>stamp = 10, frame_id = ''link_base''\<rparr> [real_stop_sign]] = pre @ e # post \<and>
     feed_time e = Some u \<and>
     current 10 (shared sign_seen) =
       intersection (shared (input_run flat_tf sign_input (new_input (new_shared quick_config 1)) (pre @ [e]))) \<and>
     Signs clk h ds \<in> set (pre @ [e]) \<and> u - stamp h < stop_sign_ttl quick_config \<and>
     d \<in> set ds \<and> sign_candidate sign_input d \<and> sign_has_depth sign_input d \<and> real_sign sign_input d"
  unfolding sign_seen_def
proof (rule stop_requires_real_sign)
  show "\<not> mark_stop_sign k" if "classes quick_config ''stopline'' = Some k" for k
    using that by (auto simp: quick_config_def road_classes)
qed (use sign_seen_current in \<open>simp_all add: sign_seen_def quick_config_def road_params\<close>)

definition painted_line :: cloud where
  "painted_line = map (\<lambda>k. (Fin k, Fin 0, Fin 0)) [3, 2, 4, 3, 5]"

theorem line_distance_percentile_witness:
  "\<exists>m \<in> set (forward_points sign_input painted_line).
     length (filter (\<lambda>v. v < m) (forward_points sign_input painted_line)) \<le> 0"
proof -
  let ?h = "\<lparr>stamp = 10, frame_id = ''link_base''\<rparr>"
  let ?s = "new_input (new_shared quick_config 1)"
  have fwd: "forward_points sign_input painted_line = [3, 2, 4, 3, 5]"
    by (simp add: forward_points_def sign_input_def painted_line_def)
  have base: "base_cloud flat_tf sign_input ?h painted_line = Inr painted_line"
    by (simp add: base_cloud_def sign_input_def)
  obtain l where l: "line_detection flat_tf sign_input 10 d n h = Inr (l d n h)" for d n h
    by (simp add: line_detection_def flat_tf_def Let_def)
  have "line_points flat_tf sign_input (\<lambda>_. 10) ?h painted_line ?s \<noteq> []"
    by (simp add: line_points_def base fwd l Let_def add_real_sign_def)
      (simp add: sign_input_def)
  then obtain l rest where "line_points flat_tf sign_input (\<lambda>_. 10) ?h painted_line ?s = l # rest"
    by (cases "line_points flat_tf sign_input (\<lambda>_. 10) ?h painted_line ?s") auto
  from line_distance_percentile [OF this base] show ?thesis
    unfolding fwd by auto
qed

end
