(* ===== verification/BT_Nodes.thy ===== *)
theory BT_Nodes
  imports Intersection_Input
begin

text \<open>
  The leaf nodes of the behaviour tree, \<open>src/bt/include/bt/nodes.hpp\<close>, and what
  \<open>src/bt/src/bt_executor.cpp\<close> does before and beside ticking the tree: its parameters and reasons to exit, the class table, the turn list and
  the conversion of tracked obstacles into detections. A node class is a record of
  its members, a tick returns its status, what it writes to its ports or publishes, and the new
  members. The tree itself (\<open>src/bt/trees/main.xml\<close>) is run by BehaviorTree.CPP: the control nodes and
  the action-client wrapper are not modelled, and the callbacks they invoke are the
  events of a run.

  The lemmas show that no intersection goal is sent before the stop it asks for, that the
  goals carry the turns in order, and that a lane change silences only the obstacle it was sent for.
\<close>

section \<open>Status, ports and goals\<close>

datatype node_status = RUNNING | SUCCESS | FAILURE

datatype result_code = SUCCEEDED | ABORTED | CANCELED | UNKNOWN

datatype node_error = INVALID_GOAL | SERVER_UNREACHABLE | SEND_GOAL_TIMEOUT | GOAL_REJECTED
  | ACTION_ABORTED | ACTION_CANCELLED

record decision_ports =
  port_decision :: string
  port_obstacle_id :: int
  port_needs_stop :: bool
  port_distance :: dbl

record lane_change_goal =
  obstacle_distance :: dbl
  completion_distance :: real
  target_speed :: real
  target_lane_free :: bool

record lane_change_result =
  lc_code :: u8

record turn_goal =
  turn_direction :: u8
  goal_road_width :: real

record turn_result =
  wrapped_code :: result_code
  turn_success :: "bool option"

definition LC_SUCCESS :: u8 where
  \<comment> \<open>\<open>LaneChange.action\<close>: \<open>uint8 SUCCESS = 0\<close>\<close>
  "LC_SUCCESS = 0"

definition TURN_STRAIGHT :: u8 where "TURN_STRAIGHT = 0"
definition TURN_LEFT :: u8 where "TURN_LEFT = 1"
definition TURN_RIGHT :: u8 where "TURN_RIGHT = 2"

definition int32_of :: "int \<Rightarrow> int" where
  \<comment> \<open>\<open>static_cast<int>\<close> of a wider integer\<close>
  "int32_of n = sint (word_of_int n :: 32 word)"

section \<open>Nodes\<close>

record decide_node =
  last_action :: action

definition decide_tick :: "real \<Rightarrow> shared_state \<Rightarrow> decide_node \<Rightarrow> node_status \<times> decision_ports \<times> decide_node" where
  "decide_tick t s n =
     (let d = current t s in
      (SUCCESS,
       \<lparr>port_decision = to_string (dec_action d), port_obstacle_id = int32_of (obstacle_id d),
        port_needs_stop = needs_stop d, port_distance = dec_distance d\<rparr>,
       if dec_action d \<noteq> last_action n then n\<lparr>last_action := dec_action d\<rparr> else n))"

definition retry_on_next_tick ::
    "('c \<Rightarrow> node_status \<times> 'c) \<Rightarrow> ('c \<Rightarrow> 'c) \<Rightarrow> 'c \<Rightarrow> node_status \<times> 'c" where
  \<comment> \<open>the child is a parameter: how it ticks and what resetting it does\<close>
  "retry_on_next_tick tick_child reset_child c =
     (let (result, c') = tick_child c in
      if result = FAILURE then (RUNNING, reset_child c')
      else if result = SUCCESS then (result, reset_child c')
      else (result, c'))"

definition begin_tick :: "real \<Rightarrow> shared_state \<Rightarrow> node_status \<times> bool \<times> shared_state" where
  \<comment> \<open>status, the port \<open>needs_stop\<close>, state\<close>
  "begin_tick t s =
     (let (d, s') = begin_intersection t s
      in (if dec_action d = INTERSECTION then SUCCESS else FAILURE, needs_stop d, s'))"

definition mark_stopped_tick :: "shared_state \<Rightarrow> node_status \<times> bool \<times> shared_state" where
  "mark_stopped_tick s = (SUCCESS, False, mark_intersection_stopped s)"

definition disable_tick :: "node_status \<times> bool list" where
  \<comment> \<open>status and the messages published on the lane gate\<close>
  "disable_tick = (SUCCESS, [False])"

record stop_node =
  last_log :: real

definition stop_tick :: "real \<Rightarrow> stop_node \<Rightarrow> node_status \<times> stop_node" where
  "stop_tick t n = (FAILURE, if t - last_log n > 2 then n\<lparr>last_log := t\<rparr> else n)"

datatype lane_call = OnStart | OnRunning | OnHalted

fun lane_following :: "lane_call \<Rightarrow> node_status option \<times> bool list" where
  "lane_following OnStart = (Some RUNNING, [True])"
| "lane_following OnRunning = (Some RUNNING, [])"
| "lane_following OnHalted = (None, [False])"

subsection \<open>Lane change\<close>

record lane_change_node =
  lc_min_retry :: real
  lc_last_fail :: real
  lc_sent :: decision

definition new_lane_change :: "real \<Rightarrow> lane_change_node" where
  "new_lane_change min_retry = \<lparr>lc_min_retry = min_retry, lc_last_fail = - 1000000000, lc_sent = no_decision\<rparr>"

definition lc_set_goal ::
    "real \<Rightarrow> real \<Rightarrow> shared_state \<Rightarrow> lane_change_node \<Rightarrow> lane_change_goal option \<times> lane_change_node" where
  \<comment> \<open>\<open>t1\<close> is the reading for the lockout, \<open>t2\<close> the one \<open>current\<close> takes\<close>
  "lc_set_goal t1 t2 s n =
     (if t1 - lc_last_fail n < lc_min_retry n then (None, n)
      else let d = current t2 s in
        if dec_action d \<noteq> CHANGE then (None, n)
        else (Some \<lparr>obstacle_distance = (if isfinite (dec_distance d) then dec_distance d else Fin 0),
                    completion_distance = 0, target_speed = 0, target_lane_free = True\<rparr>,
              n\<lparr>lc_sent := d\<rparr>))"

definition lc_on_result ::
    "lane_change_result option \<Rightarrow> real \<Rightarrow> shared_state \<Rightarrow> lane_change_node \<Rightarrow>
     node_status \<times> shared_state \<times> lane_change_node" where
  "lc_on_result r t s n =
     (case r of
        Some res \<Rightarrow> if lc_code res = LC_SUCCESS
                    then (SUCCESS, obstacle_handled (lc_sent n) t s, n)
                    else (FAILURE, s, n\<lparr>lc_last_fail := t\<rparr>)
      | None \<Rightarrow> (FAILURE, s, n\<lparr>lc_last_fail := t\<rparr>))"

definition lc_on_failure :: "node_error \<Rightarrow> real \<Rightarrow> lane_change_node \<Rightarrow> node_status \<times> lane_change_node" where
  "lc_on_failure e t n = (FAILURE, if e = INVALID_GOAL then n else n\<lparr>lc_last_fail := t\<rparr>)"

subsection \<open>Intersection turn\<close>

record turn_node =
  road_width :: real
  it_min_retry :: real
  it_last_fail :: real
  it_sent :: decision

definition new_turn_node :: "real \<Rightarrow> real \<Rightarrow> turn_node" where
  "new_turn_node w min_retry =
     \<lparr>road_width = w, it_min_retry = min_retry, it_last_fail = - 1000000000, it_sent = no_decision\<rparr>"

definition it_set_goal ::
    "real \<Rightarrow> real \<Rightarrow> shared_state \<Rightarrow> turn_node \<Rightarrow> turn_goal option \<times> turn_node" where
  "it_set_goal t1 t2 s n =
     (if t1 - it_last_fail n < it_min_retry n then (None, n)
      else let d = active_intersection s in
        if dec_action d \<noteq> INTERSECTION \<or> needs_stop d then (None, n)
        else case peek_turn s of
          None \<Rightarrow> (None, n\<lparr>it_last_fail := t2\<rparr>)
        | Some turn \<Rightarrow>
            (Some \<lparr>turn_direction = turn, goal_road_width = road_width n\<rparr>, n\<lparr>it_sent := d\<rparr>))"

definition it_on_result ::
    "turn_result \<Rightarrow> real \<Rightarrow> real \<Rightarrow> shared_state \<Rightarrow> turn_node \<Rightarrow> node_status \<times> shared_state \<times> turn_node" where
  "it_on_result r t1 t2 s n =
     (if wrapped_code r = SUCCEEDED \<and> turn_success r = Some True
      then (SUCCESS, complete_intersection (it_sent n) t1 t2 s, n)
      else (FAILURE, s, n\<lparr>it_last_fail := t1\<rparr>))"

definition it_on_failure :: "node_error \<Rightarrow> real \<Rightarrow> turn_node \<Rightarrow> node_status \<times> turn_node" where
  "it_on_failure e t n = (FAILURE, if e \<noteq> INVALID_GOAL then n\<lparr>it_last_fail := t\<rparr> else n)"

section \<open>Executor\<close>

definition parse_action :: "string \<Rightarrow> action" where
  "parse_action s =
     (if s = ''stop'' then STOP else if s = ''change'' then CHANGE
      else if s = ''intersection'' then INTERSECTION else NONE)"

definition class_table ::
    "(string \<Rightarrow> string) \<Rightarrow> (string \<Rightarrow> bool) \<Rightarrow> (string \<Rightarrow> real) \<Rightarrow> string list \<Rightarrow>
     (string \<rightharpoonup> class_rule) \<Rightarrow> (string \<rightharpoonup> class_rule)" where
  \<comment> \<open>the parameters \<open>classes.<name>.action\<close>, \<open>.mark_stop_sign\<close> and \<open>.trigger_distance\<close> as functions of the name\<close>
  "class_table act mark trig names tab =
     fold (\<lambda>n m. m(n \<mapsto> \<lparr>rule_action = parse_action (act n), trigger_distance = trig n,
                         mark_stop_sign = mark n\<rparr>)) names tab"

fun parse_turns :: "string list \<Rightarrow> u8 list option" where
  \<comment> \<open>\<open>None\<close>: a bad name, the executor returns 1\<close>
  "parse_turns [] = Some []"
| "parse_turns (t # ts) =
     (let code = (if t = ''straight'' then Some TURN_STRAIGHT
                  else if t = ''left'' then Some TURN_LEFT
                  else if t = ''right'' then Some TURN_RIGHT else None)
      in case code of None \<Rightarrow> None
         | Some c \<Rightarrow> (case parse_turns ts of None \<Rightarrow> None | Some cs \<Rightarrow> Some (c # cs)))"

text \<open>
  The start of the executor: the parameters it reads, the reasons to exit with 1 (\<open>None\<close>), and the shared state the tree begins with.
  Each member of the configuration is a parameter of its own; the table of classes is built from one list of names.
\<close>

record executor_params =
  ep_tree_file :: string
  ep_stale :: real
  ep_server_wait :: dbl
  ep_config :: decision_config
  ep_class_names :: "string list"
  ep_class_action :: "string \<Rightarrow> string"
  ep_class_mark :: "string \<Rightarrow> bool"
  ep_class_trigger :: "string \<Rightarrow> real"
  ep_turn_names :: "string list"

definition executor_config :: "executor_params \<Rightarrow> decision_config" where
  "executor_config p = (ep_config p)\<lparr>classes :=
     class_table (ep_class_action p) (ep_class_mark p) (ep_class_trigger p) (ep_class_names p) Map.empty\<rparr>"

definition executor_start :: "executor_params \<Rightarrow> shared_state option" where
  "executor_start p =
     (if \<not> isfinite (ep_server_wait p) \<or> ep_server_wait p < Fin 0 then None
      else if ep_tree_file p = [] then None
      else case parse_turns (ep_turn_names p) of
        None \<Rightarrow> None
      | Some ts \<Rightarrow> Some (set_turns ts (new_shared (executor_config p) (ep_stale p))))"

lemma class_table_lookup:
  "class_table act mark trig names tab n =
     (if n \<in> set names then Some \<lparr>rule_action = parse_action (act n), trigger_distance = trig n, mark_stop_sign = mark n\<rparr> else tab n)"
  by (induction names arbitrary: tab) (simp_all add: class_table_def)

lemma executor_class: "classes (executor_config p) n =
    (if n \<in> set (ep_class_names p)
     then Some \<lparr>rule_action = parse_action (ep_class_action p n), trigger_distance = ep_class_trigger p n, mark_stop_sign = ep_class_mark p n\<rparr> else None)"
  by (simp add: executor_config_def class_table_lookup)

lemma executor_start_state:
  "executor_start p = Some s \<Longrightarrow> \<exists>ts. s = set_turns ts (new_shared (executor_config p) (ep_stale p))"
  by (auto simp: executor_start_def split: if_splits option.splits)

lemma executor_starts:
  "executor_start p \<noteq> None \<longleftrightarrow> isfinite (ep_server_wait p) \<and> \<not> ep_server_wait p < Fin 0 \<and> ep_tree_file p \<noteq> [] \<and>
     set (ep_turn_names p) \<subseteq> {''straight'', ''left'', ''right''}"
proof -
  have "parse_turns ts \<noteq> None \<longleftrightarrow> set ts \<subseteq> {''straight'', ''left'', ''right''}" for ts
    by (induction ts) (auto simp: Let_def split: option.split)
  from this [of "ep_turn_names p"] show ?thesis by (auto simp: executor_start_def split: option.split)
qed

definition of_tracked :: "tracked_obstacle \<Rightarrow> detection" where
  "of_tracked it = default_detection\<lparr>det_cls := ob_class_name it, det_score := Fin 1,
     det_n_pts := sint (ob_hits it), det_valid := True, det_distance := Fin (ob_range it),
     det_id := sint (ob_id it), det_x := Fin (fst (position_odom it)),
     det_y := Fin (fst (snd (position_odom it))), det_local_y := Fin (fst (snd (position_base it)))\<rparr>"

definition on_tracked :: "tracked_obstacle_array \<Rightarrow> real \<Rightarrow> shared_state \<Rightarrow> shared_state" where
  "on_tracked msg t s = on_detections (map of_tracked (tracked msg)) t s"

section \<open>Runs\<close>

text \<open>
  A run interleaves the sensor callbacks and the tree's ticks, in the order the single
  executor thread makes them. \<open>Sense\<close> stands for the operations on the shared state that
  other nodes and callbacks make; completing an intersection and setting the turn list are not
  among them.
\<close>

datatype exec_event =
    Sense shared_op
  | LcGoal real real
  | LcResult "lane_change_result option" real
  | LcFail node_error real
  | TurnGoal real real
  | TurnResult turn_result real real
  | TurnFail node_error real

record exec_state =
  ex_shared :: shared_state
  ex_lane :: lane_change_node
  ex_turn :: turn_node

fun exec_step :: "exec_state \<Rightarrow> exec_event \<Rightarrow> exec_state" where
  "exec_step x (Sense op) = x\<lparr>ex_shared := shared_step (ex_shared x) op\<rparr>"
| "exec_step x (LcGoal t1 t2) = x\<lparr>ex_lane := snd (lc_set_goal t1 t2 (ex_shared x) (ex_lane x))\<rparr>"
| "exec_step x (LcResult r t) =
     (let (st, s, n) = lc_on_result r t (ex_shared x) (ex_lane x)
      in x\<lparr>ex_shared := s, ex_lane := n\<rparr>)"
| "exec_step x (LcFail e t) = x\<lparr>ex_lane := snd (lc_on_failure e t (ex_lane x))\<rparr>"
| "exec_step x (TurnGoal t1 t2) = x\<lparr>ex_turn := snd (it_set_goal t1 t2 (ex_shared x) (ex_turn x))\<rparr>"
| "exec_step x (TurnResult r t1 t2) =
     (let (st, s, n) = it_on_result r t1 t2 (ex_shared x) (ex_turn x)
      in x\<lparr>ex_shared := s, ex_turn := n\<rparr>)"
| "exec_step x (TurnFail e t) = x\<lparr>ex_turn := snd (it_on_failure e t (ex_turn x))\<rparr>"

definition exec_run :: "exec_state \<Rightarrow> exec_event list \<Rightarrow> exec_state" where
  "exec_run x es = foldl exec_step x es"

fun sensed :: "exec_event \<Rightarrow> bool" where
  "sensed (Sense (Complete d t1 t2)) = False"
| "sensed (Sense (SetTurns ts)) = False"
| "sensed e = True"

fun succeeds :: "exec_event \<Rightarrow> bool" where
  "succeeds (TurnResult r t1 t2) = (wrapped_code r = SUCCEEDED \<and> turn_success r = Some True)"
| "succeeds e = False"

lemma exec_run_simps [simp]:
  "exec_run x [] = x"
  "exec_run x (es @ [e]) = exec_step (exec_run x es) e"
  by (simp_all add: exec_run_def)

section \<open>What each event does to the latch and the turns\<close>

lemmas node_defs = lc_set_goal_def lc_on_result_def lc_on_failure_def it_set_goal_def
  it_on_result_def it_on_failure_def

fun active_after :: "exec_state \<Rightarrow> exec_event \<Rightarrow> decision" where
  "active_after x (Sense (BeginIntersection t)) =
     (if dec_action (active (ex_shared x)) \<noteq> INTERSECTION \<and>
         dec_action (current t (ex_shared x)) = INTERSECTION
      then current t (ex_shared x) else active (ex_shared x))"
| "active_after x (Sense MarkStopped) = (active (ex_shared x))\<lparr>needs_stop := False\<rparr>"
| "active_after x e = (if succeeds e then no_decision else active (ex_shared x))"

lemma active_sense:
  "sensed (Sense op) \<Longrightarrow> active (shared_step (ex_shared x) op) = active_after x (Sense op)"
  by (cases op) (auto simp: shared_ops Let_def obstacle_handled_def split: prod.splits)

lemma active_exec_step:
  "sensed e \<Longrightarrow> active (ex_shared (exec_step x e)) = active_after x e"
proof (cases e)
  case (Sense op)
  assume "sensed e"
  with Sense show ?thesis by (simp add: active_sense)
qed (auto simp: node_defs Let_def complete_intersection_def obstacle_handled_def
       split: option.splits if_splits)

lemma turns_exec_step:
  assumes "sensed e"
  shows "turns (ex_shared (exec_step x e)) =
    (if succeeds e then tl (turns (ex_shared x)) else turns (ex_shared x))"
proof (cases e)
  case (Sense op)
  with assms show ?thesis
    by (cases op) (auto simp: shared_ops Let_def obstacle_handled_def split: prod.splits)
qed (auto simp: node_defs Let_def complete_intersection_def obstacle_handled_def
       split: option.splits if_splits list.splits)

lemma turns_exec_run:
  "\<forall>e \<in> set es. sensed e \<Longrightarrow>
   turns (ex_shared (exec_run x es)) = drop (length (filter succeeds es)) (turns (ex_shared x))"
  by (induction es rule: rev_induct) (auto simp: turns_exec_step drop_Suc tl_drop simp del: exec_step.simps)

text \<open>\<open>latched x es pre t post\<close>: within \<open>es\<close>, the begin tick after \<open>pre\<close> latched a manoeuvre that is still running.\<close>

definition latched :: "exec_state \<Rightarrow> exec_event list \<Rightarrow> exec_event list \<Rightarrow> real \<Rightarrow> exec_event list \<Rightarrow> bool" where
  "latched x es pre t post \<longleftrightarrow>
     es = pre @ Sense (BeginIntersection t) # post \<and>
     dec_action (active (ex_shared (exec_run x pre))) \<noteq> INTERSECTION \<and>
     dec_action (current t (ex_shared (exec_run x pre))) = INTERSECTION \<and>
     (\<forall>e \<in> set post. \<not> succeeds e)"

definition stop_owed :: "exec_state \<Rightarrow> exec_event list \<Rightarrow> real \<Rightarrow> exec_event list \<Rightarrow> bool" where
  \<comment> \<open>the latched decision demanded a stop and nothing has marked it done\<close>
  "stop_owed x pre t post \<longleftrightarrow>
     needs_stop (current t (ex_shared (exec_run x pre))) \<and> Sense MarkStopped \<notin> set post"

lemma latched_snoc:
  "latched x es pre t post \<Longrightarrow> \<not> succeeds e \<Longrightarrow> latched x (es @ [e]) pre t (post @ [e])"
  by (auto simp: latched_def)

lemma latched_begin:
  "dec_action (active (ex_shared (exec_run x es))) \<noteq> INTERSECTION \<Longrightarrow>
   dec_action (current t (ex_shared (exec_run x es))) = INTERSECTION \<Longrightarrow>
   latched x (es @ [Sense (BeginIntersection t)]) es t []"
  by (simp add: latched_def)

lemma active_after_cases:
  assumes "dec_action (active_after x e) = INTERSECTION" "sensed e"
  obtains
    (latch) t where "e = Sense (BeginIntersection t)" "dec_action (active (ex_shared x)) \<noteq> INTERSECTION"
      "dec_action (current t (ex_shared x)) = INTERSECTION" "active_after x e = current t (ex_shared x)"
  | (stopped) "e = Sense MarkStopped" "dec_action (active (ex_shared x)) = INTERSECTION"
      "\<not> needs_stop (active_after x e)" "\<not> succeeds e"
  | (keep) "e \<noteq> Sense MarkStopped" "active_after x e = active (ex_shared x)" "\<not> succeeds e"
  using assms by (cases "(x, e)" rule: active_after.cases) (auto split: if_splits)

lemma active_is_latched:
  assumes "dec_action (active (ex_shared x)) \<noteq> INTERSECTION" "\<forall>e \<in> set es. sensed e"
    and "dec_action (active (ex_shared (exec_run x es))) = INTERSECTION"
  shows "\<exists>pre t post. latched x es pre t post \<and>
    (needs_stop (active (ex_shared (exec_run x es))) \<longleftrightarrow> stop_owed x pre t post)"
  using assms
proof (induction es rule: rev_induct)
  case (snoc e es)
  let ?y = "exec_run x es"
  have s: "sensed e" and ss: "\<forall>e \<in> set es. sensed e" using snoc.prems(2) by auto
  have after: "active (ex_shared (exec_run x (es @ [e]))) = active_after ?y e"
    using active_exec_step [OF s] by (simp del: exec_step.simps)
  with snoc.prems(3) have act: "dec_action (active_after ?y e) = INTERSECTION" by simp
  from act s show ?case
  proof (cases rule: active_after_cases)
    case (latch t)
    with latched_begin show ?thesis unfolding after
      by (intro exI [of _ es] exI [of _ t] exI [of _ "[]"]) (auto simp: stop_owed_def)
  next
    case stopped
    from snoc.IH [OF snoc.prems(1) ss stopped(2)] obtain pre t post where
      "latched x es pre t post" by blast
    from latched_snoc [OF this stopped(4)] stopped(1,3) show ?thesis unfolding after
      by (intro exI [of _ pre] exI [of _ t] exI [of _ "post @ [e]"]) (simp add: stop_owed_def)
  next
    case keep
    with act have "dec_action (active (ex_shared ?y)) = INTERSECTION" by simp
    from snoc.IH [OF snoc.prems(1) ss this] obtain pre t post where l: "latched x es pre t post"
      "needs_stop (active (ex_shared ?y)) \<longleftrightarrow> stop_owed x pre t post" by blast
    from latched_snoc [OF l(1) keep(3)] l(2) keep(1,2) show ?thesis unfolding after
      by (intro exI [of _ pre] exI [of _ t] exI [of _ "post @ [e]"]) (auto simp: stop_owed_def)
  qed
qed simp

section \<open>Properties\<close>

lemma it_set_goal_sends:
  assumes "it_set_goal t1 t2 s n = (Some g, n')"
  shows "dec_action (active s) = INTERSECTION" "\<not> needs_stop (active s)"
    "\<exists>us. turns s = turn_direction g # us" "it_min_retry n \<le> t1 - it_last_fail n" "it_sent n' = active s"
  using assms
  by (auto simp: it_set_goal_def active_intersection_def peek_turn_def Let_def split: if_splits list.splits)

text \<open>
  C5: No turn before the stop. In every run of the executor that starts with no manoeuvre
  and the turn list \<open>ts\<close>, an intersection goal is only sent while a begin tick has latched a
  manoeuvre that has not succeeded yet, and only if the latched decision asked for no stop or the stop
  has been marked done since; the goal's direction is the entry of \<open>ts\<close> at the number of
  turns that succeeded so far.
\<close>

theorem goal_only_after_stop:
  assumes "dec_action (active (ex_shared x)) \<noteq> INTERSECTION" and "turns (ex_shared x) = ts"
    and "\<forall>e \<in> set es. sensed e"
    and "it_set_goal t1 t2 (ex_shared (exec_run x es)) (ex_turn (exec_run x es)) = (Some g, n')"
  shows "(\<exists>pre t post. latched x es pre t post \<and> \<not> stop_owed x pre t post) \<and>
    length (filter succeeds es) < length ts \<and>
    turn_direction g = ts ! length (filter succeeds es)"
proof -
  note sends = it_set_goal_sends [OF assms(4)]
  obtain us where us: "drop (length (filter succeeds es)) ts = turn_direction g # us"
    using sends(3) turns_exec_run [OF assms(3), of x] assms(2) by metis
  then have "length (filter succeeds es) < length ts"
    by (metis drop_all list.distinct(1) not_less)
  moreover from this us have "turn_direction g = ts ! length (filter succeeds es)"
    by (metis hd_drop_conv_nth list.sel(1))
  ultimately show ?thesis
    using active_is_latched [OF assms(1,3) sends(1)] sends(2) by metis
qed

text \<open>A run that senses a line, latches it and then sends the goal.\<close>

definition exec_start :: exec_state where
  "exec_start = \<lparr>ex_shared = set_turns [TURN_RIGHT, TURN_LEFT] (new_shared quick_config 1),
     ex_lane = new_lane_change 2, ex_turn = new_turn_node 3 2\<rparr>"

definition line_run :: "exec_event list" where
  "line_run = [Sense (OnIntersection [seen ''stopline'' (-1) 3] False 9), Sense (BeginIntersection 9)]"

lemma line_run_active:
  "active (ex_shared (exec_run exec_start line_run)) = make_decision INTERSECTION (seen ''stopline'' (-1) 3)"
  by (simp add: line_run_def exec_run_def exec_start_def set_turns_def new_shared_def
        on_intersection_detections_def begin_intersection_def current_def update_def new_decider_def
        Let_def expire_def scan_dets_def scan_det_def det_rule_def keep_nearer_def slot_active_def
        settle_def fires_def confirm_of_def hold_of_def quick_rules seen_fields)

lemma line_run_goal:
  "it_set_goal 9 9 (ex_shared (exec_run exec_start line_run)) (ex_turn (exec_run exec_start line_run)) =
     (Some \<lparr>turn_direction = TURN_RIGHT, goal_road_width = 3\<rparr>,
      (new_turn_node 3 2)\<lparr>it_sent := make_decision INTERSECTION (seen ''stopline'' (-1) 3)\<rparr>)"
proof -
  have t: "turns (ex_shared (exec_run exec_start line_run)) = [TURN_RIGHT, TURN_LEFT]"
    by (subst turns_exec_run) (simp_all add: line_run_def exec_start_def set_turns_def)
  have n: "ex_turn (exec_run exec_start line_run) = new_turn_node 3 2"
    by (simp add: line_run_def exec_run_def exec_start_def)
  show ?thesis
    by (simp add: it_set_goal_def n t new_turn_node_def active_intersection_def line_run_active
        peek_turn_def Let_def)
qed

theorem goal_only_after_stop_witness:
  "(\<exists>pre t post. latched exec_start line_run pre t post \<and> \<not> stop_owed exec_start pre t post) \<and>
   TURN_RIGHT = [TURN_RIGHT, TURN_LEFT] ! 0"
  using goal_only_after_stop [OF _ _ _ line_run_goal, of "[TURN_RIGHT, TURN_LEFT]"]
  by (simp add: exec_start_def set_turns_def new_shared_def line_run_def)

fun lc_fail_time :: "exec_event \<Rightarrow> real option" where
  "lc_fail_time (LcResult r t) =
     (if \<exists>res. r = Some res \<and> lc_code res = LC_SUCCESS then None else Some t)"
| "lc_fail_time (LcFail e t) = (if e = INVALID_GOAL then None else Some t)"
| "lc_fail_time e = None"

definition lc_fail_times :: "exec_event list \<Rightarrow> real list" where
  "lc_fail_times es = List.map_filter lc_fail_time es"

lemma lc_last_fail_step:
  "lc_last_fail (ex_lane (exec_step x e)) =
     (case lc_fail_time e of None \<Rightarrow> lc_last_fail (ex_lane x) | Some t \<Rightarrow> t)"
  by (cases e) (auto simp: node_defs Let_def split: option.splits prod.splits if_splits)

lemma lc_min_retry_step: "lc_min_retry (ex_lane (exec_step x e)) = lc_min_retry (ex_lane x)"
  by (cases e) (auto simp: node_defs Let_def split: option.splits prod.splits if_splits)

lemma lc_min_retry_run: "lc_min_retry (ex_lane (exec_run x es)) = lc_min_retry (ex_lane x)"
  by (induction es rule: rev_induct) (simp_all add: lc_min_retry_step del: exec_step.simps)

lemma lc_last_fail_run:
  "lc_last_fail (ex_lane (exec_run x es)) = last (lc_last_fail (ex_lane x) # lc_fail_times es)"
proof (induction es rule: rev_induct)
  case (snoc e es)
  then show ?case
    by (cases "lc_fail_time e")
      (simp_all add: lc_fail_times_def map_filter_def lc_last_fail_step del: exec_step.simps)
qed (simp add: lc_fail_times_def map_filter_def)

text \<open>
  C6: When a lane-change goal is sent. After any run, \<open>on_set_goal\<close> at lockout reading \<open>t1\<close>
  sends a goal exactly when the retry time has passed since the last failure (the last failed
  result or wrapper error of the run, or the failure the node started with) and the decision read at
  \<open>t2\<close> is CHANGE; the goal carries that decision's distance, or 0 when it is not finite, and the
  node remembers the decision as the one it was sent for. The node keeps only the last failure time:
  when the clock never runs backwards between failures, a goal sent comes at least the retry time
  after every failure of the run.
\<close>

theorem lane_change_waits_out_lockout:
  assumes "lc_set_goal t1 t2 (ex_shared (exec_run x es)) (ex_lane (exec_run x es)) = (g, n')"
  shows "(g \<noteq> None \<longleftrightarrow>
      last (lc_last_fail (ex_lane x) # lc_fail_times es) + lc_min_retry (ex_lane x) \<le> t1 \<and>
      dec_action (current t2 (ex_shared (exec_run x es))) = CHANGE) \<and>
    (\<forall>goal. g = Some goal \<longrightarrow> lc_sent n' = current t2 (ex_shared (exec_run x es)) \<and>
      obstacle_distance goal =
        (if isfinite (dec_distance (lc_sent n')) then dec_distance (lc_sent n') else Fin 0)) \<and>
    (g \<noteq> None \<and> sorted (lc_fail_times es) \<longrightarrow>
      (\<forall>t \<in> set (lc_fail_times es). t + lc_min_retry (ex_lane x) \<le> t1))"
proof (intro conjI impI)
  let ?n = "ex_lane (exec_run x es)"
  have fail: "lc_last_fail ?n = last (lc_last_fail (ex_lane x) # lc_fail_times es)"
    by (rule lc_last_fail_run)
  show sent: "g \<noteq> None \<longleftrightarrow>
      last (lc_last_fail (ex_lane x) # lc_fail_times es) + lc_min_retry (ex_lane x) \<le> t1 \<and>
      dec_action (current t2 (ex_shared (exec_run x es))) = CHANGE"
    using assms by (auto simp: lc_set_goal_def Let_def lc_min_retry_run fail split: if_splits)
  show "\<forall>goal. g = Some goal \<longrightarrow> lc_sent n' = current t2 (ex_shared (exec_run x es)) \<and>
      obstacle_distance goal =
        (if isfinite (dec_distance (lc_sent n')) then dec_distance (lc_sent n') else Fin 0)"
    using assms by (auto simp: lc_set_goal_def Let_def split: if_splits)
  assume g: "g \<noteq> None \<and> sorted (lc_fail_times es)"
  show "\<forall>t \<in> set (lc_fail_times es). t + lc_min_retry (ex_lane x) \<le> t1"
  proof
    fix t
    assume t: "t \<in> set (lc_fail_times es)"
    with g have "t \<le> last (lc_last_fail (ex_lane x) # lc_fail_times es)"
      by (cases "lc_fail_times es" rule: rev_cases) (auto simp: sorted_append)
    with g sent show "t + lc_min_retry (ex_lane x) \<le> t1" by linarith
  qed
qed

definition barrel_state :: shared_state where
  "barrel_state = (new_shared quick_config 1)\<lparr>obstacle := make_decision CHANGE (seen ''barrel'' 7 3),
     obstacle_time := 9\<rparr>"

theorem lane_change_waits_out_lockout_witness:
  "5 + lc_min_retry (ex_lane exec_start) \<le> 9 \<and>
   lc_sent (snd (lc_set_goal 9 9 barrel_state ((ex_lane exec_start)\<lparr>lc_last_fail := 5\<rparr>))) =
     current 9 barrel_state"
proof -
  let ?x = "exec_start\<lparr>ex_shared := barrel_state\<rparr>"
  have run: "exec_run ?x [LcFail ACTION_ABORTED 5] = ?x\<lparr>ex_lane := (new_lane_change 2)\<lparr>lc_last_fail := 5\<rparr>\<rparr>"
    by (simp add: exec_run_def lc_on_failure_def exec_start_def)
  have change: "dec_action (current 9 barrel_state) = CHANGE"
    by (simp add: barrel_state_def current_def new_shared_def Let_def)
  obtain g n' where goal: "lc_set_goal 9 9 (ex_shared (exec_run ?x [LcFail ACTION_ABORTED 5]))
      (ex_lane (exec_run ?x [LcFail ACTION_ABORTED 5])) = (g, n')" by fastforce
  from lane_change_waits_out_lockout [OF goal] goal change show ?thesis
    unfolding run
    by (cases g) (simp_all add: lc_fail_times_def map_filter_def exec_start_def new_lane_change_def)
qed

end
