(* ===== verification/Obstacle_Chain.thy ===== *)
theory Obstacle_Chain
  imports In_Lane_Filter Obstacle_Memory BT_Nodes
begin

text \<open>
  The chain of nodes between a detected box and an action of the tree: the in-lane filter publishes on \<open>detections_lane\<close>, the obstacle
  memory subscribes to it and publishes on \<open>tracked_obstacles\<close>, and the tree's executor subscribes to that. Each node keeps its own
  state and the nodes run in any interleaving. What is published may be delivered late, in another order, more than once or not at all: a
  delivery names a message of the history. TF is a parameter of each callback.

  The lemmas trace an action back: the decision is the reading of a published obstacle, the obstacle's track was begun by a
  detection that carried the in-lane flag, and the flag was set by the filter, for a detection between its lines.
\<close>

section \<open>The nodes together\<close>

record chain =
  ch_filter :: filter_state
  ch_boxes :: "(header \<times> detection2d list) list"
  ch_memory :: memory
  ch_arrays :: "tracked_obstacle_array list"
  ch_shared :: shared_state

datatype 'tr chain_event =
    Lane_Cloud bool "'tr lane_tf" solver header cloud real
  | Boxes "'tr lane_tf" header "detection2d list" real
  | Memory_Boxes nat "'tr memory_tf"
  | Memory_Camera camera
  | Memory_Timer "'tr memory_tf" real
  | Tree_Obstacles nat real
  | Tree_Op shared_op

fun chain_step :: "filter_config \<Rightarrow> memory_config \<Rightarrow> chain \<Rightarrow> 'tr chain_event \<Rightarrow> chain" where
  "chain_step fc mc x (Lane_Cloud is_white tf solve h pts t) =
    x\<lparr>ch_filter := (if is_white then white_callback else yellow_callback) fc tf solve h pts t (ch_filter x)\<rparr>"
| "chain_step fc mc x (Boxes tf h ds t) =
    (let (out, f) = lane_detections fc tf h ds t (ch_filter x) in x\<lparr>ch_filter := f, ch_boxes := ch_boxes x @ [(h, out_detections out)]\<rparr>)"
| "chain_step fc mc x (Memory_Boxes n tf) =
    (if n < length (ch_boxes x)
     then let (h, ds) = ch_boxes x ! n in x\<lparr>ch_memory := memory_detections mc tf h ds (ch_memory x)\<rparr> else x)"
| "chain_step fc mc x (Memory_Camera cam) = x\<lparr>ch_memory := camera_callback cam (ch_memory x)\<rparr>"
| "chain_step fc mc x (Memory_Timer tf now) =
    (let (m, msg) = timer_callback mc tf now (ch_memory x) in
     x\<lparr>ch_memory := m, ch_arrays := ch_arrays x @ (case msg of None \<Rightarrow> [] | Some a \<Rightarrow> [a])\<rparr>)"
| "chain_step fc mc x (Tree_Obstacles n t) =
    (if n < length (ch_arrays x) then x\<lparr>ch_shared := on_tracked (ch_arrays x ! n) t (ch_shared x)\<rparr> else x)"
| "chain_step fc mc x (Tree_Op op) = x\<lparr>ch_shared := shared_step (ch_shared x) op\<rparr>"

definition chain_run :: "filter_config \<Rightarrow> memory_config \<Rightarrow> chain \<Rightarrow> 'tr chain_event list \<Rightarrow> chain" where
  "chain_run fc mc x es = foldl (chain_step fc mc) x es"

definition new_chain :: "shared_state \<Rightarrow> filter_state \<Rightarrow> chain" where
  \<comment> \<open>the filter may have seen lane lines before the other nodes start\<close>
  "new_chain s f = \<lparr>ch_filter = f, ch_boxes = [], ch_memory = new_memory, ch_arrays = [], ch_shared = s\<rparr>"

lemma chain_run_simps [simp]:
  "chain_run fc mc x [] = x"
  "chain_run fc mc x (es @ [e]) = chain_step fc mc (chain_run fc mc x es) e"
  by (simp_all add: chain_run_def)

text \<open>Clock readings are not negative, and obstacles reach the tree through the topic only.\<close>

fun chain_event_ok :: "'tr chain_event \<Rightarrow> bool" where
  "chain_event_ok (Tree_Obstacles n t) = (0 \<le> t)"
| "chain_event_ok (Tree_Op op) = (0 \<le> op_time op \<and> (case op of OnDetections ds t \<Rightarrow> False | _ \<Rightarrow> True))"
| "chain_event_ok e = True"

section \<open>The filter's flag\<close>

definition in_band :: "filter_config \<Rightarrow> filter_state \<Rightarrow> 'tr lane_tf \<Rightarrow> header \<Rightarrow> detection2d \<Rightarrow> bool" where
  "in_band c s tf h d \<longleftrightarrow> depth_valid d \<and>
     (\<exists>g x y z lo hi. filter_lookup tf (f_ground_frame c) (frame_id h) (stamp h) = Some g \<and> l_point tf g (position d) = (x, y, z) \<and>
       lane_band c s (stamp h) x lo hi \<and> lo - lane_margin c \<le> y \<and> y \<le> hi + lane_margin c)"

lemma flagged_in_band:
  assumes "lane_detections c tf h ds t s = (out, s')" "\<not> in_lane_unknown c" "d' \<in> set (out_detections out)" "is_in_lane d'"
  shows "\<exists>d \<in> set ds. class_name d = class_name d' \<and> in_band c s tf h d"
proof -
  let ?j = "\<lambda>d. fst (judge c s (In_Lane_Filter.fresh c (white s) (stamp h)) (In_Lane_Filter.fresh c (yellow s) (stamp h)) (map_option (l_point tf) (band_transform c tf h s)) d)"
  have "out_detections out = map ?j ds"
    using assms(1) by (auto simp: lane_detections_def band_transform_def Let_def)
  then obtain d where d: "d \<in> set ds" "d' = ?j d" using assms(3) by auto
  from assms(4) judge_in_band [OF assms(2)] have "in_band c s tf h d" unfolding d(2) in_band_def by blast
  moreover have "class_name d' = class_name d"
    unfolding d(2) by (subst judge_keeps) simp
  ultimately show ?thesis using d(1) by auto
qed

section \<open>The memory's tracks\<close>

definition begun_in_lane :: "string set \<Rightarrow> track list \<Rightarrow> bool" where
  \<comment> \<open>the class names of the tracks are those of detections that carried the flag\<close>
  "begun_in_lane S ts \<longleftrightarrow> (\<forall>t \<in> set ts. t_class_name t \<in> S)"

lemma begun_see:
  assumes "see_detection c f d (ts, nx, v) = (ts', nx', v')" "begun_in_lane S ts" "is_in_lane d \<Longrightarrow> class_name d \<in> S"
  shows "begun_in_lane S ts'"
proof -
  let ?b = "fst (find_best 0 ts (class_id d) (f (position d)) (None, gate c d))"
  have upd: "t_class_name (fst (update_track c d m nx t)) = t_class_name t" for m t
    by (simp add: update_track_def Let_def)
  have hit: "begun_in_lane S (ts[i := t'])" if "?b = Some i" "t_class_name t' = t_class_name (ts ! i)" for i t'
  proof -
    have "i < length ts" using find_best_Some(1) [OF that(1)] by (simp add: candidate_def)
    with assms(2) that(2) have "t_class_name t' \<in> S" by (simp add: begun_in_lane_def)
    with assms(2) show ?thesis using set_update_subset_insert [of ts i t'] by (auto simp: begun_in_lane_def)
  qed
  show ?thesis
  proof (cases "is_stop_sign d \<or> \<not> depth_valid d")
    case True
    with assms(1,2) show ?thesis by (auto simp: see_detection_def split: if_splits)
  next
    case seen: False
    show ?thesis
    proof (cases ?b)
      case None
      with seen assms show ?thesis by (auto simp: see_detection_def Let_def new_track_def begun_in_lane_def split: if_splits)
    next
      case (Some i)
      obtain t' n' where u: "update_track c d (f (position d)) nx (ts ! i) = (t', n')" by fastforce
      with Some seen assms(1) have "ts' = ts[i := t']" by (simp add: see_detection_def Let_def)
      moreover have "t_class_name t' = t_class_name (ts ! i)" using upd [of "f (position d)" "ts ! i"] u by simp
      ultimately show ?thesis using hit [OF Some] by simp
    qed
  qed
qed

lemma begun_see_all:
  assumes "fold (see_detection c f) ds (ts, nx, v) = (ts', nx', v')" "begun_in_lane S ts" "\<forall>d \<in> set ds. is_in_lane d \<longrightarrow> class_name d \<in> S"
  shows "begun_in_lane S ts'"
  using assms
proof (induction ds arbitrary: ts nx v)
  case (Cons d ds)
  obtain ts1 nx1 v1 where s: "see_detection c f d (ts, nx, v) = (ts1, nx1, v1)" by (metis prod_cases3)
  have "begun_in_lane S ts1" by (rule begun_see [OF s]) (use Cons.prems in auto)
  from Cons.IH [OF _ this] Cons.prems s show ?case by simp
qed simp

lemma begun_detections:
  assumes "begun_in_lane S (tracks m)" "\<forall>d \<in> set ds. is_in_lane d \<longrightarrow> class_name d \<in> S"
  shows "begun_in_lane S (tracks (memory_detections c tf h ds m))"
proof (cases "mem_lookup tf (m_odom_frame c) (frame_id h) (Some (stamp h))")
  case (Inr tr)
  obtain ts n v where f: "fold (see_detection c (mem_point tf tr)) ds (map begin_frame (tracks m), next_id m, False) = (ts, n, v)"
    by (metis prod_cases3)
  have "begun_in_lane S (map begin_frame (tracks m))" using assms(1) by (simp add: begun_in_lane_def begin_frame_def)
  from begun_see_all [OF f this assms(2)] have ts: "begun_in_lane S ts" .
  then have "begun_in_lane S (map (count_miss p) ts)" for p by (auto simp: begun_in_lane_def count_miss_def)
  with ts Inr f show ?thesis by (simp add: memory_detections_def Let_def split: option.split sum.split)
qed (simp add: memory_detections_def assms(1))

lemma begun_timer:
  assumes "begun_in_lane S (tracks m)" "timer_callback c tf now m = (m', msg)"
  shows "begun_in_lane S (tracks m') \<and> (\<forall>a. msg = Some a \<longrightarrow> (\<forall>ob \<in> set (tracked a). ob_class_name ob \<in> S))"
  using assms by (auto simp: timer_callback_def begun_in_lane_def obstacle_msg_def split: sum.splits prod.splits dest!: publish_loop_spec)

section \<open>The tree's decision\<close>

text \<open>What holds of every detection of a decider's lists holds of the ones it acts on.\<close>

definition held_from :: "(detection \<Rightarrow> bool) \<Rightarrow> decider \<Rightarrow> bool" where
  "held_from Q s \<longleftrightarrow> (\<forall>i. 0 < hold_until s i \<longrightarrow> Q (last_det s i))"

lemma fires_from:
  assumes "fires s (scan_dets s dets now) i" "\<forall>d \<in> set dets. Q d"
  shows "Q (last_det (settle s (scan_dets s dets now) now) i)"
proof -
  obtain d where d: "best (scan_dets s dets now) i = Some d" using assms(1) by (auto simp: fires_def)
  with scan_best_competes [OF d] assms show ?thesis by (simp add: settle_def)
qed

lemma held_settle:
  assumes "held_from Q s" "\<forall>d \<in> set dets. Q d"
  shows "held_from Q (settle s (scan_dets s dets now) now)"
proof -
  have "Q (last_det (settle s (scan_dets s dets now) now) i)" if "0 < hold_until (settle s (scan_dets s dets now) now) i" for i
    using fires_from [OF _ assms(2)] that assms(1)
    by (cases "fires s (scan_dets s dets now) i") (simp_all add: held_from_def settle_def)
  then show ?thesis by (simp add: held_from_def)
qed

lemma held_expire [simp]: "held_from Q (expire now s) = held_from Q s"
  by (simp add: held_from_def expire_def)

lemma held_after_update: "held_from Q s \<Longrightarrow> \<forall>d \<in> set dets. Q d \<Longrightarrow> held_from Q (snd (update s dets now))"
  by (simp add: update_state held_settle)

lemma held_mark: "held_from Q s \<Longrightarrow> held_from Q (mark_handled d now s)"
  by (auto simp: held_from_def mark_handled_def Let_def)

lemma slot_active_from:
  assumes "held_from Q s" "\<forall>d \<in> set dets. Q d" "0 \<le> now" "slot_active s (scan_dets s dets now) now i"
  shows "Q (last_det (settle s (scan_dets s dets now) now) i)"
proof (cases "fires s (scan_dets s dets now) i")
  case True
  then show ?thesis by (rule fires_from [OF _ assms(2)])
next
  case False
  with assms(3,4) have "0 < hold_until (settle s (scan_dets s dets now) now) i" by (simp add: slot_active_def)
  with held_settle [OF assms(1,2), of now] show ?thesis unfolding held_from_def by blast
qed

lemma action_from:
  assumes "held_from Q s" "\<forall>d \<in> set dets. Q d" "0 \<le> now" "dec_action (fst (update s dets now)) = a" "a \<in> {STOP, CHANGE}"
  shows "\<exists>d. Q d \<and> fst (update s dets now) = make_decision a d"
proof -
  let ?s = "expire now s"
  have "Q (last_det (settle ?s (scan_dets ?s dets now) now) i)" if "slot_active ?s (scan_dets ?s dets now) now i" for i
    by (rule slot_active_from [OF _ assms(2,3) that]) (simp add: assms(1))
  then show ?thesis
    using assms(4,5) by (fastforce simp: update_def Let_def split: if_splits)
qed

section \<open>Tracing an action through a run\<close>

definition read_from :: "tracked_obstacle_array list \<Rightarrow> detection \<Rightarrow> bool" where
  "read_from as d \<longleftrightarrow> (\<exists>a \<in> set as. \<exists>ob \<in> set (tracked a). d = of_tracked ob)"

definition traced :: "decision_config \<Rightarrow> tracked_obstacle_array list \<Rightarrow> shared_state \<Rightarrow> bool" where
  \<comment> \<open>the action reported for obstacles is configured and the reading of a published one\<close>
  "traced dc as s \<longleftrightarrow> shared_inv s \<and> cfg (obstacles s) = rules_for dc False \<and> held_from (read_from as) (obstacles s) \<and>
     (dec_action (obstacle s) \<in> {STOP, CHANGE} \<longrightarrow>
       (\<exists>d. read_from as d \<and> obstacle s = make_decision (dec_action (obstacle s)) d) \<and>
       configured_for (rules_for dc False) (dec_cls (obstacle s)) (dec_distance (obstacle s)) (slot (dec_action (obstacle s))))"

lemma traced_more: "traced dc as s \<Longrightarrow> traced dc (as @ bs) s"
  unfolding traced_def held_from_def read_from_def by (auto 0 4)

lemma traced_new:
  assumes "executor_start p = Some s"
  shows "traced (executor_config p) [] s"
proof -
  obtain ts where s: "s = set_turns ts (new_shared (executor_config p) (ep_stale p))" using executor_start_state [OF assms] by blast
  have "shared_inv s" using shared_inv_step [OF shared_inv_new, of "SetTurns ts"] by (simp add: s)
  then show ?thesis by (simp add: traced_def held_from_def s) (simp add: set_turns_def new_shared_def new_decider_def)
qed

lemma traced_tracked:
  assumes "traced dc as s" "a \<in> set as" "0 \<le> t"
  shows "traced dc as (on_tracked a t s)"
proof -
  let ?ds = "map of_tracked (tracked a)"
  have q: "\<forall>d \<in> set ?ds. read_from as d" using assms(2) by (auto simp: read_from_def)
  have s: "held_from (read_from as) (obstacles s)" "decider_wf (obstacles s)" "cfg (obstacles s) = rules_for dc False"
    using assms(1) by (simp_all add: traced_def shared_inv_def)
  have "shared_inv (on_tracked a t s)"
    using shared_inv_step [of s "OnDetections ?ds t"] assms(1,3) by (simp add: traced_def on_tracked_def)
  moreover have o: "obstacle (on_tracked a t s) = fst (update (obstacles s) ?ds t)" "obstacles (on_tracked a t s) = snd (update (obstacles s) ?ds t)"
    by (simp_all add: on_tracked_def on_detections_def split_beta)
  moreover have "(\<exists>d. read_from as d \<and> fst (update (obstacles s) ?ds t) = make_decision b d) \<and>
      configured_for (rules_for dc False) (dec_cls (fst (update (obstacles s) ?ds t))) (dec_distance (fst (update (obstacles s) ?ds t))) (slot b)"
    if b: "dec_action (fst (update (obstacles s) ?ds t)) = b" "b \<in> {STOP, CHANGE}" for b
    using action_from [OF s(1) q assms(3) b] update_configured [OF s(2) assms(3) b(1)] b(2) s(3) by auto
  ultimately show ?thesis using held_after_update [OF s(1) q, of t] s(3) by (simp add: traced_def)
qed

lemma traced_op:
  assumes "traced dc as s" "chain_event_ok (Tree_Op op)"
  shows "traced dc as (shared_step s op)"
proof -
  have inv: "shared_inv (shared_step s op)" using assms shared_inv_step by (simp add: traced_def)
  show ?thesis
  proof (cases op)
    case (MarkHandled d t)
    with inv assms(1) held_mark [of "read_from as" "obstacles s" d t] show ?thesis
      by (auto simp: traced_def obstacle_handled_def Let_def)
  next
    case (BeginIntersection t)
    with inv assms(1) show ?thesis by (simp add: traced_def begin_intersection_def Let_def)
  qed (use inv assms in \<open>simp_all add: traced_def on_intersection_detections_def complete_intersection_def mark_intersection_stopped_def
      set_turns_def split_beta Let_def\<close>)
qed

lemma current_obstacle: "shared_inv s \<Longrightarrow> dec_action (current t s) \<in> {STOP, CHANGE} \<Longrightarrow> current t s = obstacle s"
  by (auto simp: current_def Let_def shared_inv_def split: if_splits)

definition chain_inv :: "decision_config \<Rightarrow> string set \<Rightarrow> chain \<Rightarrow> bool" where
  "chain_inv dc S x \<longleftrightarrow>
     (\<forall>b \<in> set (ch_boxes x). \<forall>d \<in> set (snd b). is_in_lane d \<longrightarrow> class_name d \<in> S) \<and>
     begun_in_lane S (tracks (ch_memory x)) \<and>
     (\<forall>a \<in> set (ch_arrays x). \<forall>ob \<in> set (tracked a). ob_class_name ob \<in> S) \<and>
     traced dc (ch_arrays x) (ch_shared x)"

lemma chain_inv_more: "chain_inv dc S x \<Longrightarrow> S \<subseteq> S' \<Longrightarrow> chain_inv dc S' x"
  by (auto simp: chain_inv_def begun_in_lane_def subset_iff)

lemma chain_inv_step:
  assumes inv: "chain_inv dc S x" and ok: "chain_event_ok e" and unk: "\<not> in_lane_unknown fc"
    and box: "\<And>tf h ds t d. e = Boxes tf h ds t \<Longrightarrow> d \<in> set ds \<Longrightarrow> in_band fc (ch_filter x) tf h d \<Longrightarrow> class_name d \<in> S"
  shows "chain_inv dc S (chain_step fc mc x e)"
proof (cases e)
  case (Lane_Cloud w tf solve h pts t)
  with inv show ?thesis by (simp add: chain_inv_def)
next
  case (Boxes tf h ds t)
  obtain out f where o: "lane_detections fc tf h ds t (ch_filter x) = (out, f)" by fastforce
  have "class_name d \<in> S" if "d \<in> set (out_detections out)" "is_in_lane d" for d
    using flagged_in_band [OF o unk that] box [OF Boxes] by metis
  with inv Boxes o show ?thesis by (auto simp: chain_inv_def)
next
  case (Memory_Boxes n tf)
  show ?thesis
  proof (cases "n < length (ch_boxes x)")
    case True
    obtain h ds where b: "ch_boxes x ! n = (h, ds)" by fastforce
    with inv True have "\<forall>d \<in> set ds. is_in_lane d \<longrightarrow> class_name d \<in> S" unfolding chain_inv_def by (metis nth_mem snd_conv)
    with inv have "begun_in_lane S (tracks (memory_detections mc tf h ds (ch_memory x)))"
      by (intro begun_detections) (simp_all add: chain_inv_def)
    with inv Memory_Boxes True b show ?thesis by (simp add: chain_inv_def)
  qed (use inv Memory_Boxes in simp)
next
  case (Memory_Camera cam)
  with inv show ?thesis by (simp add: chain_inv_def camera_callback_def)
next
  case (Memory_Timer tf now)
  obtain m msg where t: "timer_callback mc tf now (ch_memory x) = (m, msg)" by fastforce
  with begun_timer [OF _ t] inv have "begun_in_lane S (tracks m)" "\<forall>a. msg = Some a \<longrightarrow> (\<forall>ob \<in> set (tracked a). ob_class_name ob \<in> S)"
    by (simp_all add: chain_inv_def)
  with inv Memory_Timer t traced_more show ?thesis by (cases msg) (auto simp: chain_inv_def)
next
  case (Tree_Obstacles n t)
  with inv ok traced_tracked show ?thesis by (simp add: chain_inv_def)
next
  case (Tree_Op op)
  with inv traced_op [of dc "ch_arrays x" "ch_shared x" op] ok show ?thesis by (simp add: chain_inv_def del: chain_event_ok.simps)
qed

definition caused_in_lane :: "filter_config \<Rightarrow> memory_config \<Rightarrow> chain \<Rightarrow> 'tr chain_event list \<Rightarrow> string \<Rightarrow> bool" where
  \<comment> \<open>the run contains boxes of the class that lay between the filter's lines when they arrived\<close>
  "caused_in_lane fc mc x es cl \<longleftrightarrow> (\<exists>pre tf h ds t post d. es = pre @ Boxes tf h ds t # post \<and> d \<in> set ds \<and> class_name d = cl \<and>
     in_band fc (ch_filter (chain_run fc mc x pre)) tf h d)"

lemma caused_more: "caused_in_lane fc mc x es cl \<Longrightarrow> caused_in_lane fc mc x (es @ [e]) cl"
  unfolding caused_in_lane_def by (metis append_Cons append_assoc)

lemma chain_inv_run:
  assumes "\<not> in_lane_unknown fc" "list_all chain_event_ok es" "executor_start p = Some s"
  shows "chain_inv (executor_config p) {cl. caused_in_lane fc mc (new_chain s f) es cl} (chain_run fc mc (new_chain s f) es)"
  using assms(2)
proof (induction es rule: rev_induct)
  case Nil
  show ?case using traced_new [OF assms(3)] by (simp add: chain_inv_def begun_in_lane_def new_chain_def new_memory_def)
next
  case (snoc e es)
  let ?x = "chain_run fc mc (new_chain s f) es" and ?S = "{cl. caused_in_lane fc mc (new_chain s f) (es @ [e]) cl}"
  from snoc have "chain_inv (executor_config p) {cl. caused_in_lane fc mc (new_chain s f) es cl} ?x" by simp
  then have "chain_inv (executor_config p) ?S ?x" by (rule chain_inv_more) (use caused_more in blast)
  moreover have "class_name d \<in> ?S" if "e = Boxes tf h ds t" "d \<in> set ds" "in_band fc (ch_filter ?x) tf h d" for tf h ds t d
    using that unfolding caused_in_lane_def by blast
  moreover have "chain_event_ok e" using snoc.prems by simp
  ultimately show ?case unfolding chain_run_simps by (intro chain_inv_step assms(1))
qed

section \<open>A barrel in the lane\<close>

text \<open>One list of boxes is delivered to the memory twice, the array of the memory's timer to the tree twice.\<close>

definition barrel_box :: detection2d where
  "barrel_box = (plain_detection ''barrel'' 5)\<lparr>position := (5, 0, 0)\<rparr>"

definition barrel_header :: header where
  "barrel_header = \<lparr>stamp = 1, frame_id = ''camera''\<rparr>"

definition barrel_events :: "unit chain_event list" where
  "barrel_events = [Boxes still_lane_tf barrel_header [barrel_box] 7, Memory_Boxes 0 fixed_tf, Memory_Boxes 0 fixed_tf,
     Memory_Timer fixed_tf 2, Tree_Obstacles 0 3, Tree_Obstacles 0 4]"

definition barrel_params :: executor_params where
  "barrel_params = \<lparr>ep_tree_file = ''main.xml'', ep_stale = 1, ep_server_wait = Fin 5, ep_config = road_config, ep_class_names = [''barrel''],
     ep_class_action = (\<lambda>_. ''change''), ep_class_mark = (\<lambda>_. False), ep_class_trigger = (\<lambda>_. 6), ep_turn_names = []\<rparr>"

definition barrel_shared :: shared_state where
  "barrel_shared = set_turns [] (new_shared (executor_config barrel_params) 1)"

lemma barrel_start: "executor_start barrel_params = Some barrel_shared"
  by (simp add: executor_start_def barrel_params_def barrel_shared_def)

lemma barrel_flagged:
  "\<exists>f. lane_detections filter_test still_lane_tf barrel_header [barrel_box] 7 both_lines =
     (\<lparr>out_detections = [barrel_at 5], out_markers = out_markers (fst (lane_detections filter_test still_lane_tf barrel_header [barrel_box] 7 both_lines))\<rparr>, f)"
proof -
  have "In_Lane_Filter.fresh filter_test (white both_lines) 1" "In_Lane_Filter.fresh filter_test (yellow both_lines) 1"
    by (simp_all add: In_Lane_Filter.fresh_def both_lines_def filter_test_def)
  moreover have "filter_lookup still_lane_tf t u v = Some ()" "l_point still_lane_tf () p = p" for t u v p
    by (simp_all add: filter_lookup_def still_lane_tf_def)
  moreover have "classify filter_test both_lines True True (5, 0, 0) = In_Lane"
    by (simp add: classify_def check_def eval_def both_lines_def flat_line_def filter_test_def curve_at_def clamp_def Let_def)
  ultimately show ?thesis
    by (simp add: lane_detections_def barrel_header_def judge_def lane_flag_def barrel_box_def barrel_at_def plain_detection_def Let_def)
qed

lemma barrel_published:
  "\<exists>m a. timer_callback mem_config fixed_tf 2 (new_memory\<lparr>tracks := [kept_barrel], next_id := 2\<rparr>) = (m, Some a) \<and>
     tracked a = [obstacle_msg (5, 0, 0) kept_barrel]"
proof -
  have e: "\<not> expires mem_config (5, 0, 0) kept_barrel" "t_position kept_barrel = (5, 0, 0)" "t_confirmed kept_barrel"
    by (simp_all add: expires_def mem_config_def kept_barrel_def barrel_track_def new_track_def)
  show ?thesis by (simp add: timer_callback_def fixed_tf_def new_memory_def e Let_def)
qed

lemma barrel_acted_on:
  assumes "tracked a = [obstacle_msg (5, 0, 0) kept_barrel]"
  shows "dec_action (current 4 (on_tracked a 4 (on_tracked a 3 barrel_shared))) = CHANGE"
proof -
  have d: "map of_tracked (tracked a) = [(seen ''barrel'' 1 5)\<lparr>det_n_pts := 2\<rparr>]"
    by (simp add: assms of_tracked_def seen_def obstacle_msg_def kept_barrel_def barrel_track_def new_track_def hypot_def default_detection_def)
  have c: "executor_config barrel_params =
      road_config\<lparr>classes := [''barrel'' \<mapsto> \<lparr>rule_action = CHANGE, trigger_distance = 6, mark_stop_sign = False\<rparr>]\<rparr>"
    by (simp add: executor_config_def barrel_params_def class_table_def parse_action_def)
  show ?thesis
    by (simp add: on_tracked_def d on_detections_def barrel_shared_def set_turns_def new_shared_def c rules_for_def is_intersection_rule_def
        current_def decider_eval make_decision_def)
qed

lemma barrel_run:
  "dec_action (current 4 (ch_shared (chain_run filter_test mem_config (new_chain barrel_shared both_lines) barrel_events))) = CHANGE"
proof -
  obtain f ms where l: "lane_detections filter_test still_lane_tf barrel_header [barrel_box] 7 both_lines =
      (\<lparr>out_detections = [barrel_at 5], out_markers = ms\<rparr>, f)" using barrel_flagged by blast
  obtain m a where t: "timer_callback mem_config fixed_tf 2 (new_memory\<lparr>tracks := [kept_barrel], next_id := 2\<rparr>) = (m, Some a)"
    "tracked a = [obstacle_msg (5, 0, 0) kept_barrel]" using barrel_published by blast
  have "memory_detections mem_config fixed_tf barrel_header [barrel_at 5] new_memory = new_memory\<lparr>tracks := [barrel_track]\<rparr>"
    "memory_detections mem_config fixed_tf barrel_header [barrel_at 5] (new_memory\<lparr>tracks := [barrel_track]\<rparr>) =
      new_memory\<lparr>tracks := [kept_barrel], next_id := 2\<rparr>"
    using first_barrel second_barrel by (simp_all add: seen_barrel_def barrel_header_def)
  then show ?thesis using barrel_acted_on [OF t(2)] by (simp add: chain_run_def barrel_events_def new_chain_def l t)
qed

end
