(* ===== verification/Path_Bridge.thy ===== *)
theory Path_Bridge
  imports Prelude
begin

text \<open>
  The path bridge, \<open>src/mapping_cpp/src/lane_follow_test.cpp\<close>: the class \<open>PathBridge\<close> owns the only
  Nav2 \<open>FollowPath\<close> client and decides whether the lane path or the intersection path is being
  followed. A path message is the pointer the subscription delivered (two messages are the same
  when their pointers are) with its poses. Handlers return the calls they make on the action
  client; the client's callbacks are events of the step relation, in any order and at any
  delay. The generation counter is a 64-bit word, as in the code.

  The lemmas show that a stale callback never becomes the current goal, that the lane path cannot
  be followed while an intersection path is held, and that switching following off leaves no
  goal running that the bridge still answers for.
\<close>

section \<open>State\<close>

type_synonym u64 = "64 word"
type_synonym handle = nat

record 'p path_msg =
  pm_ref :: nat
  pm_poses :: "'p list"

record 'p bridge =
  lane_path :: "'p path_msg option"
  intersection_path :: "'p path_msg option"
  sent_path :: "'p path_msg option"
  active_goal :: "handle option"
  lane_enabled :: bool
  lane_received :: real
  last_send :: real
  lane_max_age :: real
  update_period :: real
  generation :: u64

datatype 'p client_call = SendGoal "'p path_msg" u64 | CancelGoal handle

definition new_bridge :: "real \<Rightarrow> real \<Rightarrow> 'p bridge" where
  "new_bridge max_age period = \<lparr>lane_path = None, intersection_path = None, sent_path = None,
     active_goal = None, lane_enabled = False, lane_received = - 1000000000,
     last_send = - 1000000000, lane_max_age = max_age, update_period = period, generation = 0\<rparr>"

section \<open>Operations\<close>

definition cancel_current :: "'p bridge \<Rightarrow> 'p bridge \<times> 'p client_call list" where
  "cancel_current b =
     (b\<lparr>generation := generation b + 1, active_goal := None, sent_path := None,
        last_send := - 1000000000\<rparr>,
      case active_goal b of None \<Rightarrow> [] | Some h \<Rightarrow> [CancelGoal h])"

definition desired_path :: "real \<Rightarrow> 'p bridge \<Rightarrow> 'p path_msg option" where
  "desired_path t b =
     (case intersection_path b of
        Some p \<Rightarrow> Some p
      | None \<Rightarrow> if lane_enabled b \<and> t - lane_received b \<le> lane_max_age b then lane_path b else None)"

definition same_msg :: "'p path_msg \<Rightarrow> 'p path_msg option \<Rightarrow> bool" where
  \<comment> \<open>equality of shared pointers\<close>
  "same_msg p q = (case q of None \<Rightarrow> False | Some q' \<Rightarrow> pm_ref q' = pm_ref p)"

definition dispatch :: "real \<Rightarrow> bool \<Rightarrow> 'p bridge \<Rightarrow> 'p bridge \<times> 'p client_call list" where
  \<comment> \<open>\<open>t\<close> is the clock, \<open>ready\<close> whether the action server is ready\<close>
  "dispatch t ready b =
     (case desired_path t b of
        None \<Rightarrow> (b, [])
      | Some p \<Rightarrow>
          if pm_poses p = [] \<or> same_msg p (sent_path b) then (b, [])
          else if t - last_send b < update_period b \<or> \<not> ready then (b, [])
          else let g = generation b + 1 in
            (b\<lparr>generation := g, sent_path := Some p, last_send := t\<rparr>, [SendGoal p g]))"

definition on_lane :: "'p path_msg \<Rightarrow> real \<Rightarrow> 'p bridge \<Rightarrow> 'p bridge" where
  "on_lane msg t b = b\<lparr>lane_path := Some msg, lane_received := t\<rparr>"

definition after_cancel :: "bool \<Rightarrow> 'p bridge \<Rightarrow> 'p bridge \<times> 'p client_call list" where
  "after_cancel c b = (if c then cancel_current b else (b, []))"

definition on_intersection :: "'p path_msg \<Rightarrow> real \<Rightarrow> bool \<Rightarrow> 'p bridge \<Rightarrow> 'p bridge \<times> 'p client_call list" where
  "on_intersection msg t ready b =
     (let (b1, cs1) = (if pm_poses msg = [] then after_cancel (intersection_path b \<noteq> None) b
                       else cancel_current b);
          b2 = b1\<lparr>intersection_path := (if pm_poses msg = [] then None else Some msg)\<rparr>;
          (b3, cs2) = dispatch t ready b2
      in (b3, cs1 @ cs2))"

definition on_enable :: "bool \<Rightarrow> real \<Rightarrow> bool \<Rightarrow> 'p bridge \<Rightarrow> 'p bridge \<times> 'p client_call list" where
  "on_enable data t ready b =
     (let b0 = b\<lparr>lane_enabled := data\<rparr>;
          (b1, cs1) = after_cancel (\<not> lane_enabled b0 \<and> intersection_path b0 = None) b0;
          (b2, cs2) = dispatch t ready b1
      in (b2, cs1 @ cs2))"

definition goal_response :: "u64 \<Rightarrow> handle option \<Rightarrow> 'p bridge \<Rightarrow> 'p bridge \<times> 'p client_call list" where
  "goal_response g h b =
     (if g \<noteq> generation b then (b, case h of None \<Rightarrow> [] | Some h \<Rightarrow> [CancelGoal h])
      else (b\<lparr>active_goal := h, sent_path := (if h = None then None else sent_path b)\<rparr>, []))"

definition goal_result :: "u64 \<Rightarrow> 'p bridge \<Rightarrow> 'p bridge" where
  "goal_result g b = (if g \<noteq> generation b then b else b\<lparr>active_goal := None\<rparr>)"

section \<open>The bridge and its action server\<close>

text \<open>
  The other side of the client: requests that have not been answered, the goals the server has accepted
  with the generation they were sent for, those it has finished, and those a
  cancel was requested for. The server may answer the requests in any order; it answers each
  once, gives each accepted goal a handle of its own and reports a result once per goal.
\<close>

record server =
  pending :: "u64 set"
  accepted :: "(u64 \<times> handle) set"
  finished :: "handle set"
  cancelled :: "handle set"

definition idle_server :: server where
  "idle_server = \<lparr>pending = {}, accepted = {}, finished = {}, cancelled = {}\<rparr>"

fun call_effect :: "'p client_call \<Rightarrow> server \<Rightarrow> server" where
  "call_effect (SendGoal p g) s = s\<lparr>pending := insert g (pending s)\<rparr>"
| "call_effect (CancelGoal h) s = s\<lparr>cancelled := insert h (cancelled s)\<rparr>"

definition calls :: "'p client_call list \<Rightarrow> server \<Rightarrow> server" where
  "calls cs s = fold call_effect cs s"

datatype 'p bridge_event =
    LaneMsg "'p path_msg" real
  | IntersectionMsg "'p path_msg" real bool
  | EnableMsg bool real bool
  | Tick real bool
  | Accepted u64 handle
  | Rejected u64
  | Finished u64 handle

inductive bridge_step ::
    "'p bridge \<times> server \<Rightarrow> 'p bridge_event \<Rightarrow> 'p bridge \<times> server \<Rightarrow> bool" where
  lane: "bridge_step (b, s) (LaneMsg p t) (on_lane p t b, s)"
| crossing: "on_intersection p t r b = (b', cs) \<Longrightarrow>
    bridge_step (b, s) (IntersectionMsg p t r) (b', calls cs s)"
| enable: "on_enable d t r b = (b', cs) \<Longrightarrow> bridge_step (b, s) (EnableMsg d t r) (b', calls cs s)"
| tick: "dispatch t r b = (b', cs) \<Longrightarrow> bridge_step (b, s) (Tick t r) (b', calls cs s)"
| accept: "g \<in> pending s \<Longrightarrow> h \<notin> snd ` accepted s \<Longrightarrow> goal_response g (Some h) b = (b', cs) \<Longrightarrow>
    bridge_step (b, s) (Accepted g h)
      (b', calls cs (s\<lparr>pending := pending s - {g}, accepted := insert (g, h) (accepted s)\<rparr>))"
| reject: "g \<in> pending s \<Longrightarrow> goal_response g None b = (b', cs) \<Longrightarrow>
    bridge_step (b, s) (Rejected g) (b', calls cs (s\<lparr>pending := pending s - {g}\<rparr>))"
| finish: "(g, h) \<in> accepted s \<Longrightarrow> h \<notin> finished s \<Longrightarrow>
    bridge_step (b, s) (Finished g h) (goal_result g b, s\<lparr>finished := insert h (finished s)\<rparr>)"

inductive_cases bridge_stepE: "bridge_step (b, s) e x'"

inductive bridge_runs ::
    "'p bridge \<times> server \<Rightarrow> 'p bridge_event list \<Rightarrow> 'p bridge \<times> server \<Rightarrow> bool" where
  start: "bridge_runs x [] x"
| snoc: "bridge_runs x es y \<Longrightarrow> bridge_step y e z \<Longrightarrow> bridge_runs x (es @ [e]) z"

section \<open>Which path is being followed\<close>

lemma dispatch_cases:
  assumes "dispatch t r b = (b', cs)"
  obtains (quiet) "b' = b" "cs = []"
  | (send) p where "desired_path t b = Some p" "pm_poses p \<noteq> []"
      "b' = b\<lparr>generation := generation b + 1, sent_path := Some p, last_send := t\<rparr>"
      "cs = [SendGoal p (generation b + 1)]"
  using assms by (auto simp: dispatch_def Let_def split: option.splits if_splits)

lemma desired_path_cases:
  assumes "desired_path t b = Some p"
  shows "intersection_path b = Some p \<or> (intersection_path b = None \<and> lane_enabled b)"
  using assms by (auto simp: desired_path_def split: option.splits if_splits)

definition follows_right_path :: "'p bridge \<Rightarrow> bool" where
  "follows_right_path b \<longleftrightarrow>
     (case sent_path b of
        None \<Rightarrow> True
      | Some p \<Rightarrow> intersection_path b = Some p \<or> (intersection_path b = None \<and> lane_enabled b))"

lemma right_path_dispatch:
  "dispatch t r b = (b', cs) \<Longrightarrow> follows_right_path b \<Longrightarrow> follows_right_path b'"
  by (erule dispatch_cases) (auto simp: follows_right_path_def dest: desired_path_cases)

lemma right_path_step:
  assumes "bridge_step (b, s) e (b', s')" and "follows_right_path b"
  shows "follows_right_path b'"
  using assms(1)
proof (cases rule: bridge_step.cases)
  case (crossing p t r cs)
  let ?b2 = "(if pm_poses p = [] then fst (after_cancel (intersection_path b \<noteq> None) b)
    else fst (cancel_current b))\<lparr>intersection_path := (if pm_poses p = [] then None else Some p)\<rparr>"
  have "follows_right_path ?b2"
    using assms(2) by (auto simp: follows_right_path_def after_cancel_def cancel_current_def split: option.splits)
  moreover have "\<exists>cs2. dispatch t r ?b2 = (b', cs2)"
    using crossing by (auto simp: on_intersection_def Let_def split: prod.splits if_splits)
  ultimately show ?thesis using right_path_dispatch by blast
next
  case (enable d t r cs)
  let ?b1 = "fst (after_cancel (\<not> d \<and> intersection_path b = None) (b\<lparr>lane_enabled := d\<rparr>))"
  have "follows_right_path ?b1"
    using assms(2) by (auto simp: follows_right_path_def after_cancel_def cancel_current_def split: option.splits)
  moreover have "\<exists>cs2. dispatch t r ?b1 = (b', cs2)"
    using enable by (auto simp: on_enable_def Let_def split: prod.splits if_splits)
  ultimately show ?thesis using right_path_dispatch by blast
next
  case (tick t r cs)
  with assms(2) show ?thesis using right_path_dispatch by blast
qed (use assms(2) in
      \<open>auto simp: follows_right_path_def on_lane_def goal_response_def goal_result_def
         split: if_splits option.splits prod.splits\<close>)

lemma right_path_run:
  assumes "bridge_runs (b, s) es (b', s')" "follows_right_path b"
  shows "follows_right_path b'"
  using assms
proof (induction "(b, s)" es "(b', s')" arbitrary: b' s' rule: bridge_runs.induct)
  case (snoc es y e)
  then show ?case by (cases y) (metis right_path_step)
qed simp

section \<open>Which goals are running\<close>

lemma calls_simps [simp]:
  "calls [] s = s"
  "calls (c # cs) s = calls cs (call_effect c s)"
  "calls (cs @ ds) s = calls ds (calls cs s)"
  by (simp_all add: calls_def)

text \<open>
  \<open>answered b s\<close> is the part of the invariant every handler keeps: requests and goals carry
  generations up to the current one, each its own; the newest goal that is still running and
  not cancelled is the active one.
\<close>

definition superseded :: "server \<Rightarrow> u64 \<Rightarrow> bool" where
  "superseded s g \<longleftrightarrow> (\<exists>(g', h') \<in> accepted s. g < g')"

definition accounted :: "'p bridge \<Rightarrow> server \<Rightarrow> u64 \<Rightarrow> handle \<Rightarrow> bool" where
  "accounted b s g h \<longleftrightarrow> h \<in> cancelled s \<or> h \<in> finished s \<or> superseded s g \<or> active_goal b = Some h"

definition answered :: "'p bridge \<Rightarrow> server \<Rightarrow> bool" where
  "answered b s \<longleftrightarrow>
     (\<forall>g \<in> pending s \<union> fst ` accepted s. g \<le> generation b) \<and>
     pending s \<inter> fst ` accepted s = {} \<and>
     inj_on fst (accepted s) \<and>
     (\<forall>(g, h) \<in> accepted s. accounted b s g h)"

definition quiet :: "'p bridge \<Rightarrow> server \<Rightarrow> bool" where
  "quiet b s \<longleftrightarrow> (intersection_path b = None \<and> \<not> lane_enabled b \<longrightarrow>
     sent_path b = None \<and> active_goal b = None \<and> generation b \<notin> pending s)"

definition room :: "'p bridge \<Rightarrow> bool" where
  "room b \<longleftrightarrow> unat (generation b) + 1 < 2 ^ 64"

lemma next_generation: "room b \<Longrightarrow> generation b < generation b + 1"
  by (simp add: room_def word_less_nat_alt unat_word_ariths)

lemma answeredI:
  assumes "\<And>g. g \<in> pending s \<Longrightarrow> g \<le> generation b"
    and "\<And>g h. (g, h) \<in> accepted s \<Longrightarrow> g \<le> generation b \<and> g \<notin> pending s"
    and "inj_on fst (accepted s)"
    and "\<And>g h. (g, h) \<in> accepted s \<Longrightarrow> accounted b s g h"
  shows "answered b s"
  using assms unfolding answered_def by fastforce

lemma answeredD:
  assumes "answered b s"
  shows "\<And>g. g \<in> pending s \<Longrightarrow> g \<le> generation b"
    and "\<And>g h. (g, h) \<in> accepted s \<Longrightarrow> g \<le> generation b"
    and "\<And>g h. (g, h) \<in> accepted s \<Longrightarrow> g \<notin> pending s"
    and "inj_on fst (accepted s)"
    and "\<And>g h. (g, h) \<in> accepted s \<Longrightarrow> accounted b s g h"
  using assms unfolding answered_def by (blast, force, force, blast, blast)

lemma accepted_unique: "answered b s \<Longrightarrow> (g, h) \<in> accepted s \<Longrightarrow> (g, h') \<in> accepted s \<Longrightarrow> h' = h"
  by (metis answeredD(4) fst_conv inj_onD snd_conv)

lemma answered_cong:
  "generation b' = generation b \<Longrightarrow> active_goal b' = active_goal b \<Longrightarrow> answered b s \<Longrightarrow> answered b' s"
  by (simp add: answered_def accounted_def)

lemma cancel_effect:
  "calls (snd (cancel_current b)) s = s\<lparr>cancelled := cancelled s \<union> set_option (active_goal b)\<rparr>"
  by (auto simp: cancel_current_def split: option.splits)

lemma answered_cancel:
  assumes a: "answered b s" and "room b"
    and b': "generation b' = generation b + 1" "active_goal b' = None"
  shows "answered b' (calls (snd (cancel_current b)) s)" "generation b' \<notin> pending s"
proof -
  note up = next_generation [OF assms(2)]
  show "answered b' (calls (snd (cancel_current b)) s)"
    unfolding cancel_effect
  proof (rule answeredI)
    fix g h assume "(g, h) \<in> accepted (s\<lparr>cancelled := cancelled s \<union> set_option (active_goal b)\<rparr>)"
    then have m: "(g, h) \<in> accepted s" by simp
    from answeredD(2) [OF a m] answeredD(3) [OF a m] up b'
    show "g \<le> generation b' \<and> g \<notin> pending (s\<lparr>cancelled := cancelled s \<union> set_option (active_goal b)\<rparr>)"
      by auto
    from answeredD(5) [OF a m]
    show "accounted b' (s\<lparr>cancelled := cancelled s \<union> set_option (active_goal b)\<rparr>) g h"
      by (auto simp: accounted_def superseded_def)
  qed (use answeredD(1,4) [OF a] up b' in fastforce)+
  show "generation b' \<notin> pending s"
    using answeredD(1) [OF a] up b' by fastforce
qed

lemma answered_send:
  assumes a: "answered b s" and "room b"
    and b': "generation b' = generation b + 1" "active_goal b' = active_goal b"
  shows "answered b' (s\<lparr>pending := insert (generation b + 1) (pending s)\<rparr>)"
proof (rule answeredI)
  note up = next_generation [OF assms(2)]
  fix g assume "g \<in> pending (s\<lparr>pending := insert (generation b + 1) (pending s)\<rparr>)"
  with answeredD(1) [OF a] up b' show "g \<le> generation b'" by fastforce
next
  note up = next_generation [OF assms(2)]
  fix g h assume "(g, h) \<in> accepted (s\<lparr>pending := insert (generation b + 1) (pending s)\<rparr>)"
  then have m: "(g, h) \<in> accepted s" by simp
  from answeredD(2) [OF a m] answeredD(3) [OF a m] up b'
  show "g \<le> generation b' \<and> g \<notin> pending (s\<lparr>pending := insert (generation b + 1) (pending s)\<rparr>)"
    by auto
  from answeredD(5) [OF a m] b'
  show "accounted b' (s\<lparr>pending := insert (generation b + 1) (pending s)\<rparr>) g h"
    by (auto simp: accounted_def superseded_def)
qed (use answeredD(4) [OF a] in simp)

lemma answered_dispatch:
  assumes "dispatch t r b = (b', cs)" "answered b s" "room b"
  shows "answered b' (calls cs s)"
  using assms(1)
proof (cases rule: dispatch_cases)
  case (send p)
  then have "generation b' = generation b + 1" "active_goal b' = active_goal b" by simp_all
  from answered_send [OF assms(2,3) this] send(4) show ?thesis by simp
qed (use assms(2) in simp)

lemma quiet_dispatch:
  assumes "dispatch t r b = (b', cs)" "quiet b s"
  shows "quiet b' (calls cs s)"
  using assms(1)
proof (cases rule: dispatch_cases)
  case (send p)
  with assms(2) desired_path_cases [of t b p] show ?thesis by (auto simp: quiet_def)
qed (use assms(2) in simp)

lemma goal_response_effect:
  assumes "goal_response g (Some h) b = (b', cs)"
  shows "generation b' = generation b" "pending (calls cs s) = pending s" "accepted (calls cs s) = accepted s"
    "finished (calls cs s) = finished s" "cancelled s \<subseteq> cancelled (calls cs s)"
    "g = generation b \<Longrightarrow> active_goal b' = Some h"
    "g \<noteq> generation b \<Longrightarrow> active_goal b' = active_goal b \<and> h \<in> cancelled (calls cs s)"
  using assms by (auto simp: goal_response_def split: if_splits)

lemma answered_accept:
  assumes a: "answered b s" and g: "g \<in> pending s" "h \<notin> snd ` accepted s"
    and r: "goal_response g (Some h) b = (b', cs)"
  shows "answered b' (calls cs (s\<lparr>pending := pending s - {g}, accepted := insert (g, h) (accepted s)\<rparr>))"
    (is "answered b' (calls cs ?s)")
proof -
  note eff = goal_response_effect(1) [OF r] goal_response_effect(2-5) [OF r, of ?s]
    goal_response_effect(6) [OF r] goal_response_effect(7) [OF r, of ?s]
  have new: "\<And>h'. (g, h') \<notin> accepted s" using answeredD(3) [OF a] g(1) by blast
  have old: "accounted b' (calls cs ?s) g' h'" if m: "(g', h') \<in> accepted s" for g' h'
  proof -
    have "g' < g" if "g = generation b"
      using answeredD(2) [OF a m] new m that by (metis order_le_less)
    with answeredD(5) [OF a m] eff show ?thesis
      by (cases "g = generation b") (auto simp: accounted_def superseded_def)
  qed
  show ?thesis
  proof (rule answeredI)
    show "inj_on fst (accepted (calls cs ?s))"
      unfolding eff(3) using answeredD(4) [OF a] new by (auto simp: inj_on_insert image_iff)
  next
    fix g' h' assume m: "(g', h') \<in> accepted (calls cs ?s)"
    then show "g' \<le> generation b' \<and> g' \<notin> pending (calls cs ?s)"
      unfolding eff(1-3) using answeredD(1,2,3) [OF a] g(1) by fastforce
    from m old eff(6,7) show "accounted b' (calls cs ?s) g' h'"
      unfolding eff(3) by (cases "(g', h') \<in> accepted s") (auto simp: accounted_def)
  qed (unfold eff(1,2), use answeredD(1) [OF a] in simp)
qed

lemma answered_finish:
  assumes a: "answered b s" and g: "(g, h) \<in> accepted s"
  shows "answered (goal_result g b) (s\<lparr>finished := insert h (finished s)\<rparr>)"
proof (rule answeredI)
  fix g' h' assume "(g', h') \<in> accepted (s\<lparr>finished := insert h (finished s)\<rparr>)"
  then have m: "(g', h') \<in> accepted s" by simp
  then show "g' \<le> generation (goal_result g b) \<and> g' \<notin> pending (s\<lparr>finished := insert h (finished s)\<rparr>)"
    using answeredD(2,3) [OF a m] by (simp add: goal_result_def)
  show "accounted (goal_result g b) (s\<lparr>finished := insert h (finished s)\<rparr>) g' h'"
  proof (cases "g' = g")
    case True
    with accepted_unique [OF a g] m show ?thesis by (simp add: accounted_def)
  next
    case False
    then have "superseded s g'" if "g = generation b"
      using answeredD(2) [OF a m] g that
      by (auto simp: superseded_def less_le intro!: bexI [of _ "(g, h)"])
    with answeredD(5) [OF a m] show ?thesis
      by (auto simp: accounted_def goal_result_def superseded_def)
  qed
qed (use answeredD(1,4) [OF a] in \<open>simp_all add: goal_result_def\<close>)

text \<open>A handler that may cancel, changes what is wanted, and dispatches.\<close>

lemma answered_handler:
  assumes "answered b s" "unat (generation b) + 2 < 2 ^ 64"
    and "(b1, cs1) = (if c then cancel_current b else (b, []))"
    and b2: "generation b2 = generation b1" "active_goal b2 = active_goal b1"
    and d: "dispatch t r b2 = (b3, cs2)"
  shows "answered b3 (calls (cs1 @ cs2) s)" "unat (generation b3) \<le> unat (generation b) + 2"
    "quiet b2 (calls cs1 s) \<Longrightarrow> quiet b3 (calls (cs1 @ cs2) s)"
proof -
  have room: "room b" using assms(2) by (simp add: room_def)
  have up: "unat (generation b1) \<le> unat (generation b) + 1"
    using assms(3) room by (auto simp: cancel_current_def room_def unat_word_ariths split: if_splits)
  have "answered b2 (calls cs1 s)"
  proof (cases c)
    case True
    then show ?thesis using answered_cancel(1) [OF assms(1) room, of b2] assms(3) b2
      by (simp add: cancel_current_def)
  qed (use answered_cong [of b2 b s] assms(1,3) b2 in simp)
  moreover have "room b2" using up assms(2) b2 by (simp add: room_def)
  ultimately show "answered b3 (calls (cs1 @ cs2) s)"
    using answered_dispatch [OF d] by simp
  show "unat (generation b3) \<le> unat (generation b) + 2"
    using d up b2 \<open>room b2\<close> by (cases rule: dispatch_cases) (auto simp: unat_word_ariths room_def)
  show "quiet b2 (calls cs1 s) \<Longrightarrow> quiet b3 (calls (cs1 @ cs2) s)"
    using quiet_dispatch [OF d] by simp
qed

lemma quiet_cancelled:
  assumes "answered b s" "room b" "generation b' = generation b + 1" "active_goal b' = None" "sent_path b' = None"
  shows "quiet b' (calls (snd (cancel_current b)) s)"
  using answered_cancel(2) [OF assms(1-4)] assms(4,5) unfolding cancel_effect by (simp add: quiet_def)

lemma crossing_inv:
  assumes "answered b s" "quiet b s" "unat (generation b) + 2 < 2 ^ 64"
    and "on_intersection p t r b = (b', cs)"
  shows "answered b' (calls cs s) \<and> quiet b' (calls cs s) \<and> unat (generation b') \<le> unat (generation b) + 2"
proof -
  let ?c = "pm_poses p \<noteq> [] \<or> intersection_path b \<noteq> None"
  obtain b1 cs1 where b1: "(b1, cs1) = (if ?c then cancel_current b else (b, []))"
    by (cases "if ?c then cancel_current b else (b, [])") auto
  let ?b2 = "b1\<lparr>intersection_path := (if pm_poses p = [] then None else Some p)\<rparr>"
  obtain cs2 where d: "dispatch t r ?b2 = (b', cs2)" and cs: "cs = cs1 @ cs2"
    using assms(4) b1 by (auto simp: on_intersection_def after_cancel_def Let_def split: prod.splits if_splits)
  have "quiet ?b2 (calls cs1 s)"
  proof (cases ?c)
    case True
    with b1 quiet_cancelled [OF assms(1), of ?b2] assms(3) show ?thesis
      by (simp add: cancel_current_def room_def)
  next
    case False
    with b1 assms(2) show ?thesis by (simp add: quiet_def)
  qed
  with answered_handler [OF assms(1,3) b1 _ _ d] cs show ?thesis by simp
qed

lemma enable_inv:
  assumes "answered b s" "quiet b s" "unat (generation b) + 2 < 2 ^ 64"
    and "on_enable e t r b = (b', cs)"
  shows "answered b' (calls cs s) \<and> quiet b' (calls cs s) \<and> unat (generation b') \<le> unat (generation b) + 2"
proof -
  let ?b0 = "b\<lparr>lane_enabled := e\<rparr>"
  let ?c = "\<not> e \<and> intersection_path b = None"
  obtain b1 cs1 where b1: "(b1, cs1) = (if ?c then cancel_current ?b0 else (?b0, []))"
    by (cases "if ?c then cancel_current ?b0 else (?b0, [])") auto
  obtain cs2 where d: "dispatch t r b1 = (b', cs2)" and cs: "cs = cs1 @ cs2"
    using assms(4) b1 by (auto simp: on_enable_def after_cancel_def Let_def split: prod.splits if_splits)
  have a0: "answered ?b0 s" using assms(1) by (rule answered_cong [rotated 2]) simp_all
  have r0: "unat (generation ?b0) + 2 < 2 ^ 64" using assms(3) by simp
  have "quiet b1 (calls cs1 s)"
  proof (cases ?c)
    case True
    with b1 quiet_cancelled [OF a0, of b1] r0 show ?thesis
      by (simp add: cancel_current_def room_def)
  next
    case False
    with b1 assms(2) show ?thesis by (auto simp: quiet_def)
  qed
  with answered_handler [OF a0 r0 b1 _ _ d] cs show ?thesis by simp
qed

definition none_rejected :: "'p bridge_event list \<Rightarrow> bool" where
  \<comment> \<open>the server rejects no request\<close>
  "none_rejected es \<longleftrightarrow> (\<forall>g. Rejected g \<notin> set es)"

lemma bridge_step_inv:
  assumes "bridge_step (b, s) e (b', s')" "\<forall>g. e \<noteq> Rejected g"
    and "answered b s" "quiet b s" "unat (generation b) + 2 < 2 ^ 64"
  shows "answered b' s' \<and> quiet b' s' \<and> unat (generation b') \<le> unat (generation b) + 2"
  using assms(1)
proof (cases rule: bridge_step.cases)
  case (lane p t)
  with assms(3,4) answered_cong [of b' b s] show ?thesis by (simp add: on_lane_def quiet_def)
next
  case (crossing p t r cs)
  with crossing_inv [OF assms(3-5)] show ?thesis by simp
next
  case (enable d t r cs)
  with enable_inv [OF assms(3-5)] show ?thesis by simp
next
  case (tick t r cs)
  from answered_handler [OF assms(3,5), of b "[]" False b t r b' cs] tick assms(4) show ?thesis by simp
next
  case (accept g h cs)
  note eff = goal_response_effect(1) [OF accept(5)] goal_response_effect(2) [OF accept(5)]
    goal_response_effect(6,7) [OF accept(5)]
  have "quiet b' s'"
    using accept assms(4) by (auto simp: quiet_def goal_response_def split: if_splits)
  with answered_accept [OF assms(3) accept(3,4,5)] accept(2) eff(1) show ?thesis by simp
next
  case (reject g cs)
  with assms(2) show ?thesis by simp
next
  case (finish g h)
  with answered_finish [OF assms(3) finish(4)] assms(4) show ?thesis
    by (auto simp: quiet_def goal_result_def)
qed

lemma bridge_run_inv:
  assumes "bridge_runs (b, s) es (b', s')" "none_rejected es"
    and "answered b s" "quiet b s" "unat (generation b) + 2 * length es + 2 < 2 ^ 64"
  shows "answered b' s' \<and> quiet b' s' \<and> unat (generation b') \<le> unat (generation b) + 2 * length es"
  using assms
proof (induction "(b, s)" es "(b', s')" arbitrary: b' s' rule: bridge_runs.induct)
  case (snoc es y e)
  obtain b1 s1 where y: "y = (b1, s1)" by (cases y)
  have "answered b1 s1 \<and> quiet b1 s1 \<and> unat (generation b1) \<le> unat (generation b) + 2 * length es"
    using snoc y by (intro snoc(2)) (auto simp: none_rejected_def)
  moreover have "\<forall>g. e \<noteq> Rejected g" using snoc(4) by (auto simp: none_rejected_def)
  ultimately show ?case
    using bridge_step_inv [of b1 s1 e b' s'] snoc(3,7) y by fastforce
qed simp

lemma new_bridge_inv:
  "answered (new_bridge a p) idle_server" "quiet (new_bridge a p) idle_server"
  "follows_right_path (new_bridge a p)" "generation (new_bridge a p) = 0"
  by (simp_all add: answered_def quiet_def follows_right_path_def new_bridge_def idle_server_def)

section \<open>Properties\<close>

text \<open>
  C7: An intersection path has priority. In every state the bridge can reach, whatever messages,
  clock readings and action-client callbacks came in, the path it is committed to is the
  intersection path it holds, or, when it holds none, a path it sent while
  lane following is enabled.
\<close>

theorem intersection_path_has_priority:
  assumes "bridge_runs (new_bridge age period, idle_server) es (b, s)" and "sent_path b = Some p"
  shows "intersection_path b = Some p \<or> (intersection_path b = None \<and> lane_enabled b)"
  using right_path_run [OF assms(1) new_bridge_inv(3)] assms(2) by (simp add: follows_right_path_def)

text \<open>
  C8: Switching following off revokes every goal. Within any run of fewer than 2^63 - 1 events in which
  the server rejects no request, whenever lane following is disabled and no intersection
  path is held, nothing is committed or active, every goal the server ever accepted is cancelled,
  finished or superseded by a newer one, and a goal accepted late is
  cancelled at once instead of becoming active.
\<close>

theorem following_off_revokes_goals:
  assumes "bridge_runs (new_bridge age period, idle_server) es (b, s)"
    and "none_rejected es" and "2 * length es + 2 < 2 ^ 64"
    and "intersection_path b = None" and "\<not> lane_enabled b"
  shows "sent_path b = None \<and> active_goal b = None \<and>
    (\<forall>(g, h) \<in> accepted s. h \<in> cancelled s \<or> h \<in> finished s \<or> superseded s g) \<and>
    (\<forall>g h b' s'. bridge_step (b, s) (Accepted g h) (b', s') \<longrightarrow>
       h \<in> cancelled s' \<and> active_goal b' = None)"
proof -
  have inv: "answered b s" "quiet b s"
    using bridge_run_inv [OF assms(1,2) new_bridge_inv(1,2)] assms(3) by (simp_all add: new_bridge_inv(4))
  then have off: "sent_path b = None" "active_goal b = None" "generation b \<notin> pending s"
    using assms(4,5) by (simp_all add: quiet_def)
  have "h \<in> cancelled s' \<and> active_goal b' = None" if "bridge_step (b, s) (Accepted g h) (b', s')" for g h b' s'
    using that off by (cases rule: bridge_step.cases) (auto simp: goal_response_def split: if_splits)
  moreover have "h \<in> cancelled s \<or> h \<in> finished s \<or> superseded s g" if "(g, h) \<in> accepted s" for g h
    using answeredD(5) [OF inv(1) that] off by (auto simp: accounted_def)
  ultimately show ?thesis using off by blast
qed

text \<open>
  The hypothesis on rejected requests cannot be dropped: when an update of the lane path is rejected while the
  previous goal is running, the bridge forgets the handle of that goal, and a later
  disable message cancels nothing.
\<close>

definition old_path :: "nat path_msg" where "old_path = \<lparr>pm_ref = 1, pm_poses = [0]\<rparr>"
definition new_path :: "nat path_msg" where "new_path = \<lparr>pm_ref = 2, pm_poses = [0]\<rparr>"

lemma bridge_runs_Cons:
  "bridge_runs y es z \<Longrightarrow> bridge_step x e y \<Longrightarrow> bridge_runs x (e # es) z"
proof (induction rule: bridge_runs.induct)
  case (start x')
  then show ?case using bridge_runs.snoc [OF bridge_runs.start] by fastforce
next
  case (snoc x' es y e' z)
  then show ?case using bridge_runs.snoc [of x "e # es"] by simp
qed

definition following :: "nat bridge \<times> server" where
  \<comment> \<open>the first goal has been accepted\<close>
  "following = ((new_bridge 1 1)\<lparr>lane_path := Some old_path, lane_received := 9, lane_enabled := True,
     sent_path := Some old_path, last_send := 9, generation := 1, active_goal := Some 7\<rparr>,
     idle_server\<lparr>accepted := {(1, 7)}\<rparr>)"

lemma following_run:
  "bridge_runs (new_bridge 1 1, idle_server) [LaneMsg old_path 9, EnableMsg True 9 True, Accepted 1 7] following"
proof -
  let ?b1 = "on_lane old_path 9 (new_bridge 1 1)"
  let ?b2 = "?b1\<lparr>lane_enabled := True, sent_path := Some old_path, last_send := 9, generation := 1\<rparr>"
  let ?s2 = "idle_server\<lparr>pending := {1}\<rparr>"
  have 1: "bridge_step (new_bridge 1 1, idle_server) (LaneMsg old_path 9) (?b1, idle_server)"
    by (rule bridge_step.lane)
  have "on_enable True 9 True ?b1 = (?b2, [SendGoal old_path 1])"
    by (simp add: on_enable_def after_cancel_def dispatch_def desired_path_def same_msg_def new_bridge_def
        on_lane_def old_path_def Let_def)
  from bridge_step.enable [OF this, of idle_server]
  have 2: "bridge_step (?b1, idle_server) (EnableMsg True 9 True) (?b2, ?s2)"
    by (simp add: idle_server_def)
  have "goal_response 1 (Some 7) ?b2 = (fst following, [])"
    by (simp add: goal_response_def following_def on_lane_def new_bridge_def)
  from bridge_step.accept [OF _ _ this, of ?s2]
  have 3: "bridge_step (?b2, ?s2) (Accepted 1 7) following"
    by (simp add: idle_server_def following_def)
  show ?thesis
    by (rule bridge_runs_Cons [OF _ 1], rule bridge_runs_Cons [OF _ 2], rule bridge_runs_Cons [OF _ 3],
        rule bridge_runs.start)
qed

definition lost_run :: "nat bridge_event list" where
  "lost_run = [LaneMsg new_path 10, Tick 10 True, Rejected 2, EnableMsg False 10 True]"

text \<open>
  C9: A rejected update loses the running goal. After the first lane goal has been accepted, a
  new lane path whose goal the server rejects, followed by a disable message, leaves the bridge with no
  active goal while the accepted one is neither cancelled nor finished nor superseded.
\<close>

theorem rejected_update_loses_goal:
  "\<exists>b s. bridge_runs following lost_run (b, s) \<and> intersection_path b = None \<and> \<not> lane_enabled b \<and>
     active_goal b = None \<and> accepted s = {(1, 7)} \<and> cancelled s = {} \<and> finished s = {} \<and> \<not> superseded s 1"
proof -
  let ?b0 = "fst following" and ?s0 = "snd following"
  let ?b1 = "on_lane new_path 10 ?b0"
  let ?b2 = "?b1\<lparr>generation := 2, sent_path := Some new_path, last_send := 10\<rparr>"
  let ?s2 = "?s0\<lparr>pending := {2}\<rparr>"
  let ?b3 = "?b2\<lparr>active_goal := None, sent_path := None\<rparr>"
  let ?b4 = "?b3\<lparr>lane_enabled := False, generation := 3, last_send := - 1000000000\<rparr>"
  have 1: "bridge_step following (LaneMsg new_path 10) (?b1, ?s0)"
    using bridge_step.lane [of ?b0 ?s0] by simp
  have "dispatch 10 True ?b1 = (?b2, [SendGoal new_path 2])"
    by (simp add: dispatch_def desired_path_def same_msg_def new_bridge_def following_def
        on_lane_def old_path_def new_path_def Let_def)
  from bridge_step.tick [OF this, of ?s0] have 2: "bridge_step (?b1, ?s0) (Tick 10 True) (?b2, ?s2)"
    by (simp add: following_def idle_server_def)
  have "goal_response 2 None ?b2 = (?b3, [])" by (simp add: goal_response_def)
  from bridge_step.reject [OF _ this, of ?s2] have 3: "bridge_step (?b2, ?s2) (Rejected 2) (?b3, ?s0)"
    by (simp add: following_def idle_server_def)
  have "on_enable False 10 True ?b3 = (?b4, [])"
    by (simp add: on_enable_def after_cancel_def cancel_current_def dispatch_def desired_path_def Let_def
        following_def on_lane_def new_bridge_def)
  from bridge_step.enable [OF this, of ?s0] have 4: "bridge_step (?b3, ?s0) (EnableMsg False 10 True) (?b4, ?s0)"
    by simp
  have "bridge_runs following lost_run (?b4, ?s0)"
    unfolding lost_run_def
    by (rule bridge_runs_Cons [OF _ 1], rule bridge_runs_Cons [OF _ 2], rule bridge_runs_Cons [OF _ 3],
        rule bridge_runs_Cons [OF _ 4], rule bridge_runs.start)
  moreover have "intersection_path ?b4 = None \<and> \<not> lane_enabled ?b4 \<and> active_goal ?b4 = None \<and>
      accepted ?s0 = {(1, 7)} \<and> cancelled ?s0 = {} \<and> finished ?s0 = {} \<and> \<not> superseded ?s0 1"
    by (simp add: following_def idle_server_def new_bridge_def on_lane_def superseded_def)
  ultimately show ?thesis by blast
qed

section \<open>Witnesses\<close>

theorem intersection_path_has_priority_witness:
  "intersection_path (fst following) = Some old_path \<or>
   (intersection_path (fst following) = None \<and> lane_enabled (fst following))"
  using intersection_path_has_priority [of 1 1 _ "fst following" "snd following" old_path] following_run
  by (simp add: following_def)

theorem following_off_revokes_goals_witness:
  "\<exists>b s. bridge_runs (new_bridge 1 1, idle_server)
     [LaneMsg old_path 9, EnableMsg True 9 True, Accepted 1 7, EnableMsg False 10 True] (b, s) \<and>
     accepted s = {(1, 7)} \<and> 7 \<in> cancelled s"
proof -
  let ?b = "(fst following)\<lparr>lane_enabled := False, generation := 2, last_send := - 1000000000,
     active_goal := None, sent_path := None\<rparr>"
  let ?s = "(snd following)\<lparr>cancelled := {7}\<rparr>"
  have "on_enable False 10 True (fst following) = (?b, [CancelGoal 7])"
    by (simp add: on_enable_def after_cancel_def cancel_current_def dispatch_def desired_path_def Let_def
        following_def new_bridge_def)
  from bridge_step.enable [OF this, of "snd following"]
  have "bridge_step following (EnableMsg False 10 True) (?b, ?s)"
    by (simp add: following_def idle_server_def)
  from bridge_runs.snoc [OF following_run this]
  have run: "bridge_runs (new_bridge 1 1, idle_server)
     [LaneMsg old_path 9, EnableMsg True 9 True, Accepted 1 7, EnableMsg False 10 True] (?b, ?s)" by simp
  from following_off_revokes_goals [OF run] have "7 \<in> cancelled ?s \<or> 7 \<in> finished ?s \<or> superseded ?s 1"
    by (auto simp: none_rejected_def following_def new_bridge_def)
  then have "7 \<in> cancelled ?s" by (simp add: following_def idle_server_def superseded_def)
  with run show ?thesis by (intro exI conjI) (assumption, simp_all add: following_def)
qed

end
