(* ===== verification/Lane_Change.thy ===== *)
theory Lane_Change
  imports Messages
begin

text \<open>
  The lane-change action server and the path mux,
  \<open>src/lane_change_ws/lane_change/src/lane_change_server.cpp\<close> and \<open>lane_path_mux.cpp\<close>. The server only
  flips the selected lane and publishes it; the mux republishes the centreline of the
  selected lane, re-expressed in the output frame when one is set. TF and the rigid transform of a
  pose are parameters.

  The lemmas show that the mux publishes nothing but the latest non-empty path of the lane it has selected,
  that a re-expressed path keeps its length, order and stamp, and that server and mux agree on
  the lane after the mux has consumed what the server published.
\<close>

section \<open>The server\<close>

definition kRight :: int where "kRight = 1"
definition kLeft :: int where "kLeft = 2"

record lane_result =
  res_code :: nat
  body_clear_distance :: real
  in_window :: bool

definition initial_lane :: "string \<Rightarrow> int" where
  \<comment> \<open>the server's and the mux's reading of the parameter \<open>initial_lane\<close>\<close>
  "initial_lane s = (if s = ''left'' then kLeft else kRight)"

definition flip_lane :: "int \<Rightarrow> int" where
  "flip_lane l = (if l = kRight then kLeft else kRight)"

definition server_start :: "string \<Rightarrow> int \<times> int list" where
  \<comment> \<open>the lane and the messages published on the lane topic\<close>
  "server_start param = (initial_lane param, [initial_lane param])"

definition server_execute :: "int \<Rightarrow> int \<times> int list \<times> lane_result" where
  "server_execute l = (let l' = flip_lane l in
     (l', [l'], \<lparr>res_code = 0, body_clear_distance = -1, in_window = False\<rparr>))"

section \<open>The mux\<close>

record 'pose pose_stamped =
  ps_header :: header
  ps_pose :: 'pose

record 'pose path =
  path_header :: header
  poses :: "'pose pose_stamped list"

record 'pose mux =
  output_frame :: string
  selected :: int
  latest :: "int \<Rightarrow> 'pose path option"

definition new_mux :: "string \<Rightarrow> string \<Rightarrow> 'pose mux" where
  "new_mux frame param = \<lparr>output_frame = frame, selected = initial_lane param, latest = (\<lambda>_. None)\<rparr>"

definition mux_transform :: "'tr lookup \<Rightarrow> string \<Rightarrow> header \<Rightarrow> 'tr option" where
  \<comment> \<open>the transform at the path's stamp, or else the latest one\<close>
  "mux_transform tf frame h =
     (case tf frame (frame_id h) (Some (stamp h)) of
        Inr t \<Rightarrow> Some t
      | Inl e \<Rightarrow> (case tf frame (frame_id h) None of Inr t \<Rightarrow> Some t | Inl e' \<Rightarrow> None))"

definition mux_publish ::
    "'tr lookup \<Rightarrow> ('tr \<Rightarrow> 'pose \<Rightarrow> 'pose) \<Rightarrow> 'pose mux \<Rightarrow> 'pose path \<Rightarrow> 'pose path list" where
  \<comment> \<open>the messages published on the selected centreline\<close>
  "mux_publish tf do_transform m p =
     (if output_frame m = [] \<or> frame_id (path_header p) = output_frame m then [p]
      else case mux_transform tf (output_frame m) (path_header p) of
        None \<Rightarrow> []
      | Some t \<Rightarrow>
          let h = (path_header p)\<lparr>frame_id := output_frame m\<rparr> in
          [\<lparr>path_header = h,
            poses = map (\<lambda>q. \<lparr>ps_header = (ps_header q)\<lparr>frame_id := output_frame m,
                                stamp := stamp (path_header p)\<rparr>,
                             ps_pose = do_transform t (ps_pose q)\<rparr>) (poses p)\<rparr>])"

definition mux_on_path ::
    "'tr lookup \<Rightarrow> ('tr \<Rightarrow> 'pose \<Rightarrow> 'pose) \<Rightarrow> int \<Rightarrow> 'pose path \<Rightarrow> 'pose mux \<Rightarrow> 'pose mux \<times> 'pose path list" where
  "mux_on_path tf tr lane p m =
     (if poses p = [] then (m, [])
      else let m' = m\<lparr>latest := (latest m)(lane - 1 := Some p)\<rparr>
           in (m', if lane = selected m' then mux_publish tf tr m' p else []))"

definition mux_on_lane ::
    "'tr lookup \<Rightarrow> ('tr \<Rightarrow> 'pose \<Rightarrow> 'pose) \<Rightarrow> int \<Rightarrow> 'pose mux \<Rightarrow> 'pose mux \<times> 'pose path list" where
  "mux_on_lane tf tr lane m =
     (if lane \<noteq> kRight \<and> lane \<noteq> kLeft then (m, [])
      else let m' = m\<lparr>selected := lane\<rparr>
           in (m', case latest m' (selected m' - 1) of None \<Rightarrow> [] | Some p \<Rightarrow> mux_publish tf tr m' p))"

section \<open>Runs\<close>

datatype 'pose mux_event = OnPath int "'pose path" | OnLane int

fun mux_step ::
    "'tr lookup \<Rightarrow> ('tr \<Rightarrow> 'pose \<Rightarrow> 'pose) \<Rightarrow> 'pose mux \<Rightarrow> 'pose mux_event \<Rightarrow> 'pose mux \<times> 'pose path list" where
  "mux_step tf tr m (OnPath lane p) = mux_on_path tf tr lane p m"
| "mux_step tf tr m (OnLane lane) = mux_on_lane tf tr lane m"

definition mux_run ::
    "'tr lookup \<Rightarrow> ('tr \<Rightarrow> 'pose \<Rightarrow> 'pose) \<Rightarrow> 'pose mux \<Rightarrow> 'pose mux_event list \<Rightarrow> 'pose mux" where
  "mux_run tf tr m es = foldl (\<lambda>m e. fst (mux_step tf tr m e)) m es"

lemma mux_run_simps [simp]:
  "mux_run tf tr m [] = m"
  "mux_run tf tr m (es @ [e]) = fst (mux_step tf tr (mux_run tf tr m es) e)"
  by (simp_all add: mux_run_def)

text \<open>The specification: the last lane command that counts, and the last non-empty path of a lane.\<close>

fun commanded :: "int \<Rightarrow> 'pose mux_event list \<Rightarrow> int" where
  "commanded l [] = l"
| "commanded l (OnLane k # es) = commanded (if k = kRight \<or> k = kLeft then k else l) es"
| "commanded l (OnPath k p # es) = commanded l es"

fun latest_path :: "'pose path option \<Rightarrow> int \<Rightarrow> 'pose mux_event list \<Rightarrow> 'pose path option" where
  "latest_path q l [] = q"
| "latest_path q l (OnLane k # es) = latest_path q l es"
| "latest_path q l (OnPath k p # es) = latest_path (if k = l \<and> poses p \<noteq> [] then Some p else q) l es"

lemma commanded_snoc: "commanded l (es @ [e]) =
    (case e of OnLane k \<Rightarrow> if k = kRight \<or> k = kLeft then k else commanded l es | OnPath k p \<Rightarrow> commanded l es)"
  by (induction l es rule: commanded.induct) (auto split: mux_event.splits)

lemma latest_path_snoc: "latest_path q l (es @ [e]) =
    (case e of OnPath k p \<Rightarrow> if k = l \<and> poses p \<noteq> [] then Some p else latest_path q l es
     | OnLane k \<Rightarrow> latest_path q l es)"
  by (induction q l es rule: latest_path.induct) (auto split: mux_event.splits)

lemma mux_state:
  "selected (mux_run tf tr m es) = commanded (selected m) es"
  "latest (mux_run tf tr m es) (l - 1) = latest_path (latest m (l - 1)) l es"
  "output_frame (mux_run tf tr m es) = output_frame m"
proof (induction es rule: rev_induct)
  case (snoc e es)
  { case 1 show ?case using snoc by (cases e) (auto simp: commanded_snoc mux_on_path_def mux_on_lane_def Let_def) }
  { case 2 show ?case using snoc by (cases e) (auto simp: latest_path_snoc mux_on_path_def mux_on_lane_def Let_def) }
  { case 3 show ?case using snoc by (cases e) (auto simp: mux_on_path_def mux_on_lane_def Let_def) }
qed simp_all

text \<open>What publishing does to a path: the same points in the same order, at the same stamp.\<close>

definition same_path :: "'pose path \<Rightarrow> 'pose path \<Rightarrow> ('pose \<Rightarrow> 'pose) \<Rightarrow> bool" where
  "same_path p q f \<longleftrightarrow> stamp (path_header q) = stamp (path_header p) \<and>
     map ps_pose (poses q) = map (f \<circ> ps_pose) (poses p)"

lemma mux_publish_same:
  assumes "q \<in> set (mux_publish tf tr m p)"
  shows "\<exists>f. same_path p q f \<and> (f = id \<or> (\<exists>t. f = tr t)) \<and>
    (output_frame m = [] \<or> frame_id (path_header q) = output_frame m)"
proof (cases "output_frame m = [] \<or> frame_id (path_header p) = output_frame m")
  case True
  with assms show ?thesis
    by (intro exI [of _ id]) (auto simp: mux_publish_def same_path_def)
next
  case False
  with assms obtain t where "mux_transform tf (output_frame m) (path_header p) = Some t"
    by (cases "mux_transform tf (output_frame m) (path_header p)") (auto simp: mux_publish_def)
  with assms False show ?thesis
    by (intro exI [of _ "tr t"]) (auto simp: mux_publish_def same_path_def Let_def)
qed

lemma mux_publishes:
  assumes "output_frame m = [] \<or> mux_transform tf (output_frame m) (path_header p) \<noteq> None"
  shows "length (mux_publish tf tr m p) = 1"
  using assms by (auto simp: mux_publish_def Let_def)

lemma latest_path_nonempty:
  "latest_path None l es = Some p \<Longrightarrow> poses p \<noteq> []"
proof (induction es rule: rev_induct)
  case (snoc e es)
  then show ?case by (cases e) (auto simp: latest_path_snoc split: if_splits)
qed simp

section \<open>The server's messages\<close>

fun server_run :: "string \<Rightarrow> nat \<Rightarrow> int \<times> int list" where
  \<comment> \<open>the lane and everything published after the start and \<open>n\<close> executed goals\<close>
  "server_run param 0 = server_start param"
| "server_run param (Suc n) =
     (let (l, ms) = server_run param n; (l', ms', r) = server_execute l in (l', ms @ ms'))"

definition lane_commands :: "'pose mux_event list \<Rightarrow> int list" where
  "lane_commands es = List.map_filter (\<lambda>e. case e of OnLane k \<Rightarrow> Some k | OnPath l p \<Rightarrow> None) es"

lemma server_run_last:
  "snd (server_run param n) \<noteq> [] \<and> last (snd (server_run param n)) = fst (server_run param n) \<and>
   fst (server_run param n) \<in> {kRight, kLeft} \<and> (\<forall>k \<in> set (snd (server_run param n)). k \<in> {kRight, kLeft})"
  by (induction n) (auto simp: server_start_def server_execute_def initial_lane_def flip_lane_def Let_def
      split: prod.splits)

lemma flip_lane_twice: "flip_lane (flip_lane (initial_lane param)) = initial_lane param"
  by (simp add: flip_lane_def initial_lane_def kRight_def kLeft_def)

lemma server_lane:
  "fst (server_run param n) = (if even n then initial_lane param else flip_lane (initial_lane param))"
proof (induction n)
  case (Suc n)
  have "fst (server_run param (Suc n)) = flip_lane (fst (server_run param n))"
    by (simp add: server_execute_def Let_def split: prod.splits)
  with Suc show ?case by (simp add: flip_lane_twice)
qed (simp add: server_start_def)

lemma commanded_last:
  "\<forall>k \<in> set (lane_commands es). k \<in> {kRight, kLeft} \<Longrightarrow>
   commanded l es = last (l # lane_commands es)"
  by (induction l es rule: commanded.induct) (auto simp: lane_commands_def map_filter_def)

section \<open>Properties\<close>

text \<open>
  The selected centreline is the latest path of the selected lane. Whatever paths and lane
  commands the mux received, anything it publishes on an event consists of the points of the last
  non-empty path received on the lane commanded last, in order and at its stamp, unchanged or all mapped by one
  transform into the output frame; and a non-empty path arriving on the commanded lane is
  published when no output frame is set or TF answers.
\<close>

theorem mux_publishes_selected_lane:
  fixes tf :: "'tr lookup" and tr :: "'tr \<Rightarrow> 'pose \<Rightarrow> 'pose"
  assumes "m = new_mux frame param"
  shows "(\<forall>q \<in> set (snd (mux_step tf tr (mux_run tf tr m es) e)).
     \<exists>p f. latest_path None (commanded (initial_lane param) (es @ [e])) (es @ [e]) = Some p \<and>
       poses p \<noteq> [] \<and> same_path p q f \<and> (f = id \<or> (\<exists>t. f = tr t)) \<and>
       (frame = [] \<or> frame_id (path_header q) = frame)) \<and>
    (\<forall>p. e = OnPath (commanded (initial_lane param) es) p \<and> poses p \<noteq> [] \<and>
       (frame = [] \<or> mux_transform tf frame (path_header p) \<noteq> None) \<longrightarrow>
     length (snd (mux_step tf tr (mux_run tf tr m es) e)) = 1)"
proof (intro conjI ballI allI impI)
  have frame: "output_frame (mux_run tf tr m xs) = frame" for xs
    by (simp add: mux_state assms new_mux_def)
  have sel: "selected (mux_run tf tr m xs) = commanded (initial_lane param) xs" for xs
    by (simp add: mux_state assms new_mux_def)
  {
    fix q assume q: "q \<in> set (snd (mux_step tf tr (mux_run tf tr m es) e))"
    let ?m = "mux_run tf tr m (es @ [e])"
    have lat: "latest ?m (l - 1) = latest_path None l (es @ [e])" for l
      by (subst mux_state) (simp add: assms new_mux_def)
    from q have "\<exists>p. latest ?m (selected ?m - 1) = Some p \<and> q \<in> set (mux_publish tf tr ?m p)"
      by (cases e) (auto simp: mux_on_path_def mux_on_lane_def Let_def split: if_splits option.splits; metis)+
    then obtain p where p: "latest_path None (commanded (initial_lane param) (es @ [e])) (es @ [e]) = Some p"
      "q \<in> set (mux_publish tf tr ?m p)"
      unfolding sel lat by blast
    from mux_publish_same [OF p(2)] latest_path_nonempty [OF p(1)] p(1)
    show "\<exists>p f. latest_path None (commanded (initial_lane param) (es @ [e])) (es @ [e]) = Some p \<and>
       poses p \<noteq> [] \<and> same_path p q f \<and> (f = id \<or> (\<exists>t. f = tr t)) \<and>
       (frame = [] \<or> frame_id (path_header q) = frame)"
      unfolding frame by blast
  }
  fix p assume p: "e = OnPath (commanded (initial_lane param) es) p \<and> poses p \<noteq> [] \<and>
     (frame = [] \<or> mux_transform tf frame (path_header p) \<noteq> None)"
  let ?m = "(mux_run tf tr m es)\<lparr>latest := (latest (mux_run tf tr m es))
      (commanded (initial_lane param) es - 1 := Some p)\<rparr>"
  have "length (mux_publish tf tr ?m p) = 1"
    using p frame [of es] by (intro mux_publishes) simp
  with p sel [of es] show "length (snd (mux_step tf tr (mux_run tf tr m es) e)) = 1"
    by (simp add: mux_on_path_def Let_def)
qed

definition lane_msg :: "real \<Rightarrow> string \<Rightarrow> int path" where
  "lane_msg x f = \<lparr>path_header = \<lparr>stamp = 1, frame_id = f\<rparr>,
     poses = [\<lparr>ps_header = \<lparr>stamp = 0, frame_id = f\<rparr>, ps_pose = \<lfloor>x\<rfloor>\<rparr>]\<rparr>"

theorem mux_publishes_selected_lane_witness:
  "length (snd (mux_step (\<lambda>_ _ _. Inr (3::int)) (+)
     (mux_run (\<lambda>_ _ _. Inr 3) (+) (new_mux ''odom'' ''right'')
        [OnPath 2 (lane_msg 8 ''base''), OnLane 2]) (OnPath 2 (lane_msg 9 ''base'')))) = 1"
  using mux_publishes_selected_lane [OF refl, where frame = "''odom''" and param = "''right''" and
      tf = "\<lambda>_ _ _. Inr 3" and tr = "(+)" and es = "[OnPath 2 (lane_msg 8 ''base''), OnLane 2]" and
      e = "OnPath 2 (lane_msg 9 ''base'')"]
  by (simp add: kRight_def kLeft_def lane_msg_def mux_transform_def)

text \<open>
  C10: Server and mux agree on the lane. After the server has executed \<open>n\<close> goals, a mux that has
  consumed exactly the lane messages the server published, interleaved with any paths, has
  selected the server's lane, whatever lane it was configured with: the server's
  initial lane for even \<open>n\<close> and the other one for odd \<open>n\<close>.
\<close>

theorem mux_follows_server:
  assumes "lane_commands es = snd (server_run param n)"
  shows "selected (mux_run tf tr (new_mux frame other) es) = fst (server_run param n) \<and>
    selected (mux_run tf tr (new_mux frame other) es) =
      (if even n then initial_lane param else flip_lane (initial_lane param))"
  using assms server_run_last [of param n] commanded_last [of es "initial_lane other"] server_lane [of param n]
  by (simp_all add: mux_state new_mux_def)

theorem mux_follows_server_witness:
  "selected (mux_run (\<lambda>_ _ _. Inl LookupError) (+) (new_mux ''odom'' ''right'')
     [OnLane kLeft, OnPath 1 (lane_msg 8 ''base''), OnLane kRight, OnLane kLeft]) = kLeft"
  using mux_follows_server [of "[OnLane kLeft, OnPath 1 (lane_msg 8 ''base''), OnLane kRight, OnLane kLeft]"
      "''left''" 2 "\<lambda>_ _ _. Inl LookupError" "(+)" "''odom''" "''right''"]
  by (simp add: lane_commands_def map_filter_def server_start_def server_execute_def initial_lane_def
      flip_lane_def kRight_def kLeft_def numeral_2_eq_2)

end
