(* ===== verification/Lane_Mapper.thy ===== *)
theory Lane_Mapper
  imports Prelude
begin

text \<open>
  The rolling lane map, \<open>src/mapping_cpp/include/mapping_cpp/lane_mapper.hpp\<close> and
  \<open>src/mapping_cpp/src/lane_mapper.cpp\<close>: a log-odds grid stored in a ring buffer that is recentred on
  the robot, updated by splatting lane points, and read out through a speckle filter. The
  vectors are functions of the index, and the lemmas show that every index used is inside
  them; lengths and log-odds are real numbers, cell coordinates unbounded integers.

  The lemmas show that recentring keeps exactly the cells both windows share, that a frame leaves
  no evidence behind and keeps the log-odds inside their limits, what a frame does to each
  cell, and which cells a snapshot reports as occupied.
\<close>

section \<open>Data\<close>

record point2 =
  pt_x :: real
  pt_y :: real

record pose2 =
  pose_x :: real
  pose_y :: real
  pose_yaw :: real

record params =
  resolution :: real
  par_width :: int
  par_height :: int
  roi_x_min :: real
  roi_x_max :: real
  roi_half_y_near :: real
  roi_half_y_far :: real
  sigma_base :: real
  sigma_per_m :: real
  sigma_per_m2 :: real
  range_ref :: real
  l_hit :: real
  l_miss :: real
  l_min :: real
  l_max :: real
  l_occupied :: real
  min_points_for_miss :: nat
  speckle_radius :: int
  speckle_support :: int

definition default_params :: params where
  "default_params = \<lparr>resolution = 0.1, par_width = 200, par_height = 200, roi_x_min = 0.3,
     roi_x_max = 2.5, roi_half_y_near = 0.5, roi_half_y_far = 1.2, sigma_base = 0.09,
     sigma_per_m = 0.01, sigma_per_m2 = 0, range_ref = 2, l_hit = 0.9, l_miss = - 0.12,
     l_min = - 2, l_max = 5, l_occupied = 1.5, min_points_for_miss = 15, speckle_radius = 1,
     speckle_support = 3\<rparr>"

record window =
  win_origin_x :: real
  win_origin_y :: real
  win_resolution :: real
  win_width :: int
  win_height :: int

record mapper =
  parameters :: params
  width :: int
  height :: int
  origin_x :: int
  origin_y :: int
  initialised :: bool
  log_odds :: "int \<Rightarrow> real"
  frame_ev :: "int \<Rightarrow> real"
  seen_cell :: "int \<Rightarrow> bool"
  touched :: "int list"

definition new_mapper :: "params \<Rightarrow> mapper" where
  "new_mapper p = \<lparr>parameters = p, width = par_width p, height = par_height p, origin_x = 0,
     origin_y = 0, initialised = False, log_odds = (\<lambda>_. 0), frame_ev = (\<lambda>_. 0),
     seen_cell = (\<lambda>_. False), touched = []\<rparr>"

section \<open>The ring buffer\<close>

definition pmod :: "int \<Rightarrow> int \<Rightarrow> int" where
  "pmod a n = (let m = a smod n in if m < 0 then m + n else m)"

definition getIdx :: "mapper \<Rightarrow> int \<Rightarrow> int \<Rightarrow> int" where
  "getIdx m gx gy = pmod gy (height m) * width m + pmod gx (width m)"

definition toGridNumber :: "mapper \<Rightarrow> real \<Rightarrow> int" where
  "toGridNumber m v = \<lfloor>v / resolution (parameters m)\<rfloor>"

definition inWindow :: "mapper \<Rightarrow> int \<Rightarrow> int \<Rightarrow> bool" where
  "inWindow m gx gy \<longleftrightarrow> gx \<ge> origin_x m \<and> gx < origin_x m + width m \<and>
     gy \<ge> origin_y m \<and> gy < origin_y m + height m"

definition reset :: "mapper \<Rightarrow> mapper" where
  "reset m = m\<lparr>log_odds := (\<lambda>_. 0), seen_cell := (\<lambda>_. False), initialised := False\<rparr>"

definition applyLogOdds :: "int \<Rightarrow> real \<Rightarrow> mapper \<Rightarrow> mapper" where
  "applyLogOdds i d m = m\<lparr>
     log_odds := (log_odds m)(i := clamp (log_odds m i + d) (l_min (parameters m)) (l_max (parameters m))),
     seen_cell := (seen_cell m)(i := True)\<rparr>"

definition clear_cells :: "int list \<Rightarrow> mapper \<Rightarrow> mapper" where
  "clear_cells is m = m\<lparr>log_odds := (\<lambda>i. if i \<in> set is then 0 else log_odds m i),
     seen_cell := (\<lambda>i. i \<notin> set is \<and> seen_cell m i)\<rparr>"

definition clearCol :: "int \<Rightarrow> mapper \<Rightarrow> mapper" where
  "clearCol gx m = (let c = pmod gx (width m) in
     clear_cells (map (\<lambda>r. r * width m + c) [0..height m - 1]) m)"

definition clearRow :: "int \<Rightarrow> mapper \<Rightarrow> mapper" where
  "clearRow gy m = (let base = pmod gy (height m) * width m in
     clear_cells (map (\<lambda>c. base + c) [0..width m - 1]) m)"

definition recenter :: "pose2 \<Rightarrow> mapper \<Rightarrow> mapper" where
  "recenter pose m =
     (let new_x = toGridNumber m (pose_x pose) - width m div 2;
          new_y = toGridNumber m (pose_y pose) - height m div 2
      in if \<not> initialised m then
           (reset m)\<lparr>origin_x := new_x, origin_y := new_y, initialised := True\<rparr>
         else
           let dx = new_x - origin_x m;
               dy = new_y - origin_y m;
               m1 = (if \<bar>dx\<bar> \<ge> width m \<or> \<bar>dy\<bar> \<ge> height m
                     then m\<lparr>log_odds := (\<lambda>_. 0), seen_cell := (\<lambda>_. False)\<rparr>
                     else
                       let clear_x_0 = min (origin_x m) new_x;
                           clear_y_0 = min (origin_y m) new_y
                       in fold (\<lambda>k. clearRow (clear_y_0 + k)) [0..\<bar>dy\<bar> - 1]
                            (fold (\<lambda>k. clearCol (clear_x_0 + k)) [0..\<bar>dx\<bar> - 1] m))
           in m1\<lparr>origin_x := new_x, origin_y := new_y\<rparr>)"

section \<open>Inserting a frame\<close>

record splat =
  sp_weight :: real
  sp_inv :: real
  sp_x :: real
  sp_y :: real
  sp_radius :: int

definition splat_of :: "mapper \<Rightarrow> pose2 \<Rightarrow> point2 \<Rightarrow> splat" where
  "splat_of m pose pt =
     (let p = parameters m;
          radial_dist = hypot (pt_x pt) (pt_y pt);
          sigma = sigma_base p + sigma_per_m p * radial_dist + sigma_per_m2 p * radial_dist * radial_dist
      in \<lparr>sp_weight = 1 / (1 + (radial_dist / range_ref p) * (radial_dist / range_ref p)),
          sp_inv = 1 / (2 * sigma * sigma),
          sp_x = pose_x pose + cos (pose_yaw pose) * pt_x pt - sin (pose_yaw pose) * pt_y pt,
          sp_y = pose_y pose + sin (pose_yaw pose) * pt_x pt + cos (pose_yaw pose) * pt_y pt,
          sp_radius = \<lceil>3 * sigma / resolution p\<rceil>\<rparr>)"

definition evidence_of :: "mapper \<Rightarrow> splat \<Rightarrow> int \<times> int \<Rightarrow> real" where
  "evidence_of m sp c =
     (let error_x = (of_int (fst c) + 0.5) * resolution (parameters m) - sp_x sp;
          error_y = (of_int (snd c) + 0.5) * resolution (parameters m) - sp_y sp
      in sp_weight sp * exp (- (error_x * error_x + error_y * error_y) * sp_inv sp))"

definition splat_cells :: "mapper \<Rightarrow> splat \<Rightarrow> (int \<times> int) list" where
  "splat_cells m sp =
     filter (\<lambda>(gx, gy). inWindow m gx gy)
       (concat (map (\<lambda>dy. map (\<lambda>dx. (toGridNumber m (sp_x sp) + dx, toGridNumber m (sp_y sp) + dy))
                             [- sp_radius sp..sp_radius sp]) [- sp_radius sp..sp_radius sp]))"

definition splat_cell :: "splat \<Rightarrow> int \<times> int \<Rightarrow> mapper \<Rightarrow> mapper" where
  "splat_cell sp c m =
     (let e = evidence_of m sp c;
          idx = getIdx m (fst c) (snd c);
          m1 = (if frame_ev m idx = 0 then m\<lparr>touched := touched m @ [idx]\<rparr> else m)
      in if e > frame_ev m1 idx then m1\<lparr>frame_ev := (frame_ev m1)(idx := e)\<rparr> else m1)"

definition splat_point :: "pose2 \<Rightarrow> point2 \<Rightarrow> mapper \<Rightarrow> mapper" where
  "splat_point pose pt m =
     (let sp = splat_of m pose pt in fold (splat_cell sp) (splat_cells m sp) m)"

definition frustum_corners :: "mapper \<Rightarrow> pose2 \<Rightarrow> (real \<times> real) list" where
  "frustum_corners m pose =
     (let p = parameters m in
      [(pose_x pose + cos (pose_yaw pose) * fx - sin (pose_yaw pose) * fy,
        pose_y pose + sin (pose_yaw pose) * fx + cos (pose_yaw pose) * fy).
       fx \<leftarrow> [roi_x_min p, roi_x_max p], fy \<leftarrow> [- roi_half_y_far p, roi_half_y_far p]])"

definition roi_bounds :: "mapper \<Rightarrow> pose2 \<Rightarrow> int \<times> int \<times> int \<times> int" where
  \<comment> \<open>\<open>(grid_x_0, grid_x_1, grid_y_0, grid_y_1)\<close>\<close>
  "roi_bounds m pose =
     (let cs = frustum_corners m pose;
          min_x = fold min (map fst cs) (10 ^ 18);
          max_x = fold max (map fst cs) (- (10 ^ 18));
          min_y = fold min (map snd cs) (10 ^ 18);
          max_y = fold max (map snd cs) (- (10 ^ 18))
      in (max (toGridNumber m min_x) (origin_x m), min (toGridNumber m max_x) (width m - 1),
          max (toGridNumber m min_y) (origin_y m), min (toGridNumber m max_y) (height m - 1)))"

definition roi_cells :: "mapper \<Rightarrow> pose2 \<Rightarrow> (int \<times> int) list" where
  "roi_cells m pose =
     (let (x0, x1, y0, y1) = roi_bounds m pose
      in concat (map (\<lambda>gy. map (\<lambda>gx. (gx, gy)) [x0..x1]) [y0..y1]))"

definition robot_frame :: "mapper \<Rightarrow> pose2 \<Rightarrow> int \<times> int \<Rightarrow> real \<times> real" where
  "robot_frame m pose c =
     (let dx = (of_int (fst c) + 0.5) * resolution (parameters m) - pose_x pose;
          dy = (of_int (snd c) + 0.5) * resolution (parameters m) - pose_y pose
      in (cos (pose_yaw pose) * dx - sin (pose_yaw pose) * dy,
          - sin (pose_yaw pose) * dx + sin (pose_yaw pose) * dy))"

definition in_roi :: "mapper \<Rightarrow> pose2 \<Rightarrow> int \<times> int \<Rightarrow> bool" where
  "in_roi m pose c =
     (let p = parameters m;
          (robot_x, robot_y) = robot_frame m pose c;
          t = (robot_x - roi_x_min p) / (roi_x_max p - roi_x_min p);
          half_width = roi_half_y_near p + t * (roi_half_y_far p - roi_half_y_near p)
      in \<not> (robot_x < roi_x_min p \<or> robot_x > roi_x_max p) \<and> \<not> \<bar>robot_y\<bar> > half_width)"

definition roi_delta :: "mapper \<Rightarrow> pose2 \<Rightarrow> bool \<Rightarrow> int \<times> int \<Rightarrow> real \<Rightarrow> real" where
  \<comment> \<open>the change of log-odds for evidence \<open>e\<close>\<close>
  "roi_delta m pose do_miss c e =
     (let p = parameters m;
          robot_x = fst (robot_frame m pose c);
          weight = 1 / (1 + (robot_x / range_ref p) * (robot_x / range_ref p))
      in e * l_hit p + (if do_miss then (1 - e) * l_miss p * weight else 0))"

definition roi_cell :: "pose2 \<Rightarrow> bool \<Rightarrow> int \<times> int \<Rightarrow> mapper \<Rightarrow> mapper" where
  "roi_cell pose do_miss c m =
     (if \<not> in_roi m pose c then m
      else let idx = getIdx m (fst c) (snd c); e = frame_ev m idx in
        if e = 0 \<and> \<not> do_miss then m
        else let m1 = applyLogOdds idx (roi_delta m pose do_miss c e) m
             in m1\<lparr>frame_ev := (frame_ev m1)(idx := 0)\<rparr>)"

definition leftover_cell :: "int \<Rightarrow> mapper \<Rightarrow> mapper" where
  "leftover_cell idx m =
     (let m1 = (if frame_ev m idx > 0 then applyLogOdds idx (frame_ev m idx * l_hit (parameters m)) m else m)
      in m1\<lparr>frame_ev := (frame_ev m1)(idx := 0)\<rparr>)"

definition frame_health :: "point2 list \<Rightarrow> int \<Rightarrow> nat" where
  "frame_health pts frame_hp = (if frame_hp > 0 then nat frame_hp else length pts)"

definition insert_frame :: "point2 list \<Rightarrow> pose2 \<Rightarrow> int \<Rightarrow> mapper \<Rightarrow> mapper" where
  \<comment> \<open>the member function \<open>LaneMapper::insert\<close>\<close>
  "insert_frame pts pose frame_hp m0 =
     (let m1 = fold (splat_point pose) pts (recenter pose m0);
          do_miss = frame_health pts frame_hp \<ge> min_points_for_miss (parameters m1);
          m2 = fold (roi_cell pose do_miss) (roi_cells m1 pose) m1;
          m3 = fold leftover_cell (touched m2) m2
      in m3\<lparr>touched := []\<rparr>)"

section \<open>Queries\<close>

definition isOccupied :: "mapper \<Rightarrow> real \<Rightarrow> real \<Rightarrow> bool" where
  "isOccupied m x y =
     (let gx = toGridNumber m x; gy = toGridNumber m y
      in inWindow m gx gy \<and> log_odds m (getIdx m gx gy) \<ge> l_occupied (parameters m))"

definition logOdds :: "mapper \<Rightarrow> real \<Rightarrow> real \<Rightarrow> real" where
  "logOdds m x y =
     (let gx = toGridNumber m x; gy = toGridNumber m y
      in if inWindow m gx gy then log_odds m (getIdx m gx gy) else 0)"

definition cell_occupied :: "mapper \<Rightarrow> int \<Rightarrow> int \<Rightarrow> bool" where
  \<comment> \<open>the array \<open>occupied\<close>, by window coordinates\<close>
  "cell_occupied m x y =
     (let idx = getIdx m (origin_x m + x) (origin_y m + y)
      in seen_cell m idx \<and> log_odds m idx \<ge> l_occupied (parameters m))"

definition speckle_count :: "mapper \<Rightarrow> int \<Rightarrow> int \<Rightarrow> int" where
  "speckle_count m x y =
     (let r = speckle_radius (parameters m) in
      sum_list (map (\<lambda>dy. sum_list (map (\<lambda>dx. of_bool (cell_occupied m dx dy))
                  [max 0 (x - r)..min (width m - 1) (x + r) - 1]))
        [max 0 (y - r)..min (height m - 1) (y + r) - 1]))"

definition snapshot_cell :: "mapper \<Rightarrow> int \<Rightarrow> int \<Rightarrow> int" where
  "snapshot_cell m x y =
     (if \<not> seen_cell m (getIdx m (origin_x m + x) (origin_y m + y)) then -1
      else if cell_occupied m x y \<and> speckle_count m x y \<ge> speckle_support (parameters m) then 100
      else 0)"

definition snapshot :: "mapper \<Rightarrow> int list \<times> window" where
  "snapshot m =
     (concat (map (\<lambda>y. map (\<lambda>x. snapshot_cell m x y) [0..width m - 1]) [0..height m - 1]),
      \<lparr>win_origin_x = of_int (origin_x m) * resolution (parameters m),
       win_origin_y = of_int (origin_y m) * resolution (parameters m),
       win_resolution = resolution (parameters m), win_width = width m, win_height = height m\<rparr>)"

section \<open>The index of a cell\<close>

lemma pmod_mod:
  assumes "0 < n"
  shows "pmod a n = a mod n"
proof -
  have "0 \<le> a mod n" "a mod n < n" using assms by simp_all
  then show ?thesis
    by (auto simp: pmod_def signed_modulo_int_eq_modulo_int Let_def of_bool_def)
qed

text \<open>
  What the mapper relies on: an index function that stays inside the vectors and identifies two
  cells exactly when they are congruent modulo the window. Its clients
  may treat the cells of one window as separate variables.
\<close>

locale ring_index =
  fixes idx :: "int \<Rightarrow> int \<Rightarrow> int \<Rightarrow> int \<Rightarrow> int"
  assumes in_range: "0 < w \<Longrightarrow> 0 < h \<Longrightarrow> 0 \<le> idx w h x y \<and> idx w h x y < w * h"
    and congruent: "0 < w \<Longrightarrow> 0 < h \<Longrightarrow>
      idx w h x y = idx w h x' y' \<longleftrightarrow> x mod w = x' mod w \<and> y mod h = y' mod h"
begin

lemma same_residue:
  assumes "0 < w" "(ox::int) \<le> x" "x < ox + w" "ox \<le> x'" "x' < ox + w"
  shows "x mod w = x' mod w \<longleftrightarrow> x = x'"
proof
  assume "x mod w = x' mod w"
  then obtain k where k: "x - x' = w * k" by (metis mod_eq_dvd_iff dvdE)
  from k assms have "w * k < w * 1" "w * (- 1) < w * k" by linarith+
  then have "k < 1" "- 1 < k" using assms(1) mult_less_cancel_left_pos by blast+
  then have "k = 0" by linarith
  with k show "x = x'" by simp
qed simp

lemma window_inj:
  assumes "0 < w" "0 < h" "ox \<le> x" "x < ox + w" "ox \<le> x'" "x' < ox + w"
    and "oy \<le> y" "y < oy + h" "oy \<le> y'" "y' < oy + h"
  shows "idx w h x y = idx w h x' y' \<longleftrightarrow> x = x' \<and> y = y'"
  using congruent [OF assms(1,2)] same_residue [OF assms(1,3-6)] same_residue [OF assms(2,7-10)]
  by simp

end

definition ring_idx :: "int \<Rightarrow> int \<Rightarrow> int \<Rightarrow> int \<Rightarrow> int" where
  "ring_idx w h x y = pmod y h * w + pmod x w"

lemma getIdx_ring: "getIdx m x y = ring_idx (width m) (height m) x y"
  by (simp add: getIdx_def ring_idx_def)

interpretation ring: ring_index ring_idx
proof
  fix w h x y :: int assume wh: "0 < w" "0 < h"
  have "(y mod h) * w + x mod w \<le> (h - 1) * w + (w - 1)"
    by (intro add_mono mult_right_mono) (use wh in \<open>auto simp: zle_diff1_eq\<close>)
  with wh show "0 \<le> ring_idx w h x y \<and> ring_idx w h x y < w * h"
    by (simp add: ring_idx_def pmod_mod algebra_simps)
  fix x' y' :: int
  have r: "0 \<le> a mod w \<and> a mod w < w" for a using wh by simp
  show "ring_idx w h x y = ring_idx w h x' y' \<longleftrightarrow> x mod w = x' mod w \<and> y mod h = y' mod h"
  proof
    assume "ring_idx w h x y = ring_idx w h x' y'"
    then have e: "(y mod h) * w + x mod w = (y' mod h) * w + x' mod w"
      by (simp add: ring_idx_def pmod_mod wh)
    then have "((y mod h) * w + x mod w) mod w = ((y' mod h) * w + x' mod w) mod w" by simp
    then have "x mod w = x' mod w" by simp
    with e wh show "x mod w = x' mod w \<and> y mod h = y' mod h" by simp
  qed (simp add: ring_idx_def pmod_mod wh)
qed

definition mapper_dims :: "mapper \<Rightarrow> bool" where
  "mapper_dims m \<longleftrightarrow> 0 < width m \<and> 0 < height m"

lemma getIdx_window:
  assumes "mapper_dims m" "inWindow m x y" "inWindow m x' y'"
  shows "getIdx m x y = getIdx m x' y' \<longleftrightarrow> x = x' \<and> y = y'"
  using assms unfolding mapper_dims_def inWindow_def getIdx_ring
  by (intro ring.window_inj [where ox = "origin_x m" and oy = "origin_y m"]) auto

lemma getIdx_range:
  "mapper_dims m \<Longrightarrow> 0 \<le> getIdx m x y \<and> getIdx m x y < width m * height m"
  unfolding mapper_dims_def getIdx_ring using ring.in_range by blast

section \<open>Recentring\<close>

text \<open>The map as the queries see it: the value of each world cell, 0 outside the window.\<close>

definition cell_value :: "mapper \<Rightarrow> int \<Rightarrow> int \<Rightarrow> real" where
  "cell_value m x y = (if inWindow m x y then log_odds m (getIdx m x y) else 0)"

definition cell_seen :: "mapper \<Rightarrow> int \<Rightarrow> int \<Rightarrow> bool" where
  "cell_seen m x y \<longleftrightarrow> inWindow m x y \<and> seen_cell m (getIdx m x y)"

lemma clear_cells_fields [simp]:
  "parameters (clear_cells is m) = parameters m" "width (clear_cells is m) = width m"
  "height (clear_cells is m) = height m" "origin_x (clear_cells is m) = origin_x m"
  "origin_y (clear_cells is m) = origin_y m" "initialised (clear_cells is m) = initialised m"
  "frame_ev (clear_cells is m) = frame_ev m" "touched (clear_cells is m) = touched m"
  by (simp_all add: clear_cells_def)

lemma clear_cells_clear_cells: "clear_cells is (clear_cells js m) = clear_cells (js @ is) m"
  by (rule mapper.equality) (auto simp: clear_cells_def fun_eq_iff)

lemma getIdx_in_col:
  assumes "mapper_dims m"
  shows "getIdx m x y \<in> set (map (\<lambda>r. r * width m + pmod c (width m)) [0..height m - 1]) \<longleftrightarrow>
    x mod width m = c mod width m"
proof -
  have w: "0 < width m" "0 < height m" using assms by (simp_all add: mapper_dims_def)
  have "(\<exists>r. 0 \<le> r \<and> r \<le> height m - 1 \<and> getIdx m x y = r * width m + pmod c (width m)) \<longleftrightarrow>
      x mod width m = c mod width m"
  proof
    assume "\<exists>r. 0 \<le> r \<and> r \<le> height m - 1 \<and> getIdx m x y = r * width m + pmod c (width m)"
    then obtain r where r: "0 \<le> r" "r < height m"
      "ring_idx (width m) (height m) x y = ring_idx (width m) (height m) c r"
      by (auto simp: getIdx_ring ring_idx_def pmod_mod w)
    with ring.congruent [OF w] show "x mod width m = c mod width m" by blast
  qed (use w in \<open>auto simp: getIdx_def pmod_mod intro!: exI [of _ "y mod height m"]\<close>)
  then show ?thesis by auto
qed

lemma getIdx_in_row:
  assumes "mapper_dims m"
  shows "getIdx m x y \<in> set (map (\<lambda>c. pmod r (height m) * width m + c) [0..width m - 1]) \<longleftrightarrow>
    y mod height m = r mod height m"
proof -
  have w: "0 < width m" "0 < height m" using assms by (simp_all add: mapper_dims_def)
  have "(\<exists>c. 0 \<le> c \<and> c \<le> width m - 1 \<and> getIdx m x y = pmod r (height m) * width m + c) \<longleftrightarrow>
      y mod height m = r mod height m"
  proof
    assume "\<exists>c. 0 \<le> c \<and> c \<le> width m - 1 \<and> getIdx m x y = pmod r (height m) * width m + c"
    then obtain c where c: "0 \<le> c" "c < width m"
      "ring_idx (width m) (height m) x y = ring_idx (width m) (height m) c r"
      by (auto simp: getIdx_ring ring_idx_def pmod_mod w)
    with ring.congruent [OF w] show "y mod height m = r mod height m" by blast
  qed (use w in \<open>auto simp: getIdx_def pmod_mod intro!: exI [of _ "x mod width m"]\<close>)
  then show ?thesis by (simp only: set_map set_upto image_iff bex_simps atLeastAtMost_iff Bex_def conj_assoc)
qed

lemma clear_cells_at:
  "log_odds (clear_cells is m) i = (if i \<in> set is then 0 else log_odds m i)"
  "seen_cell (clear_cells is m) i \<longleftrightarrow> i \<notin> set is \<and> seen_cell m i"
  by (simp_all add: clear_cells_def)

lemma clear_col_row:
  shows clearCol_getIdx: "mapper_dims m \<Longrightarrow> log_odds (clearCol c m) (getIdx m x y) =
      (if x mod width m = c mod width m then 0 else log_odds m (getIdx m x y))"
    and clearRow_getIdx: "mapper_dims m \<Longrightarrow> log_odds (clearRow r m) (getIdx m x y) =
      (if y mod height m = r mod height m then 0 else log_odds m (getIdx m x y))"
    and clearCol_seen: "mapper_dims m \<Longrightarrow> seen_cell (clearCol c m) (getIdx m x y) \<longleftrightarrow>
      x mod width m \<noteq> c mod width m \<and> seen_cell m (getIdx m x y)"
    and clearRow_seen: "mapper_dims m \<Longrightarrow> seen_cell (clearRow r m) (getIdx m x y) \<longleftrightarrow>
      y mod height m \<noteq> r mod height m \<and> seen_cell m (getIdx m x y)"
  by (simp_all only: clearCol_def clearRow_def Let_def clear_cells_at getIdx_in_col getIdx_in_row)

lemma clear_fields [simp]:
  "parameters (clearCol c m) = parameters m" "width (clearCol c m) = width m"
  "height (clearCol c m) = height m" "frame_ev (clearCol c m) = frame_ev m"
  "touched (clearCol c m) = touched m" "getIdx (clearCol c m) x y = getIdx m x y"
  "parameters (clearRow r m) = parameters m" "width (clearRow r m) = width m"
  "height (clearRow r m) = height m" "frame_ev (clearRow r m) = frame_ev m"
  "touched (clearRow r m) = touched m" "getIdx (clearRow r m) x y = getIdx m x y"
  "mapper_dims (clearCol c m) = mapper_dims m" "mapper_dims (clearRow r m) = mapper_dims m"
  by (simp_all add: clearCol_def clearRow_def Let_def getIdx_def mapper_dims_def)

definition clear_cols :: "int list \<Rightarrow> mapper \<Rightarrow> mapper" where
  "clear_cols cs m = fold clearCol cs m"

definition clear_rows :: "int list \<Rightarrow> mapper \<Rightarrow> mapper" where
  "clear_rows rs m = fold clearRow rs m"

lemma clear_cols_fields [simp]:
  "parameters (clear_cols cs m) = parameters m" "width (clear_cols cs m) = width m"
  "height (clear_cols cs m) = height m" "frame_ev (clear_cols cs m) = frame_ev m"
  "touched (clear_cols cs m) = touched m" "getIdx (clear_cols cs m) x y = getIdx m x y"
  "mapper_dims (clear_cols cs m) = mapper_dims m"
  by (induction cs arbitrary: m) (simp_all add: clear_cols_def)

lemma clear_rows_fields [simp]:
  "parameters (clear_rows cs m) = parameters m" "width (clear_rows cs m) = width m"
  "height (clear_rows cs m) = height m" "frame_ev (clear_rows cs m) = frame_ev m"
  "touched (clear_rows cs m) = touched m" "getIdx (clear_rows cs m) x y = getIdx m x y"
  "mapper_dims (clear_rows cs m) = mapper_dims m"
  by (induction cs arbitrary: m) (simp_all add: clear_rows_def)

lemma clear_cols_value:
  assumes "mapper_dims m"
  shows "log_odds (clear_cols cs m) (getIdx m x y) =
      (if \<exists>c \<in> set cs. x mod width m = c mod width m then 0 else log_odds m (getIdx m x y))"
    and "seen_cell (clear_cols cs m) (getIdx m x y) \<longleftrightarrow>
      \<not> (\<exists>c \<in> set cs. x mod width m = c mod width m) \<and> seen_cell m (getIdx m x y)"
  using assms
proof (induction cs arbitrary: m)
  case (Cons c cs)
  { case 1 show ?case using Cons(1) [of "clearCol c m"] 1 clearCol_getIdx [of m c x y]
      by (simp add: clear_cols_def) }
  { case 2 show ?case using Cons(2) [of "clearCol c m"] 2 clearCol_seen [of m c x y]
      by (auto simp: clear_cols_def) }
qed (simp_all add: clear_cols_def)

lemma clear_rows_value:
  assumes "mapper_dims m"
  shows "log_odds (clear_rows rs m) (getIdx m x y) =
      (if \<exists>r \<in> set rs. y mod height m = r mod height m then 0 else log_odds m (getIdx m x y))"
    and "seen_cell (clear_rows rs m) (getIdx m x y) \<longleftrightarrow>
      \<not> (\<exists>r \<in> set rs. y mod height m = r mod height m) \<and> seen_cell m (getIdx m x y)"
  using assms
proof (induction rs arbitrary: m)
  case (Cons r rs)
  { case 1 show ?case using Cons(1) [of "clearRow r m"] 1 clearRow_getIdx [of m r x y]
      by (simp add: clear_rows_def) }
  { case 2 show ?case using Cons(2) [of "clearRow r m"] 2 clearRow_seen [of m r x y]
      by (auto simp: clear_rows_def) }
qed (simp_all add: clear_rows_def)

text \<open>The columns (rows) cleared are those whose slots the new window reuses.\<close>

lemma reused_slot:
  assumes "0 < w" "\<bar>new - old\<bar> < w" "(new::int) \<le> x" "x < new + w"
  shows "(\<exists>c \<in> set (map (\<lambda>k. min old new + k) [0..\<bar>new - old\<bar> - 1]). x mod w = c mod w) \<longleftrightarrow>
    \<not> (old \<le> x \<and> x < old + w)"
proof -
  have key: "x mod w = c mod w \<longleftrightarrow> x = c \<or> x = c + w"
    if "min old new \<le> c" "c < min old new + \<bar>new - old\<bar>" for c
  proof -
    have "(c + w) mod w = c mod w" by simp
    moreover have "new \<le> c \<and> c < new + w \<or> new \<le> c + w \<and> c + w < new + w"
      using that assms(1,2) by linarith
    ultimately show ?thesis
      using ring.same_residue [OF assms(1,3,4)] assms(3,4) by (metis add_less_cancel_right linorder_not_less)
  qed
  have "set (map (\<lambda>k. min old new + k) [0..\<bar>new - old\<bar> - 1]) =
      {min old new..<min old new + \<bar>new - old\<bar>}"
    by (simp only: set_map set_upto image_add_atLeastAtMost) auto
  then have "(\<exists>c \<in> set (map (\<lambda>k. min old new + k) [0..\<bar>new - old\<bar> - 1]). x mod w = c mod w) \<longleftrightarrow>
    (\<exists>c. (min old new \<le> c \<and> c < min old new + \<bar>new - old\<bar>) \<and> x mod w = c mod w)"
    by (simp only: Bex_def atLeastLessThan_iff)
  also have "\<dots> \<longleftrightarrow>
    (\<exists>c. min old new \<le> c \<and> c < min old new + \<bar>new - old\<bar> \<and> (x = c \<or> x = c + w))"
    using key by blast
  also have "\<dots> \<longleftrightarrow> (min old new \<le> x \<and> x < min old new + \<bar>new - old\<bar>) \<or>
      (min old new \<le> x - w \<and> x - w < min old new + \<bar>new - old\<bar>)"
    by (metis add_diff_cancel_right' diff_add_cancel)
  also have "\<dots> \<longleftrightarrow> \<not> (old \<le> x \<and> x < old + w)"
    using assms by linarith
  finally show ?thesis .
qed

lemma inWindow_cong:
  "origin_x m' = origin_x m \<Longrightarrow> origin_y m' = origin_y m \<Longrightarrow> width m' = width m \<Longrightarrow> height m' = height m \<Longrightarrow>
   inWindow m' x y = inWindow m x y"
  by (simp add: inWindow_def)

lemma getIdx_cong: "width m' = width m \<Longrightarrow> height m' = height m \<Longrightarrow> getIdx m' x y = getIdx m x y"
  by (simp add: getIdx_def)

lemma recenter_shape:
  "width (recenter pose m) = width m" "height (recenter pose m) = height m"
  "parameters (recenter pose m) = parameters m" "initialised (recenter pose m)"
  "origin_x (recenter pose m) = toGridNumber m (pose_x pose) - width m div 2"
  "origin_y (recenter pose m) = toGridNumber m (pose_y pose) - height m div 2"
  "frame_ev (recenter pose m) = frame_ev m" "touched (recenter pose m) = touched m"
proof -
  have c: "fold (\<lambda>k. clearCol (a + k)) ks n = clear_cols (map (\<lambda>k. a + k) ks) n"
    "fold (\<lambda>k. clearRow (a + k)) ks n = clear_rows (map (\<lambda>k. a + k) ks) n" for a ks n
    by (simp_all add: clear_cols_def clear_rows_def fold_map comp_def)
  have i: "initialised (clear_cols cs n) = initialised n" "initialised (clear_rows cs n) = initialised n" for cs n
    by (induction cs arbitrary: n) (simp_all add: clear_cols_def clear_rows_def clearCol_def clearRow_def Let_def)
  show "width (recenter pose m) = width m" "height (recenter pose m) = height m"
    "parameters (recenter pose m) = parameters m" "initialised (recenter pose m)"
    "origin_x (recenter pose m) = toGridNumber m (pose_x pose) - width m div 2"
    "origin_y (recenter pose m) = toGridNumber m (pose_y pose) - height m div 2"
    "frame_ev (recenter pose m) = frame_ev m" "touched (recenter pose m) = touched m"
    by (simp_all add: recenter_def Let_def reset_def c i)
qed

lemma recenter_cell:
  assumes "mapper_dims m" "initialised m" "inWindow (recenter pose m) x y"
  shows "log_odds (recenter pose m) (getIdx m x y) = cell_value m x y"
    and "seen_cell (recenter pose m) (getIdx m x y) \<longleftrightarrow> cell_seen m x y"
proof -
  let ?nx = "toGridNumber m (pose_x pose) - width m div 2"
  let ?ny = "toGridNumber m (pose_y pose) - height m div 2"
  have wh: "0 < width m" "0 < height m" using assms(1) by (simp_all add: mapper_dims_def)
  have win: "?nx \<le> x" "x < ?nx + width m" "?ny \<le> y" "y < ?ny + height m"
    using assms(3) by (auto simp: inWindow_def recenter_shape)
  let ?cs = "map (\<lambda>k. min (origin_x m) ?nx + k) [0..\<bar>?nx - origin_x m\<bar> - 1]"
  let ?rs = "map (\<lambda>k. min (origin_y m) ?ny + k) [0..\<bar>?ny - origin_y m\<bar> - 1]"
  have "log_odds (recenter pose m) (getIdx m x y) = cell_value m x y \<and>
    (seen_cell (recenter pose m) (getIdx m x y) \<longleftrightarrow> cell_seen m x y)"
  proof (cases "\<bar>?nx - origin_x m\<bar> \<ge> width m \<or> \<bar>?ny - origin_y m\<bar> \<ge> height m")
    case True
    then have "\<not> inWindow m x y" using win by (auto simp: inWindow_def)
    with True assms(2) show ?thesis
      by (simp add: recenter_def Let_def cell_value_def cell_seen_def)
  next
    case False
    then have small: "\<bar>?nx - origin_x m\<bar> < width m" "\<bar>?ny - origin_y m\<bar> < height m" by simp_all
    have f: "fold (\<lambda>k. clearCol (a + k)) ks n = clear_cols (map (\<lambda>k. a + k) ks) n"
      "fold (\<lambda>k. clearRow (a + k)) ks n = clear_rows (map (\<lambda>k. a + k) ks) n" for a ks n
      by (simp_all add: clear_cols_def clear_rows_def fold_map comp_def)
    have eq: "log_odds (recenter pose m) = log_odds (clear_rows ?rs (clear_cols ?cs m))"
      "seen_cell (recenter pose m) = seen_cell (clear_rows ?rs (clear_cols ?cs m))"
      using False assms(2) by (simp_all add: recenter_def Let_def f)
    have d: "mapper_dims (clear_cols ?cs m)" using assms(1) by simp
    note rows = clear_rows_value [OF d, of ?rs x y, unfolded clear_cols_fields]
    note cols = clear_cols_value [OF assms(1), of ?cs x y]
    note slots = reused_slot [OF wh(1) small(1) win(1,2)] reused_slot [OF wh(2) small(2) win(3,4)]
    show ?thesis
      unfolding eq rows cols slots by (auto simp: cell_value_def cell_seen_def inWindow_def)
  qed
  then show "log_odds (recenter pose m) (getIdx m x y) = cell_value m x y"
    and "seen_cell (recenter pose m) (getIdx m x y) \<longleftrightarrow> cell_seen m x y" by simp_all
qed

section \<open>What a frame leaves behind\<close>

definition logs_ok :: "mapper \<Rightarrow> bool" where
  "logs_ok m \<longleftrightarrow> l_min (parameters m) \<le> 0 \<and> 0 \<le> l_max (parameters m) \<and>
     (\<forall>i. l_min (parameters m) \<le> log_odds m i \<and> log_odds m i \<le> l_max (parameters m) \<and>
        (\<not> seen_cell m i \<longrightarrow> log_odds m i = 0))"

lemma logs_ok_zero:
  "logs_ok m \<Longrightarrow> logs_ok (m\<lparr>log_odds := (\<lambda>_. 0), seen_cell := (\<lambda>_. False)\<rparr>)"
  by (simp add: logs_ok_def)

lemma logs_ok_cong:
  "parameters m' = parameters m \<Longrightarrow> log_odds m' = log_odds m \<Longrightarrow> seen_cell m' = seen_cell m \<Longrightarrow>
   logs_ok m \<Longrightarrow> logs_ok m'"
  by (simp add: logs_ok_def)

lemma logs_ok_apply: "logs_ok m \<Longrightarrow> logs_ok (applyLogOdds i d m)"
  using clamp_bounds [of "l_min (parameters m)" "l_max (parameters m)" "log_odds m i + d"]
  by (auto simp: logs_ok_def applyLogOdds_def)

lemma logs_ok_clear: "logs_ok m \<Longrightarrow> logs_ok (clear_cells is m)"
  by (auto simp: logs_ok_def clear_cells_def)

lemma logs_ok_recenter:
  assumes "logs_ok m"
  shows "logs_ok (recenter pose m)"
proof -
  have col: "logs_ok n \<Longrightarrow> logs_ok (clearCol c n)" and row: "logs_ok n \<Longrightarrow> logs_ok (clearRow c n)" for c n
    by (simp_all add: clearCol_def clearRow_def Let_def logs_ok_clear)
  have cols: "logs_ok n \<Longrightarrow> logs_ok (fold (\<lambda>k. clearCol (a + k)) ks n)"
    and rows: "logs_ok n \<Longrightarrow> logs_ok (fold (\<lambda>k. clearRow (a + k)) ks n)" for a ks n
    by (rule fold_invariant_list; simp add: col row)+
  have frame: "logs_ok (n\<lparr>origin_x := a, origin_y := b\<rparr>) = logs_ok n"
    "logs_ok (n\<lparr>origin_x := a, origin_y := b, initialised := i\<rparr>) = logs_ok n"
    "logs_ok (n\<lparr>initialised := i\<rparr>) = logs_ok n" for n a b i
    by (simp_all add: logs_ok_def)
  have zero: "logs_ok (reset m)" unfolding reset_def using frame(3) logs_ok_zero [OF assms] by metis
  show ?thesis
    unfolding recenter_def Let_def
    using zero logs_ok_zero [OF assms] rows [OF cols [OF assms]]
    by (simp only: frame split: if_split) blast
qed

text \<open>While a frame is being inserted, every cell with evidence is on the list of touched cells.\<close>

definition evidence_ok :: "mapper \<Rightarrow> bool" where
  "evidence_ok m \<longleftrightarrow> (\<forall>i. 0 \<le> frame_ev m i \<and> (frame_ev m i \<noteq> 0 \<longrightarrow> i \<in> set (touched m)))"

definition clean :: "mapper \<Rightarrow> bool" where
  "clean m \<longleftrightarrow> (\<forall>i. frame_ev m i = 0) \<and> touched m = []"

lemma splat_cell_fields [simp]:
  "parameters (splat_cell sp c m) = parameters m" "width (splat_cell sp c m) = width m"
  "height (splat_cell sp c m) = height m" "origin_x (splat_cell sp c m) = origin_x m"
  "origin_y (splat_cell sp c m) = origin_y m" "log_odds (splat_cell sp c m) = log_odds m"
  "seen_cell (splat_cell sp c m) = seen_cell m" "initialised (splat_cell sp c m) = initialised m"
  by (simp_all add: splat_cell_def Let_def)

lemma evidence_ok_splat: "evidence_ok m \<Longrightarrow> evidence_ok (splat_cell sp c m)"
  by (auto simp: evidence_ok_def splat_cell_def Let_def)

lemma splat_point_fields [simp]:
  "parameters (splat_point pose pt m) = parameters m" "width (splat_point pose pt m) = width m"
  "height (splat_point pose pt m) = height m" "origin_x (splat_point pose pt m) = origin_x m"
  "origin_y (splat_point pose pt m) = origin_y m" "log_odds (splat_point pose pt m) = log_odds m"
  "seen_cell (splat_point pose pt m) = seen_cell m" "initialised (splat_point pose pt m) = initialised m"
  unfolding splat_point_def Let_def by (rule fold_measure; simp)+

lemma splat_points_fields [simp]:
  "parameters (fold (splat_point pose) pts m) = parameters m" "width (fold (splat_point pose) pts m) = width m"
  "height (fold (splat_point pose) pts m) = height m" "origin_x (fold (splat_point pose) pts m) = origin_x m"
  "origin_y (fold (splat_point pose) pts m) = origin_y m" "log_odds (fold (splat_point pose) pts m) = log_odds m"
  "seen_cell (fold (splat_point pose) pts m) = seen_cell m"
  "initialised (fold (splat_point pose) pts m) = initialised m"
  by (rule fold_measure; simp)+

lemma evidence_ok_points: "evidence_ok m \<Longrightarrow> evidence_ok (fold (splat_point pose) pts m)"
  by (rule fold_invariant_list)
    (auto simp: splat_point_def Let_def intro!: fold_invariant_list [where P = evidence_ok] evidence_ok_splat)

lemma applyLogOdds_fields [simp]:
  "parameters (applyLogOdds i d m) = parameters m" "width (applyLogOdds i d m) = width m"
  "height (applyLogOdds i d m) = height m" "origin_x (applyLogOdds i d m) = origin_x m"
  "origin_y (applyLogOdds i d m) = origin_y m" "frame_ev (applyLogOdds i d m) = frame_ev m"
  "touched (applyLogOdds i d m) = touched m" "initialised (applyLogOdds i d m) = initialised m"
  by (simp_all add: applyLogOdds_def)

lemma roi_cell_fields [simp]:
  "parameters (roi_cell pose dm c m) = parameters m" "width (roi_cell pose dm c m) = width m"
  "height (roi_cell pose dm c m) = height m" "origin_x (roi_cell pose dm c m) = origin_x m"
  "origin_y (roi_cell pose dm c m) = origin_y m" "touched (roi_cell pose dm c m) = touched m"
  "initialised (roi_cell pose dm c m) = initialised m"
  by (simp_all add: roi_cell_def Let_def)

lemma roi_cells_fold_fields [simp]:
  "parameters (fold (roi_cell pose dm) cs m) = parameters m" "width (fold (roi_cell pose dm) cs m) = width m"
  "height (fold (roi_cell pose dm) cs m) = height m" "origin_x (fold (roi_cell pose dm) cs m) = origin_x m"
  "origin_y (fold (roi_cell pose dm) cs m) = origin_y m" "touched (fold (roi_cell pose dm) cs m) = touched m"
  by (rule fold_measure; simp)+

lemma leftover_fields [simp]:
  "parameters (leftover_cell i m) = parameters m" "width (leftover_cell i m) = width m"
  "height (leftover_cell i m) = height m" "origin_x (leftover_cell i m) = origin_x m"
  "origin_y (leftover_cell i m) = origin_y m" "touched (leftover_cell i m) = touched m"
  "frame_ev (leftover_cell i m) = (frame_ev m)(i := 0)"
  by (simp_all add: leftover_cell_def Let_def)

lemma leftover_fold_fields [simp]:
  "parameters (fold leftover_cell is m) = parameters m" "width (fold leftover_cell is m) = width m"
  "height (fold leftover_cell is m) = height m" "origin_x (fold leftover_cell is m) = origin_x m"
  "origin_y (fold leftover_cell is m) = origin_y m"
  by (rule fold_measure; simp)+

lemma leftover_fold_ev: "frame_ev (fold leftover_cell is m) i = (if i \<in> set is then 0 else frame_ev m i)"
  by (induction "is" arbitrary: m) auto

lemma evidence_ok_roi: "evidence_ok m \<Longrightarrow> evidence_ok (roi_cell pose dm c m)"
  by (auto simp: evidence_ok_def roi_cell_def Let_def)

lemma logs_ok_roi: "logs_ok m \<Longrightarrow> logs_ok (roi_cell pose dm c m)"
  by (auto simp: roi_cell_def Let_def intro: logs_ok_cong [OF _ _ _ logs_ok_apply])

lemma logs_ok_leftover: "logs_ok m \<Longrightarrow> logs_ok (leftover_cell i m)"
  by (auto simp: leftover_cell_def Let_def intro: logs_ok_cong [OF _ _ _ logs_ok_apply] logs_ok_cong)

definition mapper_inv :: "mapper \<Rightarrow> bool" where
  "mapper_inv m \<longleftrightarrow> mapper_dims m \<and> logs_ok m \<and> clean m"

lemma dims_recenter [simp]: "mapper_dims (recenter pose m) = mapper_dims m"
  by (simp add: mapper_dims_def recenter_shape)

lemma insert_fields:
  "parameters (insert_frame pts pose hp m) = parameters m" "width (insert_frame pts pose hp m) = width m"
  "height (insert_frame pts pose hp m) = height m"
  "origin_x (insert_frame pts pose hp m) = origin_x (recenter pose m)"
  "origin_y (insert_frame pts pose hp m) = origin_y (recenter pose m)"
  by (simp_all add: insert_frame_def Let_def recenter_shape)

lemma mapper_inv_insert:
  assumes "mapper_inv m"
  shows "mapper_inv (insert_frame pts pose hp m)"
proof -
  let ?m0 = "recenter pose m"
  let ?m1 = "fold (splat_point pose) pts ?m0"
  let ?dm = "frame_health pts hp \<ge> min_points_for_miss (parameters ?m1)"
  let ?m2 = "fold (roi_cell pose ?dm) (roi_cells ?m1 pose) ?m1"
  let ?m3 = "fold leftover_cell (touched ?m2) ?m2"
  have "logs_ok ?m1"
    using logs_ok_recenter [of m pose] assms by (simp add: mapper_inv_def logs_ok_def)
  then have "logs_ok ?m2" by (rule fold_invariant_list) (rule logs_ok_roi)
  then have l: "logs_ok ?m3" by (rule fold_invariant_list) (rule logs_ok_leftover)
  have "evidence_ok ?m0"
    using assms by (simp add: mapper_inv_def clean_def evidence_ok_def recenter_shape)
  then have "evidence_ok ?m1" by (rule evidence_ok_points)
  then have "evidence_ok ?m2" by (rule fold_invariant_list) (rule evidence_ok_roi)
  then have c: "\<forall>i. frame_ev ?m3 i = 0" by (auto simp: leftover_fold_ev evidence_ok_def)
  have eq: "insert_frame pts pose hp m = ?m3\<lparr>touched := []\<rparr>"
    by (simp add: insert_frame_def Let_def)
  have d: "mapper_dims (insert_frame pts pose hp m)"
    using assms by (simp add: mapper_inv_def mapper_dims_def insert_fields)
  show ?thesis
    unfolding mapper_inv_def using d
    by (simp only: eq) (use l c in \<open>simp add: clean_def logs_ok_def\<close>)
qed

section \<open>What a frame does to a cell\<close>

text \<open>The evidence a frame gives a cell: the strongest of the splats that cover it.\<close>

definition frame_evidence :: "mapper \<Rightarrow> pose2 \<Rightarrow> point2 list \<Rightarrow> int \<times> int \<Rightarrow> real" where
  "frame_evidence m pose pts c =
     fold max (map (\<lambda>pt. evidence_of m (splat_of m pose pt) c)
       (filter (\<lambda>pt. c \<in> set (splat_cells m (splat_of m pose pt))) pts)) 0"

lemma splat_cong:
  assumes "parameters m' = parameters m" "width m' = width m" "height m' = height m"
    "origin_x m' = origin_x m" "origin_y m' = origin_y m"
  shows "splat_of m' pose pt = splat_of m pose pt" "splat_cells m' sp = splat_cells m sp"
    "evidence_of m' sp c = evidence_of m sp c" "getIdx m' x y = getIdx m x y" "inWindow m' x y = inWindow m x y"
    "roi_cells m' pose = roi_cells m pose" "in_roi m' pose c = in_roi m pose c"
    "roi_delta m' pose dm c e = roi_delta m pose dm c e"
  using assms
  by (simp_all add: splat_of_def splat_cells_def evidence_of_def getIdx_def inWindow_def toGridNumber_def
      roi_cells_def roi_bounds_def frustum_corners_def in_roi_def robot_frame_def roi_delta_def)

lemma splat_cell_at:
  assumes "mapper_dims m" "inWindow m x y" "inWindow m (fst c) (snd c)"
  shows "frame_ev (splat_cell sp c m) (getIdx m x y) =
    (if c = (x, y) then max (frame_ev m (getIdx m x y)) (evidence_of m sp c) else frame_ev m (getIdx m x y))"
  using getIdx_window [OF assms] by (auto simp: splat_cell_def Let_def max_def prod_eq_iff)

lemma splat_cells_at:
  assumes "mapper_dims m" "inWindow m x y" "\<forall>c \<in> set cs. inWindow m (fst c) (snd c)"
  shows "frame_ev (fold (splat_cell sp) cs m) (getIdx m x y) =
    (if (x, y) \<in> set cs then max (frame_ev m (getIdx m x y)) (evidence_of m sp (x, y))
     else frame_ev m (getIdx m x y))"
  using assms
proof (induction cs arbitrary: m)
  case (Cons c cs)
  let ?m = "splat_cell sp c m"
  have m: "mapper_dims ?m" "inWindow ?m x y" "\<forall>c \<in> set cs. inWindow ?m (fst c) (snd c)"
    using Cons.prems by (simp_all add: mapper_dims_def inWindow_def)
  have g: "getIdx (splat_cell sp d m) x y = getIdx m x y"
    "evidence_of (splat_cell sp d m) sp (x, y) = evidence_of m sp (x, y)" for d
    by (simp_all add: getIdx_def evidence_of_def)
  show ?case
    using Cons.IH [OF m] splat_cell_at [OF Cons.prems(1,2), of c sp] Cons.prems(3)
    by (auto simp: g)
qed simp

lemma splat_cells_window: "c \<in> set (splat_cells m sp) \<Longrightarrow> inWindow m (fst c) (snd c)"
  by (auto simp: splat_cells_def)

lemma splat_points_at:
  assumes "mapper_dims m" "inWindow m x y"
  shows "frame_ev (fold (splat_point pose) pts m) (getIdx m x y) =
    fold max (map (\<lambda>pt. evidence_of m (splat_of m pose pt) (x, y))
       (filter (\<lambda>pt. (x, y) \<in> set (splat_cells m (splat_of m pose pt))) pts)) (frame_ev m (getIdx m x y))"
  using assms
proof (induction pts arbitrary: m)
  case (Cons pt pts)
  let ?m = "splat_point pose pt m"
  have m: "mapper_dims ?m" "inWindow ?m x y" using Cons.prems by (simp_all add: mapper_dims_def inWindow_def)
  have c: "splat_of ?m pose pt' = splat_of m pose pt'" "splat_cells ?m sp = splat_cells m sp"
    "evidence_of ?m sp c = evidence_of m sp c" "getIdx ?m x y = getIdx m x y" for pt' sp c
    by (rule splat_cong; simp)+
  have w: "\<forall>c \<in> set (splat_cells m (splat_of m pose pt)). inWindow m (fst c) (snd c)"
    using splat_cells_window by blast
  have "frame_ev ?m (getIdx m x y) =
    (if (x, y) \<in> set (splat_cells m (splat_of m pose pt))
     then max (frame_ev m (getIdx m x y)) (evidence_of m (splat_of m pose pt) (x, y))
     else frame_ev m (getIdx m x y))"
    unfolding splat_point_def Let_def by (rule splat_cells_at [OF Cons.prems w])
  with Cons.IH [OF m] show ?case by (simp add: c max.commute)
qed simp

text \<open>The region-of-interest pass visits each of its cells once.\<close>

lemma roi_cells_distinct: "distinct (roi_cells m pose)"
proof -
  obtain x0 x1 y0 y1 where b: "roi_bounds m pose = (x0, x1, y0, y1)" by (cases "roi_bounds m pose") auto
  have "distinct (concat (map (\<lambda>gy. map (\<lambda>gx. (gx, gy)) [x0..x1]) ys))" if "distinct ys" for ys :: "int list"
    using that by (induction ys) (auto simp: distinct_map inj_on_def)
  then show ?thesis by (simp add: roi_cells_def b)
qed

lemma roi_cells_bounds:
  assumes "c \<in> set (roi_cells m pose)"
  shows "origin_x m \<le> fst c \<and> fst c \<le> width m - 1 \<and> origin_y m \<le> snd c \<and> snd c \<le> height m - 1"
  using assms by (auto simp: roi_cells_def roi_bounds_def Let_def)

lemma roi_cells_window:
  "0 \<le> origin_x m \<Longrightarrow> 0 \<le> origin_y m \<Longrightarrow> c \<in> set (roi_cells m pose) \<Longrightarrow> inWindow m (fst c) (snd c)"
  by (drule roi_cells_bounds) (simp add: inWindow_def)

definition roi_update :: "mapper \<Rightarrow> pose2 \<Rightarrow> bool \<Rightarrow> int \<times> int \<Rightarrow> real \<Rightarrow> real \<Rightarrow> real \<times> real" where
  \<comment> \<open>log-odds and evidence of a cell after the pass has visited it\<close>
  "roi_update m pose dm c v e =
     (if in_roi m pose c \<and> (e \<noteq> 0 \<or> dm)
      then (clamp (v + roi_delta m pose dm c e) (l_min (parameters m)) (l_max (parameters m)), 0)
      else (v, e))"

definition cell_pair :: "mapper \<Rightarrow> int \<Rightarrow> int \<Rightarrow> real \<times> real" where
  "cell_pair m x y = (log_odds m (getIdx m x y), frame_ev m (getIdx m x y))"

lemma roi_cell_at:
  assumes "mapper_dims m" "inWindow m x y" "inWindow m (fst c) (snd c)"
  shows "cell_pair (roi_cell pose dm c m) x y =
    (if c = (x, y) then roi_update m pose dm c (fst (cell_pair m x y)) (snd (cell_pair m x y))
     else cell_pair m x y)"
proof -
  have g: "getIdx (roi_cell pose dm c m) x y = getIdx m x y" by (simp add: getIdx_def)
  have a: "log_odds (applyLogOdds i d m) j = (if i = j
      then clamp (log_odds m i + d) (l_min (parameters m)) (l_max (parameters m)) else log_odds m j)" for i j d
    by (simp add: applyLogOdds_def)
  show ?thesis
  proof (cases "c = (x, y)")
    case True
    then show ?thesis
      unfolding cell_pair_def g by (simp add: roi_cell_def Let_def roi_update_def a)
  next
    case False
    then have "getIdx m (fst c) (snd c) \<noteq> getIdx m x y"
      using getIdx_window [OF assms] by (auto simp: prod_eq_iff)
    with False show ?thesis
      unfolding cell_pair_def g by (simp add: roi_cell_def Let_def a)
  qed
qed

lemma roi_cells_at:
  assumes "mapper_dims m" "inWindow m x y" "\<forall>c \<in> set cs. inWindow m (fst c) (snd c)" "distinct cs"
  shows "cell_pair (fold (roi_cell pose dm) cs m) x y =
    (if (x, y) \<in> set cs then roi_update m pose dm (x, y) (fst (cell_pair m x y)) (snd (cell_pair m x y))
     else cell_pair m x y)"
  using assms
proof (induction cs arbitrary: m)
  case (Cons c cs)
  let ?m = "roi_cell pose dm c m"
  have m: "mapper_dims ?m" "inWindow ?m x y" "\<forall>c \<in> set cs. inWindow ?m (fst c) (snd c)" "distinct cs"
    using Cons.prems by (simp_all add: mapper_dims_def inWindow_def)
  have u: "roi_update (roi_cell pose dm d m) pose dm c' v e = roi_update m pose dm c' v e" for d c' v e
    by (simp only: roi_update_def roi_cell_fields
        splat_cong(7,8) [OF roi_cell_fields(1-5) [of pose dm d m]])
  have at: "cell_pair ?m x y =
    (if c = (x, y) then roi_update m pose dm c (fst (cell_pair m x y)) (snd (cell_pair m x y))
     else cell_pair m x y)"
    using Cons.prems by (intro roi_cell_at) simp_all
  show ?case
    using Cons.IH [OF m] at Cons.prems(4) by (auto simp: u)
qed simp

lemma leftover_at:
  assumes "frame_ev m i \<ge> 0"
  shows "log_odds (fold leftover_cell is m) i =
    (if i \<in> set is \<and> frame_ev m i > 0
     then clamp (log_odds m i + frame_ev m i * l_hit (parameters m)) (l_min (parameters m)) (l_max (parameters m))
     else log_odds m i)"
  using assms
proof (induction "is" arbitrary: m)
  case (Cons j js)
  have "log_odds (leftover_cell j m) i =
    (if i = j \<and> frame_ev m i > 0
     then clamp (log_odds m i + frame_ev m i * l_hit (parameters m)) (l_min (parameters m)) (l_max (parameters m))
     else log_odds m i)"
    by (auto simp: leftover_cell_def Let_def applyLogOdds_def)
  with Cons.IH [of "leftover_cell j m"] Cons.prems show ?case by auto
qed simp

lemma insert_at:
  assumes "mapper_inv m"
    and "inWindow (recenter pose m) x y" "0 \<le> origin_x (recenter pose m)" "0 \<le> origin_y (recenter pose m)"
    and "n = recenter pose m" "e = frame_evidence n pose pts (x, y)"
    and "dm \<longleftrightarrow> frame_health pts hp \<ge> min_points_for_miss (parameters m)"
  shows "log_odds (insert_frame pts pose hp m) (getIdx n x y) =
    (if (x, y) \<in> set (roi_cells n pose) \<and> in_roi n pose (x, y) \<and> (e \<noteq> 0 \<or> dm)
     then clamp (log_odds n (getIdx n x y) + roi_delta n pose dm (x, y) e)
            (l_min (parameters m)) (l_max (parameters m))
     else if e > 0 then clamp (log_odds n (getIdx n x y) + e * l_hit (parameters m))
            (l_min (parameters m)) (l_max (parameters m))
     else log_odds n (getIdx n x y))"
proof -
  let ?m1 = "fold (splat_point pose) pts n"
  let ?m2 = "fold (roi_cell pose dm) (roi_cells ?m1 pose) ?m1"
  note c = splat_cong [OF splat_points_fields(1-5) [of pose pts n]]
  have dims: "mapper_dims n" "mapper_dims ?m1" using assms(1,5) by (simp_all add: mapper_inv_def mapper_dims_def recenter_shape)
  have win: "inWindow n x y" "inWindow ?m1 x y" using assms(2,5) c(5) by simp_all
  have zero: "frame_ev n i = 0" for i using assms(1,5) by (simp add: mapper_inv_def clean_def recenter_shape)
  have p1: "cell_pair ?m1 x y = (log_odds n (getIdx n x y), e)"
    using splat_points_at [OF dims(1) win(1), of pose pts] assms(6)
    by (simp add: cell_pair_def c frame_evidence_def zero)
  have rw: "\<forall>d \<in> set (roi_cells ?m1 pose). inWindow ?m1 (fst d) (snd d)"
    using roi_cells_window [of n _ pose] assms(3,4) unfolding c assms(5) [symmetric] by blast
  have p2: "cell_pair ?m2 x y = (if (x, y) \<in> set (roi_cells n pose)
      then roi_update n pose dm (x, y) (log_odds n (getIdx n x y)) e
      else (log_odds n (getIdx n x y), e))"
    using roi_cells_at [OF dims(2) win(2) rw roi_cells_distinct, of pose dm]
    by (simp only: p1 c roi_update_def fst_conv snd_conv splat_points_fields)
  have ev: "evidence_ok ?m2"
  proof -
    have "evidence_ok n" using assms(1,5) by (simp add: mapper_inv_def clean_def evidence_ok_def recenter_shape)
    then have "evidence_ok ?m1" by (rule evidence_ok_points)
    then show ?thesis by (rule fold_invariant_list) (rule evidence_ok_roi)
  qed
  have g: "getIdx ?m2 x y = getIdx n x y" by (simp add: getIdx_def)
  have pos: "frame_ev ?m2 i \<ge> 0" and tch: "frame_ev ?m2 i > 0 \<longrightarrow> i \<in> set (touched ?m2)" for i
    using ev by (auto simp: evidence_ok_def)
  have par: "parameters ?m2 = parameters m" using assms(5) by (simp add: recenter_shape)
  have "log_odds (insert_frame pts pose hp m) (getIdx n x y) =
      log_odds (fold leftover_cell (touched ?m2) ?m2) (getIdx n x y)"
    using assms(5,7) by (simp add: insert_frame_def Let_def recenter_shape)
  also have "\<dots> = (if snd (cell_pair ?m2 x y) > 0
     then clamp (fst (cell_pair ?m2 x y) + snd (cell_pair ?m2 x y) * l_hit (parameters m))
            (l_min (parameters m)) (l_max (parameters m))
     else fst (cell_pair ?m2 x y))"
    using leftover_at [OF pos [of "getIdx n x y"], of "touched ?m2"] tch [of "getIdx n x y"]
    by (simp only: cell_pair_def g par fst_conv snd_conv) auto
  finally have fin: "log_odds (insert_frame pts pose hp m) (getIdx n x y) =
      (if snd (cell_pair ?m2 x y) > 0
       then clamp (fst (cell_pair ?m2 x y) + snd (cell_pair ?m2 x y) * l_hit (parameters m))
            (l_min (parameters m)) (l_max (parameters m))
       else fst (cell_pair ?m2 x y))" .
  have np: "parameters n = parameters m" using assms(5) by (simp add: recenter_shape)
  show ?thesis unfolding fin p2 roi_update_def np by auto
qed

lemma insert_cell_value:
  assumes "mapper_inv m" and "initialised m"
    and "n = recenter pose m" and "inWindow n x y" and "0 \<le> origin_x n" and "0 \<le> origin_y n"
    and "e = frame_evidence n pose pts (x, y)"
    and "dm \<longleftrightarrow> frame_health pts hp \<ge> min_points_for_miss (parameters m)"
    and "v = (if inWindow m x y then cell_value m x y else 0)"
  shows "cell_value (insert_frame pts pose hp m) x y =
    (if (x, y) \<in> set (roi_cells n pose) \<and> in_roi n pose (x, y) \<and> (e \<noteq> 0 \<or> dm)
     then clamp (v + roi_delta n pose dm (x, y) e) (l_min (parameters m)) (l_max (parameters m))
     else if e > 0 then clamp (v + e * l_hit (parameters m)) (l_min (parameters m)) (l_max (parameters m))
     else v)"
proof -
  have d: "mapper_dims m" using assms(1) by (simp add: mapper_inv_def)
  have g: "getIdx n x y = getIdx m x y" "getIdx (insert_frame pts pose hp m) x y = getIdx m x y"
    unfolding assms(3) by (rule getIdx_cong; simp add: recenter_shape insert_fields)+
  have "inWindow (insert_frame pts pose hp m) x y"
    using assms(3,4) by (simp add: inWindow_def insert_fields recenter_shape)
  moreover have "log_odds n (getIdx m x y) = v"
    using recenter_cell(1) [OF d assms(2), of pose x y] assms(3,4,9) by (simp add: cell_value_def)
  moreover have w: "inWindow (recenter pose m) x y" "0 \<le> origin_x (recenter pose m)"
    "0 \<le> origin_y (recenter pose m)"
    using assms(3-6) by simp_all
  ultimately show ?thesis
    using insert_at [OF assms(1) w assms(3,7,8)] by (simp only: cell_value_def g if_True)
qed

section \<open>Properties of recentring and insertion\<close>

text \<open>
  C11: Recentring keeps exactly the shared cells. When an initialised map moves its window to a new pose, a cell of the
  new window has the log-odds (and the seen mark) it had before if it was inside the old window
  and is forgotten otherwise, although cells only change their slot in the ring
  buffer by wrapping round; and the robot's own cell is inside the new window.
\<close>

theorem recenter_keeps_overlap:
  assumes "0 < width m" and "0 < height m" and "initialised m"
  shows "cell_value (recenter pose m) x y =
      (if inWindow (recenter pose m) x y \<and> inWindow m x y then cell_value m x y else 0) \<and>
    (cell_seen (recenter pose m) x y \<longleftrightarrow> inWindow (recenter pose m) x y \<and> cell_seen m x y) \<and>
    inWindow (recenter pose m) (toGridNumber m (pose_x pose)) (toGridNumber m (pose_y pose))"
proof -
  have d: "mapper_dims m" using assms(1,2) by (simp add: mapper_dims_def)
  have g: "getIdx (recenter pose m) x y = getIdx m x y" by (rule getIdx_cong) (simp_all add: recenter_shape)
  have "inWindow (recenter pose m) (toGridNumber m (pose_x pose)) (toGridNumber m (pose_y pose))"
    using assms(1,2) int_div_less_self [of "width m" 2] int_div_less_self [of "height m" 2]
    by (simp add: inWindow_def recenter_shape)
  then show ?thesis
    using recenter_cell [OF d assms(3)] by (auto simp: cell_value_def cell_seen_def g)
qed

definition insert_frames :: "(point2 list \<times> pose2 \<times> int) list \<Rightarrow> mapper \<Rightarrow> mapper" where
  "insert_frames fs m = fold (\<lambda>(pts, pose, hp). insert_frame pts pose hp) fs m"

text \<open>
  C12: Every frame leaves a clean and bounded map. Starting from the constructor, after any list of frames the log-odds
  the queries return lie between the two limits, a cell that was never updated reads 0, and no evidence or
  touched index is carried over into the next frame.
\<close>

theorem frames_leave_clean_map:
  assumes "0 < par_width p" and "0 < par_height p" and "l_min p \<le> 0" and "0 \<le> l_max p"
    and "m = insert_frames fs (new_mapper p)"
  shows "l_min p \<le> logOdds m x y \<and> logOdds m x y \<le> l_max p \<and>
    (\<not> cell_seen m gx gy \<longrightarrow> cell_value m gx gy = 0) \<and>
    (\<forall>i. frame_ev m i = 0) \<and> touched m = []"
proof -
  have "mapper_inv (new_mapper p)"
    using assms(1-4) by (simp add: mapper_inv_def mapper_dims_def logs_ok_def clean_def new_mapper_def)
  then have inv: "mapper_inv m" unfolding assms(5) insert_frames_def
    by (rule fold_invariant_list) (auto intro: mapper_inv_insert)
  have "parameters m = p"
    unfolding assms(5) insert_frames_def
    by (subst fold_measure [where g = parameters]) (auto simp: insert_fields new_mapper_def)
  with inv assms(3,4) show ?thesis
    by (auto simp: mapper_inv_def logs_ok_def clean_def logOdds_def cell_seen_def cell_value_def Let_def)
qed

text \<open>
  What one frame does to a cell. Let the new window have a non-negative origin and let \<open>e\<close> be the strongest
  evidence any point of the frame gives a cell of it. If the cell is in the region of interest and there is
  evidence or the frame is healthy, its log-odds move once by the weighted mix of hit
  and miss; otherwise they move once by the weighted hit if there is evidence and not at all if there is none.
\<close>

theorem insert_updates_cell_once:
  assumes "mapper_inv m" and "initialised m"
    and "n = recenter pose m" and "inWindow n x y" and "0 \<le> origin_x n" and "0 \<le> origin_y n"
    and "e = frame_evidence n pose pts (x, y)"
    and "dm \<longleftrightarrow> frame_health pts hp \<ge> min_points_for_miss (parameters m)"
    and "v = (if inWindow m x y then cell_value m x y else 0)"
  shows "cell_value (insert_frame pts pose hp m) x y =
    (if (x, y) \<in> set (roi_cells n pose) \<and> in_roi n pose (x, y) \<and> (e \<noteq> 0 \<or> dm)
     then clamp (v + roi_delta n pose dm (x, y) e) (l_min (parameters m)) (l_max (parameters m))
     else if e > 0 then clamp (v + e * l_hit (parameters m)) (l_min (parameters m)) (l_max (parameters m))
     else v)"
  using assms by (rule insert_cell_value)


section \<open>Properties of the snapshot\<close>

definition snapshot_rows :: "mapper \<Rightarrow> int list list" where
  "snapshot_rows m = map (\<lambda>y. map (\<lambda>x. snapshot_cell m x y) [0..width m - 1]) [0..height m - 1]"

lemma snapshot_nth:
  assumes "0 \<le> x" "x < width m" "0 \<le> y" "y < height m"
  shows "fst (snapshot m) ! (nat y * nat (width m) + nat x) = snapshot_cell m x y"
proof -
  have "fst (snapshot m) ! (nat y * nat (width m) + nat x) = snapshot_rows m ! nat y ! nat x"
    using assms by (subst concat_rows_nth [symmetric, where w = "nat (width m)"])
      (auto simp: snapshot_def snapshot_rows_def)
  also have "\<dots> = snapshot_cell m x y"
    using assms by (simp add: snapshot_rows_def nth_upto)
  finally show ?thesis .
qed

lemma snapshot_cell_values: "snapshot_cell m x y \<in> {-1, 0, 100}"
  by (simp add: snapshot_cell_def)

text \<open>
  What a snapshot reports. The output has one entry per cell, row by row from the bottom left; the
  entry of a cell is unknown exactly when the cell was never updated, occupied exactly when its log-odds
  reach the threshold and enough of the cells the filter looks at do, and free otherwise; the filter looks at the
  cells from \<open>radius\<close> before to one less than \<open>radius\<close> after, never at the last row or column.
\<close>

theorem snapshot_reports_cells:
  assumes "0 \<le> x" and "x < width m" and "0 \<le> y" and "y < height m"
    and "r = speckle_radius (parameters m)"
    and "occ = {(a, b). cell_seen m (origin_x m + a) (origin_y m + b) \<and>
        l_occupied (parameters m) \<le> cell_value m (origin_x m + a) (origin_y m + b)}"
    and "looked = {max 0 (x - r)..<min (width m - 1) (x + r)} \<times> {max 0 (y - r)..<min (height m - 1) (y + r)}"
  shows "length (fst (snapshot m)) = nat (height m) * nat (width m) \<and>
    (let v = fst (snapshot m) ! (nat y * nat (width m) + nat x) in
      (v = -1 \<longleftrightarrow> \<not> cell_seen m (origin_x m + x) (origin_y m + y)) \<and>
      (v = 100 \<longleftrightarrow> (x, y) \<in> occ \<and> speckle_support (parameters m) \<le> int (card (occ \<inter> looked))) \<and>
      (v = -1 \<or> v = 0 \<or> v = 100))"
proof -
  have win: "inWindow m (origin_x m + a) (origin_y m + b)"
    if "0 \<le> a" "a < width m" "0 \<le> b" "b < height m" for a b
    using that by (simp add: inWindow_def)
  have occ: "cell_occupied m a b \<longleftrightarrow> (a, b) \<in> occ" if "0 \<le> a" "a < width m" "0 \<le> b" "b < height m" for a b
    using win [OF that] by (simp add: cell_occupied_def assms(6) cell_seen_def cell_value_def Let_def)
  let ?xs = "[max 0 (x - r)..min (width m - 1) (x + r) - 1]"
  let ?ys = "[max 0 (y - r)..min (height m - 1) (y + r) - 1]"
  have sets: "set ?xs \<times> set ?ys = looked" unfolding assms(7) by auto
  have "speckle_count m x y = (\<Sum>b \<in> set ?ys. \<Sum>a \<in> set ?xs. of_bool (cell_occupied m a b))"
    by (simp only: speckle_count_def Let_def assms(5) [symmetric] sum_list_distinct_conv_sum_set distinct_upto)
  also have "\<dots> = (\<Sum>b \<in> set ?ys. \<Sum>a \<in> set ?xs. of_bool ((a, b) \<in> occ))"
    using assms(1-4) by (intro sum.cong refl) (auto simp: occ)
  also have "\<dots> = (\<Sum>c \<in> looked. of_bool (c \<in> occ))"
    unfolding sets [symmetric] by (subst sum.swap) (simp only: sum.cartesian_product split_def prod.collapse)
  also have "\<dots> = int (card (occ \<inter> looked))"
    using sets by (auto simp: sum_of_bool_eq Int_commute Int_def intro!: arg_cong [where f = card])
  finally have cnt: "speckle_count m x y = int (card (occ \<inter> looked))" .
  have seen: "cell_seen m (origin_x m + x) (origin_y m + y) \<longleftrightarrow>
      seen_cell m (getIdx m (origin_x m + x) (origin_y m + y))"
    using win [OF assms(1-4)] by (simp add: cell_seen_def)
  have "length (fst (snapshot m)) = nat (height m) * nat (width m)"
    unfolding snapshot_def fst_conv by (subst length_concat_rows [where w = "nat (width m)"]) auto
  then show ?thesis
    using occ [OF assms(1-4)] assms(6)
    by (auto simp: snapshot_nth [OF assms(1-4)] Let_def snapshot_cell_def cnt seen)
qed

text \<open>
  The speckle filter erases thin lines. With the default radius of 1 and support of 3, a lane line one cell
  wide along a column of the grid never appears in a snapshot, however long it is and however
  certain its cells are, because the filter counts only two of its three neighbouring
  cells in the column.
\<close>

theorem thin_line_is_erased:
  assumes "speckle_radius (parameters m) = 1" and "speckle_support (parameters m) = 3"
    and "\<And>x y. \<lbrakk>cell_occupied m x y; 0 \<le> x; x < width m; 0 \<le> y; y < height m\<rbrakk> \<Longrightarrow> x = a"
  shows "100 \<notin> set (fst (snapshot m))"
proof -
  have two: "speckle_count m x y \<le> 2" for x y
  proof -
    let ?xs = "[max 0 (x - 1)..min (width m - 1) (x + 1) - 1]"
    let ?ys = "[max 0 (y - 1)..min (height m - 1) (y + 1) - 1]"
    have "sum_list (map (\<lambda>dx. of_bool (cell_occupied m dx dy)) ?xs) \<le> (1::int)" if "dy \<in> set ?ys" for dy
      by (rule sum_of_bool_le_one [where a = a]) (use assms(3) that in auto)
    then have "speckle_count m x y \<le> sum_list (map (\<lambda>_. 1) ?ys)"
      unfolding speckle_count_def Let_def assms(1) by (rule sum_list_mono)
    also have "\<dots> = int (length ?ys)" by (simp add: sum_list_triv)
    also have "\<dots> \<le> 2" by (simp add: min_def max_def)
    finally show ?thesis .
  qed
  then have "snapshot_cell m x y \<noteq> 100" for x y
  proof -
    have "\<not> speckle_support (parameters m) \<le> speckle_count m x y"
      using assms(2) two [of x y] by linarith
    then show ?thesis by (simp add: snapshot_cell_def)
  qed
  then show ?thesis by (auto simp: snapshot_def)
qed

section \<open>Witnesses\<close>

text \<open>
  Small maps: 4 by 4 cells of one metre. \<open>line_map\<close> holds a certain line along the column 1;
  \<open>far_map\<close> is centred ten metres from the odometry origin.
\<close>

definition small_params :: params where
  "small_params = default_params\<lparr>resolution := 1, par_width := 4, par_height := 4\<rparr>"

definition line_map :: mapper where
  "line_map = (new_mapper small_params)\<lparr>initialised := True,
     log_odds := (\<lambda>i. if i \<in> {1, 5, 9, 13} then 5 else 0), seen_cell := (\<lambda>i. i \<in> {1, 5, 9, 13})\<rparr>"

definition far_map :: mapper where
  "far_map = line_map\<lparr>origin_x := 8, origin_y := 8\<rparr>"

lemma small_map:
  "width line_map = 4" "height line_map = 4" "origin_x line_map = 0" "origin_y line_map = 0"
  "initialised line_map" "parameters line_map = small_params"
  "width far_map = 4" "height far_map = 4" "origin_x far_map = 8" "origin_y far_map = 8"
  "initialised far_map" "parameters far_map = small_params"
  "resolution small_params = 1" "l_hit small_params = 0.9" "speckle_radius small_params = 1"
  "speckle_support small_params = 3" "l_occupied small_params = 1.5" "l_min small_params = -2" "l_max small_params = 5"
  by (simp_all add: line_map_def far_map_def new_mapper_def small_params_def default_params_def)

lemma small_map_inv: "mapper_inv line_map" "mapper_inv far_map"
  by (simp_all add: mapper_inv_def mapper_dims_def logs_ok_def clean_def small_map)
    (simp_all add: line_map_def far_map_def new_mapper_def)

lemma pmod4: "pmod a 4 = a mod 4" by (simp add: pmod_mod)

lemma line_map_cell: "0 \<le> x \<Longrightarrow> x < 4 \<Longrightarrow> cell_occupied line_map x y \<longleftrightarrow> x = 1"
proof -
  assume x: "0 \<le> x" "x < 4"
  have i: "getIdx line_map (origin_x line_map + x) (origin_y line_map + y) = (y mod 4) * 4 + x"
    using x by (simp add: getIdx_def small_map pmod4)
  have s: "seen_cell line_map j \<longleftrightarrow> j \<in> {1, 5, 9, 13}" "log_odds line_map j = (if j \<in> {1, 5, 9, 13} then 5 else 0)" for j
    by (simp_all add: line_map_def)
  have "(y mod 4) * 4 + x \<in> {1, 5, 9, 13} \<longleftrightarrow> x = 1"
  proof -
    have "x = 0 \<or> x = 1 \<or> x = 2 \<or> x = 3" using x by linarith
    moreover have "y mod 4 = 0 \<or> y mod 4 = 1 \<or> y mod 4 = 2 \<or> y mod 4 = 3"
      using pos_mod_bound [of 4 y] pos_mod_sign [of 4 y] by linarith
    ultimately show ?thesis by (elim disjE) simp_all
  qed
  then show "cell_occupied line_map x y \<longleftrightarrow> x = 1"
    unfolding cell_occupied_def Let_def i s by (simp add: small_map)
qed

theorem recenter_keeps_overlap_witness:
  "cell_value (recenter \<lparr>pose_x = 3, pose_y = 3, pose_yaw = 0\<rparr> line_map) 1 2 = 5 \<and>
   cell_value (recenter \<lparr>pose_x = 3, pose_y = 3, pose_yaw = 0\<rparr> line_map) 1 4 = 0"
  using recenter_keeps_overlap [of line_map "\<lparr>pose_x = 3, pose_y = 3, pose_yaw = 0\<rparr>" 1 2]
    recenter_keeps_overlap [of line_map "\<lparr>pose_x = 3, pose_y = 3, pose_yaw = 0\<rparr>" 1 4]
  by (simp add: small_map inWindow_def recenter_shape toGridNumber_def cell_value_def getIdx_def pmod4)
    (simp add: line_map_def)

theorem frames_leave_clean_map_witness:
  "logOdds (insert_frames [([\<lparr>pt_x = 1, pt_y = 0\<rparr>], \<lparr>pose_x = 3, pose_y = 3, pose_yaw = 0\<rparr>, 40)]
     (new_mapper small_params)) 3 3 \<le> 5"
  using frames_leave_clean_map [of small_params _ "[([\<lparr>pt_x = 1, pt_y = 0\<rparr>], \<lparr>pose_x = 3, pose_y = 3, pose_yaw = 0\<rparr>, 40)]",
      OF _ _ _ _ refl, of 3 3]
  by (simp add: small_map) (simp add: small_params_def default_params_def)

theorem insert_updates_cell_once_witness:
  "cell_value (insert_frame [] \<lparr>pose_x = 2, pose_y = 2, pose_yaw = 0\<rparr> 1 line_map) 1 1 = 5"
proof -
  let ?pose = "\<lparr>pose_x = 2, pose_y = 2, pose_yaw = 0\<rparr>"
  have w: "inWindow (recenter ?pose line_map) 1 1" "inWindow line_map 1 1"
    "0 \<le> origin_x (recenter ?pose line_map)" "0 \<le> origin_y (recenter ?pose line_map)"
    by (simp_all add: inWindow_def recenter_shape toGridNumber_def small_map)
  have v: "cell_value line_map 1 1 = 5"
    using w(2) by (simp add: cell_value_def getIdx_def small_map pmod4) (simp add: line_map_def)
  have h: "\<not> frame_health [] 1 \<ge> min_points_for_miss (parameters line_map)"
    by (simp add: frame_health_def small_map small_params_def default_params_def)
  have e: "frame_evidence (recenter ?pose line_map) ?pose [] (1, 1) = 0"
    by (simp add: frame_evidence_def)
  show ?thesis
    using insert_updates_cell_once [OF small_map_inv(1) small_map(5) refl w(1,3,4) refl refl refl, of "[]" 1] w(2) v h e
    by simp
qed


theorem snapshot_reports_cells_witness:
  "fst (snapshot line_map) ! 2 = -1 \<and> length (fst (snapshot line_map)) = 16"
proof -
  have "\<not> cell_seen line_map 2 0"
    by (simp add: cell_seen_def getIdx_def small_map pmod4) (simp add: line_map_def)
  then show ?thesis
    using snapshot_reports_cells [of 2 line_map 0, OF _ _ _ _ refl refl refl]
    by (simp add: small_map Let_def numeral_2_eq_2)
qed

theorem thin_line_is_erased_witness:
  "cell_occupied line_map 1 0 \<and> cell_occupied line_map 1 1 \<and> cell_occupied line_map 1 2 \<and>
    cell_occupied line_map 1 3 \<and> 100 \<notin> set (fst (snapshot line_map))"
  using thin_line_is_erased [of line_map 1] by (simp add: small_map line_map_cell)

end
