(* ===== verification/Mapping_Node.thy ===== *)
theory Mapping_Node
  imports Lane_Mapper Messages "HOL-Library.Sublist"
begin

text \<open>
  The mapping node, \<open>src/mapping_cpp/src/mapping.cpp\<close>: synchronised clouds wait in a queue until the
  pose of their stamp is known, are inserted into the lane map in order, and every few frames the map is published.
  What TF answers during one call of \<open>drain\<close> and the clock readings it takes are parameters;
  a cloud message is its header, its dimensions and its points.

  The lemmas show that clouds are inserted in the order they arrived and at most once, that the queue stays
  bounded, that the map is the one the inserted frames give, and how often it is published.
\<close>

section \<open>Data\<close>

record cloud_msg =
  cm_header :: header
  cm_width :: nat
  cm_height :: nat
  cm_points :: "(dbl \<times> dbl) list"

record pending_clouds =
  p_white :: cloud_msg
  p_yellow :: cloud_msg
  p_stop :: cloud_msg

record transform =
  tr_x :: real
  tr_y :: real
  q_x :: real
  q_y :: real
  q_z :: real
  q_w :: real

record mapping_config =
  mc_odom_frame :: string
  mc_publish_every :: int
  mc_max_wait_ms :: int
  mc_max_pending :: nat
  mc_fallback_to_latest :: bool
  mc_roi_x_min :: real
  mc_roi_x_max :: real

record occupancy_grid =
  og_header :: header
  og_resolution :: real
  og_width :: u32
  og_height :: u32
  og_origin_x :: real
  og_origin_y :: real
  og_data :: "int list"

record mapping_node =
  frame :: u32
  grid :: mapper
  queue :: "pending_clouds list"

record mapping_tf =
  can_transform :: "real \<Rightarrow> bool"
  lookup_at :: "real \<Rightarrow> tf_error + transform"
  lookup_latest :: "tf_error + transform"

definition mapping_config_of :: "string \<Rightarrow> int \<Rightarrow> int \<Rightarrow> int \<Rightarrow> bool \<Rightarrow> params \<Rightarrow> mapping_config" where
  \<comment> \<open>the constructor's reading of the parameters\<close>
  "mapping_config_of odom publish_every max_wait max_pending fallback p =
     \<lparr>mc_odom_frame = odom, mc_publish_every = max 1 publish_every, mc_max_wait_ms = max_wait,
      mc_max_pending = nat (max 1 max_pending), mc_fallback_to_latest = fallback,
      mc_roi_x_min = roi_x_min p, mc_roi_x_max = roi_x_max p\<rparr>"

definition new_mapping_node :: "params \<Rightarrow> mapping_node" where
  "new_mapping_node p = \<lparr>frame = 0, grid = new_mapper p, queue = []\<rparr>"

section \<open>Processing one frame\<close>

definition pose_of :: "transform \<Rightarrow> pose2" where
  "pose_of t = \<lparr>pose_x = tr_x t, pose_y = tr_y t,
     pose_yaw = atan2 (2 * (q_w t * q_z t + q_x t * q_y t)) (1 - 2 * (q_y t * q_y t + q_z t * q_z t))\<rparr>"

definition band_points :: "mapping_config \<Rightarrow> cloud_msg \<Rightarrow> point2 list" where
  "band_points c w =
     map (\<lambda>(x, y). \<lparr>pt_x = val_of x, pt_y = val_of y\<rparr>)
       (filter (\<lambda>(x, y). \<not> (\<not> isfinite x \<or> \<not> isfinite y) \<and>
                  \<not> (Fin (mc_roi_x_max c) < x \<or> x < Fin (mc_roi_x_min c)))
         (take (cm_width w * cm_height w) (cm_points w)))"

definition health_of :: "pending_clouds \<Rightarrow> int" where
  "health_of p = int (cm_width (p_white p) * cm_height (p_white p) +
     cm_width (p_yellow p) * cm_height (p_yellow p) + cm_width (p_stop p) * cm_height (p_stop p))"

definition frame_of :: "mapping_config \<Rightarrow> pending_clouds \<Rightarrow> transform \<Rightarrow> point2 list \<times> pose2 \<times> int" where
  "frame_of c p tf = (band_points c (p_white p), pose_of tf, health_of p)"

definition grid_msg :: "mapping_config \<Rightarrow> real \<Rightarrow> mapper \<Rightarrow> occupancy_grid" where
  "grid_msg c st m =
     (let (buf, win) = snapshot m in
      \<lparr>og_header = \<lparr>stamp = st, frame_id = mc_odom_frame c\<rparr>, og_resolution = win_resolution win,
       og_width = word_of_int (win_width win), og_height = word_of_int (win_height win),
       og_origin_x = win_origin_x win, og_origin_y = win_origin_y win, og_data = buf\<rparr>)"

definition process ::
    "mapping_config \<Rightarrow> pending_clouds \<Rightarrow> transform \<Rightarrow> mapping_node \<Rightarrow> mapping_node \<times> occupancy_grid list" where
  "process c p tf n =
     (let (pts, pose, health) = frame_of c p tf;
          n1 = n\<lparr>grid := insert_frame pts pose health (grid n), frame := frame n + 1\<rparr>
      in if unat (frame n1) mod nat (mc_publish_every c) \<noteq> 0 then (n1, [])
         else (n1, [grid_msg c (stamp (cm_header (p_white p))) (grid n1)]))"

section \<open>The queue\<close>

definition cloud_stamp :: "pending_clouds \<Rightarrow> real" where
  "cloud_stamp p = stamp (cm_header (p_white p))"

fun drain_loop ::
    "mapping_config \<Rightarrow> mapping_tf \<Rightarrow> (nat \<Rightarrow> real) \<Rightarrow> nat \<Rightarrow> pending_clouds list \<Rightarrow> mapping_node \<Rightarrow>
     mapping_node \<times> occupancy_grid list" where
  \<comment> \<open>\<open>clk k\<close> is the clock reading in the \<open>k\<close>-th iteration\<close>
  "drain_loop c tf clk k [] n = (n\<lparr>queue := []\<rparr>, [])"
| "drain_loop c tf clk k (p # ps) n =
     (if can_transform tf (cloud_stamp p) then
        let (n1, ms1) = (case lookup_at tf (cloud_stamp p) of Inr t \<Rightarrow> process c p t n | Inl e \<Rightarrow> (n, []));
            (n2, ms2) = drain_loop c tf clk (k + 1) ps n1
        in (n2, ms1 @ ms2)
      else if (clk k - cloud_stamp p) * 1000 \<le> of_int (mc_max_wait_ms c) then (n\<lparr>queue := p # ps\<rparr>, [])
      else
        let (n1, ms1) = (if mc_fallback_to_latest c
                         then (case lookup_latest tf of Inr t \<Rightarrow> process c p t n | Inl e \<Rightarrow> (n, []))
                         else (n, []));
            (n2, ms2) = drain_loop c tf clk (k + 1) ps n1
        in (n2, ms1 @ ms2))"

definition drain ::
    "mapping_config \<Rightarrow> mapping_tf \<Rightarrow> (nat \<Rightarrow> real) \<Rightarrow> mapping_node \<Rightarrow> mapping_node \<times> occupancy_grid list" where
  "drain c tf clk n = drain_loop c tf clk 0 (queue n) n"

definition enqueue :: "mapping_config \<Rightarrow> pending_clouds \<Rightarrow> mapping_node \<Rightarrow> mapping_node" where
  \<comment> \<open>\<open>push_back\<close>, then drop the oldest while the queue is too long\<close>
  "enqueue c p n = (let q = queue n @ [p] in n\<lparr>queue := drop (length q - mc_max_pending c) q\<rparr>)"

definition mapping_cb ::
    "mapping_config \<Rightarrow> mapping_tf \<Rightarrow> (nat \<Rightarrow> real) \<Rightarrow> pending_clouds \<Rightarrow> mapping_node \<Rightarrow>
     mapping_node \<times> occupancy_grid list" where
  "mapping_cb c tf clk p n = drain c tf clk (enqueue c p n)"

section \<open>What a call inserts\<close>

text \<open>
  The clouds one call of \<open>drain\<close> inserts, with the transforms it uses, and the clouds it
  leaves in the queue.
\<close>

fun jobs ::
    "mapping_config \<Rightarrow> mapping_tf \<Rightarrow> (nat \<Rightarrow> real) \<Rightarrow> nat \<Rightarrow> pending_clouds list \<Rightarrow>
     (pending_clouds \<times> transform) list \<times> pending_clouds list" where
  "jobs c tf clk k [] = ([], [])"
| "jobs c tf clk k (p # ps) =
     (let here = (if can_transform tf (cloud_stamp p)
                  then (case lookup_at tf (cloud_stamp p) of Inr t \<Rightarrow> [(p, t)] | Inl e \<Rightarrow> [])
                  else if mc_fallback_to_latest c
                  then (case lookup_latest tf of Inr t \<Rightarrow> [(p, t)] | Inl e \<Rightarrow> [])
                  else []);
          (js, rest) = jobs c tf clk (k + 1) ps
      in if \<not> can_transform tf (cloud_stamp p) \<and>
            (clk k - cloud_stamp p) * 1000 \<le> of_int (mc_max_wait_ms c)
         then ([], p # ps) else (here @ js, rest))"

fun run_jobs ::
    "mapping_config \<Rightarrow> (pending_clouds \<times> transform) list \<Rightarrow> mapping_node \<Rightarrow> mapping_node \<times> occupancy_grid list" where
  "run_jobs c [] n = (n, [])"
| "run_jobs c ((p, t) # js) n =
     (let (n1, ms1) = process c p t n; (n2, ms2) = run_jobs c js n1 in (n2, ms1 @ ms2))"

lemma run_jobs_append:
  "run_jobs c (js @ ks) n =
     (let (n1, ms1) = run_jobs c js n; (n2, ms2) = run_jobs c ks n1 in (n2, ms1 @ ms2))"
  by (induction js arbitrary: n) (auto simp: Let_def split: prod.splits)

lemma process_queue: "process c p t (n\<lparr>queue := q\<rparr>) = map_prod (queue_update (\<lambda>_. q)) id (process c p t n)"
  by (auto simp: process_def frame_of_def Let_def)

lemma run_jobs_queue: "run_jobs c js (n\<lparr>queue := q\<rparr>) = map_prod (queue_update (\<lambda>_. q)) id (run_jobs c js n)"
  by (induction js arbitrary: n) (auto simp: process_queue Let_def split: prod.splits)

lemma drain_loop_jobs:
  "drain_loop c tf clk k ps n =
     map_prod (queue_update (\<lambda>_. snd (jobs c tf clk k ps))) id (run_jobs c (fst (jobs c tf clk k ps)) n)"
  by (induction c tf clk k ps n rule: drain_loop.induct)
    (auto simp: Let_def split: prod.splits sum.splits)

lemma jobs_subseq:
  "subseq (map fst (fst (jobs c tf clk k ps)) @ snd (jobs c tf clk k ps)) ps"
  by (induction c tf clk k ps rule: jobs.induct)
    (auto simp: Let_def split: prod.splits sum.splits intro: subseq_Cons')

section \<open>Runs\<close>

datatype mapping_event =
    Cloud pending_clouds mapping_tf "nat \<Rightarrow> real"
  | Timer mapping_tf "nat \<Rightarrow> real"

fun mapping_step :: "mapping_config \<Rightarrow> mapping_node \<Rightarrow> mapping_event \<Rightarrow> mapping_node \<times> occupancy_grid list" where
  "mapping_step c n (Cloud p tf clk) = mapping_cb c tf clk p n"
| "mapping_step c n (Timer tf clk) = drain c tf clk n"

fun mapping_run :: "mapping_config \<Rightarrow> mapping_node \<Rightarrow> mapping_event list \<Rightarrow> mapping_node \<times> occupancy_grid list" where
  "mapping_run c n [] = (n, [])"
| "mapping_run c n (e # es) =
     (let (n1, ms1) = mapping_step c n e; (n2, ms2) = mapping_run c n1 es in (n2, ms1 @ ms2))"

fun arrivals :: "mapping_event list \<Rightarrow> pending_clouds list" where
  "arrivals [] = []"
| "arrivals (Cloud p tf clk # es) = p # arrivals es"
| "arrivals (Timer tf clk # es) = arrivals es"

definition queue_before :: "mapping_config \<Rightarrow> pending_clouds list \<Rightarrow> mapping_event \<Rightarrow> pending_clouds list" where
  "queue_before c q e = (case e of
      Cloud p tf clk \<Rightarrow> drop (length (q @ [p]) - mc_max_pending c) (q @ [p]) | Timer tf clk \<Rightarrow> q)"

fun inserted ::
    "mapping_config \<Rightarrow> pending_clouds list \<Rightarrow> mapping_event list \<Rightarrow>
     (pending_clouds \<times> transform) list \<times> pending_clouds list" where
  \<comment> \<open>the clouds a run inserts, and those still waiting at its end\<close>
  "inserted c q [] = ([], q)"
| "inserted c q (e # es) =
     (let (js, q1) = (case e of
            Cloud p tf clk \<Rightarrow> jobs c tf clk 0 (queue_before c q e)
          | Timer tf clk \<Rightarrow> jobs c tf clk 0 (queue_before c q e));
          (ks, q2) = inserted c q1 es
      in (js @ ks, q2))"

lemma mapping_step_jobs:
  "mapping_step c n e =
     (let (js, q) = (case e of
            Cloud p tf clk \<Rightarrow> jobs c tf clk 0 (queue_before c (queue n) e)
          | Timer tf clk \<Rightarrow> jobs c tf clk 0 (queue_before c (queue n) e))
      in map_prod (queue_update (\<lambda>_. q)) id (run_jobs c js n))"
  by (cases e) (simp_all add: mapping_cb_def drain_def enqueue_def drain_loop_jobs queue_before_def
      run_jobs_queue Let_def case_prod_beta prod.map_comp comp_def id_def del: drop_append)

lemma mapping_run_jobs:
  "mapping_run c n es =
     map_prod (queue_update (\<lambda>_. snd (inserted c (queue n) es))) id (run_jobs c (fst (inserted c (queue n) es)) n)"
proof (induction es arbitrary: n)
  case (Cons e es)
  obtain js q1 where j: "(case e of
        Cloud p tf clk \<Rightarrow> jobs c tf clk 0 (queue_before c (queue n) e)
      | Timer tf clk \<Rightarrow> jobs c tf clk 0 (queue_before c (queue n) e)) = (js, q1)" by fastforce
  obtain ks q2 where k: "inserted c q1 es = (ks, q2)" by fastforce
  obtain n1 ms1 where r: "run_jobs c js n = (n1, ms1)" by fastforce
  have step: "mapping_step c n e = (n1\<lparr>queue := q1\<rparr>, ms1)"
    by (simp add: mapping_step_jobs j r)
  have ins: "inserted c (queue n) (e # es) = (js @ ks, q2)" by (simp add: j k)
  show ?case
    unfolding ins using Cons.IH [of "n1\<lparr>queue := q1\<rparr>"]
    by (simp add: step k run_jobs_queue run_jobs_append r Let_def case_prod_beta prod.map_comp)
qed (simp add: map_prod_def)

lemma subseq_drop: "subseq (drop k xs) xs"
  by (metis append_take_drop_id list_emb_append2 subseq_order.refl)

lemma queue_before_subseq: "subseq (queue_before c q e) (q @ arrivals [e])"
  by (cases e) (simp_all add: queue_before_def subseq_drop del: drop_append)

lemma inserted_subseq:
  "subseq (map fst (fst (inserted c q es)) @ snd (inserted c q es)) (q @ arrivals es)"
proof (induction es arbitrary: q)
  case (Cons e es)
  obtain js q1 where j: "(case e of
        Cloud p tf clk \<Rightarrow> jobs c tf clk 0 (queue_before c q e)
      | Timer tf clk \<Rightarrow> jobs c tf clk 0 (queue_before c q e)) = (js, q1)" by fastforce
  have 1: "subseq (map fst js @ q1) (queue_before c q e)"
    using j jobs_subseq by (cases e) (auto, metis fst_conv snd_conv, metis fst_conv snd_conv)
  have 2: "subseq (map fst js @ q1) (q @ arrivals [e])"
    using 1 queue_before_subseq by (rule subseq_order.trans)
  have "subseq (map fst js @ map fst (fst (inserted c q1 es)) @ snd (inserted c q1 es))
      (map fst js @ q1 @ arrivals es)"
    by (rule list_emb_append_mono [OF subseq_order.refl Cons.IH])
  moreover have "subseq ((map fst js @ q1) @ arrivals es) ((q @ arrivals [e]) @ arrivals es)"
    by (rule list_emb_append_mono [OF 2 subseq_order.refl])
  moreover have "arrivals [e] @ arrivals es = arrivals (e # es)" by (cases e) simp_all
  ultimately have "subseq (map fst js @ map fst (fst (inserted c q1 es)) @ snd (inserted c q1 es))
      (q @ arrivals (e # es))"
    by (metis append.assoc subseq_order.trans)
  then show ?case by (simp add: j case_prod_beta)
qed simp

lemma jobs_length: "length (snd (jobs c tf clk k ps)) \<le> length ps"
  by (induction c tf clk k ps rule: jobs.induct) (auto simp: Let_def split: prod.splits)

lemma inserted_bounded:
  "length q \<le> mc_max_pending c \<Longrightarrow> length (snd (inserted c q es)) \<le> mc_max_pending c"
proof (induction es arbitrary: q)
  case (Cons e es)
  obtain js q1 where j: "(case e of
        Cloud p tf clk \<Rightarrow> jobs c tf clk 0 (queue_before c q e)
      | Timer tf clk \<Rightarrow> jobs c tf clk 0 (queue_before c q e)) = (js, q1)" by fastforce
  have "length (queue_before c q e) \<le> mc_max_pending c"
    using Cons.prems by (cases e) (simp_all add: queue_before_def del: drop_append)
  moreover have "length q1 \<le> length (queue_before c q e)"
    using j jobs_length by (cases e) (auto, metis snd_conv, metis snd_conv)
  ultimately show ?case using Cons.IH [of q1] by (simp add: j case_prod_beta)
qed simp

section \<open>Properties\<close>

text \<open>
  C14: Clouds are mapped in order, at most once, from a bounded queue. In every run, the clouds inserted into the
  map so far followed by those still waiting are a subsequence of the clouds in
  the order they arrived, no more than the configured number wait, and the state is the one
  obtained by processing just those clouds one after the other.
\<close>

theorem clouds_are_mapped_in_order:
  fixes n :: mapping_node
  assumes "queue n = []"
  shows "subseq (map fst (fst (inserted c [] es)) @ queue (fst (mapping_run c n es))) (arrivals es) \<and>
    length (queue (fst (mapping_run c n es))) \<le> mc_max_pending c \<and>
    grid (fst (mapping_run c n es)) = grid (fst (run_jobs c (fst (inserted c [] es)) n)) \<and>
    snd (mapping_run c n es) = snd (run_jobs c (fst (inserted c [] es)) n)"
  using inserted_subseq [of c "[]" es] inserted_bounded [of "[]" c es] assms
  by (simp add: mapping_run_jobs fst_map_prod snd_map_prod del: inserted.simps)

lemma run_jobs_snoc:
  "run_jobs c (js @ [(p, t)]) n =
     (let (n1, ms1) = run_jobs c js n; (n2, ms2) = process c p t n1 in (n2, ms1 @ ms2))"
  by (simp add: run_jobs_append Let_def split: prod.splits)

lemma Suc_div_of_mod: "0 < k \<Longrightarrow> Suc n div k = n div k + (if Suc n mod k = 0 then 1 else 0)"
  by (simp add: div_Suc)

text \<open>
  The published map is the one the frames give, every few frames. After processing a list of
  clouds shorter than 2^32, the map is exactly what inserting their frames one by one into the empty map
  gives, and the number of maps published is the number of frames divided by the
  publishing interval; the counter wraps only beyond that.
\<close>

theorem map_is_published_every_few_frames:
  assumes "c = mapping_config_of odom every wait pending fallback p" and "length js < 2 ^ 32"
    and "run_jobs c js (new_mapping_node p) = (n, ms)"
  shows "grid n = insert_frames (map (\<lambda>(q, t). frame_of c q t) js) (new_mapper p) \<and>
    unat (frame n) = length js \<and> length ms = length js div nat (max 1 every)"
  using assms(2,3)
proof (induction js arbitrary: n ms rule: rev_induct)
  case Nil
  then show ?case by (auto simp: new_mapping_node_def insert_frames_def)
next
  case (snoc j js)
  obtain q t where j: "j = (q, t)" by fastforce
  obtain n1 ms1 where r: "run_jobs c js (new_mapping_node p) = (n1, ms1)" by fastforce
  have IH: "grid n1 = insert_frames (map (\<lambda>(q, t). frame_of c q t) js) (new_mapper p)"
    "unat (frame n1) = length js" "length ms1 = length js div nat (max 1 every)"
    using snoc.IH [OF _ r] snoc.prems(1) by simp_all
  have f: "unat (frame n1 + 1) = Suc (length js)"
    using snoc.prems(1) IH(2) by (simp add: unat_word_ariths)
  have e: "mc_publish_every c = max 1 every" "0 < nat (max 1 every)"
    using assms(1) by (simp_all add: mapping_config_of_def)
  have p: "run_jobs c (js @ [j]) (new_mapping_node p) =
    (let (n2, ms2) = process c q t n1 in (n2, ms1 @ ms2))"
    by (simp add: j run_jobs_snoc r)
  show ?case
    using snoc.prems(2) IH(1,3) f Suc_div_of_mod [OF e(2), of "length js"] unfolding p
    by (auto simp: process_def Let_def e(1) j insert_frames_def split_def split: if_splits)
qed

section \<open>Witnesses\<close>

definition one_cloud :: "real \<Rightarrow> pending_clouds" where
  "one_cloud t = (let c = \<lparr>cm_header = \<lparr>stamp = t, frame_id = ''base''\<rparr>, cm_width = 1, cm_height = 1,
       cm_points = [(Fin 2, Fin 0)]\<rparr> in \<lparr>p_white = c, p_yellow = c, p_stop = c\<rparr>)"

definition late_tf :: mapping_tf where
  \<comment> \<open>transforms exist up to time 5\<close>
  "late_tf = \<lparr>can_transform = (\<lambda>t. t \<le> 5),
     lookup_at = (\<lambda>t. Inr \<lparr>tr_x = t, tr_y = 0, q_x = 0, q_y = 0, q_z = 0, q_w = 1\<rparr>),
     lookup_latest = Inl LookupError\<rparr>"

definition test_mapping :: mapping_config where
  "test_mapping = mapping_config_of ''odom'' 2 700 20 False small_params"

theorem clouds_are_mapped_in_order_witness:
  "subseq (map fst (fst (inserted test_mapping [] [Cloud (one_cloud 4) late_tf (\<lambda>_. 4), Cloud (one_cloud 6) late_tf (\<lambda>_. 6)]))
       @ queue (fst (mapping_run test_mapping (new_mapping_node small_params)
          [Cloud (one_cloud 4) late_tf (\<lambda>_. 4), Cloud (one_cloud 6) late_tf (\<lambda>_. 6)])))
     [one_cloud 4, one_cloud 6]"
  using clouds_are_mapped_in_order [of "new_mapping_node small_params" test_mapping
      "[Cloud (one_cloud 4) late_tf (\<lambda>_. 4), Cloud (one_cloud 6) late_tf (\<lambda>_. 6)]"]
  by (simp only: arrivals.simps) (simp add: new_mapping_node_def)

theorem map_is_published_every_few_frames_witness:
  "length (snd (run_jobs test_mapping (replicate 5 (one_cloud 4, \<lparr>tr_x = 3, tr_y = 3, q_x = 0, q_y = 0, q_z = 0, q_w = 1\<rparr>))
     (new_mapping_node small_params))) = 2"
  using map_is_published_every_few_frames [of test_mapping "''odom''" 2 700 20 False small_params
      "replicate 5 (one_cloud 4, \<lparr>tr_x = 3, tr_y = 3, q_x = 0, q_y = 0, q_z = 0, q_w = 1\<rparr>)", OF _ _ prod.collapse [symmetric]]
  by (simp add: test_mapping_def)

end
