(* ===== verification/Depth_Estimator.thy ===== *)
theory Depth_Estimator
  imports Messages
begin

text \<open>
  The depth estimator, \<open>src/lidar_cam_fusion/src/depth_estimator.cpp\<close>: it gives every camera detection a
  distance and a position, from the painted stop line for signs, from the ground plane for flat
  classes and from LiDAR points inside the box for the rest. The TF buffer and the transform of a
  cloud are parameters; the rotation of the ground transform is its matrix.

  The lemmas show which order statistic of the depths becomes the distance, that a ground-plane depth puts
  the position on the ground, and that the LiDAR branch projects with another axis convention than the
  positions it produces.
\<close>

section \<open>Data\<close>

record 'tr depth_tf =
  d_lookup :: "'tr lookup"
  d_cloud :: "'tr \<Rightarrow> cloud \<Rightarrow> cloud"
  d_origin :: "'tr \<Rightarrow> point3"
  d_rotation :: "'tr \<Rightarrow> point3 \<times> point3 \<times> point3"

record depth_config =
  ipm_classes :: "string list"
  stop_sign_class :: string
  stop_line_max_age :: real
  stop_line_min_points :: int
  stop_line_percentile :: real
  ground_frame :: string
  ground_z :: real
  max_ipm_range :: real

record depth_state =
  d_camera :: "camera option"
  stop_line_valid :: bool
  stop_line_dist :: real
  stop_line_n :: nat
  stop_line_stamp :: real

definition new_depth_state :: depth_state where
  "new_depth_state = \<lparr>d_camera = None, stop_line_valid = False, stop_line_dist = 0, stop_line_n = 0,
     stop_line_stamp = 0\<rparr>"

section \<open>Operations\<close>

definition depth_camera_callback :: "camera \<Rightarrow> depth_state \<Rightarrow> depth_state" where
  "depth_camera_callback cam s = s\<lparr>d_camera := Some cam\<rparr>"

definition rank_index :: "nat \<Rightarrow> real \<Rightarrow> nat" where
  "rank_index n p = nat (ctrunc (of_nat n * p))"

definition line_depths :: "cloud \<Rightarrow> real list" where
  "line_depths pts = map (\<lambda>(x, y, z). val_of x)
     (filter (\<lambda>(x, y, z). \<not> (\<not> isfinite x \<or> \<not> isfinite y \<or> \<not> isfinite z \<or> x \<le> Fin 0.1)) pts)"

definition size_t_of :: "int \<Rightarrow> int" where
  \<comment> \<open>the conversion of an \<open>int\<close> to \<open>size_t\<close>: a negative one becomes huge\<close>
  "size_t_of n = uint (word_of_int n :: 64 word)"

definition stop_line_callback ::
    "depth_config \<Rightarrow> 'tr depth_tf \<Rightarrow> header \<Rightarrow> cloud \<Rightarrow> depth_state \<Rightarrow> depth_state" where
  "stop_line_callback c tf h pts s =
     (case d_camera s of
        None \<Rightarrow> s
      | Some cam \<Rightarrow>
          (case d_lookup tf (cam_frame cam) (frame_id h) None of
             Inl e \<Rightarrow> s
           | Inr tr \<Rightarrow>
               let depths = line_depths (d_cloud tf tr pts);
                   valid = int (length depths) \<ge> size_t_of (stop_line_min_points c);
                   s1 = s\<lparr>stop_line_n := length depths, stop_line_valid := valid, stop_line_stamp := stamp h\<rparr>
               in if valid
                  then s1\<lparr>stop_line_dist := nth_smallest depths (rank_index (length depths) (stop_line_percentile c))\<rparr>
                  else s1))"

fun mat_vec :: "point3 \<times> point3 \<times> point3 \<Rightarrow> point3 \<Rightarrow> point3" where
  "mat_vec ((a, b, c), (d, e, f), (g, h, i)) (x, y, z) =
     (a * x + b * y + c * z, d * x + e * y + f * z, g * x + h * y + i * z)"

definition image_ray :: "camera \<Rightarrow> real \<Rightarrow> real \<Rightarrow> point3" where
  "image_ray cam u v = (1, - (u - cam_cx cam) / cam_fx cam, - (v - cam_cy cam) / cam_fy cam)"

definition ipm_depth ::
    "depth_config \<Rightarrow> camera \<Rightarrow> real \<Rightarrow> real \<Rightarrow> point3 \<Rightarrow> point3 \<times> point3 \<times> point3 \<Rightarrow> real option" where
  "ipm_depth c cam u v origin R =
     (let dz = snd (snd (mat_vec R (image_ray cam u v))) in
      if dz > - (1 / 1000) then None
      else let t = (ground_z c - snd (snd origin)) / dz in
        if t \<le> 0 \<or> t > max_ipm_range c then None else Some t)"

definition camera_position :: "camera \<Rightarrow> real \<Rightarrow> real \<Rightarrow> real \<Rightarrow> point3" where
  "camera_position cam u v d =
     (d, - (u - cam_cx cam) * d / cam_fx cam, - (v - cam_cy cam) * d / cam_fy cam)"

definition set_position :: "camera \<Rightarrow> real \<Rightarrow> real \<Rightarrow> real \<Rightarrow> detection2d \<Rightarrow> detection2d" where
  "set_position cam u v d r = r\<lparr>position := camera_position cam u v d\<rparr>"

definition fuse_sign :: "depth_config \<Rightarrow> camera \<Rightarrow> real \<Rightarrow> depth_state \<Rightarrow> detection2d \<Rightarrow> detection2d" where
  "fuse_sign c cam stmp s b =
     (let r = b\<lparr>n_pts := of_nat (stop_line_n s), depth_valid := False\<rparr>;
          age = \<bar>stmp - stop_line_stamp s\<bar>
      in if stop_line_valid s \<and> age \<le> stop_line_max_age c
         then (set_position cam (0.5 * (x1 b + x2 b)) (0.5 * (y1 b + y2 b)) (stop_line_dist s)
                 (r\<lparr>distance := Fin (stop_line_dist s)\<rparr>))\<lparr>depth_valid := True\<rparr>
         else r)"

definition apply_ipm ::
    "depth_config \<Rightarrow> camera \<Rightarrow> (point3 \<times> (point3 \<times> point3 \<times> point3)) option \<Rightarrow> real \<Rightarrow> real \<Rightarrow>
     detection2d \<Rightarrow> detection2d" where
  \<comment> \<open>the ground-plane distance, when there is a ground transform\<close>
  "apply_ipm c cam ground u v r =
     (case ground of
        None \<Rightarrow> r
      | Some (origin, R) \<Rightarrow>
          (case ipm_depth c cam u v origin R of
             None \<Rightarrow> r
           | Some d \<Rightarrow> (set_position cam u v d (r\<lparr>distance := Fin d\<rparr>))\<lparr>depth_valid := True\<rparr>))"

definition fuse_flat ::
    "depth_config \<Rightarrow> camera \<Rightarrow> (point3 \<times> (point3 \<times> point3 \<times> point3)) option \<Rightarrow> detection2d \<Rightarrow> detection2d" where
  "fuse_flat c cam ground b =
     apply_ipm c cam ground (0.5 * (x1 b + x2 b)) (0.5 * (y1 b + y2 b)) (b\<lparr>n_pts := 0, depth_valid := False\<rparr>)"

definition optical_pixel :: "camera \<Rightarrow> point3 \<Rightarrow> real \<times> real" where
  \<comment> \<open>the projection of the LiDAR branch\<close>
  "optical_pixel cam p = (let (x, y, z) = p in
     (cam_fx cam * x / z + cam_cx cam, cam_fy cam * y / z + cam_cy cam))"

definition counts_for :: "camera \<Rightarrow> detection2d \<Rightarrow> dbl \<times> dbl \<times> dbl \<Rightarrow> bool" where
  "counts_for cam b p =
     (let (x, y, z) = p in
      if \<not> isfinite x \<or> \<not> isfinite y \<or> \<not> isfinite z \<or> z \<le> Fin 0.1 then False
      else let (u, v) = optical_pixel cam (val_of x, val_of y, val_of z)
           in u \<ge> x1 b \<and> u \<le> x2 b \<and> v \<ge> y1 b \<and> v \<le> y2 b)"

definition box_depths :: "camera \<Rightarrow> detection2d \<Rightarrow> cloud \<Rightarrow> real list" where
  "box_depths cam b pts = map (\<lambda>(x, y, z). val_of z) (filter (counts_for cam b) pts)"

definition fuse_lidar ::
    "depth_config \<Rightarrow> camera \<Rightarrow> (point3 \<times> (point3 \<times> point3 \<times> point3)) option \<Rightarrow> cloud \<Rightarrow> detection2d \<Rightarrow> detection2d" where
  "fuse_lidar c cam ground pts b =
     (let depths = box_depths cam b pts;
          r = b\<lparr>n_pts := of_nat (length depths), depth_valid := length depths \<ge> 3\<rparr>
      in if depth_valid r then
           let d = nth_smallest depths (rank_index (length depths) 0.25) in
           set_position cam (0.5 * (x1 b + x2 b)) (0.5 * (y1 b + y2 b)) d (r\<lparr>distance := Fin d\<rparr>)
         else apply_ipm c cam ground (0.5 * (x1 b + x2 b)) (y2 b) r)"

definition fuse_detection ::
    "depth_config \<Rightarrow> camera \<Rightarrow> (point3 \<times> (point3 \<times> point3 \<times> point3)) option \<Rightarrow> cloud \<Rightarrow> real \<Rightarrow> depth_state \<Rightarrow>
     detection2d \<Rightarrow> detection2d" where
  "fuse_detection c cam ground pts stmp s b =
     (if is_stop_sign b \<or> class_name b = stop_sign_class c then fuse_sign c cam stmp s b
      else if class_name b \<in> set (ipm_classes c) then fuse_flat c cam ground b
      else fuse_lidar c cam ground pts b)"

definition fusion_callback ::
    "depth_config \<Rightarrow> 'tr depth_tf \<Rightarrow> header \<Rightarrow> detection2d list \<Rightarrow> header \<Rightarrow> cloud \<Rightarrow> depth_state \<Rightarrow>
     (header \<times> detection2d list) option" where
  \<comment> \<open>the message it publishes, if any; the state does not change\<close>
  "fusion_callback c tf dh ds ch pts s =
     (case d_camera s of
        None \<Rightarrow> None
      | Some cam \<Rightarrow>
          (case d_lookup tf (cam_frame cam) (frame_id ch) None of
             Inl e \<Rightarrow> None
           | Inr tr \<Rightarrow>
               let ground = (case d_lookup tf (ground_frame c) (cam_frame cam) None of
                     Inl e \<Rightarrow> None | Inr g \<Rightarrow> Some (d_origin tf g, d_rotation tf g))
               in Some (dh\<lparr>frame_id := cam_frame cam\<rparr>,
                    map (fuse_detection c cam ground (d_cloud tf tr pts) (stamp dh) s) ds)))"

section \<open>Properties\<close>

lemma rank_index_less: "0 < n \<Longrightarrow> 0 \<le> p \<Longrightarrow> p < 1 \<Longrightarrow> rank_index n p < n"
proof -
  assume "0 < n" "0 \<le> p" "p < 1"
  then have "of_nat n * p < of_nat n" "0 \<le> of_nat n * p" by simp_all
  then have "\<lfloor>of_nat n * p\<rfloor> < int n" "0 \<le> \<lfloor>of_nat n * p\<rfloor>"
    by (simp_all add: floor_less_iff)
  with \<open>0 \<le> of_nat n * p\<close> \<open>0 < n\<close> show ?thesis
    by (simp add: rank_index_def ctrunc_def nat_less_iff)
qed

lemma rank_quarter: "rank_index n 0.25 = n div 4"
proof -
  have "\<lfloor>of_nat n * (0.25::real)\<rfloor> = \<lfloor>(of_int (int n) / of_int 4 :: real)\<rfloor>" by simp
  also have "\<dots> = int n div 4" by (rule floor_divide_of_int_eq)
  finally show ?thesis by (simp add: rank_index_def ctrunc_def nat_div_distrib)
qed

lemma fuse_lidar_distance:
  assumes "3 \<le> length (box_depths cam b pts)"
  shows "distance (fuse_lidar c cam g pts b) =
      Fin (nth_smallest (box_depths cam b pts) (length (box_depths cam b pts) div 4))"
    "depth_valid (fuse_lidar c cam g pts b)"
    "n_pts (fuse_lidar c cam g pts b) = of_nat (length (box_depths cam b pts))"
  using assms rank_quarter by (simp_all add: fuse_lidar_def Let_def set_position_def)

text \<open>
  C16: Where a published distance comes from. The message has one detection per input detection, in order. A sign
  carries the stop-line distance exactly when the stop line is valid and recent; any other detection whose class is not a
  flat one and whose box holds at least three LiDAR returns carries the return of rank one quarter: one of
  the returns in the box, with at most a quarter of them nearer and more than a quarter
  at most as far.
\<close>

theorem published_distance_sources:
  assumes "fusion_callback c tf dh ds ch pts s = Some (h, rs)" and "i < length ds"
    and "d_camera s = Some cam" and "d_lookup tf (cam_frame cam) (frame_id ch) None = Inr tr"
    and "b = ds ! i" and "returns = box_depths cam b (d_cloud tf tr pts)"
  shows "length rs = length ds \<and>
    (if is_stop_sign b \<or> class_name b = stop_sign_class c then
       depth_valid (rs ! i) = (stop_line_valid s \<and> \<bar>stamp dh - stop_line_stamp s\<bar> \<le> stop_line_max_age c) \<and>
       (depth_valid (rs ! i) \<longrightarrow> distance (rs ! i) = Fin (stop_line_dist s))
     else class_name b \<notin> set (ipm_classes c) \<and> 3 \<le> length returns \<longrightarrow>
       depth_valid (rs ! i) \<and> (\<exists>m \<in> set returns. distance (rs ! i) = Fin m \<and>
         length (filter (\<lambda>v. v < m) returns) \<le> length returns div 4 \<and>
         length returns div 4 < length (filter (\<lambda>v. v \<le> m) returns)))"
proof -
  let ?g = "case d_lookup tf (ground_frame c) (cam_frame cam) None of
      Inl e \<Rightarrow> None | Inr g \<Rightarrow> Some (d_origin tf g, d_rotation tf g)"
  have rs: "rs = map (fuse_detection c cam ?g (d_cloud tf tr pts) (stamp dh) s) ds"
    using assms(1,3,4) by (simp add: fusion_callback_def Let_def)
  then have ri: "rs ! i = fuse_detection c cam ?g (d_cloud tf tr pts) (stamp dh) s b"
    using assms(2,5) by simp
  have q: "length returns div 4 < length returns" if "3 \<le> length returns" using that by linarith
  show ?thesis
  proof (cases "is_stop_sign b \<or> class_name b = stop_sign_class c")
    case True
    then show ?thesis using rs ri
      by (auto simp: fuse_detection_def fuse_sign_def Let_def set_position_def)
  next
    case False
    have "depth_valid (rs ! i) \<and> (\<exists>m \<in> set returns. distance (rs ! i) = Fin m \<and>
         length (filter (\<lambda>v. v < m) returns) \<le> length returns div 4 \<and>
         length returns div 4 < length (filter (\<lambda>v. v \<le> m) returns))"
      if "class_name b \<notin> set (ipm_classes c)" "3 \<le> length returns"
      using fuse_lidar_distance [of cam b "d_cloud tf tr pts" c ?g] nth_smallest_counts [OF q [OF that(2)]]
        that False unfolding ri assms(6) by (auto simp: fuse_detection_def)
    with False rs show ?thesis by auto
  qed
qed

text \<open>
  A ground-plane depth puts the obstacle on the ground. Whenever a flat-class detection gets a depth, the
  depth is positive and within the range limit, and the position computed from it, carried from the camera to
  the ground frame, has exactly the configured ground height.
\<close>

theorem flat_detection_is_on_ground:
  assumes "r = fuse_flat c cam (Some (origin, R)) b" and "depth_valid r"
  shows "\<exists>d. distance r = Fin d \<and> 0 < d \<and> d \<le> max_ipm_range c \<and> fst (position r) = d \<and>
    snd (snd (vadd origin (mat_vec R (position r)))) = ground_z c"
proof -
  let ?u = "0.5 * (x1 b + x2 b)" and ?v = "0.5 * (y1 b + y2 b)"
  obtain d where d: "ipm_depth c cam ?u ?v origin R = Some d"
    using assms by (auto simp: fuse_flat_def apply_ipm_def split: option.splits)
  then have r: "distance r = Fin d" "position r = camera_position cam ?u ?v d"
    using assms(1) by (simp_all add: fuse_flat_def apply_ipm_def set_position_def)
  let ?dz = "snd (snd (mat_vec R (image_ray cam ?u ?v)))"
  have dz: "?dz \<le> - (1 / 1000)" "0 < d" "d \<le> max_ipm_range c" "d = (ground_z c - snd (snd origin)) / ?dz"
    using d by (auto simp: ipm_depth_def Let_def split: if_splits)
  obtain g h i where R: "\<exists>r1 r2. R = (r1, r2, (g, h, i))" by (cases R) auto
  obtain o1 o2 oz where o: "origin = (o1, o2, oz)" by (cases origin) auto
  have "snd (snd (mat_vec R (camera_position cam ?u ?v d))) = d * ?dz"
    using R by (auto simp: camera_position_def image_ray_def algebra_simps)
  moreover have "d * ?dz = ground_z c - oz" using dz(1,4) o by simp
  ultimately have "snd (snd (vadd origin (mat_vec R (camera_position cam ?u ?v d)))) = ground_z c"
    by (cases "mat_vec R (camera_position cam ?u ?v d)") (simp add: o)
  with r dz(2,3) show ?thesis by (auto simp: camera_position_def)
qed

definition forward_pixel :: "camera \<Rightarrow> point3 \<Rightarrow> real \<times> real" where
  \<comment> \<open>the projection that inverts the positions the node computes: \<open>x\<close> forward, \<open>y\<close> left, \<open>z\<close> up\<close>
  "forward_pixel cam p = (let (x, y, z) = p in
     (cam_cx cam - cam_fx cam * y / x, cam_cy cam - cam_fy cam * z / x))"

text \<open>
  The LiDAR branch looks in another direction. The position the node computes for a pixel and a depth projects back
  to that pixel when the camera frame has \<open>x\<close> forward; but the LiDAR branch projects the same
  cloud with \<open>z\<close> forward, so a return at exactly that position is never counted, for any
  box, when the pixel is at or below the image centre.
\<close>

theorem lidar_projection_mismatch:
  assumes "0 < cam_fx cam" and "0 < cam_fy cam" and "0 < d"
    and "camera_position cam u v d = (x, y, z)"
  shows "forward_pixel cam (x, y, z) = (u, v) \<and>
    (cam_cy cam \<le> v \<longrightarrow> \<not> counts_for cam b (Fin x, Fin y, Fin z))"
proof -
  have p: "x = d" "y = - (u - cam_cx cam) * d / cam_fx cam" "z = - (v - cam_cy cam) * d / cam_fy cam"
    using assms(4) unfolding camera_position_def by auto
  have "forward_pixel cam (x, y, z) = (u, v)"
    using assms(1-3) by (simp add: forward_pixel_def p field_simps)
  moreover have "z \<le> 0" if "cam_cy cam \<le> v"
    unfolding p using that assms(2,3)
    by (intro divide_nonpos_pos mult_nonpos_nonneg) simp_all
  ultimately show ?thesis by (auto simp: counts_for_def)
qed

section \<open>Witnesses\<close>

definition hd_camera :: camera where
  "hd_camera = \<lparr>cam_fx = 100, cam_fy = 100, cam_cx = 100, cam_cy = 50, cam_width = 200, cam_height = 100,
     cam_frame = ''camera''\<rparr>"

definition depth_test :: depth_config where
  "depth_test = \<lparr>ipm_classes = [''pothole''], stop_sign_class = ''sign'', stop_line_max_age = 0.5,
     stop_line_min_points = 5, stop_line_percentile = 0.1, ground_frame = ''link_base'', ground_z = 0,
     max_ipm_range = 40\<rparr>"

definition level_tf :: "unit depth_tf" where
  \<comment> \<open>the camera one metre above the ground, pitched down by the rotation about \<open>y\<close> with sine 3/5\<close>
  "level_tf = \<lparr>d_lookup = (\<lambda>_ _ _. Inr ()), d_cloud = (\<lambda>_ p. p), d_origin = (\<lambda>_. (0, 0, 1)),
     d_rotation = (\<lambda>_. ((0.8, 0, 0.6), (0, 1, 0), (- 0.6, 0, 0.8)))\<rparr>"

definition wide_box :: "string \<Rightarrow> detection2d" where
  "wide_box cl = (plain_detection cl 0)\<lparr>x1 := 50, x2 := 150, y1 := 0, y2 := 100\<rparr>"

lemma wide_box_fields:
  "x1 (wide_box cl) = 50" "x2 (wide_box cl) = 150" "y1 (wide_box cl) = 0" "y2 (wide_box cl) = 100"
  "is_stop_sign (wide_box cl) = False" "class_name (wide_box cl) = cl"
  by (simp_all add: wide_box_def plain_detection_def)

theorem published_distance_sources_witness:
  "\<exists>h rs. fusion_callback depth_test level_tf \<lparr>stamp = 1, frame_id = ''camera''\<rparr> [wide_box ''barrel'']
      \<lparr>stamp = 1, frame_id = ''lidar''\<rparr> [(Fin 0, Fin 0, Fin 4), (Fin 0, Fin 0, Fin 3), (Fin 0, Fin 0, Fin 5), (NaN, Fin 0, Fin 1)]
      (new_depth_state\<lparr>d_camera := Some hd_camera\<rparr>) = Some (h, rs) \<and> length rs = 1 \<and> depth_valid (rs ! 0)"
proof -
  let ?pts = "[(Fin 0, Fin 0, Fin 4), (Fin 0, Fin 0, Fin 3), (Fin 0, Fin 0, Fin 5), (NaN, Fin 0, Fin 1)]"
  let ?s = "new_depth_state\<lparr>d_camera := Some hd_camera\<rparr>"
  let ?h = "\<lparr>stamp = 1, frame_id = ''lidar''\<rparr>"
  have b: "box_depths hd_camera (wide_box ''barrel'') ?pts = [4, 3, 5]"
    by (simp add: box_depths_def counts_for_def optical_pixel_def hd_camera_def wide_box_fields)
  obtain h rs where f: "fusion_callback depth_test level_tf \<lparr>stamp = 1, frame_id = ''camera''\<rparr> [wide_box ''barrel''] ?h ?pts ?s = Some (h, rs)"
    by (simp add: fusion_callback_def level_tf_def)
  have l: "d_lookup level_tf (cam_frame hd_camera) (frame_id ?h) None = Inr ()" "d_cloud level_tf () ?pts = ?pts"
    by (simp_all add: level_tf_def)
  from published_distance_sources [OF f _ _ l(1) refl refl, of 0] show ?thesis
    using f by (simp add: l b wide_box_fields depth_test_def)
qed

theorem flat_detection_is_on_ground_witness:
  "snd (snd (vadd (0, 0, 1) (mat_vec ((0.8, 0, 0.6), (0, 1, 0), (- 0.6, 0, 0.8))
     (position (fuse_flat depth_test hd_camera (Some ((0, 0, 1), ((0.8, 0, 0.6), (0, 1, 0), (- 0.6, 0, 0.8)))) (wide_box ''pothole'')))))) = 0"
proof -
  let ?R = "((0.8, 0, 0.6), (0, 1, 0), (- 0.6, 0, 0.8)) :: point3 \<times> point3 \<times> point3"
  have "depth_valid (fuse_flat depth_test hd_camera (Some ((0, 0, 1), ?R)) (wide_box ''pothole''))"
    by (simp add: fuse_flat_def apply_ipm_def ipm_depth_def wide_box_fields image_ray_def hd_camera_def
        depth_test_def Let_def)
  from flat_detection_is_on_ground [OF refl this] show ?thesis by (auto simp: depth_test_def)
qed

theorem lidar_projection_mismatch_witness:
  "camera_position hd_camera 100 60 5 = (5, 0, - 0.5) \<and>
   \<not> counts_for hd_camera (wide_box ''barrel'') (Fin 5, Fin 0, Fin (- 0.5))"
proof -
  have p: "camera_position hd_camera 100 60 5 = (5, 0, - 0.5)"
    by (simp add: camera_position_def hd_camera_def)
  from lidar_projection_mismatch [OF _ _ _ this] p show ?thesis by (simp add: hd_camera_def)
qed

end
