(* ===== verification/Intersection_Planner.thy ===== *)
theory Intersection_Planner
  imports Prelude
begin

text \<open>
  \<open>src/intersection_ws/intersection_cpp/src/intersection_planner.cpp\<close> and its header: the vector
  helpers, the grid, the line fit (RANSAC and two passes of principal components), the
  choice of the lane centre, the search for the end of the lines, the turn geometry, the path and its
  validation. The pairs drawn from the random engine are the parameter \<open>picks\<close>: \<open>picks n k\<close> are the two
  indices of iteration \<open>k\<close> for \<open>n\<close> points; nothing is assumed of them where they are used, and a draw outside
  the points is an error value, as is a mean over no points. The constant \<open>pi\<close> of the source is HOL's. The warnings are a list of
  data instead of a text; the message of the source is \<open>OK\<close> exactly when the list is empty.
\<close>

section \<open>Data\<close>

datatype turn = STRAIGHT | LEFT | RIGHT

record vec2 =
  vx :: real
  vy :: real

record pose2d =
  px :: real
  py :: real
  pyaw :: real

record plan_params =
  occupied_threshold :: int
  lane_center_ratio :: real
  width_mismatch_tolerance :: real
  min_line_pts :: int
  ransac_iters :: int
  max_heading_error :: real
  line_inlier_tol :: real
  roi_back :: real
  roi_front :: real
  fit_x_front :: real
  max_line_gap :: real
  fallback_distance_to_inters :: real
  min_turning_radius :: real
  exit_length :: real
  merge_length :: real
  path_resolution :: real
  robot_radius :: real

definition default_plan_params :: plan_params where
  "default_plan_params = \<lparr>occupied_threshold = 100, lane_center_ratio = 0.25, width_mismatch_tolerance = 0.30,
     min_line_pts = 15, ransac_iters = 150, max_heading_error = 0.6, line_inlier_tol = 0.12, roi_back = 4,
     roi_front = 10, fit_x_front = 2, max_line_gap = 1, fallback_distance_to_inters = 1,
     min_turning_radius = 0.5, exit_length = 5, merge_length = 2, path_resolution = 0.1, robot_radius = 0.3\<rparr>"

record plan_debug =
  used_right_line :: bool
  used_left_line :: bool
  intersection_visible :: bool
  measured_road_width :: real
  dist_to_intersection :: real
  lane_center_offset :: real
  turn_radius :: real
  inner_corner_clearance :: real
  blocked_fraction :: real

datatype plan_error =
    Bad_Road_Width | Bad_Map | No_Line | Too_Close
  | Out_Of_Bounds \<comment> \<open>not a failure of the source: the headings read before the first pose\<close>
  | Outside_Points \<comment> \<open>nor this one: the line fit reads an index that its points do not have\<close>
  | Nan_Line \<comment> \<open>nor this one: the fit divides by zero inliers and goes on with a NaN line\<close>

datatype warning =
    Width_Mismatch real real
  | End_Not_Visible
  | Already_Inside
  | Radius_Reduced real real
  | Corner_Close
  | Blocked_Percent int

record plan_result =
  pr_warnings :: "warning list"
  pr_path :: "pose2d list"
  pr_debug :: plan_debug

section \<open>Vectors\<close>

definition vplus :: "vec2 \<Rightarrow> vec2 \<Rightarrow> vec2" where
  "vplus a b = \<lparr>vx = vx a + vx b, vy = vy a + vy b\<rparr>"

definition vminus :: "vec2 \<Rightarrow> vec2 \<Rightarrow> vec2" where
  "vminus a b = \<lparr>vx = vx a - vx b, vy = vy a - vy b\<rparr>"

definition vtimes :: "vec2 \<Rightarrow> real \<Rightarrow> vec2" where
  "vtimes a k = \<lparr>vx = vx a * k, vy = vy a * k\<rparr>"

definition dot :: "vec2 \<Rightarrow> vec2 \<Rightarrow> real" where
  "dot a b = vx a * vx b + vy a * vy b"

definition vlen :: "vec2 \<Rightarrow> real" where
  "vlen a = hypot (vx a) (vy a)"

definition normalized :: "vec2 \<Rightarrow> vec2" where
  "normalized a = (let n = vlen a in
     if n > 1 / 10 ^ 9 then \<lparr>vx = vx a / n, vy = vy a / n\<rparr> else \<lparr>vx = 1, vy = 0\<rparr>)"

definition leftNormal :: "vec2 \<Rightarrow> vec2" where
  "leftNormal a = \<lparr>vx = - vy a, vy = vx a\<rparr>"

lemmas vec_defs = vplus_def vminus_def vtimes_def dot_def vlen_def leftNormal_def

section \<open>The grid\<close>

record local_map =
  lm_resolution :: real
  lm_width :: "32 word"
  lm_height :: "32 word"
  lm_origin_x :: real
  lm_origin_y :: real
  lm_quat :: "real \<times> real \<times> real \<times> real"
  lm_data :: "int list"

fun yaw_of_quat :: "real \<times> real \<times> real \<times> real \<Rightarrow> real" where
  "yaw_of_quat (x, y, z, w) = atan2 (2 * (w * z + x * y)) (1 - 2 * (y * y + z * z))"

definition g_width :: "local_map \<Rightarrow> int" where "g_width m = sint (lm_width m)"
definition g_height :: "local_map \<Rightarrow> int" where "g_height m = sint (lm_height m)"

definition occupied :: "plan_params \<Rightarrow> local_map \<Rightarrow> int \<Rightarrow> int \<Rightarrow> bool" where
  "occupied p m i j \<longleftrightarrow> lm_data m ! nat (j * g_width m + i) \<ge> occupied_threshold p"

definition cellToWorld :: "local_map \<Rightarrow> int \<Rightarrow> int \<Rightarrow> vec2" where
  "cellToWorld m i j =
    (let x = (of_int i + 0.5) * lm_resolution m; y = (of_int j + 0.5) * lm_resolution m;
         c = cos (yaw_of_quat (lm_quat m)); s = sin (yaw_of_quat (lm_quat m)) in
     \<lparr>vx = lm_origin_x m + c * x - s * y, vy = lm_origin_y m + s * x + c * y\<rparr>)"

definition worldToCell :: "local_map \<Rightarrow> vec2 \<Rightarrow> int \<times> int" where
  "worldToCell m q =
    (let dx = vx q - lm_origin_x m; dy = vy q - lm_origin_y m;
         c = cos (yaw_of_quat (lm_quat m)); s = sin (yaw_of_quat (lm_quat m));
         x = c * dx + s * dy; y = - s * dx + c * dy in
     (\<lfloor>x / lm_resolution m\<rfloor>, \<lfloor>y / lm_resolution m\<rfloor>))"

definition in_grid :: "local_map \<Rightarrow> int \<times> int \<Rightarrow> bool" where
  \<comment> \<open>the answer of \<open>worldToCell\<close>\<close>
  "in_grid m ij \<longleftrightarrow> fst ij \<ge> 0 \<and> snd ij \<ge> 0 \<and> fst ij < g_width m \<and> snd ij < g_height m"

definition occupiedWithin :: "plan_params \<Rightarrow> local_map \<Rightarrow> vec2 \<Rightarrow> real \<Rightarrow> bool" where
  "occupiedWithin p m q r =
    (let span = \<lceil>r / lm_resolution m\<rceil> + 1; (ci, cj) = worldToCell m q in
     list_ex (\<lambda>j. list_ex (\<lambda>i. occupied p m i j \<and> vlen (vminus (cellToWorld m i j) q) \<le> r)
         [max 0 (ci - span)..min (g_width m - 1) (ci + span)])
       [max 0 (cj - span)..min (g_height m - 1) (cj + span)])"

text \<open>The march to the border of the grid. It returns when the resolution is positive, which \<open>plan\<close> has tested.\<close>

partial_function (option) extent_from :: "local_map \<Rightarrow> vec2 \<Rightarrow> vec2 \<Rightarrow> real \<Rightarrow> real option" where
  "extent_from m q d t =
    (if t < 200 \<and> in_grid m (worldToCell m (vplus q (vtimes d t))) then extent_from m q d (t + lm_resolution m)
     else Some t)"

definition extentAlong :: "local_map \<Rightarrow> vec2 \<Rightarrow> vec2 \<Rightarrow> real option" where
  "extentAlong m q d = extent_from m q d 0"

section \<open>The line fit\<close>

record line =
  centroid :: vec2
  ldir :: vec2

definition inlier :: "plan_params \<Rightarrow> vec2 \<Rightarrow> vec2 \<Rightarrow> vec2 \<Rightarrow> bool" where
  "inlier p n a pt \<longleftrightarrow> \<bar>dot n (vminus pt a)\<bar> \<le> line_inlier_tol p"

definition forward :: "vec2 \<Rightarrow> vec2" where
  "forward d = (if vx d < 0 then vtimes d (- 1) else d)"

definition ransac_try ::
  "plan_params \<Rightarrow> vec2 list \<Rightarrow> nat \<times> nat \<Rightarrow> int \<times> vec2 \<times> vec2 \<Rightarrow> (int \<times> vec2 \<times> vec2) option" where
  \<comment> \<open>\<open>None\<close> when an index drawn is not one of the points\<close>
  "ransac_try p pts ab acc =
    (let (a, b) = ab; (best, best_pt, best_dir) = acc in
     if a = b then Some acc
     else if \<not> (a < length pts \<and> b < length pts) then None
     else let d = vminus (pts ! a) (pts ! b); len = vlen d in
       if len < 0.5 then Some acc
       else let d = forward (vtimes d (1 / len)) in
         if \<bar>atan2 (vy d) (vx d)\<bar> > max_heading_error p then Some acc
         else let n = leftNormal d; count = int (length (filter (inlier p n (pts ! a)) pts)) in
           if count > best then Some (count, pts ! a, d) else Some acc)"

primrec ransac ::
  "plan_params \<Rightarrow> vec2 list \<Rightarrow> (nat \<times> nat) list \<Rightarrow> int \<times> vec2 \<times> vec2 \<Rightarrow> (int \<times> vec2 \<times> vec2) option" where
  "ransac p pts [] acc = Some acc"
| "ransac p pts (ab # draws) acc =
    (case ransac_try p pts ab acc of None \<Rightarrow> None | Some acc' \<Rightarrow> ransac p pts draws acc')"

definition vsum :: "vec2 list \<Rightarrow> vec2" where
  "vsum ps = foldl vplus \<lparr>vx = 0, vy = 0\<rparr> ps"

definition pca_pass :: "plan_params \<Rightarrow> vec2 list \<Rightarrow> vec2 \<times> vec2 \<Rightarrow> plan_error + (vec2 \<times> vec2) option" where
  "pca_pass p pts acc =
    (let (best_pt, best_dir) = acc; ins = filter (inlier p (leftNormal best_dir) best_pt) pts in
     if int (length ins) < min_line_pts p then Inr None
     else if ins = [] then Inl Nan_Line
     else let mean = vtimes (vsum ins) (1 / of_nat (length ins));
              rs = map (\<lambda>pt. vminus pt mean) ins;
              xx = sum_list (map (\<lambda>r. vx r * vx r) rs);
              yy = sum_list (map (\<lambda>r. vy r * vy r) rs);
              xy = sum_list (map (\<lambda>r. vx r * vy r) rs);
              theta = 0.5 * atan2 (2 * xy) (xx - yy) in
       Inr (Some (mean, forward \<lparr>vx = cos theta, vy = sin theta\<rparr>)))"

definition fitLine ::
  "plan_params \<Rightarrow> (nat \<Rightarrow> nat \<Rightarrow> nat \<times> nat) \<Rightarrow> vec2 list \<Rightarrow> plan_error + line option" where
  \<comment> \<open>\<open>Inr None\<close> is the answer \<open>false\<close>\<close>
  "fitLine p picks pts =
    (if int (length pts) < min_line_pts p then Inr None
     else case ransac p pts (map (picks (length pts)) [0..<nat (ransac_iters p)])
         (0, \<lparr>vx = 0, vy = 0\<rparr>, \<lparr>vx = 1, vy = 0\<rparr>) of
       None \<Rightarrow> Inl Outside_Points
     | Some (best, best_pt, best_dir) \<Rightarrow>
        (if best < min_line_pts p then Inr None
         else case pca_pass p pts (best_pt, best_dir) of
           Inl e \<Rightarrow> Inl e
         | Inr None \<Rightarrow> Inr None
         | Inr (Some acc) \<Rightarrow> (case pca_pass p pts acc of
             Inl e \<Rightarrow> Inl e
           | Inr None \<Rightarrow> Inr None
           | Inr (Some (mean, d)) \<Rightarrow> Inr (Some \<lparr>centroid = mean, ldir = d\<rparr>))))"

definition smoothstep5 :: "real \<Rightarrow> real" where
  "smoothstep5 t = (let t = min 1 (max 0 t) in t * t * t * (10 + t * (- 15 + 6 * t)))"

section \<open>The points around the robot\<close>

definition to_robot :: "pose2d \<Rightarrow> vec2 \<Rightarrow> vec2" where
  "to_robot pose q = (let dx = vx q - px pose; dy = vy q - py pose in
     \<lparr>vx = cos (pyaw pose) * dx + sin (pyaw pose) * dy, vy = - sin (pyaw pose) * dx + cos (pyaw pose) * dy\<rparr>)"

definition y_split :: "plan_params \<Rightarrow> real \<Rightarrow> real" where
  "y_split p width = (1 - 2 * lane_center_ratio p) * width * 0.5"

definition in_plan_roi :: "plan_params \<Rightarrow> real \<Rightarrow> vec2 \<Rightarrow> bool" where
  "in_plan_roi p width q \<longleftrightarrow> \<not> (vx q < - roi_back p \<or> vx q > roi_front p) \<and>
     \<not> (vy q < y_split p width - 1.5 * width \<or> vy q > y_split p width + 1.5 * width)"

definition roi_points :: "plan_params \<Rightarrow> local_map \<Rightarrow> pose2d \<Rightarrow> real \<Rightarrow> vec2 list" where
  \<comment> \<open>the vector \<open>all\<close>\<close>
  "roi_points p m pose width =
     filter (in_plan_roi p width)
       (map (\<lambda>(j, i). to_robot pose (cellToWorld m i j))
         (filter (\<lambda>(j, i). occupied p m i j)
           (List.product [0..g_height m - 1] [0..g_width m - 1])))"

definition right_cand :: "plan_params \<Rightarrow> real \<Rightarrow> vec2 list \<Rightarrow> vec2 list" where
  "right_cand p width = filter (\<lambda>q. vx q \<le> fit_x_front p \<and>
     (vy q < y_split p width \<and> vy q \<ge> y_split p width - width))"

definition left_cand :: "plan_params \<Rightarrow> real \<Rightarrow> vec2 list \<Rightarrow> vec2 list" where
  "left_cand p width = filter (\<lambda>q. vx q \<le> fit_x_front p \<and>
     \<not> (vy q < y_split p width \<and> vy q \<ge> y_split p width - width) \<and>
     (vy q \<ge> y_split p width \<and> vy q < y_split p width + width))"

section \<open>The road\<close>

record road =
  rd_dir :: vec2
  rd_right :: "real option"
  rd_left :: "real option"
  rd_measured :: real
  rd_warn :: "warning list"

definition road_of :: "plan_params \<Rightarrow> real \<Rightarrow> line option \<Rightarrow> line option \<Rightarrow> road option" where
  \<comment> \<open>the lateral offset of a line is \<open>None\<close> where the code's \<open>hasRight\<close> or \<open>hasLeft\<close> is false\<close>
  "road_of p width R L = (case (R, L) of
     (None, None) \<Rightarrow> None
   | (Some r, None) \<Rightarrow> Some \<lparr>rd_dir = ldir r, rd_right = Some (dot (leftNormal (ldir r)) (centroid r)),
       rd_left = None, rd_measured = 0, rd_warn = []\<rparr>
   | (None, Some l) \<Rightarrow> Some \<lparr>rd_dir = ldir l, rd_right = None,
       rd_left = Some (dot (leftNormal (ldir l)) (centroid l)), rd_measured = 0, rd_warn = []\<rparr>
   | (Some r, Some l) \<Rightarrow>
      (let d = normalized (vplus (ldir r) (ldir l)); n = leftNormal d;
           latRight = dot n (centroid r); latLeft = dot n (centroid l); w = latLeft - latRight in
       if \<bar>w - width\<bar> > width_mismatch_tolerance p * width then
         Some \<lparr>rd_dir = ldir r, rd_right = Some (dot (leftNormal (ldir r)) (centroid r)), rd_left = None,
           rd_measured = w, rd_warn = [Width_Mismatch w width]\<rparr>
       else Some \<lparr>rd_dir = d, rd_right = Some latRight, rd_left = Some latLeft, rd_measured = w, rd_warn = []\<rparr>))"

definition find_road ::
  "plan_params \<Rightarrow> (nat \<Rightarrow> nat \<Rightarrow> nat \<times> nat) \<Rightarrow> vec2 list \<Rightarrow> real \<Rightarrow> plan_error + road" where
  "find_road p picks all_pts width =
    (case fitLine p picks (right_cand p width all_pts) of
       Inl e \<Rightarrow> Inl e
     | Inr R \<Rightarrow> (case fitLine p picks (left_cand p width all_pts) of
         Inl e \<Rightarrow> Inl e
       | Inr L \<Rightarrow> (case road_of p width R L of None \<Rightarrow> Inl No_Line | Some rd \<Rightarrow> Inr rd)))"

definition lane_center :: "plan_params \<Rightarrow> real \<Rightarrow> road \<Rightarrow> real" where
  "lane_center p width rd = (case (rd_right rd, rd_left rd) of
     (Some r, Some l) \<Rightarrow> 0.5 * ((r + lane_center_ratio p * width) + (l - (1 - lane_center_ratio p) * width))
   | (Some r, None) \<Rightarrow> r + lane_center_ratio p * width
   | (None, Some l) \<Rightarrow> l - (1 - lane_center_ratio p) * width
   | (None, None) \<Rightarrow> 0 - (1 - lane_center_ratio p) * width)"

fun first_gap :: "plan_params \<Rightarrow> real list \<Rightarrow> real option" where
  "first_gap p (a # b # ss) =
    (if b - a > max_line_gap p \<and> a \<ge> - 0.5 then Some a else first_gap p (b # ss))"
| "first_gap p ss = None"

definition lineEnd :: "plan_params \<Rightarrow> vec2 list \<Rightarrow> vec2 \<Rightarrow> real \<Rightarrow> real \<Rightarrow> (real \<times> bool) option" where
  "lineEnd p all_pts d limit lat =
    (let ss = sort (map (dot d) (filter (\<lambda>pt. \<bar>dot (leftNormal d) pt - lat\<bar> \<le> 1.5 * line_inlier_tol p) all_pts)) in
     if ss = [] then None
     else case first_gap p ss of
       Some e \<Rightarrow> Some (e, True)
     | None \<Rightarrow> Some (last ss, last ss < limit - 0.5))"

definition road_ends :: "plan_params \<Rightarrow> vec2 list \<Rightarrow> real \<Rightarrow> road \<Rightarrow> (real \<times> bool) list" where
  "road_ends p all_pts limit rd =
     List.map_filter (\<lambda>lat. case lat of None \<Rightarrow> None | Some y \<Rightarrow> lineEnd p all_pts (rd_dir rd) limit y)
       [rd_right rd, rd_left rd]"

definition intersection_start :: "plan_params \<Rightarrow> (real \<times> bool) list \<Rightarrow> real \<times> bool" where
  \<comment> \<open>\<open>s_end\<close> and whether the intersection is visible\<close>
  "intersection_start p es =
    (if length es > 0 \<and> list_all snd es then (sum_list (map fst es) / of_nat (length es), True)
     else (fallback_distance_to_inters p, False))"

section \<open>The path in the lane frame\<close>

record geometry =
  gm_vertex :: real
  gm_radius :: real
  gm_start :: real
  gm_clearance :: real
  gm_warn :: "warning list"

definition sigma :: "turn \<Rightarrow> real" where
  "sigma t = (if t = LEFT then 1 else - 1)"

definition natural_radius :: "plan_params \<Rightarrow> turn \<Rightarrow> real \<Rightarrow> real" where
  "natural_radius p t width = (if t = LEFT then 1 - lane_center_ratio p else lane_center_ratio p) * width"

definition turn_geometry :: "plan_params \<Rightarrow> turn \<Rightarrow> real \<Rightarrow> real \<Rightarrow> geometry option" where
  "turn_geometry p t width s_end =
    (let Rnat = natural_radius p t width; Vs = s_end + Rnat in
     if Vs < 0.3 then None
     else let Rt = max Rnat (min_turning_radius p);
              (R, T1, w) = (if Vs - Rt < 0 then (Vs, 0, [Radius_Reduced Rt Vs]) else (Rt, Vs - Rt, []));
              corner = \<lparr>vx = s_end, vy = sigma t * Rnat\<rparr>; centre = \<lparr>vx = T1, vy = sigma t * R\<rparr>;
              clearance = \<bar>R - vlen (vminus corner centre)\<bar> in
       Some \<lparr>gm_vertex = Vs, gm_radius = R, gm_start = T1, gm_clearance = clearance,
         gm_warn = w @ (if clearance < robot_radius p then [Corner_Close] else [])\<rparr>)"

definition path_step :: "plan_params \<Rightarrow> real" where
  "path_step p = max (2 / 100) (path_resolution p)"

function straight_ss :: "plan_params \<Rightarrow> real \<Rightarrow> real \<Rightarrow> real list" where
  "straight_ss p s hi = (if s < hi then s # straight_ss p (s + path_step p) hi else [])"
  by pat_completeness auto

termination
  by (relation "measure (\<lambda>(p, s, hi). nat \<lceil>(hi - s) / (2 / 100) + 1\<rceil>)")
    (simp, simp only: in_measure split_conv, rule march_measure, simp_all add: path_step_def)

function exit_ts :: "plan_params \<Rightarrow> real \<Rightarrow> real \<Rightarrow> real list" where
  "exit_ts p t hi = (if t \<le> hi then t # exit_ts p (t + path_step p) hi else [])"
  by pat_completeness auto

termination
  by (relation "measure (\<lambda>(p, t, hi). nat \<lceil>(hi - t) / (2 / 100) + 1\<rceil>)")
    (simp, simp only: in_measure split_conv, rule march_measure, simp_all add: path_step_def)

declare straight_ss.simps [simp del] exit_ts.simps [simp del]

definition merge_point :: "plan_params \<Rightarrow> real \<Rightarrow> real \<Rightarrow> real \<Rightarrow> vec2" where
  "merge_point p center straight_end s =
    (let merge = min (merge_length p) straight_end; l0 = - center;
         t = (if merge > 1 / 10 ^ 6 then s / merge else 1) in
     \<lparr>vx = s, vy = l0 * (1 - smoothstep5 t)\<rparr>)"

definition straight_part :: "plan_params \<Rightarrow> real \<Rightarrow> real \<Rightarrow> vec2 list" where
  "straight_part p center straight_end =
     map (merge_point p center straight_end) (straight_ss p 0 (straight_end - 1 / 10 ^ 6))"

definition arc_part :: "plan_params \<Rightarrow> turn \<Rightarrow> geometry \<Rightarrow> vec2 list" where
  "arc_part p t g =
    (let R = gm_radius g; na = max 4 \<lceil>R * pi / 2 / path_step p\<rceil> in
     map (\<lambda>k. let th = 0.5 * pi * of_int k / of_int na in
         \<lparr>vx = gm_start g + R * sin th, vy = sigma t * R * (1 - cos th)\<rparr>) [0..na])"

definition exit_part :: "plan_params \<Rightarrow> turn \<Rightarrow> geometry \<Rightarrow> vec2 list" where
  "exit_part p t g = map (\<lambda>u. \<lparr>vx = gm_vertex g, vy = sigma t * (gm_radius g + u)\<rparr>)
     (exit_ts p (path_step p) (exit_length p + 1 / 10 ^ 6))"

definition straight_path :: "plan_params \<Rightarrow> real \<Rightarrow> real \<Rightarrow> real \<Rightarrow> vec2 list" where
  "straight_path p center width s_end =
    (let straight_end = s_end + width + exit_length p in
     straight_part p center straight_end @ [\<lparr>vx = straight_end, vy = 0\<rparr>])"

definition turn_path :: "plan_params \<Rightarrow> turn \<Rightarrow> real \<Rightarrow> geometry \<Rightarrow> vec2 list" where
  "turn_path p t center g = straight_part p center (gm_start g) @ arc_part p t g @ exit_part p t g"

section \<open>The path in the map\<close>

definition lane_to_robot :: "vec2 \<Rightarrow> real \<Rightarrow> vec2 \<Rightarrow> vec2" where
  "lane_to_robot d center q = vplus (vtimes d (vx q)) (vtimes (leftNormal d) (center + vy q))"

definition robot_to_map :: "pose2d \<Rightarrow> vec2 \<Rightarrow> vec2" where
  "robot_to_map pose r =
     \<lparr>vx = px pose + cos (pyaw pose) * vx r - sin (pyaw pose) * vy r,
      vy = py pose + sin (pyaw pose) * vx r + cos (pyaw pose) * vy r\<rparr>"

definition with_headings :: "vec2 list \<Rightarrow> pose2d list option" where
  \<comment> \<open>a path of one point reads the element before the first one\<close>
  "with_headings pm =
    (if length pm = 1 then None
     else Some (map (\<lambda>i. let seg = (if i + 1 < length pm then vminus (pm ! (i + 1)) (pm ! i)
                                     else vminus (pm ! i) (pm ! (i - 1))) in
        \<lparr>px = vx (pm ! i), py = vy (pm ! i), pyaw = atan2 (vy seg) (vx seg)\<rparr>) [0..<length pm]))"

definition blocked_count :: "plan_params \<Rightarrow> local_map \<Rightarrow> pose2d list \<Rightarrow> nat" where
  "blocked_count p m path =
     length (filter (\<lambda>q. occupiedWithin p m \<lparr>vx = px q, vy = py q\<rparr> (robot_radius p)) path)"

section \<open>The planner\<close>

definition map_is_bad :: "local_map \<Rightarrow> bool" where
  "map_is_bad m \<longleftrightarrow> lm_resolution m \<le> 0 \<or> lm_width m = 0 \<or> lm_height m = 0 \<or>
     int (length (lm_data m)) \<noteq> uint (lm_width m) * uint (lm_height m)"

definition finish_plan ::
  "plan_params \<Rightarrow> local_map \<Rightarrow> pose2d \<Rightarrow> turn \<Rightarrow> real \<Rightarrow> vec2 list \<Rightarrow> road \<Rightarrow> real \<Rightarrow> plan_error + plan_result" where
  "finish_plan p m pose t width all_pts rd limit =
    (let center = lane_center p width rd;
         (s_end, visible) = intersection_start p (road_ends p all_pts limit rd);
         warn1 = rd_warn rd @ (if visible then [] else [End_Not_Visible]) @ (if s_end < 0 then [Already_Inside] else []) in
     case (if t = STRAIGHT then Some None else map_option Some (turn_geometry p t width s_end)) of
       None \<Rightarrow> Inl Too_Close
     | Some g \<Rightarrow>
      (let lane = (case g of None \<Rightarrow> straight_path p center width s_end | Some gm \<Rightarrow> turn_path p t center gm) in
       case with_headings (map (\<lambda>q. robot_to_map pose (lane_to_robot (rd_dir rd) center q)) lane) of
         None \<Rightarrow> Inl Out_Of_Bounds
       | Some path \<Rightarrow>
          (let blocked = blocked_count p m path; frac = of_nat blocked / of_nat (length path) in
           Inr \<lparr>pr_warnings = warn1 @ (case g of None \<Rightarrow> [] | Some gm \<Rightarrow> gm_warn gm)
                  @ (if blocked > 0 then [Blocked_Percent (ctrunc (100 * frac))] else []),
                pr_path = path,
                pr_debug = \<lparr>used_right_line = rd_right rd \<noteq> None, used_left_line = rd_left rd \<noteq> None,
                  intersection_visible = visible, measured_road_width = rd_measured rd,
                  dist_to_intersection = s_end, lane_center_offset = center,
                  turn_radius = (case g of None \<Rightarrow> 0 | Some gm \<Rightarrow> gm_radius gm),
                  inner_corner_clearance = (case g of None \<Rightarrow> 0 | Some gm \<Rightarrow> gm_clearance gm),
                  blocked_fraction = frac\<rparr>\<rparr>)))"

definition plan ::
  "plan_params \<Rightarrow> (nat \<Rightarrow> nat \<Rightarrow> nat \<times> nat) \<Rightarrow> local_map \<Rightarrow> pose2d \<Rightarrow> turn \<Rightarrow> real \<Rightarrow> (plan_error + plan_result) option" where
  \<comment> \<open>\<open>None\<close> when the march to the border of the grid does not return\<close>
  "plan p picks m pose t width =
    (if \<not> width > 0 then Some (Inl Bad_Road_Width)
     else if map_is_bad m then Some (Inl Bad_Map)
     else
      (let all_pts = roi_points p m pose width in
       case find_road p picks all_pts width of
         Inl e \<Rightarrow> Some (Inl e)
       | Inr rd \<Rightarrow>
          (let d = rd_dir rd;
               dir_map = \<lparr>vx = cos (pyaw pose) * vx d - sin (pyaw pose) * vy d,
                          vy = sin (pyaw pose) * vx d + cos (pyaw pose) * vy d\<rparr> in
           case extentAlong m \<lparr>vx = px pose, vy = py pose\<rparr> dir_map of
             None \<Rightarrow> None
           | Some ext \<Rightarrow> Some (finish_plan p m pose t width all_pts rd (min (roi_front p) ext)))))"

section \<open>Rigid motions\<close>

text \<open>What every change of frame of the planner promises: distances are kept.\<close>

locale rigid_motion =
  fixes move :: "vec2 \<Rightarrow> vec2"
  assumes keeps_distance: "vlen (vminus (move a) (move b)) = vlen (vminus a b)"
begin

primrec travelled :: "vec2 \<Rightarrow> vec2 list \<Rightarrow> real" where
  "travelled a [] = 0"
| "travelled a (b # bs) = vlen (vminus b a) + travelled b bs"

lemma keeps_travelled: "travelled (move a) (map move bs) = travelled a bs"
  by (induction bs arbitrary: a) (simp_all add: keeps_distance)

lemma near_iff: "vlen (vminus (move a) (move b)) \<le> r \<longleftrightarrow> vlen (vminus a b) \<le> r"
  by (simp add: keeps_distance)

end

lemma vlen_le_coord: "vlen a \<le> r \<Longrightarrow> \<bar>vx a\<bar> \<le> r \<and> \<bar>vy a\<bar> \<le> r"
proof -
  assume "vlen a \<le> r"
  moreover have "\<bar>vx a\<bar> \<le> vlen a" "\<bar>vy a\<bar> \<le> vlen a"
    unfolding vlen_def hypot_def by (rule abs_le_square_iff [THEN iffD1, THEN order_trans] | simp add: real_le_rsqrt power2_eq_square)+
  ultimately show ?thesis by linarith
qed

lemma turn_squares:
  fixes c s :: real
  assumes "c * c + s * s = 1"
  shows "(c * x - s * y) * (c * x - s * y) + (s * x + c * y) * (s * x + c * y) = x * x + y * y"
proof -
  have "(c * x - s * y) * (c * x - s * y) + (s * x + c * y) * (s * x + c * y) = (c * c + s * s) * (x * x + y * y)"
    by algebra
  with assms show ?thesis by simp
qed

lemma turned_len: "c * c + s * s = 1 \<Longrightarrow> vlen \<lparr>vx = c * x - s * y, vy = s * x + c * y\<rparr> = hypot x y"
  by (simp add: vlen_def hypot_def turn_squares)

lemma cos_sin_unit: "cos a * cos a + sin a * sin a = (1::real)"
  by (metis power2_eq_square sin_cos_squared_add2)

lemma affine_rigid:
  assumes "c * c + s * s = 1"
    and "\<And>q. move q = \<lparr>vx = ox + (c * vx q - s * vy q), vy = oy + (s * vx q + c * vy q)\<rparr>"
  shows "rigid_motion move"
proof
  fix a b
  have "vminus (move a) (move b) = \<lparr>vx = c * (vx a - vx b) - s * (vy a - vy b), vy = s * (vx a - vx b) + c * (vy a - vy b)\<rparr>"
    by (simp add: assms(2) vminus_def algebra_simps)
  then show "vlen (vminus (move a) (move b)) = vlen (vminus a b)"
    by (simp add: turned_len [OF assms(1)]) (simp add: vlen_def vminus_def)
qed

interpretation robot_motion: rigid_motion "robot_to_map pose" for pose
  by (rule affine_rigid [where c = "cos (pyaw pose)" and s = "sin (pyaw pose)" and ox = "px pose" and oy = "py pose"])
    (simp_all add: cos_sin_unit robot_to_map_def)

text \<open>A point of the grid, in metres from the corner of the first cell, and its place in the world.\<close>

definition grid_to_world :: "local_map \<Rightarrow> vec2 \<Rightarrow> vec2" where
  "grid_to_world m q = (let c = cos (yaw_of_quat (lm_quat m)); s = sin (yaw_of_quat (lm_quat m)) in
     \<lparr>vx = lm_origin_x m + (c * vx q - s * vy q), vy = lm_origin_y m + (s * vx q + c * vy q)\<rparr>)"

interpretation grid_motion: rigid_motion "grid_to_world m" for m
  by (rule affine_rigid [where c = "cos (yaw_of_quat (lm_quat m))" and s = "sin (yaw_of_quat (lm_quat m))"])
    (simp_all add: cos_sin_unit grid_to_world_def Let_def)

lemma lane_motion: "vlen d = 1 \<Longrightarrow> rigid_motion (lane_to_robot d center)"
  by (rule affine_rigid [where c = "vx d" and s = "vy d" and ox = "- vy d * center" and oy = "vx d * center"])
    (simp_all add: lane_to_robot_def vec_defs hypot_def algebra_simps)

definition world_to_grid :: "local_map \<Rightarrow> vec2 \<Rightarrow> vec2" where
  "world_to_grid m q =
    (let dx = vx q - lm_origin_x m; dy = vy q - lm_origin_y m;
         c = cos (yaw_of_quat (lm_quat m)); s = sin (yaw_of_quat (lm_quat m)) in
     \<lparr>vx = c * dx + s * dy, vy = - s * dx + c * dy\<rparr>)"

lemma grid_round_trip: "grid_to_world m (world_to_grid m q) = q"
proof -
  let ?c = "cos (yaw_of_quat (lm_quat m))" and ?s = "sin (yaw_of_quat (lm_quat m))"
  let ?dx = "vx q - lm_origin_x m" and ?dy = "vy q - lm_origin_y m"
  have "?c * (?c * ?dx + ?s * ?dy) - ?s * (- ?s * ?dx + ?c * ?dy) = (?c * ?c + ?s * ?s) * ?dx"
    "?s * (?c * ?dx + ?s * ?dy) + ?c * (- ?s * ?dx + ?c * ?dy) = (?c * ?c + ?s * ?s) * ?dy"
    by algebra+
  then show ?thesis
    by (simp add: grid_to_world_def world_to_grid_def Let_def cos_sin_unit)
qed

lemma cellToWorld_grid:
  "cellToWorld m i j = grid_to_world m \<lparr>vx = (of_int i + 0.5) * lm_resolution m, vy = (of_int j + 0.5) * lm_resolution m\<rparr>"
  by (simp add: cellToWorld_def grid_to_world_def Let_def)

lemma worldToCell_grid:
  "worldToCell m q = (\<lfloor>vx (world_to_grid m q) / lm_resolution m\<rfloor>, \<lfloor>vy (world_to_grid m q) / lm_resolution m\<rfloor>)"
  by (simp add: worldToCell_def world_to_grid_def Let_def)

section \<open>The clearance test\<close>

lemma cell_in_window:
  fixes x res r :: real
  assumes "0 < res" "\<bar>(of_int i + 0.5) * res - x\<bar> \<le> r"
  shows "\<bar>i - \<lfloor>x / res\<rfloor>\<bar> \<le> \<lceil>r / res\<rceil> + 1"
proof -
  have "(of_int i + 0.5) * res - x = ((of_int i + 0.5) - x / res) * res"
    using assms(1) by (simp add: left_diff_distrib)
  then have "\<bar>(of_int i + 0.5) - x / res\<bar> * res \<le> r"
    using assms by (simp only: abs_mult abs_of_pos)
  then have "\<bar>(of_int i + 0.5) - x / res\<bar> \<le> r / res"
    using assms(1) by (simp add: pos_le_divide_eq)
  moreover have "r / res \<le> of_int \<lceil>r / res\<rceil>" by simp
  ultimately show ?thesis by linarith
qed

lemma occupiedWithin_iff:
  assumes "0 < lm_resolution m"
  shows "occupiedWithin p m q r \<longleftrightarrow>
    (\<exists>i j. 0 \<le> i \<and> i < g_width m \<and> 0 \<le> j \<and> j < g_height m \<and> occupied p m i j \<and>
      vlen (vminus (cellToWorld m i j) q) \<le> r)"
proof -
  let ?ci = "fst (worldToCell m q)" and ?cj = "snd (worldToCell m q)"
  let ?span = "\<lceil>r / lm_resolution m\<rceil> + 1"
  have window: "\<bar>i - ?ci\<bar> \<le> ?span \<and> \<bar>j - ?cj\<bar> \<le> ?span" if "vlen (vminus (cellToWorld m i j) q) \<le> r" for i j
  proof -
    have "vlen (vminus (grid_to_world m \<lparr>vx = (of_int i + 0.5) * lm_resolution m, vy = (of_int j + 0.5) * lm_resolution m\<rparr>)
        (grid_to_world m (world_to_grid m q))) \<le> r"
      using that by (simp only: cellToWorld_grid grid_round_trip)
    then have "vlen (vminus \<lparr>vx = (of_int i + 0.5) * lm_resolution m, vy = (of_int j + 0.5) * lm_resolution m\<rparr> (world_to_grid m q)) \<le> r"
      by (simp only: grid_motion.near_iff)
    from vlen_le_coord [OF this] show ?thesis
      unfolding worldToCell_grid fst_conv snd_conv
      by (intro conjI cell_in_window [OF assms]) (simp_all add: vminus_def)
  qed
  have "i \<in> set [max 0 (?ci - ?span)..min (g_width m - 1) (?ci + ?span)] \<and>
      j \<in> set [max 0 (?cj - ?span)..min (g_height m - 1) (?cj + ?span)]"
    if "0 \<le> i" "i < g_width m" "0 \<le> j" "j < g_height m" "vlen (vminus (cellToWorld m i j) q) \<le> r" for i j
    using window [OF that(5)] that(1-4) by simp linarith
  moreover have "0 \<le> i \<and> i < w" if "i \<in> set [max 0 lo..min (w - 1) hi]" for i w lo hi :: int
    using that by simp
  ultimately show ?thesis
    unfolding occupiedWithin_def Let_def split_beta list_ex_iff by blast
qed

section \<open>The planner returns\<close>

lemma extent_returns: "0 < lm_resolution m \<Longrightarrow> \<exists>e. extent_from m q d t = Some e"
proof (induction "nat \<lceil>(200 - t) / lm_resolution m + 1\<rceil>" arbitrary: t rule: less_induct)
  case less
  show ?case
  proof (cases "t < 200 \<and> in_grid m (worldToCell m (vplus q (vtimes d t)))")
    case True
    then have "nat \<lceil>(200 - (t + lm_resolution m)) / lm_resolution m + 1\<rceil> < nat \<lceil>(200 - t) / lm_resolution m + 1\<rceil>"
      using less.prems by (intro march_measure) auto
    from less.hyps [OF this less.prems] True show ?thesis
      by (subst extent_from.simps) simp
  qed (subst extent_from.simps, auto)
qed

lemma extent_stops_outside:
  assumes "extent_from m q d t = Some e" "0 < lm_resolution m"
  shows "t \<le> e \<and> \<not> (e < 200 \<and> in_grid m (worldToCell m (vplus q (vtimes d e))))"
  using assms(1)
proof (induction "nat \<lceil>(200 - t) / lm_resolution m + 1\<rceil>" arbitrary: t rule: less_induct)
  case less
  show ?case
  proof (cases "t < 200 \<and> in_grid m (worldToCell m (vplus q (vtimes d t)))")
    case True
    then have "nat \<lceil>(200 - (t + lm_resolution m)) / lm_resolution m + 1\<rceil> < nat \<lceil>(200 - t) / lm_resolution m + 1\<rceil>"
      using assms(2) by (intro march_measure) auto
    moreover have "extent_from m q d (t + lm_resolution m) = Some e"
      using less.prems True by (subst (asm) extent_from.simps) simp
    ultimately show ?thesis using less.hyps assms(2) by fastforce
  qed (use less.prems in \<open>subst (asm) extent_from.simps, auto\<close>)
qed

lemma arc_part_nonempty: "arc_part p t g \<noteq> []"
  by (simp add: arc_part_def Let_def)

lemma turn_path_length: "4 < length (turn_path p t c g)"
  by (simp add: turn_path_def arc_part_def Let_def)

lemma headings_of_turn [simp]: "(with_headings (map f (turn_path p t c g)) = None) = False"
  using turn_path_length [of p t c g] by (simp add: with_headings_def)

lemma finish_plan_turn:
  assumes "t \<noteq> STRAIGHT"
  shows "finish_plan p m pose t width all_pts rd limit \<noteq> Inl Out_Of_Bounds"
  using assms
  by (auto simp: finish_plan_def Let_def split: prod.splits option.splits)

text \<open>
  What the code relies on of the random engine: a draw from a distribution over \<open>0..n - 1\<close> is one of
  these numbers. For no points the bounds are \<open>0\<close> and the largest \<open>size_t\<close>, and nothing is known of the draw.
\<close>

definition draws_in_range :: "(nat \<Rightarrow> nat \<Rightarrow> nat \<times> nat) \<Rightarrow> bool" where
  "draws_in_range picks \<longleftrightarrow> (\<forall>n k. 0 < n \<longrightarrow> fst (picks n k) < n \<and> snd (picks n k) < n)"

lemma ransac_returns:
  assumes "\<And>ab. ab \<in> set draws \<Longrightarrow> fst ab < length pts \<and> snd ab < length pts"
  shows "\<exists>r. ransac p pts draws acc = Some r"
  using assms
proof (induction draws arbitrary: acc)
  case (Cons ab draws)
  then have "fst ab < length pts \<and> snd ab < length pts" by simp
  then obtain acc' where "ransac_try p pts ab acc = Some acc'"
    by (cases acc, cases "ransac_try p pts ab acc") (auto simp: ransac_try_def Let_def split: prod.splits if_splits)
  with Cons show ?case by simp
qed (metis ransac.simps(1))

lemma pca_pass_error: "pca_pass p pts acc = Inl e \<Longrightarrow> e = Nan_Line \<and> min_line_pts p \<le> 0"
  by (auto simp: pca_pass_def Let_def split: prod.splits if_splits)

lemma fitLine_error:
  assumes "draws_in_range picks" "fitLine p picks pts = Inl e"
  shows "e \<in> {Outside_Points, Nan_Line} \<and> min_line_pts p \<le> 0"
proof -
  have long: "\<not> int (length pts) < min_line_pts p"
    using assms(2) by (auto simp: fitLine_def)
  have "min_line_pts p \<le> 0"
    if "ransac p pts (map (picks (length pts)) [0..<nat (ransac_iters p)]) acc = None" for acc
  proof (rule ccontr)
    assume "\<not> min_line_pts p \<le> 0"
    with long have "0 < length pts" by linarith
    with assms(1) have "fst ab < length pts \<and> snd ab < length pts"
      if "ab \<in> set (map (picks (length pts)) [0..<nat (ransac_iters p)])" for ab
      using that by (auto simp: draws_in_range_def)
    with ransac_returns [of _ pts p acc] that show False by fastforce
  qed
  with assms(2) long show ?thesis
    by (auto simp: fitLine_def dest!: pca_pass_error
        split: option.splits sum.splits prod.splits if_splits)
qed

lemma find_road_error:
  assumes "draws_in_range picks" "find_road p picks pts width = Inl e"
  shows "e = No_Line \<or> e \<in> {Outside_Points, Nan_Line} \<and> min_line_pts p \<le> 0"
  using assms(2) fitLine_error [OF assms(1)]
  by (auto simp: find_road_def split: sum.splits option.splits)

lemma plan_cases:
  assumes "0 < width" "\<not> map_is_bad m" "all_pts = roi_points p m pose width"
  obtains e where "find_road p picks all_pts width = Inl e" "plan p picks m pose t width = Some (Inl e)"
  | rd limit where "find_road p picks all_pts width = Inr rd"
      "plan p picks m pose t width = Some (finish_plan p m pose t width all_pts rd limit)"
proof (cases "find_road p picks all_pts width")
  case (Inr rd)
  have "0 < lm_resolution m" using assms(2) by (simp add: map_is_bad_def)
  then obtain e where "extentAlong m \<lparr>vx = px pose, vy = py pose\<rparr>
      \<lparr>vx = cos (pyaw pose) * vx (rd_dir rd) - sin (pyaw pose) * vy (rd_dir rd),
       vy = sin (pyaw pose) * vx (rd_dir rd) + cos (pyaw pose) * vy (rd_dir rd)\<rparr> = Some e"
    using extent_returns unfolding extentAlong_def by blast
  then show ?thesis
    using assms Inr by (intro that(2)) (simp_all add: plan_def Let_def)
next
  case (Inl e)
  with assms show ?thesis by (intro that(1)) (simp_all add: plan_def Let_def)
qed

lemma finish_plan_error:
  "finish_plan p m pose t width all_pts rd limit = Inl e \<Longrightarrow> e = Too_Close \<or> e = Out_Of_Bounds \<and> t = STRAIGHT"
  by (auto simp: finish_plan_def Let_def split: prod.splits option.splits if_splits)

text \<open>
  C18: The planner always answers, and where it may read outside its data. The draws of the random engine
  are assumed to lie in the range they are asked for. Then, whatever the map, the pose and the parameters,
  the march to the border of the grid ends and every loop ends. The line fit reads outside its points, or
  averages no points, only when \<open>min_line_pts\<close> is not positive; and the path of a left or right turn has more
  than one pose, so the heading of its last pose is computed from a pose that exists.
\<close>

theorem plan_always_answers:
  assumes "draws_in_range picks"
  shows "\<exists>r. plan p picks m pose t width = Some r \<and>
    (r = Inl Out_Of_Bounds \<longrightarrow> t = STRAIGHT) \<and>
    (r = Inl Outside_Points \<or> r = Inl Nan_Line \<longrightarrow> min_line_pts p \<le> 0)"
proof (cases "0 < width \<and> \<not> map_is_bad m")
  case True
  then have ok: "0 < width" "\<not> map_is_bad m" by auto
  show ?thesis
  proof (rule plan_cases [OF ok refl, of p picks pose t])
    fix e
    assume "find_road p picks (roi_points p m pose width) width = Inl e" "plan p picks m pose t width = Some (Inl e)"
    with find_road_error [OF assms] show ?thesis by fastforce
  next
    fix rd limit
    assume "plan p picks m pose t width = Some (finish_plan p m pose t width (roi_points p m pose width) rd limit)"
    then show ?thesis
      using finish_plan_error [of p m pose t width "roi_points p m pose width" rd limit] by auto
  qed
next
  case False
  then show ?thesis by (auto simp: plan_def)
qed

text \<open>
  The error is real: with \<open>min_line_pts\<close> not positive and no candidate point, the fit does not return early, draws
  from the whole range of \<open>size_t\<close> and reads the empty vector as soon as two draws differ.
\<close>

lemma fit_reads_empty_vector:
  assumes "min_line_pts p \<le> 0" "0 < ransac_iters p" "fst (picks 0 0) \<noteq> snd (picks 0 0)"
  shows "fitLine p picks [] = Inl Outside_Points"
proof -
  have "[0..<nat (ransac_iters p)] = 0 # [1..<nat (ransac_iters p)]"
    using assms(2) by (simp add: upt_conv_Cons)
  moreover obtain a b where "picks 0 0 = (a, b)" "a \<noteq> b"
    using assms(3) by (cases "picks 0 0") simp
  ultimately show ?thesis
    using assms(1) by (simp add: fitLine_def ransac_try_def)
qed

section \<open>Directions are unit vectors\<close>

lemma forward_unit: "vlen (forward \<lparr>vx = cos a, vy = sin a\<rparr>) = 1"
  by (simp add: forward_def vlen_def hypot_def vtimes_def cos_sin_unit)

lemma pca_unit: "pca_pass p pts acc = Inr (Some (mean, d)) \<Longrightarrow> vlen d = 1"
  by (auto simp: pca_pass_def Let_def forward_unit split: prod.splits if_splits)

lemma fitLine_unit: "fitLine p picks pts = Inr (Some l) \<Longrightarrow> vlen (ldir l) = 1"
  by (auto simp: fitLine_def dest!: pca_unit split: prod.splits if_splits option.splits sum.splits)

lemma normalized_unit: "vlen (normalized a) = 1"
proof (cases "vlen a > 1 / 10 ^ 9")
  case True
  then have n: "vlen a \<noteq> 0" by auto
  have "vlen a * vlen a = vx a * vx a + vy a * vy a"
    by (simp add: vlen_def hypot_def)
  then have "(vx a / vlen a) * (vx a / vlen a) + (vy a / vlen a) * (vy a / vlen a) = (vlen a * vlen a) / (vlen a * vlen a)"
    by (simp only: times_divide_times_eq add_divide_distrib [symmetric])
  moreover have "(vlen a * vlen a) / (vlen a * vlen a) = 1" using n by simp
  ultimately have "(vx a / vlen a) * (vx a / vlen a) + (vy a / vlen a) * (vy a / vlen a) = 1"
    by (rule trans)
  with True show ?thesis by (simp add: normalized_def Let_def vlen_def [of "\<lparr>vx = _, vy = _\<rparr>"] hypot_def)
qed (simp add: normalized_def vlen_def hypot_def)

text \<open>The direction of the road in terms of the fitted lines: both count only when the left one is kept.\<close>

definition lines_dir :: "line option \<Rightarrow> line option \<Rightarrow> bool \<Rightarrow> vec2" where
  "lines_dir R L both =
    (if both \<and> R \<noteq> None then normalized (vplus (ldir (the R)) (ldir (the L)))
     else if R \<noteq> None then ldir (the R) else ldir (the L))"

lemma road_dir_of: "road_of p width R L = Some rd \<Longrightarrow> rd_dir rd = lines_dir R L (rd_left rd \<noteq> None)"
  by (auto simp: road_of_def lines_dir_def Let_def split: option.splits if_splits)

lemma road_unit:
  assumes "road_of p width R L = Some rd"
    and "fitLine p picks rs = Inr R" "fitLine p picks ls = Inr L"
  shows "vlen (rd_dir rd) = 1"
  using assms fitLine_unit [of p picks rs] fitLine_unit [of p picks ls] normalized_unit
  by (auto simp: road_of_def Let_def split: option.splits if_splits)

lemma find_road_lines:
  assumes "find_road p picks pts width = Inr rd"
  obtains R L where "fitLine p picks (right_cand p width pts) = Inr R"
    "fitLine p picks (left_cand p width pts) = Inr L" "road_of p width R L = Some rd"
  using assms by (auto simp: find_road_def split: sum.splits option.splits)

section \<open>The path of a turn\<close>

definition pose_point :: "pose2d \<Rightarrow> vec2" where
  "pose_point q = \<lparr>vx = px q, vy = py q\<rparr>"

definition place :: "pose2d \<Rightarrow> vec2 \<Rightarrow> real \<Rightarrow> vec2 \<Rightarrow> vec2" where
  \<comment> \<open>from the lane frame to the map\<close>
  "place pose d center q = robot_to_map pose (lane_to_robot d center q)"

lemma headings_points:
  "with_headings pm = Some path \<Longrightarrow> map pose_point path = pm"
  by (auto simp: with_headings_def Let_def pose_point_def split: if_splits intro!: nth_equalityI)

lemma road_warn: "road_of p width R L = Some rd \<Longrightarrow> Blocked_Percent n \<notin> set (rd_warn rd)"
  by (auto simp: road_of_def Let_def split: option.splits if_splits)

lemma plan_success:
  assumes "plan p picks m pose t width = Some (Inr r)"
  shows "0 < lm_resolution m \<and>
    (\<exists>rd limit. find_road p picks (roi_points p m pose width) width = Inr rd \<and>
      finish_plan p m pose t width (roi_points p m pose width) rd limit = Inr r)"
proof -
  have ok: "0 < width" "\<not> map_is_bad m"
    using assms by (auto simp: plan_def split: if_splits)
  then have "0 < lm_resolution m" by (simp add: map_is_bad_def)
  moreover have "\<exists>rd limit. find_road p picks (roi_points p m pose width) width = Inr rd \<and>
      finish_plan p m pose t width (roi_points p m pose width) rd limit = Inr r"
    by (rule plan_cases [OF ok refl, of p picks pose t]) (use assms in auto)
  ultimately show ?thesis by blast
qed

lemma finish_turn:
  assumes "finish_plan p m pose t width all_pts rd limit = Inr r" "t \<noteq> STRAIGHT"
  shows "\<exists>g. turn_geometry p t width (dist_to_intersection (pr_debug r)) = Some g \<and>
    turn_radius (pr_debug r) = gm_radius g \<and>
    lane_center_offset (pr_debug r) = lane_center p width rd \<and>
    used_left_line (pr_debug r) = (rd_left rd \<noteq> None) \<and>
    map pose_point (pr_path r) = map (place pose (rd_dir rd) (lane_center_offset (pr_debug r)))
      (turn_path p t (lane_center_offset (pr_debug r)) g)"
proof -
  obtain s_end v where s: "intersection_start p (road_ends p all_pts limit rd) = (s_end, v)" by force
  obtain g where g: "turn_geometry p t width s_end = Some g"
    using assms s by (auto simp: finish_plan_def Let_def split: option.splits)
  let ?c = "lane_center p width rd"
  let ?pm = "map (\<lambda>q. robot_to_map pose (lane_to_robot (rd_dir rd) ?c q)) (turn_path p t ?c g)"
  obtain path where path: "with_headings ?pm = Some path" by fastforce
  have "pr_path r = path" "dist_to_intersection (pr_debug r) = s_end" "turn_radius (pr_debug r) = gm_radius g"
    "lane_center_offset (pr_debug r) = ?c" "used_left_line (pr_debug r) = (rd_left rd \<noteq> None)"
    using assms s g path by (auto simp: finish_plan_def Let_def)
  with g headings_points [OF path] show ?thesis by (auto simp: place_def)
qed

lemma turn_geometry_radius:
  assumes "turn_geometry p t width s = Some g"
  shows "gm_vertex g = s + natural_radius p t width \<and> 0.3 \<le> gm_vertex g \<and>
    gm_radius g = min (gm_vertex g) (max (natural_radius p t width) (min_turning_radius p)) \<and>
    gm_start g = gm_vertex g - gm_radius g"
proof -
  let ?V = "s + natural_radius p t width" and ?R = "max (natural_radius p t width) (min_turning_radius p)"
  have ok: "\<not> ?V < 0.3"
    using assms unfolding turn_geometry_def Let_def by (rule contrapos_pn) simp
  have "gm_vertex g = ?V \<and> gm_radius g = (if ?V - ?R < 0 then ?V else ?R) \<and>
      gm_start g = (if ?V - ?R < 0 then 0 else ?V - ?R)"
    using assms unfolding turn_geometry_def Let_def if_not_P [OF ok]
    by (cases "?V - ?R < 0") auto
  with ok show ?thesis by (simp add: min_def split: if_splits)
qed

lemma smoothstep5_0 [simp]: "smoothstep5 0 = 0"
  by (simp add: smoothstep5_def)

lemma smoothstep5_1 [simp]: "1 \<le> t \<Longrightarrow> smoothstep5 t = 1"
  by (simp add: smoothstep5_def min_def max_def)

lemma smoothstep5_range: "0 \<le> smoothstep5 t \<and> smoothstep5 t \<le> 1"
proof -
  define u where "u = min 1 (max 0 t)"
  have u: "0 \<le> u" "u \<le> 1" by (simp_all add: u_def)
  define a where "a = u * u * u * (10 + u * (- 15 + 6 * u))"
  have "10 + u * (- 15 + 6 * u) = 6 * ((u - 5 / 4) * (u - 5 / 4)) + 5 / 8" by (simp add: algebra_simps)
  moreover have "0 \<le> (u - 5 / 4) * (u - 5 / 4)" by simp
  ultimately have "0 \<le> 10 + u * (- 15 + 6 * u)" by linarith
  then have "0 \<le> a" unfolding a_def using u by (intro mult_nonneg_nonneg)
  moreover have "1 - a = (1 - u) * (1 - u) * (1 - u) * (1 + 3 * u + 6 * u * u)"
    by (simp add: a_def algebra_simps)
  moreover have "0 \<le> (1 - u) * (1 - u) * (1 - u) * (1 + 3 * u + 6 * u * u)"
    using u by (intro mult_nonneg_nonneg add_nonneg_nonneg) auto
  moreover have "smoothstep5 t = a" by (simp add: smoothstep5_def Let_def u_def a_def)
  ultimately show ?thesis by linarith
qed

text \<open>The merge moves from the robot's offset to the lane centre and never beyond either.\<close>

lemma straight_part_offset:
  assumes "q \<in> set (straight_part p c e)"
  shows "\<exists>k. 0 \<le> k \<and> k \<le> 1 \<and> vy q = - c * k"
proof -
  obtain s where "q = merge_point p c e s"
    using assms by (auto simp: straight_part_def)
  then obtain u where "vy q = - c * (1 - smoothstep5 u)"
    unfolding merge_point_def Let_def by (metis vec2.select_convs(2))
  then show ?thesis
    using smoothstep5_range [of u] by (intro exI [of _ "1 - smoothstep5 u"]) simp
qed

lemma straight_part_head:
  assumes "1 / 10 ^ 6 < merge_length p" "1 / 10 ^ 6 < e"
  shows "straight_part p c e \<noteq> [] \<and> hd (straight_part p c e) = \<lparr>vx = 0, vy = - c\<rparr>"
proof -
  have "straight_ss p 0 (e - 1 / 10 ^ 6) = 0 # straight_ss p (path_step p) (e - 1 / 10 ^ 6)"
    using assms by (subst straight_ss.simps) simp
  moreover have "1 / 10 ^ 6 < min (merge_length p) e" using assms by simp
  ultimately show ?thesis
    unfolding straight_part_def merge_point_def Let_def by (simp only: list.map list.sel if_True) simp
qed

lemma straight_part_empty: "e \<le> 1 / 10 ^ 6 \<Longrightarrow> straight_part p c e = []"
  by (subst straight_part_def, subst straight_ss.simps) simp

lemma arc_part_head: "hd (arc_part p t g) = \<lparr>vx = gm_start g, vy = 0\<rparr>"
  by (simp add: arc_part_def Let_def upto_rec1)

lemma arc_part_last: "last (arc_part p t g) = \<lparr>vx = gm_start g + gm_radius g, vy = sigma t * gm_radius g\<rparr>"
proof -
  let ?na = "max 4 \<lceil>gm_radius g * pi / 2 / path_step p\<rceil>"
  have "last [0..?na] = ?na" "[0..?na] \<noteq> []" by (simp_all add: upto_rec2)
  then show ?thesis by (simp add: arc_part_def Let_def last_map del: upto_rec2)
qed

lemma arc_on_circle:
  "q \<in> set (arc_part p t g) \<Longrightarrow> sigma t * sigma t = 1 \<Longrightarrow>
   vlen (vminus q \<lparr>vx = gm_start g, vy = sigma t * gm_radius g\<rparr>) = \<bar>gm_radius g\<bar>"
proof -
  assume "q \<in> set (arc_part p t g)" and s: "sigma t * sigma t = 1"
  then obtain th where q: "q = \<lparr>vx = gm_start g + gm_radius g * sin th, vy = sigma t * gm_radius g * (1 - cos th)\<rparr>"
    by (auto simp: arc_part_def Let_def)
  have "(gm_radius g * sin th) * (gm_radius g * sin th) + (sigma t * gm_radius g * cos th) * (sigma t * gm_radius g * cos th)
      = gm_radius g * gm_radius g * (sin th * sin th + sigma t * sigma t * (cos th * cos th))"
    by algebra
  also have "\<dots> = gm_radius g * gm_radius g"
    by (simp add: s cos_sin_unit add.commute [of "sin th * sin th"])
  finally show ?thesis
    by (simp add: q vlen_def vminus_def hypot_def algebra_simps)
qed

lemma exit_ts_last:
  "t - path_step p \<le> hi \<Longrightarrow>
   t - path_step p \<le> last ((t - path_step p) # exit_ts p t hi) \<and>
   last ((t - path_step p) # exit_ts p t hi) \<le> hi \<and> hi - path_step p < last ((t - path_step p) # exit_ts p t hi)"
proof (induction p t hi rule: exit_ts.induct)
  case (1 p t hi)
  show ?case
  proof (cases "t \<le> hi")
    case True
    have "0 < path_step p" by (simp add: path_step_def)
    with 1(1) [OF True] True show ?thesis
      by (subst (1 2 3) exit_ts.simps) auto
  next
    case False
    with 1(2) show ?thesis by (subst (1 2 3) exit_ts.simps) simp
  qed
qed

lemma turn_path_last:
  assumes "turn_geometry p t width s = Some g"
  shows "last (turn_path p t c g) = \<lparr>vx = gm_vertex g,
    vy = sigma t * (gm_radius g + last (0 # exit_ts p (path_step p) (exit_length p + 1 / 10 ^ 6)))\<rparr>"
  using turn_geometry_radius [OF assms]
  by (auto simp: turn_path_def exit_part_def last_append last_map arc_part_last arc_part_nonempty)

lemma turn_path_head:
  assumes "1 / 10 ^ 6 < merge_length p"
  shows "hd (turn_path p t c g) = (if 1 / 10 ^ 6 < gm_start g then \<lparr>vx = 0, vy = - c\<rparr> else \<lparr>vx = gm_start g, vy = 0\<rparr>)"
proof (cases "1 / 10 ^ 6 < gm_start g")
  case True
  with straight_part_head [OF assms] show ?thesis by (simp add: turn_path_def)
next
  case False
  then have "straight_part p c (gm_start g) = []" by (intro straight_part_empty) simp
  with False show ?thesis by (simp add: turn_path_def arc_part_head arc_part_nonempty)
qed

lemma place_robot: "place pose d c \<lparr>vx = 0, vy = - c\<rparr> = \<lparr>vx = px pose, vy = py pose\<rparr>"
  by (simp add: place_def robot_to_map_def lane_to_robot_def vec_defs)

text \<open>
  C19: A planned turn leads from the robot into the exit lane. The lane frame has the direction of the road that
  was fitted to the occupied cells (the mean of the two lines when the left one is kept, else the
  right line, else the left one; a unit vector), and its axis is the centre of the robot's lane computed from these lines.
  In this frame the turn ends on the axis of the exit lane, at the natural radius beyond the end of
  the line; the radius is the largest the distance allows up to the natural one or the minimum; the path ends
  within a step of the exit length; and it starts at the robot, except when no room is left before the arc: then
  its first pose is on the lane centre beside the robot. The parameters \<open>merge_length\<close> (above 1e-6) and
  \<open>exit_length\<close> (not negative) are assumed to be sensible; the code does not test them.
\<close>

theorem turn_joins_robot_to_exit_lane:
  assumes "plan p picks m pose t width = Some (Inr r)" and "t \<noteq> STRAIGHT"
    and "1 / 10 ^ 6 < merge_length p" and "0 \<le> exit_length p"
    and "c = lane_center_offset (pr_debug r)" and "R = turn_radius (pr_debug r)"
    and "V = dist_to_intersection (pr_debug r) + natural_radius p t width"
    and "all_pts = roi_points p m pose width"
  shows "0.3 \<le> V \<and> R = min V (max (natural_radius p t width) (min_turning_radius p)) \<and>
    (\<exists>RL LL rd d u.
      fitLine p picks (right_cand p width all_pts) = Inr RL \<and>
      fitLine p picks (left_cand p width all_pts) = Inr LL \<and>
      road_of p width RL LL = Some rd \<and> c = lane_center p width rd \<and>
      d = lines_dir RL LL (used_left_line (pr_debug r)) \<and> vlen d = 1 \<and>
      pose_point (hd (pr_path r)) =
        (if 1 / 10 ^ 6 < V - R then \<lparr>vx = px pose, vy = py pose\<rparr> else place pose d c \<lparr>vx = V - R, vy = 0\<rparr>) \<and>
      pose_point (last (pr_path r)) = place pose d c \<lparr>vx = V, vy = sigma t * (R + u)\<rparr> \<and>
      0 \<le> u \<and> u \<le> exit_length p + 1 / 10 ^ 6 \<and> exit_length p + 1 / 10 ^ 6 - path_step p < u)"
proof -
  obtain rd limit where road: "find_road p picks all_pts width = Inr rd"
      and f: "finish_plan p m pose t width all_pts rd limit = Inr r"
    using plan_success [OF assms(1)] assms(8) by blast
  obtain RL LL where lines: "fitLine p picks (right_cand p width all_pts) = Inr RL"
      "fitLine p picks (left_cand p width all_pts) = Inr LL" "road_of p width RL LL = Some rd"
    using find_road_lines [OF road] .
  obtain g where g: "turn_geometry p t width (dist_to_intersection (pr_debug r)) = Some g" "R = gm_radius g"
      "c = lane_center p width rd" "used_left_line (pr_debug r) = (rd_left rd \<noteq> None)"
      "map pose_point (pr_path r) = map (place pose (rd_dir rd) c) (turn_path p t c g)"
    using finish_turn [OF f assms(2)] assms(5,6) by auto
  note geo = turn_geometry_radius [OF g(1)]
  let ?u = "last (0 # exit_ts p (path_step p) (exit_length p + 1 / 10 ^ 6))"
  have ne: "turn_path p t c g \<noteq> []" using turn_path_length [of p t c g] by auto
  then have pne: "pr_path r \<noteq> []" using g(5) by auto
  have "pose_point (hd (pr_path r)) = place pose (rd_dir rd) c (hd (turn_path p t c g))"
    "pose_point (last (pr_path r)) = place pose (rd_dir rd) c (last (turn_path p t c g))"
    using g(5) ne pne by (metis hd_map, metis last_map)
  then have ends: "pose_point (hd (pr_path r)) =
      (if 1 / 10 ^ 6 < V - R then \<lparr>vx = px pose, vy = py pose\<rparr> else place pose (rd_dir rd) c \<lparr>vx = V - R, vy = 0\<rparr>)"
    "pose_point (last (pr_path r)) = place pose (rd_dir rd) c \<lparr>vx = V, vy = sigma t * (R + ?u)\<rparr>"
    unfolding turn_path_head [OF assms(3)] turn_path_last [OF g(1)] g(2) assms(7)
    using geo place_robot [of pose "rd_dir rd" c] by (simp_all only: if_distrib)
  have u: "0 \<le> ?u \<and> ?u \<le> exit_length p + 1 / 10 ^ 6 \<and> exit_length p + 1 / 10 ^ 6 - path_step p < ?u"
    using exit_ts_last [of "path_step p" p "exit_length p + 1 / 10 ^ 6"] assms(4) by simp
  have "rd_dir rd = lines_dir RL LL (used_left_line (pr_debug r))"
    unfolding g(4) by (rule road_dir_of [OF lines(3)])
  moreover have "vlen (rd_dir rd) = 1" using lines by (blast intro: road_unit)
  moreover have "0.3 \<le> V" "R = min V (max (natural_radius p t width) (min_turning_radius p))"
    using geo g(2) assms(7) by simp_all
  ultimately show ?thesis using lines g(3) ends u by blast
qed

section \<open>The clearance report\<close>

definition obstructed :: "plan_params \<Rightarrow> local_map \<Rightarrow> pose2d \<Rightarrow> bool" where
  \<comment> \<open>some occupied cell of the map has its centre within the robot radius\<close>
  "obstructed p m q \<longleftrightarrow> (\<exists>i j. 0 \<le> i \<and> i < g_width m \<and> 0 \<le> j \<and> j < g_height m \<and> occupied p m i j \<and>
     vlen (vminus (cellToWorld m i j) (pose_point q)) \<le> robot_radius p)"

lemma straight_path_nonempty: "straight_path p c width s \<noteq> []"
  by (simp add: straight_path_def Let_def)

lemma turn_warn: "turn_geometry p t width s = Some g \<Longrightarrow> Blocked_Percent n \<notin> set (gm_warn g)"
  by (auto simp: turn_geometry_def Let_def split: if_splits)

lemma finish_report:
  assumes "finish_plan p m pose t width all_pts rd limit = Inr r" and "\<And>n. Blocked_Percent n \<notin> set (rd_warn rd)"
  shows "pr_path r \<noteq> [] \<and>
    blocked_fraction (pr_debug r) = of_nat (blocked_count p m (pr_path r)) / of_nat (length (pr_path r)) \<and>
    ((\<exists>n. Blocked_Percent n \<in> set (pr_warnings r)) \<longleftrightarrow> 0 < blocked_count p m (pr_path r))"
proof -
  let ?c = "lane_center p width rd"
  obtain s_end v where s: "intersection_start p (road_ends p all_pts limit rd) = (s_end, v)" by force
  obtain g where g: "(if t = STRAIGHT then Some None else map_option Some (turn_geometry p t width s_end)) = Some g"
    using assms(1) s by (auto simp: finish_plan_def Let_def split: option.splits if_splits)
  define lane where "lane = (case g of None \<Rightarrow> straight_path p ?c width s_end | Some gm \<Rightarrow> turn_path p t ?c gm)"
  obtain path where path: "with_headings (map (\<lambda>q. robot_to_map pose (lane_to_robot (rd_dir rd) ?c q)) lane) = Some path"
    using assms(1) s g by (auto simp: finish_plan_def Let_def lane_def split: option.splits)
  have r: "pr_path r = path" "blocked_fraction (pr_debug r) = of_nat (blocked_count p m path) / of_nat (length path)"
    "\<exists>k. pr_warnings r = rd_warn rd @ (if v then [] else [End_Not_Visible]) @ (if s_end < 0 then [Already_Inside] else [])
       @ (case g of None \<Rightarrow> [] | Some gm \<Rightarrow> gm_warn gm) @ (if 0 < blocked_count p m path then [Blocked_Percent k] else [])"
    using assms(1) s g path by (auto simp: finish_plan_def Let_def lane_def)
  have "turn_path p t ?c gm \<noteq> []" for gm
    using turn_path_length [of p t ?c gm] by auto
  then have "lane \<noteq> []"
    using straight_path_nonempty by (auto simp: lane_def split: option.splits)
  then have "path \<noteq> []" using headings_points [OF path] by auto
  moreover have "Blocked_Percent n \<notin> set (case g of None \<Rightarrow> [] | Some gm \<Rightarrow> gm_warn gm)" for n
    using g turn_warn by (auto split: option.splits if_splits)
  ultimately show ?thesis
    using r assms(2) by (auto split: if_splits)
qed

text \<open>
  C20: The reported blocked fraction is exact. Although the search around a pose looks only at a window of cells, also
  for a rotated map and a pose outside it, the fraction counts exactly the poses that have the centre of an occupied
  cell within the robot radius, and the warning is given when there is one.
\<close>

theorem blocked_fraction_is_exact:
  assumes "plan p picks m pose t width = Some (Inr r)"
  shows "pr_path r \<noteq> [] \<and>
    blocked_fraction (pr_debug r) * of_nat (length (pr_path r)) = of_nat (length (filter (obstructed p m) (pr_path r))) \<and>
    ((\<exists>q \<in> set (pr_path r). obstructed p m q) \<longleftrightarrow>
     (\<exists>n. Blocked_Percent n \<in> set (pr_warnings r)))"
proof -
  obtain rd limit where f: "finish_plan p m pose t width (roi_points p m pose width) rd limit = Inr r"
      and res: "0 < lm_resolution m" and road: "find_road p picks (roi_points p m pose width) width = Inr rd"
    using plan_success [OF assms] by blast
  have w: "Blocked_Percent n \<notin> set (rd_warn rd)" for n
    by (rule find_road_lines [OF road]) (rule road_warn)
  have "occupiedWithin p m \<lparr>vx = px q, vy = py q\<rparr> (robot_radius p) = obstructed p m q" for q
    using occupiedWithin_iff [OF res] by (simp add: obstructed_def pose_point_def)
  then have count: "blocked_count p m path = length (filter (obstructed p m) path)" for path
    by (simp add: blocked_count_def)
  show ?thesis
    using finish_report [OF f w] by (auto simp: count filter_empty_conv)
qed

section \<open>Witnesses\<close>

text \<open>
  A map of three cells whose first two are occupied, half a metre to the right of the robot's axis, and a
  planner that accepts a line of two points.
\<close>

definition toy_map :: local_map where
  "toy_map = \<lparr>lm_resolution = 1, lm_width = 3, lm_height = 1, lm_origin_x = 0, lm_origin_y = 0,
     lm_quat = (0, 0, 0, 1), lm_data = [100, 100, 0]\<rparr>"

definition toy_params :: plan_params where
  "toy_params = default_plan_params\<lparr>min_line_pts := 2, ransac_iters := 1\<rparr>"

definition toy_pose :: pose2d where
  "toy_pose = \<lparr>px = 0, py = 1, pyaw = 0\<rparr>"

definition toy_picks :: "nat \<Rightarrow> nat \<Rightarrow> nat \<times> nat" where
  "toy_picks n k = (0, min 1 (n - 1))"

lemma toy_picks_range: "draws_in_range toy_picks"
  by (auto simp: draws_in_range_def toy_picks_def min_def)

lemma atan2_forward: "0 < x \<Longrightarrow> atan2 0 x = 0"
  unfolding atan2_def by (rule cis_Arg_unique) (simp_all add: complex_eq_iff sgn_eq cmod_def)

lemma toy_points: "roi_points toy_params toy_map toy_pose 3 = [\<lparr>vx = 1 / 2, vy = - (1 / 2)\<rparr>, \<lparr>vx = 3 / 2, vy = - (1 / 2)\<rparr>]"
  by (simp add: roi_points_def toy_map_def toy_pose_def toy_params_def default_plan_params_def g_width_def g_height_def
      upto_rec1 occupied_def cellToWorld_def to_robot_def in_plan_roi_def y_split_def atan2_forward nat_add_distrib)

lemma toy_line:
  "fitLine toy_params toy_picks [\<lparr>vx = 1 / 2, vy = - (1 / 2)\<rparr>, \<lparr>vx = 3 / 2, vy = - (1 / 2)\<rparr>]
    = Inr (Some \<lparr>centroid = \<lparr>vx = 1, vy = - (1 / 2)\<rparr>, ldir = \<lparr>vx = 1, vy = 0\<rparr>\<rparr>)"
  by (simp add: fitLine_def toy_picks_def toy_params_def default_plan_params_def ransac_try_def pca_pass_def vec_defs
      forward_def inlier_def hypot_def atan2_forward vsum_def)

lemma toy_plan: "\<exists>r. plan toy_params toy_picks toy_map toy_pose LEFT 3 = Some (Inr r)"
proof -
  let ?pts = "[\<lparr>vx = 1 / 2, vy = - (1 / 2)\<rparr>, \<lparr>vx = 3 / 2, vy = - (1 / 2)\<rparr>] :: vec2 list"
  let ?rd = "\<lparr>rd_dir = \<lparr>vx = 1, vy = 0\<rparr>, rd_right = Some (- (1 / 2)), rd_left = None, rd_measured = 0, rd_warn = []\<rparr>"
  have cand: "right_cand toy_params 3 ?pts = ?pts" "left_cand toy_params 3 ?pts = []"
    by (simp_all add: right_cand_def left_cand_def y_split_def toy_params_def default_plan_params_def)
  have "fitLine toy_params toy_picks [] = Inr None"
    by (simp add: fitLine_def toy_params_def)
  then have rd: "find_road toy_params toy_picks ?pts 3 = Inr ?rd"
    by (simp add: find_road_def cand toy_line road_of_def vec_defs)
  have ok: "0 < (3::real)" "\<not> map_is_bad toy_map"
    by (simp_all add: map_is_bad_def toy_map_def)
  have ends: "fst (intersection_start toy_params (road_ends toy_params ?pts limit ?rd)) \<in> {3 / 2, 1}" for limit
    by (simp add: intersection_start_def road_ends_def lineEnd_def map_filter_simps vec_defs toy_params_def
        default_plan_params_def)
  have fin: "\<exists>r. finish_plan toy_params toy_map toy_pose LEFT 3 ?pts ?rd limit = Inr r" for limit
  proof -
    obtain s v where s: "intersection_start toy_params (road_ends toy_params ?pts limit ?rd) = (s, v)" by force
    then have "s = 3 / 2 \<or> s = 1" using ends [of limit] by simp
    then obtain g where "turn_geometry toy_params LEFT 3 s = Some g"
      by (auto simp: turn_geometry_def Let_def natural_radius_def toy_params_def default_plan_params_def)
    with s show ?thesis
      by (simp add: finish_plan_def Let_def split: option.splits)
  qed
  have "0 < lm_resolution toy_map" by (simp add: toy_map_def)
  then obtain e where "extentAlong toy_map \<lparr>vx = px toy_pose, vy = py toy_pose\<rparr>
      \<lparr>vx = cos (pyaw toy_pose) * vx (rd_dir ?rd) - sin (pyaw toy_pose) * vy (rd_dir ?rd),
       vy = sin (pyaw toy_pose) * vx (rd_dir ?rd) + cos (pyaw toy_pose) * vy (rd_dir ?rd)\<rparr> = Some e"
    using extent_returns unfolding extentAlong_def by blast
  then have "plan toy_params toy_picks toy_map toy_pose LEFT 3 =
      Some (finish_plan toy_params toy_map toy_pose LEFT 3 ?pts ?rd (min (roi_front toy_params) e))"
    unfolding plan_def Let_def toy_points rd sum.case option.case if_not_P [OF ok(2)] using ok(1) by simp
  with fin show ?thesis by fastforce
qed

theorem plan_always_answers_witness:
  "\<exists>r. plan toy_params toy_picks toy_map toy_pose LEFT 3 = Some r \<and>
     r \<noteq> Inl Out_Of_Bounds \<and> r \<noteq> Inl Outside_Points \<and> r \<noteq> Inl Nan_Line"
  using plan_always_answers [OF toy_picks_range, of toy_params toy_map toy_pose LEFT 3]
  by (auto simp: toy_params_def)

theorem turn_joins_robot_to_exit_lane_witness:
  "\<exists>r R L u. plan toy_params toy_picks toy_map toy_pose LEFT 3 = Some (Inr r) \<and>
     fitLine toy_params toy_picks (right_cand toy_params 3 (roi_points toy_params toy_map toy_pose 3)) = Inr R \<and>
     fitLine toy_params toy_picks (left_cand toy_params 3 (roi_points toy_params toy_map toy_pose 3)) = Inr L \<and> 0 \<le> u \<and>
     pose_point (last (pr_path r)) =
       place toy_pose (lines_dir R L (used_left_line (pr_debug r))) (lane_center_offset (pr_debug r))
       \<lparr>vx = dist_to_intersection (pr_debug r) + 9 / 4, vy = turn_radius (pr_debug r) + u\<rparr>"
proof -
  obtain r where r: "plan toy_params toy_picks toy_map toy_pose LEFT 3 = Some (Inr r)"
    using toy_plan by blast
  have p: "1 / 10 ^ 6 < merge_length toy_params" "0 \<le> exit_length toy_params" "natural_radius toy_params LEFT 3 = 9 / 4"
    "LEFT \<noteq> STRAIGHT" "sigma LEFT = 1"
    by (simp_all add: toy_params_def default_plan_params_def natural_radius_def sigma_def)
  from turn_joins_robot_to_exit_lane [OF r p(4,1,2) refl refl refl refl] show ?thesis
    using r unfolding p(3,5) mult_1 by blast
qed

theorem blocked_fraction_is_exact_witness:
  "\<exists>r. plan toy_params toy_picks toy_map toy_pose LEFT 3 = Some (Inr r) \<and>
    blocked_fraction (pr_debug r) * of_nat (length (pr_path r)) =
      of_nat (length (filter (obstructed toy_params toy_map) (pr_path r)))"
proof -
  obtain r where "plan toy_params toy_picks toy_map toy_pose LEFT 3 = Some (Inr r)"
    using toy_plan by blast
  with blocked_fraction_is_exact [OF this] show ?thesis by blast
qed

end
