(* ===== verification/Intersection_Server.thy ===== *)
theory Intersection_Server
  imports Intersection_Planner Messages
begin

text \<open>
  \<open>src/intersection_ws/intersection_cpp/src/IntersectionServer.cpp\<close>: the acceptance of a goal, the planning
  part of \<open>execute\<close> and its monitor loop. A manoeuvre runs in its own thread; the flag \<open>busy_\<close> lets one
  goal in at a time, so the state has at most one job. An event is a costmap message, a goal request, the start of
  the accepted job (with the TF buffer and the clock it then sees) or one pass of the monitor loop
  (with what that pass observes: whether the node runs, a cancel request, the clock, the robot pose). The
  road width of a goal is tested as a float; the planner gets its finite value.
\<close>

section \<open>Data\<close>

type_synonym turn_code = "8 word"

record inter_goal =
  ig_turn :: turn_code
  ig_width :: dbl

record rigid_tf =
  rt_x :: real
  rt_y :: real
  rt_quat :: "real \<times> real \<times> real \<times> real"

record map_msg =
  mm_header :: header
  mm_map :: local_map

record server_config =
  sv_base_frame :: string
  sv_global_frame :: string
  goal_tolerance :: real
  max_path_deviation :: real
  sv_timeout :: real
  abort_if_blocked :: bool
  blocked_abort_fraction :: real
  sv_params :: plan_params

datatype abort_reason =
    Tf_Failed string
  | Planning_Failed plan_error
  | Path_Blocked
  | No_Global_Path
  | Timed_Out
  | Deviated real

datatype outcome = Succeeded | Canceled | Aborted abort_reason | Shut_Down

datatype server_out =
    Feedback string real
  | Published "pose2d list"
  | Ended outcome

datatype goal_answer = REJECT | ACCEPT_AND_EXECUTE

section \<open>Frames\<close>

definition robot_lookup :: "server_config \<Rightarrow> rigid_tf lookup \<Rightarrow> string \<Rightarrow> real \<Rightarrow> pose2d option" where
  \<comment> \<open>\<open>lookup_robot_pose\<close>; a stamp of zero asks for the latest transform\<close>
  "robot_lookup c tf frame st =
    (let pose = (\<lambda>t. \<lparr>px = rt_x t, py = rt_y t, pyaw = yaw_of_quat (rt_quat t)\<rparr>) in
     case tf frame (sv_base_frame c) (if st = 0 then None else Some st) of
       Inr t \<Rightarrow> Some (pose t)
     | Inl e \<Rightarrow> (case tf frame (sv_base_frame c) None of Inr t \<Rightarrow> Some (pose t) | Inl e' \<Rightarrow> None))"

definition move_pose :: "rigid_tf \<Rightarrow> pose2d \<Rightarrow> pose2d" where
  "move_pose t p =
    (let yaw = yaw_of_quat (rt_quat t); c = cos yaw; s = sin yaw in
     \<lparr>px = rt_x t + c * px p - s * py p, py = rt_y t + s * px p + c * py p, pyaw = pyaw p + yaw\<rparr>)"

definition to_global_frame ::
  "server_config \<Rightarrow> rigid_tf lookup \<Rightarrow> pose2d list \<Rightarrow> string \<Rightarrow> real \<Rightarrow> pose2d list option" where
  "to_global_frame c tf path frame st =
    (if frame = sv_global_frame c then Some path
     else case tf (sv_global_frame c) frame (if st = 0 then None else Some st) of
       Inr t \<Rightarrow> Some (map (move_pose t) path)
     | Inl e \<Rightarrow> (case tf (sv_global_frame c) frame None of
         Inr t \<Rightarrow> Some (map (move_pose t) path)
       | Inl e' \<Rightarrow> None))"

section \<open>Goals\<close>

record maneuver =
  mv_goal :: inter_goal
  mv_path :: "pose2d list"
  mv_start :: real
  mv_idx :: nat

datatype job = Waiting inter_goal | Driving maneuver

record server =
  busy :: bool
  latest_costmap :: "map_msg option"
  running :: "job option"

definition new_server :: server where
  "new_server = \<lparr>busy = False, latest_costmap = None, running = None\<rparr>"

definition costmap_callback :: "map_msg \<Rightarrow> server \<Rightarrow> server" where
  "costmap_callback m s = s\<lparr>latest_costmap := Some m\<rparr>"

definition handle_goal :: "inter_goal \<Rightarrow> server \<Rightarrow> goal_answer \<times> server" where
  "handle_goal g s =
    (if ig_turn g > 2 then (REJECT, s)
     else if \<not> ig_width g > Fin 0 then (REJECT, s)
     else if (case latest_costmap s of None \<Rightarrow> True | Some m \<Rightarrow> lm_data (mm_map m) = []) then (REJECT, s)
     else if busy s then (REJECT, s)
     else (ACCEPT_AND_EXECUTE, s\<lparr>busy := True\<rparr>))"

definition handle_accepted :: "inter_goal \<Rightarrow> server \<Rightarrow> server" where
  "handle_accepted g s = s\<lparr>running := Some (Waiting g)\<rparr>"

section \<open>Execution\<close>

definition turn_name :: "turn_code \<Rightarrow> string" where
  "turn_name t = (if t = 1 then ''left turn'' else if t = 2 then ''right turn'' else ''straight'')"

definition first_state :: "turn_code \<Rightarrow> string" where
  "first_state t = (if t = 1 then ''Initiating left turn'' else if t = 2 then ''Initiating right turn''
     else ''Proceeding straight'')"

definition turn_of :: "turn_code \<Rightarrow> turn" where
  "turn_of t = (if t = 0 then STRAIGHT else if t = 1 then LEFT else RIGHT)"

definition abort_with :: "abort_reason \<Rightarrow> server_out list" where
  "abort_with e = [Published [], Ended (Aborted e)]"

definition plan_path ::
  "server_config \<Rightarrow> (nat \<Rightarrow> nat \<Rightarrow> nat \<times> nat) \<Rightarrow> rigid_tf lookup \<Rightarrow> inter_goal \<Rightarrow> map_msg \<Rightarrow> (abort_reason + pose2d list) option"
where
  \<comment> \<open>the part of \<open>execute\<close> before the monitor loop; \<open>None\<close> if the planner did not return\<close>
  "plan_path c picks tf g m =
    (let frame = frame_id (mm_header m); st = stamp (mm_header m) in
     case robot_lookup c tf frame st of
       None \<Rightarrow> Some (Inl (Tf_Failed frame))
     | Some pose \<Rightarrow>
        (case plan (sv_params c) picks (mm_map m) pose (turn_of (ig_turn g)) (val_of (ig_width g)) of
           None \<Rightarrow> None
         | Some (Inl e) \<Rightarrow> Some (Inl (Planning_Failed e))
         | Some (Inr r) \<Rightarrow>
            if abort_if_blocked c \<and> blocked_fraction (pr_debug r) > blocked_abort_fraction c then Some (Inl Path_Blocked)
            else case to_global_frame c tf (pr_path r) frame st of
              None \<Rightarrow> Some (Inl No_Global_Path)
            | Some path \<Rightarrow> if length path < 2 then Some (Inl No_Global_Path) else Some (Inr path)))"

definition start_job ::
  "server_config \<Rightarrow> (nat \<Rightarrow> nat \<Rightarrow> nat \<times> nat) \<Rightarrow> rigid_tf lookup \<Rightarrow> real \<Rightarrow> server \<Rightarrow> server_out list \<times> server" where
  "start_job c picks tf t s =
    (case running s of
       Some (Waiting g) \<Rightarrow>
         (let fb = Feedback (first_state (ig_turn g)) 0 in
          case latest_costmap s of
            None \<Rightarrow> ([fb], s)
          | Some m \<Rightarrow> (case plan_path c picks tf g m of
              None \<Rightarrow> ([fb], s)
            | Some (Inl e) \<Rightarrow> (fb # abort_with e, s\<lparr>busy := False, running := None\<rparr>)
            | Some (Inr path) \<Rightarrow> ([fb, Published path],
                s\<lparr>running := Some (Driving \<lparr>mv_goal = g, mv_path = path, mv_start = t, mv_idx = 0\<rparr>)\<rparr>)))
     | _ \<Rightarrow> ([], s))"

fun cum_from :: "real \<Rightarrow> pose2d list \<Rightarrow> real list" where
  "cum_from a [] = []"
| "cum_from a [p] = [a]"
| "cum_from a (p # q # ps) = a # cum_from (a + hypot (px q - px p) (py q - py p)) (q # ps)"

definition progress_at :: "pose2d list \<Rightarrow> nat \<Rightarrow> real" where
  "progress_at path i = (let cum = cum_from 0 path; total = max (last cum) (1 / 1000) in cum ! i / total)"

definition pose_dist :: "pose2d \<Rightarrow> pose2d \<Rightarrow> real" where
  "pose_dist p q = hypot (px p - px q) (py p - py q)"

definition closest :: "pose2d list \<Rightarrow> pose2d \<Rightarrow> nat \<Rightarrow> real \<times> nat" where
  \<comment> \<open>forward only, at most sixty poses ahead\<close>
  "closest path rp idx =
    fold (\<lambda>i (best, best_i). let d = pose_dist (path ! i) rp in if d < best then (d, i) else (best, best_i))
      [idx..<Suc (min (length path - 1) (idx + 60))] (10 ^ 9, idx)"

record observation =
  ob_ok :: bool
  ob_canceling :: bool
  ob_now :: real
  ob_pose :: "pose2d option"

definition monitor :: "server_config \<Rightarrow> observation \<Rightarrow> maneuver \<Rightarrow> server_out list \<times> maneuver option" where
  \<comment> \<open>one pass of the loop; \<open>None\<close> when \<open>execute\<close> returns\<close>
  "monitor c ob mv =
    (if \<not> ob_ok ob then ([Ended Shut_Down], None)
     else if ob_canceling ob then ([Published [], Ended Canceled], None)
     else if ob_now ob - mv_start mv > sv_timeout c then (abort_with Timed_Out, None)
     else case ob_pose ob of
       None \<Rightarrow> ([], Some mv)
     | Some rp \<Rightarrow>
        (let (best, i) = closest (mv_path mv) rp (mv_idx mv) in
         if best > max_path_deviation c then (abort_with (Deviated best), None)
         else let fb = Feedback (''Executing '' @ turn_name (ig_turn (mv_goal mv))) (progress_at (mv_path mv) i) in
           if pose_dist (last (mv_path mv)) rp < goal_tolerance c then
             ([fb, Feedback ''Intersection completed'' 1, Published [], Ended Succeeded], None)
           else ([fb], Some (mv\<lparr>mv_idx := i\<rparr>))))"

definition tick :: "server_config \<Rightarrow> observation \<Rightarrow> server \<Rightarrow> server_out list \<times> server" where
  "tick c ob s =
    (case running s of
       Some (Driving mv) \<Rightarrow>
         (let (outs, r) = monitor c ob mv in
          (outs, case r of None \<Rightarrow> s\<lparr>busy := False, running := None\<rparr>
                 | Some mv' \<Rightarrow> s\<lparr>running := Some (Driving mv')\<rparr>))
     | _ \<Rightarrow> ([], s))"

section \<open>Runs of the server\<close>

datatype server_event =
    Costmap map_msg
  | Goal_Request inter_goal
  | Start "rigid_tf lookup" real
  | Tick observation

definition server_event_step ::
  "server_config \<Rightarrow> (nat \<Rightarrow> nat \<Rightarrow> nat \<times> nat) \<Rightarrow> server_event \<Rightarrow> server \<Rightarrow> (goal_answer list \<times> server_out list) \<times> server" where
  "server_event_step c picks e s =
    (case e of
       Costmap m \<Rightarrow> (([], []), costmap_callback m s)
     | Goal_Request g \<Rightarrow> (case handle_goal g s of
         (ACCEPT_AND_EXECUTE, s') \<Rightarrow> (([ACCEPT_AND_EXECUTE], []), handle_accepted g s')
       | (REJECT, s') \<Rightarrow> (([REJECT], []), s'))
     | Start tf t \<Rightarrow> (let (outs, s') = start_job c picks tf t s in (([], outs), s'))
     | Tick ob \<Rightarrow> (let (outs, s') = tick c ob s in (([], outs), s')))"

primrec inter_server_run ::
  "server_config \<Rightarrow> (nat \<Rightarrow> nat \<Rightarrow> nat \<times> nat) \<Rightarrow> server_event list \<Rightarrow> server \<Rightarrow> (goal_answer list \<times> server_out list) \<times> server" where
  "inter_server_run c picks [] s = (([], []), s)"
| "inter_server_run c picks (e # es) s =
    (let ((rs, outs), s1) = server_event_step c picks e s; ((rs', outs'), s2) = inter_server_run c picks es s1 in
     ((rs @ rs', outs @ outs'), s2))"

section \<open>One manoeuvre at a time\<close>

definition latch :: "server_out \<Rightarrow> pose2d list \<Rightarrow> pose2d list" where
  \<comment> \<open>the path topic is latched: a late subscriber gets the last message\<close>
  "latch x l = (case x of Published p \<Rightarrow> p | _ \<Rightarrow> l)"

lemma latch_simps [simp]:
  "latch (Published p) l = p" "latch (Feedback t v) l = l" "latch (Ended e) l = l"
  by (simp_all add: latch_def)

definition endings :: "server_out list \<Rightarrow> nat" where
  "endings outs = length (filter (\<lambda>x. case x of Ended e \<Rightarrow> True | _ \<Rightarrow> False) outs)"

lemma endings_simps [simp]:
  "endings [] = 0" "endings (Ended e # xs) = Suc (endings xs)" "endings (Published p # xs) = endings xs"
  "endings (Feedback t v # xs) = endings xs" "endings (xs @ ys) = endings xs + endings ys"
  by (simp_all add: endings_def)

definition driven_path :: "server \<Rightarrow> pose2d list" where
  "driven_path s = (case running s of Some (Driving mv) \<Rightarrow> mv_path mv | _ \<Rightarrow> [])"

definition server_inv :: "server \<Rightarrow> bool" where
  "server_inv s \<longleftrightarrow> busy s = (running s \<noteq> None)"

definition jobs_of :: "server \<Rightarrow> nat" where
  "jobs_of s = (if busy s then 1 else 0)"

lemmas server_defs = server_event_step_def costmap_callback_def handle_goal_def handle_accepted_def
  start_job_def tick_def monitor_def abort_with_def driven_path_def server_inv_def jobs_of_def

lemma server_inv_step:
  assumes "server_inv s" "server_event_step c picks e s = ((rs, outs), s')"
  shows "server_inv s' \<and> jobs_of s + count_list rs ACCEPT_AND_EXECUTE = endings outs + jobs_of s'"
  using assms
  by (cases e) (auto simp: server_defs Let_def split: if_splits option.splits job.splits sum.splits prod.splits)

lemma latched_step:
  assumes "server_inv s" "server_event_step c picks e s = ((rs, outs), s')" "Ended Shut_Down \<notin> set outs"
    and "l = driven_path s"
  shows "fold latch outs l = driven_path s'"
  using assms
  by (cases e) (auto simp: server_defs Let_def split: if_splits option.splits job.splits sum.splits prod.splits)

lemma server_inv_run:
  "server_inv s \<Longrightarrow> inter_server_run c picks es s = ((rs, outs), s') \<Longrightarrow>
   server_inv s' \<and> jobs_of s + count_list rs ACCEPT_AND_EXECUTE = endings outs + jobs_of s'"
proof (induction es arbitrary: s rs outs s')
  case (Cons e es)
  obtain rs1 o1 s1 where st: "server_event_step c picks e s = ((rs1, o1), s1)" by (metis prod.collapse)
  obtain rs2 o2 s2 where r: "inter_server_run c picks es s1 = ((rs2, o2), s2)" by (metis prod.collapse)
  show ?case
    using server_inv_step [OF Cons.prems(1) st] Cons.IH [OF _ r] Cons.prems(2) st r by auto
qed simp

lemma latched_run:
  "server_inv s \<Longrightarrow> inter_server_run c picks es s = ((rs, outs), s') \<Longrightarrow> Ended Shut_Down \<notin> set outs \<Longrightarrow>
   fold latch outs (driven_path s) = driven_path s'"
proof (induction es arbitrary: s rs outs s')
  case (Cons e es)
  obtain rs1 o1 s1 where st: "server_event_step c picks e s = ((rs1, o1), s1)" by (metis prod.collapse)
  obtain rs2 o2 s2 where r: "inter_server_run c picks es s1 = ((rs2, o2), s2)" by (metis prod.collapse)
  have "server_inv s1" using server_inv_step [OF Cons.prems(1) st] by simp
  with latched_step [OF Cons.prems(1) st _ refl] Cons.IH [OF _ r] Cons.prems(2,3) st r
  show ?case by auto
qed simp

text \<open>
  C21: One manoeuvre at a time, and the latched path belongs to it. After any sequence of costmaps, goal requests,
  starts and loop passes, the accepted goals are the ended ones plus the one in progress if the server is busy;
  and as long as the node was not shut down in a manoeuvre, the last path published is the path being driven, and
  empty when none is.
\<close>

theorem server_runs_one_maneuver:
  assumes "inter_server_run c picks es new_server = ((rs, outs), s)"
  shows "busy s = (running s \<noteq> None) \<and>
    count_list rs ACCEPT_AND_EXECUTE = endings outs + (if busy s then 1 else 0) \<and>
    (Ended Shut_Down \<notin> set outs \<longrightarrow> fold latch outs [] = driven_path s)"
proof -
  have "server_inv new_server" "jobs_of new_server = 0" "driven_path new_server = []"
    by (simp_all add: server_inv_def new_server_def jobs_of_def driven_path_def)
  with server_inv_run [OF _ assms] latched_run [OF _ assms] show ?thesis
    by (simp add: server_inv_def jobs_of_def)
qed

section \<open>Progress\<close>

lemma cum_from_basic: "length (cum_from a ps) = length ps \<and> (\<forall>x \<in> set (cum_from a ps). a \<le> x) \<and> sorted (cum_from a ps)"
proof (induction a ps rule: cum_from.induct)
  case (3 a p q ps)
  have "0 \<le> hypot (px q - px p) (py q - py p)" by simp
  with 3 have "\<forall>x \<in> set (cum_from (a + hypot (px q - px p) (py q - py p)) (q # ps)). a \<le> x"
    by (meson le_add_same_cancel1 order_trans)
  with 3 show ?case by simp
qed auto

lemma progress_mono:
  assumes "i \<le> j" "j < length path"
  shows "0 \<le> progress_at path i \<and> progress_at path i \<le> progress_at path j \<and> progress_at path j \<le> 1"
proof -
  let ?cum = "cum_from 0 path" and ?total = "max (last (cum_from 0 path)) (1 / 1000)"
  have b: "length ?cum = length path" "\<forall>x \<in> set ?cum. 0 \<le> x" "sorted ?cum"
    using cum_from_basic by auto
  have "?cum ! i \<le> ?cum ! j" using b assms by (simp add: sorted_nth_mono)
  moreover have "?cum \<noteq> []" using b(1) assms(2) by auto
  then have "?cum ! j \<le> last ?cum" using b assms(2) by (simp add: last_conv_nth sorted_nth_mono)
  moreover have "0 \<le> ?cum ! i" using b(1,2) assms by (simp add: nth_mem)
  moreover have "0 < ?total" by simp
  ultimately show ?thesis
    by (simp add: progress_at_def Let_def divide_right_mono divide_le_eq_1)
qed

lemma closest_range:
  assumes "idx < length path"
  shows "idx \<le> snd (closest path rp idx) \<and> snd (closest path rp idx) < length path"
proof -
  show ?thesis
    unfolding closest_def
  proof (rule fold_invariant_list [where P = "\<lambda>bb. idx \<le> snd bb \<and> snd bb < length path"])
    fix i :: nat and bb :: "real \<times> nat"
    assume "i \<in> set [idx..<Suc (min (length path - 1) (idx + 60))]" "idx \<le> snd bb \<and> snd bb < length path"
    moreover from this(1) have "idx \<le> i \<and> i < length path" using assms by (simp del: upt_Suc) linarith
    ultimately show "idx \<le> snd ((case bb of (best, best_i) \<Rightarrow>
          let d = pose_dist (path ! i) rp in if d < best then (d, i) else (best, best_i))) \<and>
        snd ((case bb of (best, best_i) \<Rightarrow>
          let d = pose_dist (path ! i) rp in if d < best then (d, i) else (best, best_i))) < length path"
      by (cases bb) (simp add: Let_def)
  qed (use assms in simp)
qed

primrec drive :: "server_config \<Rightarrow> observation list \<Rightarrow> maneuver \<Rightarrow> server_out list \<times> maneuver option" where
  \<comment> \<open>the passes of the monitor loop over a sequence of observations\<close>
  "drive c [] mv = ([], Some mv)"
| "drive c (ob # obs) mv =
    (case monitor c ob mv of
       (outs, None) \<Rightarrow> (outs, None)
     | (outs, Some mv') \<Rightarrow> (let (outs', r) = drive c obs mv' in (outs @ outs', r)))"

definition feedbacks :: "server_out list \<Rightarrow> real list" where
  "feedbacks outs = List.map_filter (\<lambda>x. case x of Feedback t v \<Rightarrow> Some v | _ \<Rightarrow> None) outs"

lemma feedbacks_simps [simp]:
  "feedbacks [] = []" "feedbacks (Feedback t v # xs) = v # feedbacks xs"
  "feedbacks (Published p # xs) = feedbacks xs" "feedbacks (Ended e # xs) = feedbacks xs"
  "feedbacks (xs @ ys) = feedbacks xs @ feedbacks ys"
  by (simp_all add: feedbacks_def map_filter_simps map_filter_def)

lemma monitor_progress:
  assumes "monitor c ob mv = (outs, r)" "mv_idx mv < length (mv_path mv)"
  shows "(\<forall>v \<in> set (feedbacks outs). progress_at (mv_path mv) (mv_idx mv) \<le> v \<and> v \<le> 1) \<and> sorted (feedbacks outs) \<and>
    (\<forall>mv'. r = Some mv' \<longrightarrow> mv_path mv' = mv_path mv \<and> mv_idx mv' < length (mv_path mv) \<and> mv_start mv' = mv_start mv \<and>
      mv_idx mv \<le> mv_idx mv' \<and> (\<forall>v \<in> set (feedbacks outs). v \<le> progress_at (mv_path mv) (mv_idx mv')))"
proof -
  have "progress_at (mv_path mv) (mv_idx mv) \<le> progress_at (mv_path mv) (snd (closest (mv_path mv) rp (mv_idx mv))) \<and>
      progress_at (mv_path mv) (snd (closest (mv_path mv) rp (mv_idx mv))) \<le> 1" for rp
    using closest_range [OF assms(2), of rp] progress_mono by blast
  moreover have "progress_at (mv_path mv) (mv_idx mv) \<le> 1"
    using progress_mono [OF order_refl assms(2)] by simp
  ultimately have le: "progress_at (mv_path mv) (mv_idx mv) \<le> progress_at (mv_path mv) (snd (closest (mv_path mv) rp (mv_idx mv)))"
      "progress_at (mv_path mv) (snd (closest (mv_path mv) rp (mv_idx mv))) \<le> 1" "progress_at (mv_path mv) (mv_idx mv) \<le> 1" for rp
    by simp_all
  show ?thesis
    using assms closest_range [OF assms(2)]
    by (auto simp: monitor_def abort_with_def Let_def split_beta le split: if_splits option.splits)
qed

lemma drive_progress:
  "mv_idx mv < length (mv_path mv) \<Longrightarrow> drive c obs mv = (outs, r) \<Longrightarrow>
   sorted (feedbacks outs) \<and> (\<forall>v \<in> set (feedbacks outs). progress_at (mv_path mv) (mv_idx mv) \<le> v \<and> v \<le> 1)"
proof (induction obs arbitrary: mv outs r)
  case (Cons ob obs)
  obtain o1 r1 where m: "monitor c ob mv = (o1, r1)" by force
  note first = monitor_progress [OF m Cons.prems(1)]
  show ?case
  proof (cases r1)
    case (Some mv')
    obtain o2 r2 where d: "drive c obs mv' = (o2, r2)" by force
    have outs: "outs = o1 @ o2" using Cons.prems(2) m Some d by simp
    have same: "mv_path mv' = mv_path mv" "mv_idx mv' < length (mv_path mv)" "mv_idx mv \<le> mv_idx mv'"
      using first Some by auto
    have "progress_at (mv_path mv) (mv_idx mv) \<le> progress_at (mv_path mv) (mv_idx mv')"
      using progress_mono [OF same(3,2)] by simp
    with Cons.IH [OF _ d] same first Some show ?thesis
      unfolding outs by (fastforce simp: sorted_append)
  qed (use first m Cons.prems(2) in auto)
qed simp

text \<open>
  The reported progress never goes back. Over any sequence of loop passes the progress values a manoeuvre
  reports are in ascending order and between 0 and 1.
\<close>

theorem progress_never_goes_back:
  assumes "mv_idx mv < length (mv_path mv)" and "drive c obs mv = (outs, r)"
  shows "sorted (feedbacks outs) \<and> (\<forall>v \<in> set (feedbacks outs). 0 \<le> v \<and> v \<le> 1)"
  using drive_progress [OF assms] progress_mono [OF order_refl assms(1)] by fastforce

lemma monitor_ends:
  assumes "monitor c ob mv = (outs, r)"
  shows "endings outs = (if r = None then 1 else 0) \<and> (\<forall>mv'. r = Some mv' \<longrightarrow> mv_path mv' = mv_path mv \<and> mv_start mv' = mv_start mv) \<and>
    (ob_now ob - mv_start mv > sv_timeout c \<longrightarrow> r = None) \<and>
    (Ended Succeeded \<in> set outs \<longrightarrow> ob_now ob - mv_start mv \<le> sv_timeout c \<and>
      (\<exists>rp. ob_pose ob = Some rp \<and> pose_dist (last (mv_path mv)) rp < goal_tolerance c))"
  using assms by (auto simp: monitor_def abort_with_def Let_def split: if_splits option.splits prod.splits)

lemma drive_ends:
  "drive c obs mv = (outs, r) \<Longrightarrow>
   endings outs = (if r = None then 1 else 0) \<and>
   ((\<exists>ob \<in> set obs. ob_now ob - mv_start mv > sv_timeout c) \<longrightarrow> r = None) \<and>
   (Ended Succeeded \<in> set outs \<longrightarrow> (\<exists>ob \<in> set obs. \<exists>rp. ob_now ob - mv_start mv \<le> sv_timeout c \<and>
     ob_pose ob = Some rp \<and> pose_dist (last (mv_path mv)) rp < goal_tolerance c))"
proof (induction obs arbitrary: mv outs r)
  case (Cons ob obs)
  obtain o1 r1 where m: "monitor c ob mv = (o1, r1)" by force
  note first = monitor_ends [OF m]
  show ?case
  proof (cases r1)
    case (Some mv')
    obtain o2 r2 where d: "drive c obs mv' = (o2, r2)" by force
    with Cons.IH [OF d] Cons.prems m Some first show ?thesis by (auto split: if_splits)
  qed (use first m Cons.prems in auto)
qed simp

text \<open>
  C22: A manoeuvre ends, and success means arrival. A run of the monitor loop that gets past the timeout has ended,
  with exactly one final result; and when the result is a success, some pass saw the robot within the goal
  tolerance of the last pose, before the timeout.
\<close>

theorem maneuver_ends_by_timeout:
  assumes "drive c obs mv = (outs, r)" and "ob \<in> set obs" and "ob_now ob - mv_start mv > sv_timeout c"
  shows "r = None \<and> endings outs = 1 \<and>
    (Ended Succeeded \<in> set outs \<longrightarrow> (\<exists>ob \<in> set obs. \<exists>rp. ob_now ob - mv_start mv \<le> sv_timeout c \<and>
      ob_pose ob = Some rp \<and> pose_dist (last (mv_path mv)) rp < goal_tolerance c))"
  using drive_ends [OF assms(1)] assms(2,3) by auto

section \<open>Witnesses\<close>

definition server_test :: server_config where
  "server_test = \<lparr>sv_base_frame = ''link_base'', sv_global_frame = ''odom'', goal_tolerance = 0.5,
     max_path_deviation = 1.5, sv_timeout = 60, abort_if_blocked = False, blocked_abort_fraction = 0.2,
     sv_params = default_plan_params\<rparr>"

definition left_goal :: inter_goal where
  "left_goal = \<lparr>ig_turn = 1, ig_width = Fin 3\<rparr>"

definition toy_msg :: map_msg where
  "toy_msg = \<lparr>mm_header = \<lparr>stamp = 1, frame_id = ''odom''\<rparr>, mm_map = toy_map\<rparr>"

definition no_tf :: "rigid_tf lookup" where
  "no_tf target source t = Inl LookupError"

theorem server_runs_one_maneuver_witness:
  "\<exists>rs outs s. inter_server_run server_test toy_picks
      [Goal_Request left_goal, Costmap toy_msg, Goal_Request left_goal, Goal_Request left_goal, Start no_tf 2, Goal_Request left_goal]
      new_server = ((rs, outs), s) \<and>
    rs = [REJECT, ACCEPT_AND_EXECUTE, REJECT, ACCEPT_AND_EXECUTE] \<and> endings outs = 1 \<and> busy s \<and> fold latch outs [] = []"
proof -
  let ?es = "[Goal_Request left_goal, Costmap toy_msg, Goal_Request left_goal, Goal_Request left_goal, Start no_tf 2, Goal_Request left_goal]"
  let ?outs = "[Feedback ''Initiating left turn'' 0, Published [], Ended (Aborted (Tf_Failed ''odom''))]"
  let ?rs = "[REJECT, ACCEPT_AND_EXECUTE, REJECT, ACCEPT_AND_EXECUTE]"
  let ?s = "\<lparr>busy = True, latest_costmap = Some toy_msg, running = Some (Waiting left_goal)\<rparr>"
  have "inter_server_run server_test toy_picks ?es new_server = ((?rs, ?outs), ?s)"
    by (simp add: server_defs new_server_def left_goal_def toy_msg_def toy_map_def plan_path_def robot_lookup_def no_tf_def
        first_state_def Let_def)
  from server_runs_one_maneuver [OF this] this show ?thesis
    by (intro exI [of _ ?rs] exI [of _ ?outs] exI [of _ ?s]) (simp add: driven_path_def)
qed

definition two_poses :: maneuver where
  "two_poses = \<lparr>mv_goal = left_goal, mv_path = [\<lparr>px = 0, py = 0, pyaw = 0\<rparr>, \<lparr>px = 4, py = 0, pyaw = 0\<rparr>],
     mv_start = 10, mv_idx = 0\<rparr>"

definition sees :: "real \<Rightarrow> real \<Rightarrow> observation" where
  "sees t x = \<lparr>ob_ok = True, ob_canceling = False, ob_now = t, ob_pose = Some \<lparr>px = x, py = 0, pyaw = 0\<rparr>\<rparr>"

theorem progress_never_goes_back_witness:
  "sorted (feedbacks (fst (drive server_test [sees 11 1, sees 12 3, sees 13 2.8] two_poses)))"
proof -
  have "mv_idx two_poses < length (mv_path two_poses)" by (simp add: two_poses_def)
  from progress_never_goes_back [OF this surjective_pairing] show ?thesis by blast
qed

theorem maneuver_ends_by_timeout_witness:
  "snd (drive server_test [sees 11 1, sees 71 1] two_poses) = None"
proof -
  have late: "sees 71 1 \<in> set [sees 11 1, sees 71 1]" "ob_now (sees 71 1) - mv_start two_poses > sv_timeout server_test"
    by (simp_all add: two_poses_def server_test_def sees_def)
  from maneuver_ends_by_timeout [OF surjective_pairing late] show ?thesis by blast
qed

end
