(* ===== verification/Lidar_Processor.thy ===== *)
theory Lidar_Processor
  imports Messages
begin

text \<open>
  \<open>src/lidar_perception_cpp/src/lidar_processor.cpp\<close>, class \<open>LidarProcessor\<close>: the table of beam directions, the
  levelling of the scan by the pitch, the gradient test between neighbouring rings, the clearing cloud and the
  two published clouds. The box filter, the voxel filter and the Euler angles of a quaternion belong to PCL and
  TF and are parameters. The loop counters of the gradient test are 32-bit unsigned and mix with \<open>int\<close>
  sizes, as in the source; a negative index would be outside the vector there.
\<close>

section \<open>Parameters and state\<close>

record lidar_config =
  gradientThresh :: real
  hMin :: real
  horizSamples :: int
  vertSamples :: int
  crop_min :: point3
  crop_max :: point3
  lidarHeight :: real
  maxRange :: real
  hAngleMin :: real
  hAngleMax :: real
  vAngleMin :: real
  vAngleMax :: real

definition maxRangeSq :: "lidar_config \<Rightarrow> real" where
  "maxRangeSq c = maxRange c * maxRange c"

type_synonym dpoint = "dbl \<times> dbl \<times> dbl"

record lidar_state =
  currentPitch :: real

definition new_lidar :: lidar_state where
  "new_lidar = \<lparr>currentPitch = 0\<rparr>"

section \<open>Beam directions\<close>

definition sample_angle :: "real \<Rightarrow> real \<Rightarrow> int \<Rightarrow> nat \<Rightarrow> real" where
  "sample_angle lo hi n k = lo + (if n > 1 then of_nat k * (hi - lo) / of_int (n - 1) else 0)"

definition beam_dir :: "lidar_config \<Rightarrow> nat \<Rightarrow> nat \<Rightarrow> point3" where
  "beam_dir c v u =
    (let vAngle = sample_angle (vAngleMin c) (vAngleMax c) (vertSamples c) v;
         hAngle = sample_angle (hAngleMin c) (hAngleMax c) (horizSamples c) u in
     (cos vAngle * cos hAngle, cos vAngle * sin hAngle, sin vAngle))"

definition beamDirections :: "lidar_config \<Rightarrow> point3 list" where
  "beamDirections c =
     concat (map (\<lambda>v. map (beam_dir c v) [0..<nat (horizSamples c)]) [0..<nat (vertSamples c)])"

section \<open>Levelling the scan\<close>

type_synonym affine = "point3 \<Rightarrow> point3"

definition translation :: "point3 \<Rightarrow> affine" where
  "translation t p = vadd t p"

definition rotate_y :: "real \<Rightarrow> affine" where
  "rotate_y a p = (case p of (x, y, z) \<Rightarrow> (cos a * x + sin a * z, y, - sin a * x + cos a * z))"

definition level_transform :: "lidar_config \<Rightarrow> real \<Rightarrow> affine" where
  \<comment> \<open>\<open>pretranslate\<close> composes on the left, \<open>rotate\<close> on the right\<close>
  "level_transform c pitch =
    (let t = id;
         t = translation (0, 0, lidarHeight c) \<circ> t;
         t = t \<circ> rotate_y pitch;
         t = translation (0, 0, - lidarHeight c) \<circ> t in t)"

fun finite_point :: "dpoint \<Rightarrow> bool" where
  "finite_point (x, y, z) \<longleftrightarrow> isfinite x \<and> isfinite y \<and> isfinite z"

fun reals_of :: "dpoint \<Rightarrow> point3" where
  "reals_of (x, y, z) = (val_of x, val_of y, val_of z)"

fun dbls_of :: "point3 \<Rightarrow> dpoint" where
  "dbls_of (x, y, z) = (Fin x, Fin y, Fin z)"

definition transform_point :: "affine \<Rightarrow> dpoint \<Rightarrow> dpoint" where
  \<comment> \<open>\<open>pcl::transformPointCloud\<close> leaves a point with a non-finite coordinate as it is\<close>
  "transform_point t p = (if finite_point p then dbls_of (t (reals_of p)) else p)"

section \<open>The gradient test\<close>

definition quotient :: "real \<Rightarrow> dbl \<Rightarrow> dbl" where
  \<comment> \<open>a finite numerator over a run that is not zero\<close>
  "quotient a b = (case b of Fin r \<Rightarrow> Fin (a / r) | PInf \<Rightarrow> Fin 0 | NInf \<Rightarrow> Fin 0 | NaN \<Rightarrow> NaN)"

definition gradient_of :: "dpoint \<Rightarrow> dpoint \<Rightarrow> dbl option" where
  \<comment> \<open>\<open>None\<close> where the loop body continues without a gradient\<close>
  "gradient_of p1 p2 = (case (p1, p2) of ((ax, ay, az), (bx, bdy, bz)) \<Rightarrow>
     if \<not> isfinite ax \<or> \<not> isfinite bx \<or> \<not> isfinite az \<or> \<not> isfinite bz then None
     else
      (let dZ = \<bar>val_of bz - val_of az\<bar>; dX = ax - bx; dY = ay - bdy; run = dsqrt (dX * dX + dY * dY) in
       if run = Fin 0 then (if dZ = 0 then None else Some (Fin 999))
       else Some (quotient dZ run)))"

definition kept_point :: "lidar_config \<Rightarrow> dpoint \<Rightarrow> bool" where
  "kept_point c p = (case p of (x, y, z) \<Rightarrow> z \<ge> Fin (hMin c) \<and> x * x + y * y \<le> Fin (maxRangeSq c))"

definition pair_points :: "lidar_config \<Rightarrow> dpoint \<Rightarrow> dpoint \<Rightarrow> dpoint \<Rightarrow> dpoint \<Rightarrow> dpoint list" where
  \<comment> \<open>what the loop body appends for two levelled points and their raw points\<close>
  "pair_points c p1 p2 raw1 raw2 =
    (case gradient_of p1 p2 of
       None \<Rightarrow> []
     | Some g \<Rightarrow>
        if g > Fin (gradientThresh c) \<and> snd (snd p2) \<ge> Fin (hMin c) then
          (if kept_point c p1 then [raw1] else []) @ (if kept_point c p2 then [raw2] else [])
        else [])"

definition loop_index :: "lidar_config \<Rightarrow> u32 \<Rightarrow> u32 \<Rightarrow> int" where
  \<comment> \<open>unsigned 32-bit arithmetic, then the conversion to \<open>int\<close>\<close>
  "loop_index c v u = sint (v * word_of_int (horizSamples c) + u)"

definition u32_below :: "u32 \<Rightarrow> u32 list" where
  "u32_below n = map word_of_nat [0..<unat n]"

definition max_index :: "nat \<Rightarrow> int" where
  \<comment> \<open>\<open>size() - 1\<close>, converted to \<open>int\<close>\<close>
  "max_index n = sint (word_of_int (int n - 1) :: u32)"

definition obstacle_points :: "lidar_config \<Rightarrow> dpoint list \<Rightarrow> dpoint list \<Rightarrow> dpoint list" where
  "obstacle_points c raw rotated =
    (let maxIdx = max_index (length rotated) in
     concat (map (\<lambda>v. concat (map (\<lambda>u.
         let i = loop_index c v u; j = loop_index c (v + 1) u in
         if j > maxIdx then []
         else pair_points c (rotated ! nat i) (rotated ! nat j) (raw ! nat i) (raw ! nat j))
       (u32_below (word_of_int (horizSamples c))))) (u32_below (word_of_int (vertSamples c - 1)))))"

section \<open>The clearing cloud\<close>

definition clearing_point :: "lidar_config \<Rightarrow> point3 list \<Rightarrow> nat \<Rightarrow> dpoint \<Rightarrow> dpoint" where
  "clearing_point c dirs i p = (case p of (x, y, z) \<Rightarrow>
     if isfinite x \<and> isfinite y \<and> isfinite z \<and> x * x + y * y \<le> Fin (maxRangeSq c) then p
     else if i < length dirs then dbls_of (vscale (maxRange c) (dirs ! i))
     else (NaN, NaN, NaN))"

definition clearing_points :: "lidar_config \<Rightarrow> dpoint list \<Rightarrow> dpoint list" where
  "clearing_points c raw = map (\<lambda>i. clearing_point c (beamDirections c) i (raw ! i)) [0..<length raw]"

section \<open>Callbacks\<close>

record lidar_filters =
  crop_outside :: "point3 \<Rightarrow> point3 \<Rightarrow> dpoint list \<Rightarrow> dpoint list"
  voxel :: "real \<Rightarrow> dpoint list \<Rightarrow> dpoint list"

record lidar_out =
  obstacle_cloud :: "header \<times> dpoint list"
  clearing_cloud :: "header \<times> dpoint list"

definition lidarCallback :: "lidar_config \<Rightarrow> lidar_filters \<Rightarrow> header \<Rightarrow> dpoint list \<Rightarrow> lidar_state \<Rightarrow> lidar_out" where
  "lidarCallback c f h raw s =
    (let rotated = map (transform_point (level_transform c (currentPitch s))) raw;
         cropped = crop_outside f (crop_min c) (crop_max c) (obstacle_points c raw rotated);
         ranged = crop_outside f (crop_min c) (crop_max c) (clearing_points c raw) in
     \<lparr>obstacle_cloud = (h, voxel f 0.05 cropped), clearing_cloud = (h, voxel f 0.1 ranged)\<rparr>)"

definition imuCallback :: "('q \<Rightarrow> real \<times> real \<times> real) \<Rightarrow> 'q \<Rightarrow> lidar_state \<Rightarrow> lidar_state" where
  "imuCallback rpy q s = (let (roll, pitch, yaw) = rpy q in s\<lparr>currentPitch := pitch\<rparr>)"

section \<open>The lidar height has no effect\<close>

lemma level_transform_eq: "level_transform c pitch = rotate_y pitch"
proof
  fix p :: point3
  show "level_transform c pitch p = rotate_y pitch p"
    by (cases p) (simp add: level_transform_def translation_def rotate_y_def Let_def)
qed

section \<open>Index arithmetic\<close>

definition sane :: "lidar_config \<Rightarrow> bool" where
  \<comment> \<open>the scan has beams, and all its indices are 32-bit integers\<close>
  "sane c \<longleftrightarrow> 0 < horizSamples c \<and> 0 < vertSamples c \<and> horizSamples c * vertSamples c < 2 ^ 31"

lemma u32_below_of_int: "0 \<le> n \<Longrightarrow> n < 2 ^ 31 \<Longrightarrow> u32_below (word_of_int n) = map word_of_nat [0..<nat n]"
  by (simp add: u32_below_def unsigned_of_int take_bit_int_eq_self)

lemma loop_index_exact:
  assumes "int v * horizSamples c + int u < 2 ^ 31" "0 \<le> horizSamples c"
  shows "loop_index c (word_of_nat v) (word_of_nat u) = int v * horizSamples c + int u"
proof -
  have "word_of_nat v * word_of_int (horizSamples c) + word_of_nat u
      = (word_of_int (int v * horizSamples c + int u) :: u32)"
    by simp
  moreover have "0 \<le> int v * horizSamples c + int u" using assms(2) by simp
  then have "sint (word_of_int (int v * horizSamples c + int u) :: u32) = int v * horizSamples c + int u"
    using assms(1) by (simp only: sint_sbintrunc') (rule signed_take_bit_int_eq_self, simp_all)
  ultimately show ?thesis by (simp only: loop_index_def)
qed

lemma index_in_scan:
  assumes "sane c" "v < nat (vertSamples c)" "u < nat (horizSamples c)"
  shows "int v * horizSamples c + int u < horizSamples c * vertSamples c"
proof -
  have "int v * horizSamples c + int u < (int v + 1) * horizSamples c"
    using assms by (simp add: sane_def algebra_simps zless_nat_eq_int_zless)
  also have "\<dots> \<le> vertSamples c * horizSamples c"
    using assms by (intro mult_right_mono) (auto simp: sane_def)
  finally show ?thesis by (simp add: mult.commute)
qed

definition beam_index :: "lidar_config \<Rightarrow> nat \<Rightarrow> nat \<Rightarrow> nat" where
  "beam_index c v u = v * nat (horizSamples c) + u"

lemma loop_index_beam:
  assumes "sane c" "v < nat (vertSamples c)" "u < nat (horizSamples c)"
  shows "loop_index c (word_of_nat v) (word_of_nat u) = int (beam_index c v u)"
proof -
  have "int v * horizSamples c + int u < 2 ^ 31"
    using index_in_scan [OF assms] assms(1) by (simp add: sane_def)
  with assms(1) show ?thesis
    by (subst loop_index_exact) (simp_all add: sane_def beam_index_def)
qed

text \<open>The last index is exact up to \<open>2 ^ 31\<close> points; beyond, it is smaller than the last point's.\<close>

lemma max_index_exact: "n \<le> 2 ^ 31 \<Longrightarrow> max_index n = int n - 1"
proof -
  assume "n \<le> 2 ^ 31"
  then have "int n \<le> 2 ^ 31" by simp
  then show ?thesis
    unfolding max_index_def by (simp only: sint_sbintrunc') (rule signed_take_bit_int_eq_self, simp_all)
qed

lemma max_index_le: "max_index n \<le> int n - 1"
proof (cases "n \<le> 2 ^ 31")
  case False
  then have "2 ^ 31 \<le> int n - 1" by simp
  moreover have "max_index n < 2 ^ 31"
    using sint_lt [of "word_of_int (int n - 1) :: u32"] by (simp add: max_index_def)
  ultimately show ?thesis by linarith
qed (simp add: max_index_exact)

lemma max_index_iff:
  "int j \<le> max_index n \<longleftrightarrow> j < n \<and> (2 ^ 31 < n \<longrightarrow> int j \<le> max_index n)"
  using max_index_le [of n] max_index_exact [of n] by auto

text \<open>The gradient test over natural indices: the reference for the loop with 32-bit counters.\<close>

definition ring_pairs :: "lidar_config \<Rightarrow> dpoint list \<Rightarrow> dpoint list \<Rightarrow> nat \<Rightarrow> nat \<Rightarrow> dpoint list" where
  "ring_pairs c raw rotated v u =
    (let i = beam_index c v u; j = beam_index c (v + 1) u in
     if int j \<le> max_index (length rotated) then pair_points c (rotated ! i) (rotated ! j) (raw ! i) (raw ! j) else [])"

lemma obstacle_points_exact:
  assumes "sane c"
  shows "obstacle_points c raw rotated =
    concat (map (\<lambda>v. concat (map (ring_pairs c raw rotated v) [0..<nat (horizSamples c)])) [0..<nat (vertSamples c - 1)])"
proof -
  have "horizSamples c * 1 \<le> horizSamples c * vertSamples c" "1 * vertSamples c \<le> horizSamples c * vertSamples c"
    using assms by (auto simp: sane_def intro!: mult_left_mono mult_right_mono)
  moreover have "horizSamples c * vertSamples c < 2 ^ 31" using assms by (simp add: sane_def)
  ultimately have h: "horizSamples c < 2 ^ 31" "vertSamples c < 2 ^ 31"
    by linarith+
  have body: "(let i = loop_index c (word_of_nat v) (word_of_nat u); j = loop_index c (word_of_nat v + 1) (word_of_nat u) in
      if j > max_index (length rotated) then []
      else pair_points c (rotated ! nat i) (rotated ! nat j) (raw ! nat i) (raw ! nat j)) = ring_pairs c raw rotated v u"
    if "v < nat (vertSamples c - 1)" "u < nat (horizSamples c)" for v u
  proof -
    have "loop_index c (word_of_nat v) (word_of_nat u) = int (beam_index c v u)"
      using that by (intro loop_index_beam [OF assms]) auto
    moreover have "loop_index c (word_of_nat (v + 1)) (word_of_nat u) = int (beam_index c (v + 1) u)"
      using that by (intro loop_index_beam [OF assms]) auto
    then have "loop_index c (word_of_nat v + 1) (word_of_nat u) = int (beam_index c (v + 1) u)"
      by (simp add: add.commute)
    ultimately show ?thesis
      by (auto simp: ring_pairs_def Let_def)
  qed
  have us: "u32_below (word_of_int (horizSamples c)) = map word_of_nat [0..<nat (horizSamples c)]"
    "u32_below (word_of_int (vertSamples c - 1)) = map word_of_nat [0..<nat (vertSamples c - 1)]"
    using assms h by (intro u32_below_of_int; simp add: sane_def)+
  show ?thesis
    unfolding obstacle_points_def us Let_def [of "max_index (length rotated)"] map_map comp_def
    by (intro arg_cong [where f = concat] map_cong refl body) simp_all
qed

lemma pair_points_kept: "p \<in> set (pair_points c p1 p2 r1 r2) \<Longrightarrow> p = r1 \<and> kept_point c p1 \<or> p = r2 \<and> kept_point c p2"
  by (auto simp: pair_points_def split: option.splits if_splits)

lemma beam_index_less: "u < nat (horizSamples c) \<Longrightarrow> beam_index c v u < beam_index c (v + 1) u"
  by (simp add: beam_index_def)

section \<open>The obstacle cloud\<close>

lemma kept_point_range: "kept_point c p \<Longrightarrow> \<exists>z. snd (snd p) = z \<and> Fin (hMin c) \<le> z"
  by (cases p) (simp add: kept_point_def)

text \<open>
  C23: The obstacle points are exactly the steep neighbours. For a scan whose indices fit an \<open>int\<close>, the loop with
  unsigned counters visits each pair of vertically neighbouring beams of the scan once, in order; so a point is
  appended exactly when it is one of a pair whose gradient is above the threshold, whose upper point is above the
  minimum height, and when it is itself above the minimum height and within range after levelling; it is then a point
  of the raw scan. Both beams of a pair are points of the scan; for more than \<open>2 ^ 31\<close> points the index is also bounded by
  the last one as the code converts it to an \<open>int\<close>.
\<close>

theorem obstacle_points_are_steep_neighbours:
  assumes "sane c" and "length rotated = length raw"
  shows "p \<in> set (obstacle_points c raw rotated) \<longleftrightarrow>
    (\<exists>v u k g. v + 1 < nat (vertSamples c) \<and> u < nat (horizSamples c) \<and> beam_index c (v + 1) u < length raw \<and>
      (2 ^ 31 < length raw \<longrightarrow> int (beam_index c (v + 1) u) \<le> max_index (length raw)) \<and>
      gradient_of (rotated ! beam_index c v u) (rotated ! beam_index c (v + 1) u) = Some g \<and>
      Fin (gradientThresh c) < g \<and> Fin (hMin c) \<le> snd (snd (rotated ! beam_index c (v + 1) u)) \<and>
      k \<in> {beam_index c v u, beam_index c (v + 1) u} \<and> kept_point c (rotated ! k) \<and> k < length raw \<and> p = raw ! k)"
    (is "?l \<longleftrightarrow> ?r")
proof -
  have "?l \<longleftrightarrow> (\<exists>v u. v + 1 < nat (vertSamples c) \<and> u < nat (horizSamples c) \<and> p \<in> set (ring_pairs c raw rotated v u))"
  proof -
    have "v < nat (vertSamples c - 1) \<longleftrightarrow> v + 1 < nat (vertSamples c)" for v
      by linarith
    then show ?thesis
      unfolding obstacle_points_exact [OF assms(1)] by (simp only: set_concat set_map set_upt) fastforce
  qed
  also have "\<dots> \<longleftrightarrow> ?r"
  proof -
    have "p \<in> set (ring_pairs c raw rotated v u) \<longleftrightarrow>
        (\<exists>k g. beam_index c (v + 1) u < length raw \<and>
          (2 ^ 31 < length raw \<longrightarrow> int (beam_index c (v + 1) u) \<le> max_index (length raw)) \<and>
          gradient_of (rotated ! beam_index c v u) (rotated ! beam_index c (v + 1) u) = Some g \<and>
          Fin (gradientThresh c) < g \<and> Fin (hMin c) \<le> snd (snd (rotated ! beam_index c (v + 1) u)) \<and>
          k \<in> {beam_index c v u, beam_index c (v + 1) u} \<and> kept_point c (rotated ! k) \<and> k < length raw \<and> p = raw ! k)"
      if "u < nat (horizSamples c)" for v u
      using assms(2) beam_index_less [OF that, of v] max_index_iff [of "beam_index c (v + 1) u" "length raw"]
      by (cases "gradient_of (rotated ! beam_index c v u) (rotated ! beam_index c (v + 1) u)")
        (auto simp: ring_pairs_def pair_points_def Let_def)
    then show ?thesis by blast
  qed
  finally show ?thesis .
qed

section \<open>The clearing cloud\<close>

lemma length_beams: "length (beamDirections c) = nat (vertSamples c) * nat (horizSamples c)"
  unfolding beamDirections_def
  by (subst length_concat_rows [where w = "nat (horizSamples c)"]) auto

lemma beam_nth:
  assumes "v < nat (vertSamples c)" "u < nat (horizSamples c)"
  shows "beamDirections c ! beam_index c v u = beam_dir c v u"
proof -
  have "beamDirections c ! (v * nat (horizSamples c) + u) =
      map (\<lambda>v. map (beam_dir c v) [0..<nat (horizSamples c)]) [0..<nat (vertSamples c)] ! v ! u"
    unfolding beamDirections_def by (rule concat_rows_nth) (use assms in auto)
  with assms show ?thesis by (simp add: beam_index_def)
qed

lemma beam_is_unit: "beam_dir c v u = (x, y, z) \<Longrightarrow> x * x + y * y + z * z = 1"
proof -
  assume "beam_dir c v u = (x, y, z)"
  moreover define a b where "a = sample_angle (vAngleMin c) (vAngleMax c) (vertSamples c) v"
    and "b = sample_angle (hAngleMin c) (hAngleMax c) (horizSamples c) u"
  ultimately have "x = cos a * cos b" "y = cos a * sin b" "z = sin a"
    by (auto simp: beam_dir_def Let_def)
  then have "x * x + y * y + z * z = cos a * cos a * (cos b * cos b + sin b * sin b) + sin a * sin a"
    by algebra
  also have "\<dots> = 1"
    by (simp add: sin_cos_squared_add3 add.commute)
  finally show ?thesis .
qed

text \<open>
  Every beam clears exactly one ray. The clearing cloud has one point per point of the scan; a finite return
  within range is kept as it is; every other beam of the table gets a finite endpoint in the beam's own
  direction at exactly the maximum range, so its horizontal distance is never beyond the range either.
\<close>

theorem every_beam_clears_a_ray:
  assumes "0 \<le> maxRange c" and "v < nat (vertSamples c)" and "u < nat (horizSamples c)"
    and "i = beam_index c v u" and "i < length raw" and "clearing_points c raw ! i = (x, y, z)"
  shows "length (clearing_points c raw) = length raw \<and> isfinite x \<and> isfinite y \<and> isfinite z \<and>
    x * x + y * y \<le> Fin (maxRange c * maxRange c) \<and>
    ((x, y, z) = raw ! i \<or> reals_of (x, y, z) = vscale (maxRange c) (beam_dir c v u) \<and> vnorm (reals_of (x, y, z)) = maxRange c)"
proof -
  have len: "length (clearing_points c raw) = length raw" by (simp add: clearing_points_def)
  have "v * nat (horizSamples c) + u < nat (vertSamples c) * nat (horizSamples c)"
    using assms(2,3) by (metis Suc_leI add.commute less_le_trans mult.commute mult_Suc_right mult_le_mono1 nat_add_left_cancel_less)
  then have i: "i < length (beamDirections c)" "beamDirections c ! i = beam_dir c v u"
    using assms(2-4) beam_nth by (simp_all add: length_beams beam_index_def)
  obtain rx ry rz where raw: "raw ! i = (rx, ry, rz)" by (metis prod_cases3)
  have cp: "clearing_point c (beamDirections c) i (rx, ry, rz) = (x, y, z)"
    using assms(5,6) raw by (simp add: clearing_points_def)
  show ?thesis
  proof (cases "isfinite rx \<and> isfinite ry \<and> isfinite rz \<and> rx * rx + ry * ry \<le> Fin (maxRangeSq c)")
    case True
    then have "(x, y, z) = (rx, ry, rz)" using cp by (simp add: clearing_point_def)
    with True len raw show ?thesis by (simp add: maxRangeSq_def)
  next
    case False
    obtain dx dy dz where d: "beam_dir c v u = (dx, dy, dz)" by (metis prod_cases3)
    have xyz: "x = Fin (maxRange c * dx)" "y = Fin (maxRange c * dy)" "z = Fin (maxRange c * dz)"
      using cp False i d by (auto simp: clearing_point_def)
    have one: "dx * dx + dy * dy + dz * dz = 1" using beam_is_unit [OF d] .
    have sq: "maxRange c * dx * (maxRange c * dx) + maxRange c * dy * (maxRange c * dy) + maxRange c * dz * (maxRange c * dz)
        = maxRange c * maxRange c * (dx * dx + dy * dy + dz * dz)"
      by algebra
    have "0 \<le> maxRange c * dz * (maxRange c * dz)" by simp
    moreover have "maxRange c * maxRange c * (dx * dx + dy * dy + dz * dz) = maxRange c * maxRange c"
      using one by simp
    ultimately have le: "maxRange c * dx * (maxRange c * dx) + maxRange c * dy * (maxRange c * dy) \<le> maxRange c * maxRange c"
      using sq by linarith
    have "vnorm (maxRange c * dx, maxRange c * dy, maxRange c * dz) = maxRange c"
      using sq one assms(1) by (simp add: real_sqrt_mult_self)
    with le xyz d len show ?thesis by simp
  qed
qed

section \<open>Witnesses\<close>

definition small_scan :: lidar_config where
  \<comment> \<open>two rings of one beam, the other parameters as declared\<close>
  "small_scan = \<lparr>gradientThresh = 0.26, hMin = - 0.78, horizSamples = 1, vertSamples = 2, crop_min = (- 0.9, - 0.48, - 1.5),
     crop_max = (0.38, 0.48, 0.5), lidarHeight = 0.88, maxRange = 15, hAngleMin = - 3, hAngleMax = 3, vAngleMin = - 0.25,
     vAngleMax = 0.05\<rparr>"

definition wall :: "dpoint list" where
  "wall = [(Fin 3, Fin 0, Fin (- 0.5)), (Fin 3, Fin 0, Fin 0.2)]"

theorem obstacle_points_are_steep_neighbours_witness:
  "(Fin 3, Fin 0, Fin 0.2) \<in> set (obstacle_points small_scan wall wall)"
proof -
  have s: "sane small_scan" "length wall = length wall" by (simp_all add: sane_def small_scan_def)
  show ?thesis
    unfolding obstacle_points_are_steep_neighbours [OF s]
    by (intro exI [of _ 0] exI [of _ 1] exI [of _ "Fin 999"])
      (simp add: small_scan_def wall_def beam_index_def gradient_of_def kept_point_def maxRangeSq_def)
qed

theorem every_beam_clears_a_ray_witness:
  "\<exists>x y z. clearing_points small_scan [(NaN, Fin 0, Fin 0), (Fin 3, Fin 0, Fin 0)] ! 0 = (x, y, z) \<and>
     reals_of (x, y, z) = vscale 15 (beam_dir small_scan 0 0)"
proof -
  let ?raw = "[(NaN, Fin 0, Fin 0), (Fin 3, Fin 0, Fin 0)] :: dpoint list"
  obtain x y z where c: "clearing_points small_scan ?raw ! 0 = (x, y, z)" by (metis prod_cases3)
  have p: "0 \<le> maxRange small_scan" "0 < nat (vertSamples small_scan)" "0 < nat (horizSamples small_scan)"
    "0 = beam_index small_scan 0 0" "0 < length ?raw" "maxRange small_scan = 15"
    by (simp_all add: small_scan_def beam_index_def)
  from every_beam_clears_a_ray [OF p(1-5) c] have "isfinite x" "(x, y, z) = ?raw ! 0 \<or> reals_of (x, y, z) = vscale 15 (beam_dir small_scan 0 0)"
    unfolding p(6) by blast+
  with c show ?thesis by auto
qed

end
