(* ===== verification/Centerline_Math.thy ===== *)
theory Centerline_Math
  imports Prelude
begin

text \<open>
  The numeric helpers of \<open>src/path_generation_cpp/src/centerline_generator.cpp\<close> that keep no state: sampling,
  linear interpolation, the least-squares pseudo-inverse, the Savitzky-Golay kernels and their application, the
  smoothers and the gradient. A vector is a list; a write at an index is a list update.
\<close>

section \<open>Sampling and interpolation\<close>

definition linspace :: "real \<Rightarrow> real \<Rightarrow> int \<Rightarrow> real list" where
  "linspace a b n =
    (if n \<le> 0 then []
     else if n = 1 then [a]
     else let step = (b - a) / of_int (n - 1) in
       (map (\<lambda>i. a + step * of_nat i) [0..<nat n])[nat n - 1 := b])"

definition lower_bound :: "real list \<Rightarrow> real \<Rightarrow> nat" where
  \<comment> \<open>\<open>std::lower_bound\<close> on a non-decreasing vector\<close>
  "lower_bound xp xq = length (takeWhile (\<lambda>x. x < xq) xp)"

definition interp1 :: "real list \<Rightarrow> real list \<Rightarrow> real \<Rightarrow> real" where
  "interp1 xp fp xq =
    (let i = max 1 (min (lower_bound xp xq) (length xp - 1)); xl = xp ! (i - 1); xr = xp ! i;
         ratio = (xq - xl) / max (xr - xl) (1 / 10 ^ 6) in
     fp ! (i - 1) + ratio * (fp ! i - fp ! (i - 1)))"

definition interpolate :: "real list \<Rightarrow> real list \<Rightarrow> real list \<Rightarrow> real list" where
  "interpolate xq xp fp = map (interp1 xp fp) xq"

fun arc_lengths :: "real \<Rightarrow> (real \<times> real) list \<Rightarrow> real list" where
  \<comment> \<open>the running length of a polyline\<close>
  "arc_lengths a [] = []"
| "arc_lengths a [p] = [a]"
| "arc_lengths a (p # q # ps) = a # arc_lengths (a + hypot (fst q - fst p) (snd q - snd p)) (q # ps)"

section \<open>Pseudo-inverse of a Vandermonde matrix\<close>

type_synonym matrix = "real list list"

definition vander :: "real list \<Rightarrow> nat \<Rightarrow> matrix" where
  "vander offsets p = map (\<lambda>v. map (\<lambda>k. v ^ k) [0..<p]) offsets"

definition augmented :: "matrix \<Rightarrow> nat \<Rightarrow> matrix" where
  \<comment> \<open>the normal matrix beside the identity\<close>
  "augmented A p =
    map (\<lambda>i. map (\<lambda>j. \<Sum>row\<leftarrow>A. row ! i * row ! j) [0..<p] @ map (\<lambda>j. if j = i then 1 else 0) [0..<p]) [0..<p]"

definition pivot_row :: "matrix \<Rightarrow> nat \<Rightarrow> nat \<Rightarrow> nat" where
  "pivot_row M p c = fold (\<lambda>r piv. if \<bar>M ! r ! c\<bar> > \<bar>M ! piv ! c\<bar> then r else piv) [Suc c..<p] c"

definition swap_rows :: "matrix \<Rightarrow> nat \<Rightarrow> nat \<Rightarrow> matrix" where
  "swap_rows M a b = M[a := M ! b, b := M ! a]"

definition eliminate :: "nat \<Rightarrow> nat \<Rightarrow> matrix \<Rightarrow> matrix" where
  \<comment> \<open>one column of the Gauss-Jordan loop\<close>
  "eliminate p c M =
    (let M = swap_rows M c (pivot_row M p c); d = M ! c ! c; rc = map (\<lambda>v. v / d) (M ! c); M = M[c := rc] in
     map (\<lambda>r. if r = c then rc
              else let f = M ! r ! c in if f = 0 then M ! r else map2 (\<lambda>x y. x - f * y) (M ! r) rc) [0..<p])"

definition vanderPinv :: "real list \<Rightarrow> nat \<Rightarrow> matrix" where
  "vanderPinv offsets p =
    (let A = vander offsets p; M = fold (eliminate p) [0..<p] (augmented A p) in
     map (\<lambda>i. map (\<lambda>row. \<Sum>j\<leftarrow>[0..<p]. M ! i ! (p + j) * row ! j) A) [0..<p])"

section \<open>Savitzky-Golay\<close>

record sg_kernel =
  sg_interior :: "real list"
  sg_left :: "real list list"
  sg_right :: "real list list"

definition eval_row :: "nat \<Rightarrow> nat \<Rightarrow> int \<Rightarrow> real list" where
  "eval_row order deriv tau =
    (if deriv = 0 then map (\<lambda>q. of_int tau ^ q) [0..<order + 1]
     else 0 # map (\<lambda>q. of_nat q * of_int tau ^ (q - 1)) [1..<order + 1])"

definition edge_rows :: "nat \<Rightarrow> nat \<Rightarrow> nat \<Rightarrow> nat \<Rightarrow> matrix \<Rightarrow> int \<Rightarrow> int \<Rightarrow> real list list" where
  "edge_rows order deriv edge_order window edge_pinv tau_begin tau_end =
    map (\<lambda>tau. let row = eval_row order deriv tau in
        map (\<lambda>c. \<Sum>q\<leftarrow>[0..<edge_order + 1]. row ! q * edge_pinv ! q ! c) [0..<window]) [tau_begin..tau_end]"

definition build_kernel :: "nat \<Rightarrow> nat \<Rightarrow> nat \<Rightarrow> sg_kernel" where
  "build_kernel order window deriv =
    (let half = window div 2; offsets = map (\<lambda>i. of_nat i - of_nat half) [0..<window];
         pinv = vanderPinv offsets (order + 1);
         edge_order = (if deriv = 1 then min order 1 else order);
         edge_pinv = vanderPinv offsets (edge_order + 1) in
     \<lparr>sg_interior = map (\<lambda>v. v * fact deriv) (pinv ! deriv),
       sg_left = edge_rows order deriv edge_order window edge_pinv (- int half) (- 1),
       sg_right = edge_rows order deriv edge_order window edge_pinv 1 (int half)\<rparr>)"

type_synonym sg_cache = "nat \<times> nat \<Rightarrow> sg_kernel option"

definition sgKernel :: "nat \<Rightarrow> nat \<Rightarrow> nat \<Rightarrow> sg_cache \<Rightarrow> sg_kernel \<times> sg_cache" where
  "sgKernel order window deriv cache =
    (case cache (window, deriv) of
       Some k \<Rightarrow> (k, cache)
     | None \<Rightarrow> (let k = build_kernel order window deriv in (k, cache((window, deriv) \<mapsto> k))))"

definition dot_at :: "real list \<Rightarrow> real list \<Rightarrow> nat \<Rightarrow> real" where
  "dot_at ks xs i = (\<Sum>q\<leftarrow>[0..<length ks]. ks ! q * xs ! (i + q))"

definition apply_kernel :: "sg_kernel \<Rightarrow> nat \<Rightarrow> real list \<Rightarrow> real list" where
  "apply_kernel k window xs =
    (let n = length xs; half = window div 2;
         inner = fold (\<lambda>i out. out[i + half := dot_at (sg_interior k) xs i]) [0..<n + 1 - window] (replicate n 0) in
     if window < 3 then inner
     else fold (\<lambda>r out. out[r := dot_at (sg_left k ! r) xs 0, n - half + r := dot_at (sg_right k ! r) xs (n - window)])
       [0..<half] inner)"

definition sgApply :: "nat \<Rightarrow> real list \<Rightarrow> nat \<Rightarrow> nat \<Rightarrow> sg_cache \<Rightarrow> real list \<times> sg_cache" where
  "sgApply order xs window deriv cache =
    (let (k, cache') = sgKernel order window deriv cache in (apply_kernel k window xs, cache'))"

section \<open>Smoothers and gradient\<close>

definition make_odd :: "int \<Rightarrow> int" where
  "make_odd w = (if w smod 2 = 0 then w - 1 else w)"

definition boxSmooth :: "real list \<Rightarrow> int \<Rightarrow> real list" where
  "boxSmooth xs w =
    (let n = int (length xs); w = make_odd (min w n) in
     if w < 3 then xs
     else map (\<lambda>i. (\<Sum>t\<leftarrow>[- (w div 2)..w div 2]. xs ! nat (max 0 (min (i + t) (n - 1)))) / of_int w) [0..n - 1])"

definition gradient :: "real list \<Rightarrow> real list" where
  "gradient xs =
    (let n = length xs in
     if n < 2 then replicate n 0
     else map (\<lambda>i. if i = 0 then xs ! 1 - xs ! 0
                   else if i = n - 1 then xs ! (n - 1) - xs ! (n - 2)
                   else 0.5 * (xs ! (i + 1) - xs ! (i - 1))) [0..<n])"

definition smooth_at :: "real list \<Rightarrow> bool list \<Rightarrow> int \<Rightarrow> int \<Rightarrow> real" where
  \<comment> \<open>the windowed local line through the valid samples around \<open>i\<close>\<close>
  "smooth_at values valid h i =
    (let n = int (length values);
         ts = filter (\<lambda>t. \<not> (i + t < 0 \<or> i + t \<ge> n \<or> \<not> valid ! nat (i + t))) [- h..h];
         v = (\<lambda>t. values ! nat (i + t));
         s0 = (\<Sum>t\<leftarrow>ts. 1); s1 = (\<Sum>t\<leftarrow>ts. of_int t); s2 = (\<Sum>t\<leftarrow>ts. of_int t * of_int t);
         sv = (\<Sum>t\<leftarrow>ts. v t); stv = (\<Sum>t\<leftarrow>ts. of_int t * v t);
         det = s0 * s2 - s1 * s1;
         linear = (s2 * sv - s1 * stv) / max det (1 / 10 ^ 6);
         box = sv / max s0 (1 / 10 ^ 6) in
     if det > 0.5 then linear else box)"

definition maskedSmooth :: "real list \<Rightarrow> bool list \<Rightarrow> int \<Rightarrow> real list" where
  "maskedSmooth values valid window =
    (let w = make_odd (min window (int (length (filter id valid)))) in
     if w < 3 then values else map (smooth_at values valid (w div 2)) [0..int (length values) - 1])"

definition lockNearField :: "(real \<times> real) list \<Rightarrow> (real \<times> real) list" where
  "lockNearField ps =
    (if length ps < 5 then ps
     else
      (let (ax, ay) = ps ! 0; (bx, by0) = ps ! 1; (cx, cy) = ps ! 2; (ex, ey) = ps ! 4;
           hn = hypot (ex - cx) (ey - cy) + 1 / 10 ^ 5; hx = (ex - cx) / hn; hy = (ey - cy) / hn;
           d0 = hypot (cx - ax) (cy - ay); d1 = hypot (cx - bx) (cy - by0) in
       ps[0 := (cx - hx * d0, cy - hy * d0), 1 := (cx - hx * d1, cy - hy * d1)]))"

section \<open>Facts\<close>

lemma length_linspace: "length (linspace a b n) = nat n"
  by (auto simp: linspace_def Let_def)

lemma linspace_first: "1 < n \<Longrightarrow> linspace a b n ! 0 = a"
  by (simp add: linspace_def Let_def)

lemma linspace_last: "1 < n \<Longrightarrow> linspace a b n ! (nat n - 1) = b"
  by (simp add: linspace_def Let_def)

lemma length_arc_lengths [simp]: "length (arc_lengths a ps) = length ps"
  by (induction a ps rule: arc_lengths.induct) auto

lemma arc_lengths_first: "ps \<noteq> [] \<Longrightarrow> arc_lengths a ps ! 0 = a"
  by (cases "(a, ps)" rule: arc_lengths.cases) auto

lemma interp1_first:
  assumes "2 \<le> length xp"
  shows "interp1 xp fp (xp ! 0) = fp ! 0"
proof -
  have "lower_bound xp (xp ! 0) = 0"
    using assms by (cases xp) (auto simp: lower_bound_def)
  with assms show ?thesis by (simp add: interp1_def)
qed

lemma lower_bound_knot:
  assumes "sorted_wrt (<) xp" "k < length xp"
  shows "lower_bound xp (xp ! k) = k"
proof -
  have "takeWhile (\<lambda>x. x < xp ! k) xp = take k xp"
    using assms by (intro takeWhile_eq_take_P_nth) (auto simp: sorted_wrt_nth_less)
  with assms(2) show ?thesis by (simp add: lower_bound_def)
qed

lemma interp1_knot:
  assumes "sorted_wrt (<) xp" "k < length xp" "2 \<le> length xp"
    and "\<And>i. Suc i < length xp \<Longrightarrow> 1 / 10 ^ 6 \<le> xp ! Suc i - xp ! i"
  shows "interp1 xp fp (xp ! k) = fp ! k"
proof (cases k)
  case 0
  with interp1_first [OF assms(3)] show ?thesis by simp
next
  case (Suc i)
  have "max 1 (min (lower_bound xp (xp ! k)) (length xp - 1)) = k"
    using assms Suc by (simp add: lower_bound_knot)
  moreover have "0 < xp ! k - xp ! i" "1 / 10 ^ 6 \<le> xp ! k - xp ! i"
    using assms(4) [of i] assms(2) Suc by (auto intro: less_le_trans [of 0 "1 / 10 ^ 6"])
  ultimately show ?thesis
    unfolding interp1_def Let_def using Suc by (simp add: max_absorb1)
qed

text \<open>The cache only ever holds kernels built for its key, so a lookup never changes a result.\<close>

definition cache_ok :: "nat \<Rightarrow> sg_cache \<Rightarrow> bool" where
  "cache_ok order cache \<longleftrightarrow> (\<forall>w d k. cache (w, d) = Some k \<longrightarrow> k = build_kernel order w d)"

lemma cache_ok_empty [simp]: "cache_ok order Map.empty"
  by (simp add: cache_ok_def)

lemma sgKernel_cached:
  "cache_ok order cache \<Longrightarrow> sgKernel order w d cache = (k, cache') \<Longrightarrow> k = build_kernel order w d \<and> cache_ok order cache'"
  by (auto simp: sgKernel_def cache_ok_def Let_def split: option.splits if_splits)

lemma sgApply_cached:
  "cache_ok order cache \<Longrightarrow>
   fst (sgApply order xs w d cache) = apply_kernel (build_kernel order w d) w xs \<and> cache_ok order (snd (sgApply order xs w d cache))"
  using sgKernel_cached [of order cache w d] by (auto simp: sgApply_def split: prod.splits)

lemma cache_ok_sgApply: "cache_ok order c \<Longrightarrow> cache_ok order (snd (sgApply order xs w d c))"
  by (simp add: sgApply_cached)

lemma length_fold_update: "length (fold (\<lambda>i out. out[f i := g i]) is xs) = length xs"
  by (induction "is" arbitrary: xs) auto

lemma length_fold_update2: "length (fold (\<lambda>i out. out[f i := g i, f' i := g' i]) is xs) = length xs"
  by (induction "is" arbitrary: xs) auto

lemma length_apply_kernel: "length (apply_kernel k w xs) = length xs"
  by (simp add: apply_kernel_def Let_def length_fold_update length_fold_update2)

lemma length_maskedSmooth: "length (maskedSmooth values valid w) = length values"
  by (auto simp: maskedSmooth_def Let_def)

lemma length_lockNearField [simp]: "length (lockNearField ps) = length ps"
  by (auto simp: lockNearField_def Let_def split: prod.splits)

text \<open>The elimination gives the published quadratic kernel of five samples.\<close>

lemma augmented_5: "augmented (vander [- 2, - 1, 0, 1, 2] 3) 3 =
    [[5, 0, 10, 1, 0, 0], [0, 10, 0, 0, 1, 0], [10, 0, 34, 0, 0, 1]]"
  by (simp add: augmented_def vander_def upt_rec power2_eq_square)

lemma eliminate_5_0: "eliminate 3 0 [[5, 0, 10, 1, 0, 0], [0, 10, 0, 0, 1, 0], [10, 0, 34, 0, 0, 1]] =
    [[1, 0, 17 / 5, 0, 0, 1 / 10], [0, 10, 0, 0, 1, 0], [0, 0, - 7, 1, 0, - 1 / 2]]"
  by (simp add: eliminate_def pivot_row_def swap_rows_def Let_def upt_rec)

lemma eliminate_5_1: "eliminate 3 1 [[1, 0, 17 / 5, 0, 0, 1 / 10], [0, 10, 0, 0, 1, 0], [0, 0, - 7, 1, 0, - 1 / 2]] =
    [[1, 0, 17 / 5, 0, 0, 1 / 10], [0, 1, 0, 0, 1 / 10, 0], [0, 0, - 7, 1, 0, - 1 / 2]]"
  by (simp add: eliminate_def pivot_row_def swap_rows_def Let_def upt_rec)

lemma eliminate_5_2: "eliminate 3 2 [[1, 0, 17 / 5, 0, 0, 1 / 10], [0, 1, 0, 0, 1 / 10, 0], [0, 0, - 7, 1, 0, - 1 / 2]] =
    [[1, 0, 0, 17 / 35, 0, - 1 / 7], [0, 1, 0, 0, 1 / 10, 0], [0, 0, 1, - 1 / 7, 0, 1 / 14]]"
  by (simp add: eliminate_def pivot_row_def swap_rows_def Let_def upt_rec)

lemma pinv_5: "vanderPinv [- 2, - 1, 0, 1, 2] 3 =
    [[- 3 / 35, 12 / 35, 17 / 35, 12 / 35, - 3 / 35],
     [- 1 / 5, - 1 / 10, 0, 1 / 10, 1 / 5],
     [1 / 7, - 1 / 14, - 1 / 7, - 1 / 14, 1 / 7]]"
proof -
  have "[0..<3] = [0, 1, 2::nat]" by (simp add: upt_rec)
  then have "fold (eliminate 3) [0..<3] (augmented (vander [- 2, - 1, 0, 1, 2] 3) 3) =
      [[1, 0, 0, 17 / 35, 0, - 1 / 7], [0, 1, 0, 0, 1 / 10, 0], [0, 0, 1, - 1 / 7, 0, 1 / 14]]"
    by (simp only: fold_simps augmented_5 eliminate_5_0 eliminate_5_1 eliminate_5_2)
  then show ?thesis
    unfolding vanderPinv_def Let_def by (simp only:) (simp add: vander_def upt_rec power2_eq_square)
qed

lemma kernel_5: "sg_interior (build_kernel 2 5 0) = [- 3 / 35, 12 / 35, 17 / 35, 12 / 35, - 3 / 35]"
proof -
  have offsets: "map (\<lambda>i. of_nat i - of_nat (5 div 2)) [0..<5] = [- 2, - 1, 0, 1, 2 :: real]" by (simp add: upt_rec)
  have three: "(2::nat) + 1 = 3" by simp
  show ?thesis
    unfolding build_kernel_def Let_def sg_kernel.simps offsets three pinv_5 by simp
qed

end
