(* ===== verification/Centerline_Generator.thy ===== *)
theory Centerline_Generator
  imports Centerline_Math
begin

text \<open>
  \<open>src/path_generation_cpp\<close>, class \<open>CenterlineGenerator\<close>: the memory of lane lines and road widths, the
  splitting and labelling of the white points, the candidates of a line, the yellow gate, the fusion of a
  side, the Bezier lane change and \<open>generate\<close>. A tracked value that the code initialises with NaN is an option.
  Input points are finite (the node drops the others). The kernel cache is part of the state.
\<close>

section \<open>Parameters and state\<close>

type_synonym pt = "real \<times> real"
type_synonym path2 = "pt list"

record center_params =
  max_gap :: real
  bin_width :: real
  max_bad_frame_streak :: int
  max_range :: real
  nominal_road_width :: real
  min_road_width :: real
  max_road_width :: real
  min_bin_pts :: int
  max_width_update :: real
  normal_blend_tx_min :: "real option"
  normal_blend_tx_max :: "real option"
  min_offset_fraction :: real
  yellow_gate_fraction :: real
  path_spacing :: real
  path_start :: real
  final_smooth_window :: int
  near_field_range :: real
  min_near_pts :: int
  width_stale_decay_frames :: int
  width_stale_decay_alpha :: real
  sg_polyorder :: int
  track_ema_alpha :: real
  width_ema_alpha :: real
  centerline_ema_alpha :: real
  width_update_max_x :: real
  resample_step :: real
  position_window_m :: real
  tangent_window_m :: real
  far_near_field_range :: real
  lane_change_bezier :: bool
  lane_change_factor :: real
  lane_change_min_len :: real
  bezier_handle :: real

definition default_center_params :: center_params where
  "default_center_params = \<lparr>max_gap = 1, bin_width = 0.5, max_bad_frame_streak = 20, max_range = 8,
     nominal_road_width = 7.4, min_road_width = 6.6, max_road_width = 8.2, min_bin_pts = 1,
     max_width_update = 0.5, normal_blend_tx_min = None, normal_blend_tx_max = None,
     min_offset_fraction = 0.5, yellow_gate_fraction = 0.25, path_spacing = 0.1, path_start = 0.2,
     final_smooth_window = 25, near_field_range = 3.5, min_near_pts = 2, width_stale_decay_frames = 30,
     width_stale_decay_alpha = 0.05, sg_polyorder = 2, track_ema_alpha = 0.35, width_ema_alpha = 0.15,
     centerline_ema_alpha = 0.17, width_update_max_x = 4, resample_step = 0.1, position_window_m = 1,
     tangent_window_m = 2.5, far_near_field_range = 4, lane_change_bezier = True, lane_change_factor = 2.5,
     lane_change_min_len = 3, bezier_handle = 0.4\<rparr>"

datatype side = Left_Side | Right_Side
datatype kind = Near | Far | Yellow

record offset_spec =
  os_lane :: side
  os_fraction :: real
  toward_right :: bool
  os_kind :: kind

definition white_left :: "offset_spec list" where
  "white_left = [\<lparr>os_lane = Left_Side, os_fraction = 0.25, toward_right = True, os_kind = Near\<rparr>,
     \<lparr>os_lane = Right_Side, os_fraction = 0.75, toward_right = True, os_kind = Far\<rparr>]"

definition white_right :: "offset_spec list" where
  "white_right = [\<lparr>os_lane = Right_Side, os_fraction = 0.25, toward_right = False, os_kind = Near\<rparr>,
     \<lparr>os_lane = Left_Side, os_fraction = 0.75, toward_right = False, os_kind = Far\<rparr>]"

definition yellow_specs :: "offset_spec list" where
  "yellow_specs = [\<lparr>os_lane = Left_Side, os_fraction = 0.25, toward_right = False, os_kind = Yellow\<rparr>,
     \<lparr>os_lane = Right_Side, os_fraction = 0.25, toward_right = True, os_kind = Yellow\<rparr>]"

record candidate =
  cd_lane :: side
  cd_kind :: kind
  cd_x :: "real list"
  cd_y :: "real list"
  cd_radial :: "real list"
  cd_fraction :: real

record generator =
  prev_left_y :: "real option list"
  prev_right_y :: "real option list"
  road_width :: "real list"
  width_stale :: "real list"
  track_x :: "side \<Rightarrow> real option list"
  track_y :: "side \<Rightarrow> real option list"
  bad_frame_streak :: int
  sg_cache :: sg_cache

definition max_bins :: "center_params \<Rightarrow> nat" where
  "max_bins p = nat \<lceil>max_range p / bin_width p\<rceil>"

definition num_out :: "center_params \<Rightarrow> nat" where
  "num_out p = nat (\<lceil>(max_range p - path_start p) / path_spacing p\<rceil> + 1)"

definition d_grid :: "center_params \<Rightarrow> real list" where
  "d_grid p = linspace (path_start p) (max_range p) (int (num_out p))"

definition min_offset :: "center_params \<Rightarrow> real" where
  "min_offset p = nominal_road_width p * min_offset_fraction p"

definition decay_frames :: "center_params \<Rightarrow> int" where
  "decay_frames p = max 1 (width_stale_decay_frames p)"

definition polyorder :: "center_params \<Rightarrow> int" where
  "polyorder p = max 1 (sg_polyorder p)"

definition sg_min_window :: "center_params \<Rightarrow> int" where
  "sg_min_window p = (let w = polyorder p + 1 in if w smod 2 = 0 then w + 1 else w)"

definition resetMemory :: "center_params \<Rightarrow> generator \<Rightarrow> generator" where
  "resetMemory p s = s\<lparr>prev_left_y := replicate (max_bins p) None, prev_right_y := replicate (max_bins p) None,
     road_width := replicate (max_bins p) (nominal_road_width p), width_stale := replicate (max_bins p) 0,
     track_x := (\<lambda>_. replicate (num_out p) None), track_y := (\<lambda>_. replicate (num_out p) None),
     bad_frame_streak := 0\<rparr>"

definition failedFrame :: "center_params \<Rightarrow> generator \<Rightarrow> generator" where
  "failedFrame p s = (let s = s\<lparr>bad_frame_streak := bad_frame_streak s + 1\<rparr> in
     if bad_frame_streak s \<ge> max_bad_frame_streak p then resetMemory p s else s)"

section \<open>Memory of widths and lines\<close>

record labelled =
  lb_y :: real
  lb_bin :: nat
  lb_left :: bool

definition ema :: "real \<Rightarrow> real \<Rightarrow> real option \<Rightarrow> real" where
  "ema a mean old = (case old of None \<Rightarrow> mean | Some v \<Rightarrow> a * mean + (1 - a) * v)"

definition bin_trusted :: "center_params \<Rightarrow> nat \<Rightarrow> bool" where
  "bin_trusted p b \<longleftrightarrow> (of_nat b + 0.5) * bin_width p \<le> width_update_max_x p"

definition update_bin ::
  "center_params \<Rightarrow> labelled list \<Rightarrow> nat \<Rightarrow> real option \<Rightarrow> real option \<Rightarrow> real \<Rightarrow> real
    \<Rightarrow> real option \<times> real option \<times> real \<times> real" where
  "update_bin p pts b pl pr rw stale =
    (let ls = map lb_y (filter (\<lambda>q. lb_bin q = b \<and> lb_left q) pts);
         rs = map lb_y (filter (\<lambda>q. lb_bin q = b \<and> \<not> lb_left q) pts);
         lcnt = int (length ls); rcnt = int (length rs);
         l_has = lcnt \<ge> min_bin_pts p; r_has = rcnt \<ge> min_bin_pts p;
         lmean = sum_list ls / of_int (max lcnt 1); rmean = sum_list rs / of_int (max rcnt 1);
         a = track_ema_alpha p; aw = width_ema_alpha p;
         raw = lmean - rmean;
         plausible = (raw \<ge> min_road_width p \<and> raw \<le> max_road_width p);
         confirmed = (l_has \<and> r_has \<and> plausible \<and> bin_trusted p b);
         target = aw * clamp raw (min_road_width p) (max_road_width p) + (1 - aw) * rw;
         step = clamp (target - rw) (- max_width_update p) (max_width_update p);
         rw1 = (if confirmed then rw + step else rw);
         stale1 = (if confirmed then 0 else stale + 1);
         rw2 = (if stale1 > of_int (decay_frames p)
                then rw1 + width_stale_decay_alpha p * (nominal_road_width p - rw1) else rw1) in
     (if l_has then Some (ema a lmean pl) else pl, if r_has then Some (ema a rmean pr) else pr, rw2, stale1))"

definition inherit_width :: "center_params \<Rightarrow> real list \<Rightarrow> real list \<Rightarrow> real list" where
  \<comment> \<open>bins beyond the trusted range take the mean width of the fresh trusted bins\<close>
  "inherit_width p widths stales =
    (let bs = [0..<length widths];
         fresh_bins = filter (\<lambda>b. bin_trusted p b \<and> stales ! b \<le> of_int (decay_frames p)) bs in
     if fresh_bins = [] then widths
     else let mean = (\<Sum>b\<leftarrow>fresh_bins. widths ! b) / of_nat (length fresh_bins) in
       map (\<lambda>b. if \<not> bin_trusted p b then mean else widths ! b) bs)"

definition updateMemory :: "center_params \<Rightarrow> labelled list \<Rightarrow> generator \<Rightarrow> generator" where
  "updateMemory p pts s =
    (let us = map (\<lambda>b. update_bin p pts b (prev_left_y s ! b) (prev_right_y s ! b) (road_width s ! b) (width_stale s ! b))
                [0..<max_bins p];
         stales = map (\<lambda>(pl, pr, rw, st). st) us in
     s\<lparr>prev_left_y := map (\<lambda>(pl, pr, rw, st). pl) us, prev_right_y := map (\<lambda>(pl, pr, rw, st). pr) us,
       road_width := inherit_width p (map (\<lambda>(pl, pr, rw, st). rw) us) stales, width_stale := stales\<rparr>)"

section \<open>Splitting and labelling\<close>

record line_split =
  line_id :: "nat list"
  ls_start :: "nat list"
  ls_count :: "nat list"

definition breaks_at :: "center_params \<Rightarrow> path2 \<Rightarrow> nat \<Rightarrow> bool" where
  "breaks_at p ps i \<longleftrightarrow> i = 0 \<or>
     hypot (fst (ps ! i) - fst (ps ! (i - 1))) (snd (ps ! i) - snd (ps ! (i - 1))) > max_gap p"

definition split_step :: "center_params \<Rightarrow> path2 \<Rightarrow> nat \<Rightarrow> line_split \<Rightarrow> line_split" where
  "split_step p ps i ls =
    (let ls = (if breaks_at p ps i then ls\<lparr>ls_start := ls_start ls @ [i], ls_count := ls_count ls @ [0]\<rparr> else ls) in
     ls\<lparr>ls_count := butlast (ls_count ls) @ [last (ls_count ls) + 1], line_id := line_id ls @ [length (ls_start ls) - 1]\<rparr>)"

definition splitLines :: "center_params \<Rightarrow> path2 \<Rightarrow> line_split" where
  "splitLines p ps = fold (split_step p ps) [0..<length ps] \<lparr>line_id = [], ls_start = [], ls_count = []\<rparr>"

definition slice :: "path2 \<Rightarrow> line_split \<Rightarrow> nat \<Rightarrow> path2" where
  "slice ps ls l = take (ls_count ls ! l) (drop (ls_start ls ! l) ps)"

definition distBin :: "center_params \<Rightarrow> real \<Rightarrow> nat" where
  "distBin p x = (let q = x / bin_width p in
     if \<not> q > 0 then 0
     else if q \<ge> of_nat (max_bins p) then max_bins p - 1
     else nat (ctrunc q))"

definition vote_left :: "generator \<Rightarrow> nat \<Rightarrow> real \<Rightarrow> bool" where
  "vote_left s b y =
    (case (prev_left_y s ! b, prev_right_y s ! b) of
       (None, None) \<Rightarrow> y > 0
     | (None, Some r) \<Rightarrow> \<bar>y - (r + road_width s ! b)\<bar> \<le> \<bar>y - r\<bar>
     | (Some l, None) \<Rightarrow> \<bar>y - l\<bar> \<le> \<bar>y - (l - road_width s ! b)\<bar>
     | (Some l, Some r) \<Rightarrow> \<bar>y - l\<bar> \<le> \<bar>y - r\<bar>)"

definition labelLines :: "center_params \<Rightarrow> path2 \<Rightarrow> line_split \<Rightarrow> generator \<Rightarrow> bool list" where
  "labelLines p ps ls s =
    map (\<lambda>l. let votes = length (filter (\<lambda>i. line_id ls ! i = l \<and> vote_left s (distBin p (fst (ps ! i))) (snd (ps ! i)))
                [0..<length ps]) in
           votes * 2 \<ge> ls_count ls ! l) [0..<length (ls_start ls)]"

section \<open>Candidates of a line\<close>

definition round_half_even :: "real \<Rightarrow> int" where
  \<comment> \<open>\<open>std::nearbyint\<close> in the default rounding mode\<close>
  "round_half_even r = (let f = \<lfloor>r\<rfloor>; d = r - of_int f in
     if d < 1 / 2 then f else if d > 1 / 2 then f + 1 else if even f then f else f + 1)"

definition oddWindow :: "center_params \<Rightarrow> real \<Rightarrow> int \<Rightarrow> int" where
  "oddWindow p meters n = (let w = min (round_half_even (meters / resample_step p)) n in
     if w smod 2 = 1 then w else w - 1)"

definition resampleLine :: "center_params \<Rightarrow> path2 \<Rightarrow> (real list \<times> real list) option" where
  "resampleLine p ps =
    (let arclen = arc_lengths 0 ps; total = last arclen in
     if total < 3 * resample_step p then None
     else let query = linspace 0 total (ctrunc (total / resample_step p) + 1) in
       Some (interpolate query arclen (map fst ps), interpolate query arclen (map snd ps)))"

definition inwardNormal :: "center_params \<Rightarrow> real \<Rightarrow> real \<Rightarrow> bool \<Rightarrow> real \<times> real" where
  "inwardNormal p tx ty right =
    (let (gx, gy, lat_y) = (if right then (ty, - tx, - 1) else (- ty, tx, 1)) in
     case (normal_blend_tx_min p, normal_blend_tx_max p) of
       (Some lo, Some hi) \<Rightarrow>
         (let span = max (hi - lo) (1 / 10 ^ 6); w_geo = clamp ((tx - lo) / span) 0 1;
              bx = w_geo * gx; by0 = w_geo * gy + (1 - w_geo) * lat_y; nn = max (hypot bx by0) (1 / 10 ^ 6) in
          (bx / nn, by0 / nn))
     | _ \<Rightarrow> (gx, gy))"

definition smoothed_line ::
  "center_params \<Rightarrow> real list \<Rightarrow> real list \<Rightarrow> sg_cache \<Rightarrow> (real list \<times> real list \<times> real list \<times> real list) \<times> sg_cache" where
  \<comment> \<open>positions and tangents of the resampled line\<close>
  "smoothed_line p rx ry cache =
    (let n = int (length rx); wp = oddWindow p (position_window_m p) n; wt = oddWindow p (tangent_window_m p) n in
     if wt \<ge> sg_min_window p then
      (let wp = nat (max wp (sg_min_window p)); order = nat (polyorder p);
           (xs, c1) = sgApply order rx wp 0 cache; (ys, c2) = sgApply order ry wp 0 c1;
           (tx, c3) = sgApply order rx (nat wt) 1 c2; (ty, c4) = sgApply order ry (nat wt) 1 c3 in
       ((xs, ys, tx, ty), c4))
     else
      (let w = make_odd (min 7 n); xs = boxSmooth rx w; ys = boxSmooth ry w in
       ((xs, ys, gradient xs, gradient ys), cache)))"

definition offset_candidate ::
  "center_params \<Rightarrow> real list \<Rightarrow> (real list \<times> real list \<times> real list \<times> real list) \<Rightarrow> offset_spec \<Rightarrow> candidate" where
  "offset_candidate p widths line spec =
    (let (xs, ys, tx, ty) = line; n = length xs;
         cs = map (\<lambda>i. let nrm = hypot (tx ! i) (ty ! i) + 1 / 10 ^ 5;
                  (nx, ny) = inwardNormal p (tx ! i / nrm) (ty ! i / nrm) (toward_right spec);
                  off = max (widths ! distBin p (xs ! i) * os_fraction spec) (min_offset p * os_fraction spec) in
                (xs ! i + nx * off, ys ! i + ny * off)) [0..<n];
         radial = map (\<lambda>(x, y). hypot x y) cs;
         order = sort_key (\<lambda>i. radial ! i) [0..<n] in
     \<lparr>cd_lane = os_lane spec, cd_kind = os_kind spec, cd_x = map (\<lambda>i. fst (cs ! i)) order,
       cd_y = map (\<lambda>i. snd (cs ! i)) order,
       cd_radial = map (\<lambda>i. radial ! (order ! i) + of_nat i * (1 / 10 ^ 4)) [0..<n], cd_fraction = os_fraction spec\<rparr>)"

definition lineCenterline :: "center_params \<Rightarrow> path2 \<Rightarrow> offset_spec list \<Rightarrow> generator \<Rightarrow> candidate list \<times> generator" where
  "lineCenterline p ps specs s =
    (if length ps < 3 then ([], s)
     else
      (let ps = (if hypot (fst (hd ps)) (snd (hd ps)) > hypot (fst (last ps)) (snd (last ps)) then rev ps else ps) in
       case resampleLine p ps of
         None \<Rightarrow> ([], s)
       | Some (rx, ry) \<Rightarrow>
          (let (line, c) = smoothed_line p rx ry (sg_cache s) in
           (map (offset_candidate p (road_width s) line) specs, s\<lparr>sg_cache := c\<rparr>))))"

definition yellow_keep :: "center_params \<Rightarrow> generator \<Rightarrow> pt \<Rightarrow> bool" where
  "yellow_keep p s q =
    (let b = distBin p (fst q); width = road_width s ! b;
         mid = (case (prev_left_y s ! b, prev_right_y s ! b) of
             (Some l, Some r) \<Rightarrow> Some (0.5 * (l + r))
           | (Some l, None) \<Rightarrow> Some (l - 0.5 * width)
           | (None, Some r) \<Rightarrow> Some (r + 0.5 * width)
           | (None, None) \<Rightarrow> None) in
     case mid of None \<Rightarrow> True | Some m \<Rightarrow> \<bar>snd q - m\<bar> \<le> yellow_gate_fraction p * width)"

primrec line_candidates ::
  "center_params \<Rightarrow> (path2 \<times> offset_spec list) list \<Rightarrow> generator \<Rightarrow> candidate list \<times> generator" where
  \<comment> \<open>the loop over the lines of a cloud\<close>
  "line_candidates p [] s = ([], s)"
| "line_candidates p (l # ls) s =
    (let (cs, s1) = lineCenterline p (fst l) (snd l) s; (cs', s2) = line_candidates p ls s1 in (cs @ cs', s2))"

definition yellowCandidates :: "center_params \<Rightarrow> path2 \<Rightarrow> generator \<Rightarrow> candidate list \<times> generator" where
  "yellowCandidates p yellow s =
    (let g = filter (yellow_keep p s) yellow in
     if length g < 3 then ([], s)
     else let ls = splitLines p g in
       line_candidates p (map (\<lambda>l. (slice g ls l, yellow_specs)) [0..<length (ls_start ls)]) s)"

section \<open>Fusion of a side\<close>

definition ref_fraction :: real where "ref_fraction = 0.25"

definition fuse_weight :: "candidate \<Rightarrow> real \<Rightarrow> real option" where
  \<comment> \<open>the weight of a candidate at a radial distance; \<open>None\<close> outside its span\<close>
  "fuse_weight c d =
    (let lo = hd (cd_radial c); hi = last (cd_radial c); w = (ref_fraction / max (cd_fraction c) (1 / 1000)) ^ 2 in
     if d < lo \<or> d > hi then None
     else let ramp = clamp (min (d - lo) (hi - d) / 1) 0 1 in Some (w * (0.02 + 0.98 * ramp)))"

definition weighted_sum :: "(candidate \<Rightarrow> real) \<Rightarrow> candidate list \<Rightarrow> real \<Rightarrow> real" where
  "weighted_sum f cs d = (\<Sum>c\<leftarrow>cs. case fuse_weight c d of None \<Rightarrow> 0 | Some w \<Rightarrow> w * f c)"

definition fused_grid :: "center_params \<Rightarrow> candidate list \<Rightarrow> (bool \<times> real \<times> real) list" where
  "fused_grid p cs =
    map (\<lambda>d. let sw = weighted_sum (\<lambda>_. 1) cs d; den = max sw (1 / 10 ^ 9) in
        (sw > 0, weighted_sum (\<lambda>c. interp1 (cd_radial c) (cd_x c) d) cs d / den,
         weighted_sum (\<lambda>c. interp1 (cd_radial c) (cd_y c) d) cs d / den)) (d_grid p)"

definition store_track :: "nat list \<Rightarrow> real list \<Rightarrow> real option list \<Rightarrow> real option list" where
  "store_track gs vs trk = fold (\<lambda>(g, v) t. t[g := Some v]) (zip gs vs) trk"

definition fuseSide :: "center_params \<Rightarrow> side \<Rightarrow> candidate list \<Rightarrow> generator \<Rightarrow> path2 \<times> generator" where
  "fuseSide p sd cs s =
    (if cs = [] then ([], s)
     else
      (let grid = fused_grid p cs; valid = map fst grid;
           idxs = filter (\<lambda>g. valid ! g) [0..<length grid] in
       if length idxs < 3 then ([], s)
       else
        (let sx_full = maskedSmooth (map (\<lambda>(v, x, y). x) grid) valid (final_smooth_window p);
             sy_full = maskedSmooth (map (\<lambda>(v, x, y). y) grid) valid (final_smooth_window p);
             pts = map (\<lambda>g. (sx_full ! g, sy_full ! g)) idxs;
             has_close = list_ex (\<lambda>c. cd_fraction c \<le> ref_fraction + 1 / 10 ^ 6) cs;
             start_limit = (if has_close then near_field_range p else far_near_field_range p);
             min_x = foldl min (fst (hd pts)) (map fst (tl pts)) in
         if int (length pts) < min_near_pts p \<or> min_x > start_limit then ([], s)
         else
          (let alpha = centerline_ema_alpha p;
               mixed = map2 (\<lambda>g (x, y). case track_x s sd ! g of
                   None \<Rightarrow> (x, y)
                 | Some tx \<Rightarrow> (alpha * x + (1 - alpha) * tx,
                     case track_y s sd ! g of Some ty \<Rightarrow> alpha * y + (1 - alpha) * ty | None \<Rightarrow> y)) idxs pts;
               path = lockNearField mixed in
           (path, s\<lparr>track_x := (track_x s)(sd := store_track idxs (map fst path) (track_x s sd)),
                    track_y := (track_y s)(sd := store_track idxs (map snd path) (track_y s sd))\<rparr>)))))"

section \<open>Joining the lane\<close>

definition bezier_point :: "pt \<Rightarrow> pt \<Rightarrow> pt \<Rightarrow> real \<Rightarrow> pt" where
  \<comment> \<open>the cubic with its first control point at the origin\<close>
  "bezier_point p1 p2 p3 u =
    (let b = 3 * (1 - u) * (1 - u) * u; c = 3 * (1 - u) * u * u; d = u * u * u in
     (b * fst p1 + c * fst p2 + d * fst p3, b * snd p1 + c * snd p2 + d * snd p3))"

definition join_index :: "path2 \<Rightarrow> real \<Rightarrow> nat" where
  \<comment> \<open>the first pose at least \<open>chord\<close> away from the robot, else the last one\<close>
  "join_index path chord =
    (case filter (\<lambda>i. hypot (fst (path ! i)) (snd (path ! i)) \<ge> chord) [0..<length path] of
       [] \<Rightarrow> length path - 1
     | i # _ \<Rightarrow> i)"

definition bezierLaneChange :: "center_params \<Rightarrow> path2 \<Rightarrow> path2" where
  "bezierLaneChange p path =
    (if length path < 3 then path
     else
      (let n = length path;
           max_r = foldl max 0 (map (\<lambda>(x, y). hypot x y) path);
           nl = min n 5;
           lateral = (\<Sum>i\<leftarrow>[0..<nl]. \<bar>snd (path ! i)\<bar>) / of_nat nl;
           chord = min (max (lane_change_min_len p) (lane_change_factor p * lateral)) (0.8 * max_r);
           j = join_index path chord;
           lo = j - 5; hi = min (j + 5) (n - 1);
           tx = fst (path ! hi) - fst (path ! lo); ty = snd (path ! hi) - snd (path ! lo);
           tn = max (hypot tx ty) (1 / 10 ^ 6);
           p3 = path ! j; handle = bezier_handle p * hypot (fst p3) (snd p3);
           p2 = (fst p3 - handle * (tx / tn), snd p3 - handle * (ty / tn));
           bs = map (\<lambda>i. bezier_point (handle, 0) p2 p3 (of_nat i / 199)) [0..<200];
           arclen = map2 (\<lambda>a i. a + of_nat i * (1 / 10 ^ 7)) (arc_lengths 0 bs) [0..<200];
           m = max (ctrunc (last arclen / path_spacing p) + 1) 2;
           query = linspace 0 (last arclen) m;
           qx = interpolate query arclen (map fst bs); qy = interpolate query arclen (map snd bs) in
       take (nat m - 1) (zip qx qy) @ drop j path))"

definition anchorToOrigin :: "center_params \<Rightarrow> path2 \<Rightarrow> path2" where
  "anchorToOrigin p path =
    (if path = [] then path
     else if hypot (fst (hd path)) (snd (hd path)) < 1 / 1000 then path
     else bezierLaneChange p path)"

section \<open>One frame\<close>

record center_result =
  cr_left :: path2
  cr_right :: path2
  cr_ok :: bool

definition white_stage :: "center_params \<Rightarrow> path2 \<Rightarrow> generator \<Rightarrow> candidate list \<times> generator" where
  "white_stage p white s =
    (if white = [] then ([], s)
     else
      (let ls = splitLines p white; line_is_left = labelLines p white ls s;
           pts = map (\<lambda>i. \<lparr>lb_y = snd (white ! i), lb_bin = distBin p (fst (white ! i)),
                           lb_left = line_is_left ! (line_id ls ! i)\<rparr>) [0..<length white];
           s1 = updateMemory p pts s in
       line_candidates p (map (\<lambda>l. (slice white ls l, if line_is_left ! l then white_left else white_right))
         [0..<length (ls_start ls)]) s1))"

definition on_side :: "kind set \<Rightarrow> side \<Rightarrow> candidate list \<Rightarrow> candidate list" where
  "on_side ks sd = filter (\<lambda>c. cd_kind c \<in> ks \<and> cd_lane c = sd)"

definition select_side :: "candidate list \<Rightarrow> candidate list \<Rightarrow> side \<Rightarrow> candidate list" where
  \<comment> \<open>near and far candidates if there is a near one, else yellow and far\<close>
  "select_side white yellow sd =
    (let near = on_side {Near} sd white; far = on_side {Far, Yellow} sd white in
     (if near = [] then filter (\<lambda>c. cd_lane c = sd) yellow else near) @ far)"

definition yellow_stage :: "center_params \<Rightarrow> candidate list \<Rightarrow> path2 \<Rightarrow> generator \<Rightarrow> candidate list \<times> generator" where
  "yellow_stage p white yellow s =
    (if (on_side {Near} Left_Side white = [] \<or> on_side {Near} Right_Side white = []) \<and> yellow \<noteq> []
     then yellowCandidates p yellow s else ([], s))"

definition finish_side :: "center_params \<Rightarrow> path2 \<Rightarrow> path2" where
  "finish_side p path = anchorToOrigin p (if lane_change_bezier p then bezierLaneChange p path else path)"

definition generate :: "center_params \<Rightarrow> path2 \<Rightarrow> path2 \<Rightarrow> generator \<Rightarrow> center_result \<times> generator" where
  "generate p white yellow s =
    (let (wc, s1) = white_stage p white s; (yc, s2) = yellow_stage p wc yellow s1;
         (l, s3) = fuseSide p Left_Side (select_side wc yc Left_Side) s2;
         (r, s4) = fuseSide p Right_Side (select_side wc yc Right_Side) s3 in
     if l = [] \<and> r = [] then (\<lparr>cr_left = [], cr_right = [], cr_ok = False\<rparr>, failedFrame p s4)
     else (\<lparr>cr_left = finish_side p l, cr_right = finish_side p r, cr_ok = True\<rparr>, s4\<lparr>bad_frame_streak := 0\<rparr>))"

definition prebuild :: "center_params \<Rightarrow> sg_cache \<Rightarrow> sg_cache" where
  \<comment> \<open>the kernels the constructor builds ahead\<close>
  "prebuild p c =
    (let wp = oddWindow p (position_window_m p) 100000; wt = oddWindow p (tangent_window_m p) 100000 in
     if wt \<ge> sg_min_window p then
       (let c1 = snd (sgKernel (nat (polyorder p)) (nat (max wp (sg_min_window p))) 0 c) in
        snd (sgKernel (nat (polyorder p)) (nat wt) 1 c1))
     else c)"

definition new_generator :: "center_params \<Rightarrow> generator" where
  "new_generator p =
    (let s = resetMemory p \<lparr>prev_left_y = [], prev_right_y = [], road_width = [], width_stale = [],
       track_x = (\<lambda>_. []), track_y = (\<lambda>_. []), bad_frame_streak = 0, sg_cache = Map.empty\<rparr> in
     s\<lparr>sg_cache := prebuild p (sg_cache s)\<rparr>)"

primrec generate_run :: "center_params \<Rightarrow> (path2 \<times> path2) list \<Rightarrow> generator \<Rightarrow> center_result list \<times> generator" where
  "generate_run p [] s = ([], s)"
| "generate_run p (f # fs) s =
    (let (r, s1) = generate p (fst f) (snd f) s; (rs, s2) = generate_run p fs s1 in (r # rs, s2))"

section \<open>Splitting keeps the points\<close>

text \<open>What the first \<open>k\<close> points have become: lines that cover them one after another.\<close>

definition split_inv :: "center_params \<Rightarrow> path2 \<Rightarrow> nat \<Rightarrow> line_split \<Rightarrow> bool" where
  "split_inv p ps k ls \<longleftrightarrow> length (line_id ls) = k \<and> length (ls_start ls) = length (ls_count ls) \<and>
     (0 < k \<longrightarrow> ls_start ls \<noteq> []) \<and>
     concat (map2 (\<lambda>s c. take c (drop s ps)) (ls_start ls) (ls_count ls)) = take k ps \<and>
     (ls_start ls \<noteq> [] \<longrightarrow> last (ls_start ls) + last (ls_count ls) = k \<and> 0 < k \<and> line_id ls ! (k - 1) = length (ls_start ls) - 1) \<and>
     (\<forall>i. 0 < i \<and> i < k \<longrightarrow> line_id ls ! i = line_id ls ! (i - 1) + (if breaks_at p ps i then 1 else 0))"

lemma map2_snoc: "length xs = length ys \<Longrightarrow> map2 f (xs @ [x]) (ys @ [y]) = map2 f xs ys @ [f x y]"
  by simp

lemma take_one_more: "a + c = k \<Longrightarrow> k < length ps \<Longrightarrow> take (Suc c) (drop a ps) = take c (drop a ps) @ [ps ! k]"
  by (auto simp: take_Suc_conv_app_nth)

lemma split_invD:
  assumes "split_inv p ps k ls"
  shows "length (line_id ls) = k" "length (ls_start ls) = length (ls_count ls)" "0 < k \<Longrightarrow> ls_start ls \<noteq> []"
    "concat (map2 (\<lambda>s c. take c (drop s ps)) (ls_start ls) (ls_count ls)) = take k ps"
    "ls_start ls \<noteq> [] \<Longrightarrow> last (ls_start ls) + last (ls_count ls) = k"
    "ls_start ls \<noteq> [] \<Longrightarrow> 0 < k \<and> line_id ls ! (k - 1) = length (ls_start ls) - 1"
    "0 < i \<Longrightarrow> i < k \<Longrightarrow> line_id ls ! i = line_id ls ! (i - 1) + (if breaks_at p ps i then 1 else 0)"
  using assms by (auto simp: split_inv_def)

lemma split_invI:
  assumes "length (line_id ls) = Suc k" "length (ls_start ls) = length (ls_count ls)" "ls_start ls \<noteq> []"
    "concat (map2 (\<lambda>s c. take c (drop s ps)) (ls_start ls) (ls_count ls)) = take (Suc k) ps"
    "last (ls_start ls) + last (ls_count ls) = Suc k" "line_id ls ! k = length (ls_start ls) - 1"
    "\<And>i. 0 < i \<Longrightarrow> i < Suc k \<Longrightarrow> line_id ls ! i = line_id ls ! (i - 1) + (if breaks_at p ps i then 1 else 0)"
  shows "split_inv p ps (Suc k) ls"
  using assms by (simp add: split_inv_def)

lemma split_ids_step:
  assumes "length ids = k" "0 < k \<Longrightarrow> x = ids ! (k - 1) + (if breaks_at p ps k then 1 else 0)"
    and "\<And>i. 0 < i \<Longrightarrow> i < k \<Longrightarrow> ids ! i = ids ! (i - 1) + (if breaks_at p ps i then 1 else 0)"
    and "0 < i" "i < Suc k"
  shows "(ids @ [x]) ! i = (ids @ [x]) ! (i - 1) + (if breaks_at p ps i then 1 else 0 :: nat)"
proof (cases "i = k")
  case True
  with assms(1,4) have "(ids @ [x]) ! i = x" "(ids @ [x]) ! (i - 1) = ids ! (k - 1)"
    by (simp_all add: nth_append)
  with True assms(2,4) show ?thesis by simp
next
  case False
  then have lt: "i < k" "i - 1 < k" using assms(4,5) by linarith+
  with assms(1) have "(ids @ [x]) ! i = ids ! i" "(ids @ [x]) ! (i - 1) = ids ! (i - 1)"
    by (simp_all add: nth_append)
  with assms(3) [OF assms(4) lt(1)] show ?thesis by (simp only:)
qed

lemma split_inv_step:
  assumes inv: "split_inv p ps k ls" and k: "k < length ps"
  shows "split_inv p ps (Suc k) (split_step p ps k ls)"
proof (cases "breaks_at p ps k")
  case True
  have f: "line_id (split_step p ps k ls) = line_id ls @ [length (ls_start ls)]"
    "ls_start (split_step p ps k ls) = ls_start ls @ [k]" "ls_count (split_step p ps k ls) = ls_count ls @ [1]"
    using True by (simp_all add: split_step_def Let_def)
  have "length (ls_start ls) = line_id ls ! (k - 1) + (if breaks_at p ps k then 1 else 0)" if "0 < k"
    using split_invD(3,6) [OF inv] that True by simp
  from split_ids_step [OF split_invD(1) [OF inv] this split_invD(7) [OF inv]]
  show ?thesis
    using split_invD(1,2,4) [OF inv] k
    by (intro split_invI) (simp_all add: f map2_snoc take_Suc_conv_app_nth nth_append)
next
  case False
  then have "0 < k" by (auto simp: breaks_at_def)
  then have "ls_start ls \<noteq> []" "ls_count ls \<noteq> []" using split_invD(2,3) [OF inv] by auto
  then obtain ss s0 cc c0 where sc: "ls_start ls = ss @ [s0]" "ls_count ls = cc @ [c0]" by (metis rev_exhaust)
  have len: "length ss = length cc" "s0 + c0 = k" using split_invD(2,5) [OF inv] sc by auto
  have f: "line_id (split_step p ps k ls) = line_id ls @ [length ss]"
    "ls_start (split_step p ps k ls) = ss @ [s0]" "ls_count (split_step p ps k ls) = cc @ [Suc c0]"
    using False sc by (simp_all add: split_step_def Let_def)
  have "length ss = line_id ls ! (k - 1) + (if breaks_at p ps k then 1 else 0)" if "0 < k"
    using split_invD(6) [OF inv] sc False by simp
  note ids = split_ids_step [OF split_invD(1) [OF inv] this split_invD(7) [OF inv]]
  have "concat (map2 (\<lambda>s c. take c (drop s ps)) (ss @ [s0]) (cc @ [Suc c0])) = take (Suc k) ps"
    using split_invD(4) [OF inv] sc len take_one_more [OF len(2) k] k
    by (simp add: map2_snoc take_Suc_conv_app_nth)
  then show ?thesis
    using ids split_invD(1) [OF inv] len
    by (intro split_invI) (simp_all only: f, simp_all add: nth_append)
qed

lemma split_inv_fold: "k \<le> length ps \<Longrightarrow>
    split_inv p ps k (fold (split_step p ps) [0..<k] \<lparr>line_id = [], ls_start = [], ls_count = []\<rparr>)"
proof (induction k)
  case 0
  show ?case by (simp add: split_inv_def)
next
  case (Suc k)
  then show ?case using split_inv_step by simp
qed

lemma slices_concat:
  "length xs = length ys \<Longrightarrow> concat (map (\<lambda>l. take (ys ! l) (drop (xs ! l) ps)) [0..<length xs])
    = concat (map2 (\<lambda>s c. take c (drop s ps)) xs ys)"
  by (rule arg_cong [where f = concat]) (auto intro: nth_equalityI)

section \<open>The memory keeps its shape\<close>

text \<open>What the widths rely on of the parameters, which come from ROS and are not tested by the code.\<close>

definition params_ok :: "center_params \<Rightarrow> bool" where
  "params_ok p \<longleftrightarrow> min_road_width p \<le> nominal_road_width p \<and> nominal_road_width p \<le> max_road_width p \<and>
     0 \<le> width_ema_alpha p \<and> width_ema_alpha p \<le> 1 \<and> 0 \<le> width_stale_decay_alpha p \<and> width_stale_decay_alpha p \<le> 1 \<and>
     0 \<le> max_width_update p"

definition gen_inv :: "center_params \<Rightarrow> generator \<Rightarrow> bool" where
  "gen_inv p s \<longleftrightarrow> length (prev_left_y s) = max_bins p \<and> length (prev_right_y s) = max_bins p \<and>
     length (road_width s) = max_bins p \<and> length (width_stale s) = max_bins p \<and>
     (\<forall>sd. length (track_x s sd) = num_out p \<and> length (track_y s sd) = num_out p) \<and>
     (params_ok p \<longrightarrow> (\<forall>w \<in> set (road_width s). min_road_width p \<le> w \<and> w \<le> max_road_width p)) \<and>
     0 \<le> bad_frame_streak s \<and> (bad_frame_streak s = 0 \<or> bad_frame_streak s < max_bad_frame_streak p) \<and>
     cache_ok (nat (polyorder p)) (sg_cache s)"

lemma gen_inv_reset: "cache_ok (nat (polyorder p)) (sg_cache s) \<Longrightarrow> gen_inv p (resetMemory p s)"
  by (auto simp: gen_inv_def resetMemory_def params_ok_def)

lemma gen_inv_failed: "gen_inv p s \<Longrightarrow> gen_inv p (failedFrame p s)"
proof -
  assume a: "gen_inv p s"
  then have "gen_inv p (resetMemory p (s\<lparr>bad_frame_streak := bad_frame_streak s + 1\<rparr>))"
    using gen_inv_reset [of p "s\<lparr>bad_frame_streak := bad_frame_streak s + 1\<rparr>"] by (simp add: gen_inv_def)
  moreover have "gen_inv p (s\<lparr>bad_frame_streak := bad_frame_streak s + 1\<rparr>)"
    if "bad_frame_streak s + 1 < max_bad_frame_streak p"
    using a that by (simp add: gen_inv_def)
  ultimately show ?thesis by (simp add: failedFrame_def Let_def)
qed

lemma mix_between:
  fixes a x y lo hi :: real
  assumes "0 \<le> a" "a \<le> 1" "lo \<le> x" "x \<le> hi" "lo \<le> y" "y \<le> hi"
  shows "lo \<le> a * x + (1 - a) * y \<and> a * x + (1 - a) * y \<le> hi"
proof -
  have "a * lo + (1 - a) * lo \<le> a * x + (1 - a) * y" "a * x + (1 - a) * y \<le> a * hi + (1 - a) * hi"
    using assms by (intro add_mono mult_left_mono; simp)+
  then show ?thesis by (simp add: algebra_simps)
qed

lemma clamped_step_between:
  fixes rw t m lo hi :: real
  assumes "0 \<le> m" "lo \<le> rw" "rw \<le> hi" "lo \<le> t" "t \<le> hi"
  shows "lo \<le> rw + clamp (t - rw) (- m) m \<and> rw + clamp (t - rw) (- m) m \<le> hi"
  using assms by (auto simp: clamp_def)

lemma update_bin_width:
  assumes "params_ok p" "min_road_width p \<le> rw" "rw \<le> max_road_width p"
    and "update_bin p pts b pl pr rw stale = (pl', pr', rw', stale')"
  shows "min_road_width p \<le> rw' \<and> rw' \<le> max_road_width p"
proof -
  let ?ok = "\<lambda>v. min_road_width p \<le> v \<and> v \<le> max_road_width p"
  have lohi: "min_road_width p \<le> max_road_width p" using assms(1) by (auto simp: params_ok_def)
  have target: "?ok (width_ema_alpha p * clamp raw (min_road_width p) (max_road_width p) + (1 - width_ema_alpha p) * rw)" for raw
    using assms(1-3) clamp_bounds [OF lohi, of raw] by (intro mix_between) (auto simp: params_ok_def)
  have stepped: "?ok (rw + clamp (width_ema_alpha p * clamp raw (min_road_width p) (max_road_width p)
      + (1 - width_ema_alpha p) * rw - rw) (- max_width_update p) (max_width_update p))" for raw
    using assms(1-3) target [of raw] by (intro clamped_step_between) (auto simp: params_ok_def)
  have decayed: "?ok (v + width_stale_decay_alpha p * (nominal_road_width p - v))" if "?ok v" for v
  proof -
    have "?ok (width_stale_decay_alpha p * nominal_road_width p + (1 - width_stale_decay_alpha p) * v)"
      using assms(1) that by (intro mix_between) (auto simp: params_ok_def)
    then show ?thesis by (simp add: algebra_simps)
  qed
  obtain raw conf where rw': "rw' = (let rw1 = (if conf then rw + clamp (width_ema_alpha p * clamp raw (min_road_width p)
      (max_road_width p) + (1 - width_ema_alpha p) * rw - rw) (- max_width_update p) (max_width_update p) else rw) in
      if stale' > of_int (decay_frames p) then rw1 + width_stale_decay_alpha p * (nominal_road_width p - rw1) else rw1)"
    using assms(4) unfolding update_bin_def Let_def by (simp only: prod.inject) blast
  show ?thesis
    unfolding rw' Let_def using assms(2,3) stepped decayed by (simp split: if_split)
qed

lemma list_mean_between:
  fixes xs :: "real list"
  assumes "xs \<noteq> []" "\<forall>x \<in> set xs. lo \<le> x \<and> x \<le> hi"
  shows "lo \<le> sum_list xs / of_nat (length xs) \<and> sum_list xs / of_nat (length xs) \<le> hi"
proof -
  have "of_nat (length xs) * lo \<le> sum_list xs \<and> sum_list xs \<le> of_nat (length xs) * hi"
    using assms(2) by (induction xs) (auto simp: algebra_simps)
  with assms(1) show ?thesis by (simp add: le_divide_eq divide_le_eq mult.commute)
qed

lemma inherit_width_between:
  assumes "\<forall>w \<in> set widths. lo \<le> w \<and> w \<le> hi"
  shows "\<forall>w \<in> set (inherit_width p widths stales). lo \<le> w \<and> w \<le> hi"
proof -
  let ?bs = "filter (\<lambda>b. bin_trusted p b \<and> stales ! b \<le> of_int (decay_frames p)) [0..<length widths]"
  have "lo \<le> (\<Sum>b\<leftarrow>?bs. widths ! b) / of_nat (length ?bs) \<and> (\<Sum>b\<leftarrow>?bs. widths ! b) / of_nat (length ?bs) \<le> hi" if "?bs \<noteq> []"
    using list_mean_between [of "map (\<lambda>b. widths ! b) ?bs" lo hi] that assms by auto
  then show ?thesis using assms by (auto simp: inherit_width_def Let_def)
qed

lemma length_inherit_width [simp]: "length (inherit_width p widths stales) = length widths"
  by (simp add: inherit_width_def Let_def)

lemma gen_inv_updateMemory:
  assumes "gen_inv p s"
  shows "gen_inv p (updateMemory p pts s)"
proof -
  let ?u = "\<lambda>b. update_bin p pts b (prev_left_y s ! b) (prev_right_y s ! b) (road_width s ! b) (width_stale s ! b)"
  let ?ws = "map (\<lambda>(pl, pr, rw, st). rw) (map ?u [0..<max_bins p])"
  have "\<forall>w \<in> set (inherit_width p ?ws st). min_road_width p \<le> w \<and> w \<le> max_road_width p" if ok: "params_ok p" for st
  proof -
    have "min_road_width p \<le> fst (snd (snd (?u b))) \<and> fst (snd (snd (?u b))) \<le> max_road_width p" if "b < max_bins p" for b
    proof -
      have "road_width s ! b \<in> set (road_width s)" using assms that by (simp add: gen_inv_def)
      then have "min_road_width p \<le> road_width s ! b" "road_width s ! b \<le> max_road_width p"
        using assms ok by (auto simp: gen_inv_def)
      from update_bin_width [OF ok this, of pts b "prev_left_y s ! b" "prev_right_y s ! b" "width_stale s ! b"]
      show ?thesis by (metis prod.collapse)
    qed
    then have "\<forall>w \<in> set ?ws. min_road_width p \<le> w \<and> w \<le> max_road_width p"
      by (auto simp: split_beta)
    from inherit_width_between [OF this] show ?thesis .
  qed
  then show ?thesis
    using assms by (simp add: gen_inv_def updateMemory_def Let_def)
qed

definition same_memory :: "generator \<Rightarrow> generator \<Rightarrow> bool" where
  \<comment> \<open>the states differ at most in the kernel cache\<close>
  "same_memory s s' \<longleftrightarrow> s\<lparr>sg_cache := Map.empty\<rparr> = s'\<lparr>sg_cache := Map.empty\<rparr>"

lemma same_memory_refl [simp]: "same_memory s s" by (simp add: same_memory_def)

lemma same_memory_cache [simp]: "same_memory s (s\<lparr>sg_cache := c\<rparr>)" by (simp add: same_memory_def)

lemma same_memory_trans: "same_memory a b \<Longrightarrow> same_memory b c \<Longrightarrow> same_memory a c" by (simp add: same_memory_def)

lemma gen_inv_cong:
  assumes "same_memory s s'" "cache_ok (nat (polyorder p)) (sg_cache s')" "gen_inv p s"
  shows "gen_inv p s'"
proof -
  have "prev_left_y s' = prev_left_y s" "prev_right_y s' = prev_right_y s" "road_width s' = road_width s"
    "width_stale s' = width_stale s" "track_x s' = track_x s" "track_y s' = track_y s"
    "bad_frame_streak s' = bad_frame_streak s"
    using assms(1) unfolding same_memory_def by (metis generator.surjective generator.update_convs(8) generator.ext_inject)+
  with assms(2,3) show ?thesis by (simp add: gen_inv_def)
qed

lemma smoothed_line_cache:
  assumes "cache_ok (nat (polyorder p)) c"
  shows "cache_ok (nat (polyorder p)) (snd (smoothed_line p rx ry c))"
  by (simp add: smoothed_line_def Let_def split_beta cache_ok_sgApply assms)

lemma lineCenterline_memory:
  assumes "lineCenterline p ps specs s = (cs, s')"
  shows "same_memory s s' \<and> (cache_ok (nat (polyorder p)) (sg_cache s) \<longrightarrow> cache_ok (nat (polyorder p)) (sg_cache s'))"
proof -
  let ?q = "if hypot (fst (hd ps)) (snd (hd ps)) > hypot (fst (last ps)) (snd (last ps)) then rev ps else ps"
  show ?thesis
  proof (cases "length ps < 3 \<or> resampleLine p ?q = None")
    case True
    with assms show ?thesis by (auto simp: lineCenterline_def Let_def split: if_splits)
  next
    case False
    then obtain rx ry where "resampleLine p ?q = Some (rx, ry)" by fastforce
    with False assms have "s' = s\<lparr>sg_cache := snd (smoothed_line p rx ry (sg_cache s))\<rparr>"
      by (simp add: lineCenterline_def Let_def split_beta del: split_paired_All)
    then show ?thesis by (simp add: smoothed_line_cache)
  qed
qed

lemma gen_inv_cache: "gen_inv p s \<Longrightarrow> cache_ok (nat (polyorder p)) (sg_cache s)"
  by (simp add: gen_inv_def)

lemma gen_inv_lineCenterline:
  "gen_inv p s \<Longrightarrow> lineCenterline p ps specs s = (cs, s') \<Longrightarrow> gen_inv p s'"
  using lineCenterline_memory gen_inv_cache gen_inv_cong by blast

lemma gen_inv_line_candidates:
  "gen_inv p s \<Longrightarrow> line_candidates p ls s = (cs, s') \<Longrightarrow> gen_inv p s'"
proof (induction ls arbitrary: s cs)
  case (Cons l ls)
  then show ?case
    by (auto simp: Let_def split: prod.splits dest: gen_inv_lineCenterline)
qed simp

lemma gen_inv_white_stage:
  "gen_inv p s \<Longrightarrow> white_stage p white s = (cs, s') \<Longrightarrow> gen_inv p s'"
  unfolding white_stage_def Let_def
  by (auto split: if_splits dest: gen_inv_line_candidates [OF gen_inv_updateMemory])

lemma gen_inv_yellow_stage:
  "gen_inv p s \<Longrightarrow> yellow_stage p wc yellow s = (cs, s') \<Longrightarrow> gen_inv p s'"
  unfolding yellow_stage_def yellowCandidates_def Let_def
  by (auto split: if_splits dest: gen_inv_line_candidates)

lemma length_fold_store: "length (fold (\<lambda>(g, v) t. t[g := Some v]) gvs trk) = length trk"
  by (induction gvs arbitrary: trk) (auto simp: split_beta)

lemma length_store_track [simp]: "length (store_track gs vs trk) = length trk"
  by (simp add: store_track_def length_fold_store)

text \<open>A fused side is empty and changes nothing, or it has at least three points, which its track now holds.\<close>

lemma fuseSide_cases:
  assumes "fuseSide p sd cs s = (path, s')"
  obtains "path = []" "s' = s"
  | idxs where "3 \<le> length path" "s' = s\<lparr>track_x := (track_x s)(sd := store_track idxs (map fst path) (track_x s sd)),
      track_y := (track_y s)(sd := store_track idxs (map snd path) (track_y s sd))\<rparr>"
proof -
  let ?grid = "fused_grid p cs"
  let ?idxs = "filter (\<lambda>g. map fst ?grid ! g) [0..<length ?grid]"
  consider "path = []" "s' = s" | f where "path = lockNearField (map2 f ?idxs
        (map (\<lambda>g. (maskedSmooth (map (\<lambda>(v, x, y). x) ?grid) (map fst ?grid) (final_smooth_window p) ! g,
                   maskedSmooth (map (\<lambda>(v, x, y). y) ?grid) (map fst ?grid) (final_smooth_window p) ! g)) ?idxs))"
      "\<not> length ?idxs < 3"
      "s' = s\<lparr>track_x := (track_x s)(sd := store_track ?idxs (map fst path) (track_x s sd)),
      track_y := (track_y s)(sd := store_track ?idxs (map snd path) (track_y s sd))\<rparr>"
    using assms unfolding fuseSide_def Let_def by (simp only: split: if_splits) blast+
  then show ?thesis
  proof cases
    case 1
    then show ?thesis by (rule that(1))
  next
    case 2
    then have "3 \<le> length path" by (simp only: length_lockNearField length_map length_zip)
    with 2 show ?thesis by (intro that(2))
  qed
qed

lemma gen_inv_fuseSide: "gen_inv p s \<Longrightarrow> fuseSide p sd cs s = (path, s') \<Longrightarrow> gen_inv p s'"
  by (erule fuseSide_cases) (auto simp: gen_inv_def)

lemma generate_cases:
  assumes "generate p white yellow s = (r, s')"
  obtains wc s1 yc s2 l s3 rt s4 where
    "white_stage p white s = (wc, s1)" "yellow_stage p wc yellow s1 = (yc, s2)"
    "fuseSide p Left_Side (select_side wc yc Left_Side) s2 = (l, s3)"
    "fuseSide p Right_Side (select_side wc yc Right_Side) s3 = (rt, s4)"
    "l = [] \<and> rt = [] \<and> r = \<lparr>cr_left = [], cr_right = [], cr_ok = False\<rparr> \<and> s' = failedFrame p s4 \<or>
     (l \<noteq> [] \<or> rt \<noteq> []) \<and> r = \<lparr>cr_left = finish_side p l, cr_right = finish_side p rt, cr_ok = True\<rparr> \<and>
       s' = s4\<lparr>bad_frame_streak := 0\<rparr>"
proof -
  obtain wc s1 where 1: "white_stage p white s = (wc, s1)" by fastforce
  obtain yc s2 where 2: "yellow_stage p wc yellow s1 = (yc, s2)" by fastforce
  obtain l s3 where 3: "fuseSide p Left_Side (select_side wc yc Left_Side) s2 = (l, s3)" by fastforce
  obtain rt s4 where 4: "fuseSide p Right_Side (select_side wc yc Right_Side) s3 = (rt, s4)" by fastforce
  from assms 1 2 3 4 show ?thesis
    by (intro that [OF 1 2 3 4]) (auto simp: generate_def split: if_splits)
qed

lemma gen_inv_generate:
  assumes "gen_inv p s" "generate p white yellow s = (r, s')"
  shows "gen_inv p s'"
  using assms(2)
proof (rule generate_cases)
  fix wc s1 yc s2 l s3 rt s4
  assume stages: "white_stage p white s = (wc, s1)" "yellow_stage p wc yellow s1 = (yc, s2)"
    "fuseSide p Left_Side (select_side wc yc Left_Side) s2 = (l, s3)"
    "fuseSide p Right_Side (select_side wc yc Right_Side) s3 = (rt, s4)"
    and out: "l = [] \<and> rt = [] \<and> r = \<lparr>cr_left = [], cr_right = [], cr_ok = False\<rparr> \<and> s' = failedFrame p s4 \<or>
     (l \<noteq> [] \<or> rt \<noteq> []) \<and> r = \<lparr>cr_left = finish_side p l, cr_right = finish_side p rt, cr_ok = True\<rparr> \<and>
       s' = s4\<lparr>bad_frame_streak := 0\<rparr>"
  have "gen_inv p s4"
    using gen_inv_white_stage [OF assms(1) stages(1)] gen_inv_yellow_stage [OF _ stages(2)]
      gen_inv_fuseSide [OF _ stages(3)] gen_inv_fuseSide [OF _ stages(4)] by blast
  moreover have "gen_inv p (s4\<lparr>bad_frame_streak := 0\<rparr>)" if "gen_inv p s4" using that by (simp add: gen_inv_def)
  ultimately show ?thesis using out gen_inv_failed by blast
qed

lemma gen_inv_run:
  "gen_inv p s \<Longrightarrow> generate_run p fs s = (rs, s') \<Longrightarrow> gen_inv p s'"
proof (induction fs arbitrary: s rs)
  case (Cons f fs)
  then show ?case by (auto simp: Let_def split: prod.splits dest: gen_inv_generate)
qed simp

lemma cache_ok_sgKernel: "cache_ok order c \<Longrightarrow> cache_ok order (snd (sgKernel order w d c))"
  using sgKernel_cached [of order c w d] by (metis prod.collapse)

lemma gen_inv_new: "gen_inv p (new_generator p)"
proof -
  have "cache_ok (nat (polyorder p)) (prebuild p Map.empty)"
    by (simp add: prebuild_def Let_def cache_ok_sgKernel)
  with gen_inv_reset [of p "\<lparr>prev_left_y = [], prev_right_y = [], road_width = [], width_stale = [],
       track_x = (\<lambda>_. []), track_y = (\<lambda>_. []), bad_frame_streak = 0, sg_cache = Map.empty\<rparr>"]
  show ?thesis by (simp add: new_generator_def gen_inv_def resetMemory_def)
qed

section \<open>The path of a side\<close>




section \<open>Properties\<close>

lemma split_starts: "k \<le> length ps \<Longrightarrow>
    ls_start (fold (split_step p ps) [0..<k] \<lparr>line_id = [], ls_start = [], ls_count = []\<rparr>) = filter (breaks_at p ps) [0..<k]"
  by (induction k) (simp_all add: split_step_def Let_def)

text \<open>
  The white or yellow points are split without loss: the lines put together are the cloud again, a line
  starts exactly at the first point and behind every gap longer than the limit, and the line number grows by
  one there and nowhere else.
\<close>

lemma lines_partition_the_points:
  "concat (map (slice ps (splitLines p ps)) [0..<length (ls_start (splitLines p ps))]) = ps \<and>
   ls_start (splitLines p ps) = filter (breaks_at p ps) [0..<length ps] \<and>
   length (line_id (splitLines p ps)) = length ps \<and>
   map (\<lambda>i. line_id (splitLines p ps) ! i) [1..<length ps] =
     map (\<lambda>i. line_id (splitLines p ps) ! (i - 1) +
          (if hypot (fst (ps ! i) - fst (ps ! (i - 1))) (snd (ps ! i) - snd (ps ! (i - 1))) > max_gap p then 1 else 0))
       [1..<length ps]"
proof -
  let ?ls = "splitLines p ps"
  have inv: "split_inv p ps (length ps) ?ls" using split_inv_fold [of "length ps" ps p] by (simp add: splitLines_def)
  have "concat (map (slice ps ?ls) [0..<length (ls_start ?ls)]) = ps"
    using slices_concat [OF split_invD(2) [OF inv], of ps] split_invD(4) [OF inv] by (simp add: slice_def [abs_def])
  moreover have "ls_start ?ls = filter (breaks_at p ps) [0..<length ps]" by (simp add: splitLines_def split_starts)
  moreover have "line_id ?ls ! i = line_id ?ls ! (i - 1) +
      (if hypot (fst (ps ! i) - fst (ps ! (i - 1))) (snd (ps ! i) - snd (ps ! (i - 1))) > max_gap p then 1 else 0)"
    if "i \<in> set [1..<length ps]" for i
    using split_invD(7) [OF inv, of i] that by (simp add: breaks_at_def)
  ultimately show ?thesis using split_invD(1) [OF inv] by simp
qed

text \<open>
  C24: Over any sequence of frames and for all parameters the memory keeps its length, the streak of failed frames stays
  below its limit, and a cached kernel is the kernel of its key. When the parameters satisfy \<open>params_ok\<close> (the nominal road
  width lies between the least and the greatest one, both smoothing factors lie in the unit interval, and the greatest
  update is not negative; the code does not test them), every remembered road width stays between its limits. The
  memory starts with the nominal width, so without that condition it can be outside them at once.
\<close>

lemma memory_stays_plausible:
  assumes "generate_run p fs (new_generator p) = (rs, s)"
  shows "(params_ok p \<longrightarrow> list_all (\<lambda>w. min_road_width p \<le> w \<and> w \<le> max_road_width p) (road_width s)) \<and>
    length (road_width s) = max_bins p \<and> length (prev_left_y s) = max_bins p \<and> length (prev_right_y s) = max_bins p \<and>
    length (track_x s sd) = num_out p \<and> length (track_y s sd) = num_out p \<and>
    (bad_frame_streak s = 0 \<or> 0 < bad_frame_streak s \<and> bad_frame_streak s < max_bad_frame_streak p) \<and>
    (sg_cache s (w, d) = None \<or> sg_cache s (w, d) = Some (build_kernel (nat (polyorder p)) w d)) \<and>
    (fs = [] \<longrightarrow> road_width s = replicate (max_bins p) (nominal_road_width p))"
proof -
  from gen_inv_run [OF gen_inv_new assms] have inv: "gen_inv p s" .
  then have "sg_cache s (w, d) = None \<or> sg_cache s (w, d) = Some (build_kernel (nat (polyorder p)) w d)"
    by (cases "sg_cache s (w, d)") (auto simp: gen_inv_def cache_ok_def)
  moreover have "road_width s = replicate (max_bins p) (nominal_road_width p)" if "fs = []"
    using assms that by (auto simp: new_generator_def resetMemory_def)
  ultimately show ?thesis using inv by (auto simp: gen_inv_def list_all_iff)
qed

lemma default_params_ok: "params_ok default_center_params"
  by (simp add: params_ok_def default_center_params_def)

lemma memory_stays_plausible_witness:
  "let s = snd (generate_run default_center_params [([(1, 3.5), (1.25, 3.5), (1, - 3.5)], []), ([], [(2, 0)])]
        (new_generator default_center_params)) in
   list_all (\<lambda>w. 6.6 \<le> w \<and> w \<le> 8.2) (road_width s) \<and> length (road_width s) = 16"
proof -
  have sizes: "max_bins default_center_params = 16" "min_road_width default_center_params = 6.6"
    "max_road_width default_center_params = 8.2"
    by (simp_all add: max_bins_def default_center_params_def)
  show ?thesis
    using memory_stays_plausible [OF prod.collapse [symmetric], of default_center_params
        "[([(1, 3.5), (1.25, 3.5), (1, - 3.5)], []), ([], [(2, 0)])]"] default_params_ok
    unfolding sizes Let_def by blast
qed






end
