(* ===== verification/Centerline_Node.thy ===== *)
theory Centerline_Node
  imports Centerline_Generator Messages
begin

text \<open>
  \<open>src/path_generation_cpp/src/centerline_node.cpp\<close>: the node that pairs the white and the yellow cloud of a
  frame by their stamp, runs the generator and publishes both paths. Its callbacks run on one thread, so a run
  is a list of arrivals. A stamp is one number (seconds and nanoseconds together, not negative); how long a call
  of \<open>process\<close> took is part of the arrival. Memory exhaustion, the only exception \<open>generate\<close> could raise, is left out; so are
  clouds without a field \<open>x\<close> or \<open>y\<close>, for which the iterators of \<open>toPoints\<close> raise an exception: a cloud here is the list of
  these two fields of its points.
\<close>

section \<open>Messages and state\<close>

record lane_points =
  lp_header :: header
  lp_width :: nat
  lp_height :: nat
  lp_data :: "(dbl \<times> dbl) list"

definition toPoints :: "lane_points option \<Rightarrow> path2" where
  "toPoints msg = (case msg of
     None \<Rightarrow> []
   | Some m \<Rightarrow>
      (let n = lp_width m * lp_height m in
       if n = 0 \<or> lp_data m = [] then []
       else map (\<lambda>(x, y). (val_of x, val_of y)) (filter (\<lambda>(x, y). isfinite x \<and> isfinite y) (take n (lp_data m)))))"

record path_pose =
  pp_header :: header
  pp_position :: point3
  pp_orientation_w :: real

record lane_path_msg =
  pth_header :: header
  pth_poses :: "path_pose list"

definition toPathMsg :: "path2 \<Rightarrow> header \<Rightarrow> lane_path_msg" where
  "toPathMsg pts h = \<lparr>pth_header = h,
     pth_poses = map (\<lambda>(x, y). \<lparr>pp_header = h, pp_position = (x, y, 0), pp_orientation_w = 1\<rparr>) pts\<rparr>"

record frame_timing =
  ft_frames :: int
  sum_ms :: real
  max_ms :: real

definition no_timing :: frame_timing where
  "no_timing = \<lparr>ft_frames = 0, sum_ms = 0, max_ms = 0\<rparr>"

record center_node =
  gen :: generator
  pend_white :: "lane_points option"
  pend_yellow :: "lane_points option"
  timing :: frame_timing

text \<open>What a call of \<open>process\<close> leaves: its two clouds, the two messages and the line it logs.\<close>

record frame_out =
  fo_white :: lane_points
  fo_yellow :: "lane_points option"
  fo_left :: lane_path_msg
  fo_right :: lane_path_msg
  fo_log :: "(real \<times> real \<times> int) option"

definition new_center_node :: "center_params \<Rightarrow> center_node" where
  "new_center_node p = \<lparr>gen = new_generator p, pend_white = None, pend_yellow = None, timing = no_timing\<rparr>"

section \<open>Callbacks\<close>

definition sameStamp :: "lane_points \<Rightarrow> lane_points \<Rightarrow> bool" where
  "sameStamp a b \<longleftrightarrow> stamp (lp_header a) = stamp (lp_header b)"

definition count_time :: "int \<Rightarrow> real \<Rightarrow> frame_timing \<Rightarrow> frame_timing \<times> (real \<times> real \<times> int) option" where
  "count_time period ms t =
    (if period > 0 then
      (let t = \<lparr>ft_frames = ft_frames t + 1, sum_ms = sum_ms t + ms, max_ms = max (max_ms t) ms\<rparr> in
       if ft_frames t \<ge> period then (no_timing, Some (sum_ms t / of_int (ft_frames t), max_ms t, ft_frames t))
       else (t, None))
     else (t, None))"

definition process_frame ::
  "center_params \<Rightarrow> int \<Rightarrow> real \<Rightarrow> lane_points \<Rightarrow> lane_points option \<Rightarrow> center_node \<Rightarrow> frame_out \<times> center_node" where
  "process_frame p period ms w y s =
    (let (res, g) = generate p (toPoints (Some w)) (toPoints y) (gen s); (t, log) = count_time period ms (timing s) in
     (\<lparr>fo_white = w, fo_yellow = y, fo_left = toPathMsg (cr_left res) (lp_header w),
       fo_right = toPathMsg (cr_right res) (lp_header w), fo_log = log\<rparr>,
      s\<lparr>gen := g, timing := t\<rparr>))"

definition trySync :: "center_params \<Rightarrow> int \<Rightarrow> real \<Rightarrow> center_node \<Rightarrow> frame_out list \<times> center_node" where
  "trySync p period ms s =
    (case (pend_white s, pend_yellow s) of
       (Some w, Some y) \<Rightarrow>
         if sameStamp w y then
           (let (out, s) = process_frame p period ms w (Some y) s in ([out], s\<lparr>pend_white := None, pend_yellow := None\<rparr>))
         else if stamp (lp_header y) < stamp (lp_header w) then ([], s\<lparr>pend_yellow := None\<rparr>)
         else ([], s)
     | _ \<Rightarrow> ([], s))"

definition onWhite :: "center_params \<Rightarrow> int \<Rightarrow> real \<Rightarrow> real \<Rightarrow> lane_points \<Rightarrow> center_node \<Rightarrow> frame_out list \<times> center_node" where
  "onWhite p period ms ms' msg s =
    (let (flushed, s) = (case pend_white s of
         None \<Rightarrow> ([], s)
       | Some w \<Rightarrow> if sameStamp w msg then ([], s)
                   else (let (out, s) = process_frame p period ms w None s in ([out], s\<lparr>pend_white := None\<rparr>)));
         (paired, s) = trySync p period ms' (s\<lparr>pend_white := Some msg\<rparr>) in
     (flushed @ paired, s))"

definition onYellow :: "center_params \<Rightarrow> int \<Rightarrow> real \<Rightarrow> lane_points \<Rightarrow> center_node \<Rightarrow> frame_out list \<times> center_node" where
  "onYellow p period ms msg s = trySync p period ms (s\<lparr>pend_yellow := Some msg\<rparr>)"

datatype arrival = White_Cloud real real lane_points | Yellow_Cloud real lane_points

primrec on_arrival :: "center_params \<Rightarrow> int \<Rightarrow> arrival \<Rightarrow> center_node \<Rightarrow> frame_out list \<times> center_node" where
  "on_arrival p period (White_Cloud ms ms' msg) s = onWhite p period ms ms' msg s"
| "on_arrival p period (Yellow_Cloud ms msg) s = onYellow p period ms msg s"

primrec center_run :: "center_params \<Rightarrow> int \<Rightarrow> arrival list \<Rightarrow> center_node \<Rightarrow> frame_out list \<times> center_node" where
  "center_run p period [] s = ([], s)"
| "center_run p period (a # as) s =
    (let (os, s1) = on_arrival p period a s; (os', s2) = center_run p period as s1 in (os @ os', s2))"

primrec whites :: "arrival list \<Rightarrow> lane_points list" where
  "whites [] = []"
| "whites (a # as) = (case a of White_Cloud ms ms' m \<Rightarrow> m # whites as | Yellow_Cloud ms m \<Rightarrow> whites as)"

primrec yellows :: "arrival list \<Rightarrow> lane_points list" where
  "yellows [] = []"
| "yellows (a # as) = (case a of White_Cloud ms ms' m \<Rightarrow> yellows as | Yellow_Cloud ms m \<Rightarrow> m # yellows as)"

section \<open>Frames and their clouds\<close>

definition waiting :: "center_node \<Rightarrow> lane_points list" where
  "waiting s = (case pend_white s of None \<Rightarrow> [] | Some w \<Rightarrow> [w])"

definition frame_of_out :: "frame_out \<Rightarrow> path2 \<times> path2" where
  "frame_of_out fo = (toPoints (Some (fo_white fo)), toPoints (fo_yellow fo))"

definition publishes :: "frame_out \<Rightarrow> center_result \<Rightarrow> bool" where
  "publishes fo r \<longleftrightarrow> fo_left fo = toPathMsg (cr_left r) (lp_header (fo_white fo)) \<and>
     fo_right fo = toPathMsg (cr_right r) (lp_header (fo_white fo))"

text \<open>What a piece of a run has done: the generator has seen exactly the frames put out, in their order.\<close>

definition generated :: "center_params \<Rightarrow> frame_out list \<Rightarrow> generator \<Rightarrow> generator \<Rightarrow> bool" where
  "generated p os g g' \<longleftrightarrow> (\<exists>rs. generate_run p (map frame_of_out os) g = (rs, g') \<and> list_all2 publishes os rs)"

lemma generated_Nil [simp]: "generated p [] g g' \<longleftrightarrow> g' = g"
  by (auto simp: generated_def)

lemma generate_run_append:
  "generate_run p (fs @ fs') g = (let (rs, g1) = generate_run p fs g; (rs', g2) = generate_run p fs' g1 in (rs @ rs', g2))"
  by (induction fs arbitrary: g) (auto simp: Let_def split: prod.splits)

lemma generated_append: "generated p os g g1 \<Longrightarrow> generated p os' g1 g2 \<Longrightarrow> generated p (os @ os') g g2"
  by (auto simp: generated_def generate_run_append list_all2_appendI)

lemma process_frame_generated:
  assumes "process_frame p period ms w y s = (fo, s')"
  shows "generated p [fo] (gen s) (gen s') \<and> fo_white fo = w \<and> fo_yellow fo = y \<and>
    pend_white s' = pend_white s \<and> pend_yellow s' = pend_yellow s"
  using assms by (auto simp: process_frame_def generated_def frame_of_out_def publishes_def split: prod.splits)

text \<open>What one step keeps, with the clouds that arrived before it.\<close>

definition node_inv :: "lane_points list \<Rightarrow> lane_points list \<Rightarrow> center_node \<Rightarrow> bool" where
  "node_inv ws ys s \<longleftrightarrow> (\<forall>w. pend_white s = Some w \<longrightarrow> ws \<noteq> [] \<and> last ws = w) \<and>
     (\<forall>y. pend_yellow s = Some y \<longrightarrow> y \<in> set ys) \<and>
     (\<forall>w y. pend_white s = Some w \<longrightarrow> pend_yellow s = Some y \<longrightarrow> stamp (lp_header w) < stamp (lp_header y))"

definition paired_well :: "lane_points list \<Rightarrow> frame_out \<Rightarrow> bool" where
  "paired_well ys fo \<longleftrightarrow> (case fo_yellow fo of None \<Rightarrow> True | Some y \<Rightarrow> y \<in> set ys \<and> sameStamp (fo_white fo) y)"

lemma trySync_facts:
  assumes "trySync p period ms s = (os, s')"
    and "\<And>w. pend_white s = Some w \<Longrightarrow> ws \<noteq> [] \<and> last ws = w" "\<And>y. pend_yellow s = Some y \<Longrightarrow> y \<in> set ys"
  shows "generated p os (gen s) (gen s') \<and> map fo_white os @ waiting s' = waiting s \<and> list_all (paired_well ys) os \<and>
    node_inv ws ys s'"
proof (cases "pend_white s = None \<or> pend_yellow s = None")
  case True
  then show ?thesis
    using assms by (auto simp: trySync_def node_inv_def split: option.splits)
next
  case False
  then obtain w y where wy: "pend_white s = Some w" "pend_yellow s = Some y" by auto
  consider "sameStamp w y" | "\<not> sameStamp w y" "stamp (lp_header y) < stamp (lp_header w)"
    | "stamp (lp_header w) < stamp (lp_header y)" "\<not> sameStamp w y"
    by (fastforce simp: sameStamp_def)
  then show ?thesis
  proof cases
    case 1
    obtain fo s1 where pf: "process_frame p period ms w (Some y) s = (fo, s1)" by fastforce
    with 1 assms(1) wy have r: "os = [fo]" "s' = s1\<lparr>pend_white := None, pend_yellow := None\<rparr>"
      by (auto simp: trySync_def)
    with process_frame_generated [OF pf] 1 wy assms(3) show ?thesis
      by (auto simp: waiting_def paired_well_def node_inv_def)
  next
    case 2
    with assms(1) wy have "os = []" "s' = s\<lparr>pend_yellow := None\<rparr>" by (auto simp: trySync_def)
    with wy assms(2) show ?thesis by (auto simp: waiting_def node_inv_def)
  next
    case 3
    with assms(1) wy have "os = []" "s' = s" by (auto simp: trySync_def)
    with wy 3 assms(2,3) show ?thesis by (auto simp: waiting_def node_inv_def)
  qed
qed

lemma onYellow_facts:
  assumes "node_inv ws ys s" "onYellow p period ms msg s = (os, s')"
  shows "generated p os (gen s) (gen s') \<and> map fo_white os @ waiting s' = waiting s \<and>
    list_all (paired_well (ys @ [msg])) os \<and> node_inv ws (ys @ [msg]) s'"
  using trySync_facts [OF assms(2) [unfolded onYellow_def], of ws "ys @ [msg]"] assms(1)
  by (simp add: node_inv_def waiting_def)

lemma onWhite_facts:
  assumes inv: "node_inv ws ys s" and adj: "ws \<noteq> [] \<Longrightarrow> \<not> sameStamp (last ws) msg"
    and run: "onWhite p period ms ms' msg s = (os, s')"
  shows "generated p os (gen s) (gen s') \<and> map fo_white os @ waiting s' = waiting s @ [msg] \<and>
    list_all (paired_well ys) os \<and> node_inv (ws @ [msg]) ys s'"
proof (cases "pend_white s")
  case None
  with run have "trySync p period ms' (s\<lparr>pend_white := Some msg\<rparr>) = (os, s')"
    by (auto simp: onWhite_def split: prod.splits)
  from trySync_facts [OF this, of "ws @ [msg]" ys] None inv show ?thesis
    by (simp add: node_inv_def waiting_def)
next
  case (Some w)
  then have ns: "\<not> sameStamp w msg" using inv adj by (auto simp: node_inv_def)
  obtain fo s1 where pf: "process_frame p period ms w None s = (fo, s1)" by fastforce
  obtain os' where ts: "trySync p period ms' (s1\<lparr>pend_white := Some msg\<rparr>) = (os', s')" "os = fo # os'"
    using run Some ns pf by (auto simp: onWhite_def split: prod.splits)
  note f = process_frame_generated [OF pf]
  have "generated p os' (gen s1) (gen s') \<and> map fo_white os' @ waiting s' = [msg] \<and>
      list_all (paired_well ys) os' \<and> node_inv (ws @ [msg]) ys s'"
    using trySync_facts [OF ts(1), of "ws @ [msg]" ys] inv f by (simp add: node_inv_def waiting_def)
  moreover from this have "generated p ([fo] @ os') (gen s) (gen s')" using f generated_append by blast
  ultimately show ?thesis using ts(2) f Some by (simp add: waiting_def paired_well_def)
qed

lemma paired_well_mono: "list_all (paired_well ys) os \<Longrightarrow> list_all (paired_well (ys @ zs)) os"
  by (auto simp: list_all_iff paired_well_def split: option.splits)

lemma paired_well_mono_left: "list_all (paired_well zs) os \<Longrightarrow> list_all (paired_well (ys @ zs)) os"
  by (auto simp: list_all_iff paired_well_def split: option.splits)

lemma append_chain: "a @ w1 = ws @ xs \<Longrightarrow> b @ w2 = w1 @ ys \<Longrightarrow> (a @ b) @ w2 = ws @ xs @ ys"
  by (metis append_assoc)

lemma center_run_facts:
  "node_inv ws ys s \<Longrightarrow> distinct_adj (map (\<lambda>m. stamp (lp_header m)) (ws @ whites as)) \<Longrightarrow>
   center_run p period as s = (os, s') \<Longrightarrow>
   generated p os (gen s) (gen s') \<and> map fo_white os @ waiting s' = waiting s @ whites as \<and>
   list_all (paired_well (ys @ yellows as)) os \<and> node_inv (ws @ whites as) (ys @ yellows as) s'"
proof (induction as arbitrary: ws ys s os)
  case (Cons a as)
  obtain os1 s1 where one: "on_arrival p period a s = (os1, s1)" by fastforce
  obtain os2 where rest: "center_run p period as s1 = (os2, s')" "os = os1 @ os2"
    using Cons.prems(3) one by (auto split: prod.splits)
  show ?case
  proof (cases a)
    case (White_Cloud ms ms' msg)
    have "\<not> sameStamp (last ws) msg" if "ws \<noteq> []"
      using Cons.prems(2) that White_Cloud by (auto simp: distinct_adj_append_iff sameStamp_def last_map)
    note step = onWhite_facts [OF Cons.prems(1) this one [unfolded White_Cloud on_arrival.simps]]
    from Cons.IH [of "ws @ [msg]" ys s1 os2] step rest(1) Cons.prems(2) White_Cloud
    have "generated p os2 (gen s1) (gen s') \<and> map fo_white os2 @ waiting s' = waiting s1 @ whites as \<and>
      list_all (paired_well (ys @ yellows as)) os2 \<and> node_inv (ws @ [msg] @ whites as) (ys @ yellows as) s'"
      by simp
    with step append_chain [of "map fo_white os1" "waiting s1" "waiting s" "[msg]"] rest(2) White_Cloud
      generated_append paired_well_mono show ?thesis by simp blast
  next
    case (Yellow_Cloud ms msg)
    note step = onYellow_facts [OF Cons.prems(1) one [unfolded Yellow_Cloud on_arrival.simps]]
    from Cons.IH [of ws "ys @ [msg]" s1 os2] step rest(1) Cons.prems(2) Yellow_Cloud
    have "generated p os2 (gen s1) (gen s') \<and> map fo_white os2 @ waiting s' = waiting s1 @ whites as \<and>
      list_all (paired_well (ys @ msg # yellows as)) os2 \<and> node_inv (ws @ whites as) (ys @ msg # yellows as) s'"
      by simp
    moreover have "list_all (paired_well (ys @ msg # yellows as)) os1"
      using step paired_well_mono [of "ys @ [msg]" os1 "yellows as"] by simp
    ultimately show ?thesis
      using step append_chain [of "map fo_white os1" "waiting s1" "waiting s" "[]"] rest(2) Yellow_Cloud generated_append
      by simp blast
  qed
qed simp

section \<open>Property\<close>

text \<open>
  C26: When consecutive white clouds have different stamps, every white cloud is put out once, in order of arrival, or is the
  one still waiting; the paths are those of the generator run on these frames in this order, under the stamp of the
  white cloud; a frame has no yellow cloud or a received one of its own stamp; and no pair of equal stamps is left waiting.
\<close>

lemma white_clouds_processed_once:
  assumes "distinct_adj (map (\<lambda>m. stamp (lp_header m)) (whites as))"
    and "center_run p period as (new_center_node p) = (os, s)"
  shows "map fo_white os @ (case pend_white s of None \<Rightarrow> [] | Some w \<Rightarrow> [w]) = whites as \<and>
    (\<exists>rs. generate_run p (map (\<lambda>fo. (toPoints (Some (fo_white fo)), toPoints (fo_yellow fo))) os) (new_generator p) = (rs, gen s) \<and>
       map fo_left os = map2 (\<lambda>r fo. toPathMsg (cr_left r) (lp_header (fo_white fo))) rs os \<and>
       map fo_right os = map2 (\<lambda>r fo. toPathMsg (cr_right r) (lp_header (fo_white fo))) rs os) \<and>
    (\<forall>fo \<in> set os. fo_yellow fo = None \<or> (\<exists>y \<in> set (yellows as). fo_yellow fo = Some y \<and> sameStamp (fo_white fo) y)) \<and>
    (\<forall>w y. pend_white s = Some w \<and> pend_yellow s = Some y \<longrightarrow> \<not> sameStamp w y)"
proof -
  have "node_inv [] [] (new_center_node p)" by (simp add: node_inv_def new_center_node_def)
  from center_run_facts [OF this _ assms(2)] assms(1)
  have f: "generated p os (new_generator p) (gen s)" "map fo_white os @ waiting s = whites as"
    "list_all (paired_well (yellows as)) os" "node_inv (whites as) (yellows as) s"
    by (simp_all add: new_center_node_def waiting_def)
  from f(1) obtain rs where rs: "generate_run p (map frame_of_out os) (new_generator p) = (rs, gen s)" "list_all2 publishes os rs"
    by (auto simp: generated_def)
  have "map fo_left os = map2 (\<lambda>r fo. toPathMsg (cr_left r) (lp_header (fo_white fo))) rs os \<and>
       map fo_right os = map2 (\<lambda>r fo. toPathMsg (cr_right r) (lp_header (fo_white fo))) rs os"
    using rs(2) by (induction rule: list_all2_induct) (auto simp: publishes_def)
  moreover have "fo_yellow fo = None \<or> (\<exists>y \<in> set (yellows as). fo_yellow fo = Some y \<and> sameStamp (fo_white fo) y)"
    if "fo \<in> set os" for fo
    using f(3) that by (cases "fo_yellow fo") (auto simp: list_all_iff paired_well_def)
  moreover have "\<not> sameStamp w y" if "pend_white s = Some w" "pend_yellow s = Some y" for w y
    using f(4) that by (auto simp: node_inv_def sameStamp_def)
  ultimately show ?thesis using f(2) rs(1) by (auto simp: waiting_def frame_of_out_def [abs_def])
qed

definition one_point :: "real \<Rightarrow> lane_points" where
  "one_point t = \<lparr>lp_header = \<lparr>stamp = t, frame_id = ''base''\<rparr>, lp_width = 1, lp_height = 1, lp_data = [(Fin 1, Fin 2)]\<rparr>"

lemma white_clouds_processed_once_witness:
  "let (os, s) = center_run default_center_params 0
      [White_Cloud 1 1 (one_point 1), White_Cloud 1 1 (one_point 2), Yellow_Cloud 1 (one_point 2), White_Cloud 1 1 (one_point 3)]
      (new_center_node default_center_params) in
   map fo_white os @ (case pend_white s of None \<Rightarrow> [] | Some w \<Rightarrow> [w]) = [one_point 1, one_point 2, one_point 3]"
  using white_clouds_processed_once [OF _ prod.collapse [symmetric], of
    "[White_Cloud 1 1 (one_point 1), White_Cloud 1 1 (one_point 2), Yellow_Cloud 1 (one_point 2), White_Cloud 1 1 (one_point 3)]"
    default_center_params 0]
  by (simp add: one_point_def split_beta)

end
