(* ===== verification/Thinning_Kernel.thy ===== *)
theory Thinning_Kernel
  imports Prelude
begin

text \<open>
  \<open>src/vision_cpp/src/gpu_kernels.cu\<close>, the thinning kernels. A device buffer holds two planes of \<open>W * H\<close> bytes, row by row; bytes
  are integers. The threads of a block between two barriers write disjoint cells, so a phase is one \<open>map\<close> or one pass over the
  thread numbers. The blocks of a grid run in any order: the order is a parameter. Every index of a kernel is a natural
  number, differences that can be negative are taken over the integers.
\<close>

unbundle bit_operations_syntax

section \<open>The code\<close>

definition TW :: nat where "TW = 32"

definition TH :: nat where "TH = 16"

definition cdiv :: "nat \<Rightarrow> nat \<Rightarrow> nat" where
  "cdiv a b = (a + b - 1) div b"

definition lnot :: "int \<Rightarrow> int" where
  \<comment> \<open>the operator \<open>!\<close> of C\<close>
  "lnot v = (if v = 0 then 1 else 0)"

definition zs_delete :: "int list \<Rightarrow> nat \<Rightarrow> nat \<Rightarrow> nat \<Rightarrow> bool" where
  "zs_delete p idx rs step =
    (let N = p ! (idx - rs); NE = p ! (idx - rs + 1); E = p ! (idx + 1); SE = p ! (idx + rs + 1);
         S = p ! (idx + rs); SW = p ! (idx + rs - 1); Wn = p ! (idx - 1); NW = p ! (idx - rs - 1);
         B = N + NE + E + SE + S + SW + Wn + NW in
     if B < 2 \<or> B > 6 then False
     else
      (let A = (lnot N AND NE) + (lnot NE AND E) + (lnot E AND SE) + (lnot SE AND S) + (lnot S AND SW) +
               (lnot SW AND Wn) + (lnot Wn AND NW) + (lnot NW AND N) in
       if A \<noteq> 1 then False
       else if step = 0 then ((N AND E AND S) OR (E AND S AND Wn)) = 0
       else ((N AND E AND Wn) OR (N AND S AND Wn)) = 0))"

definition tile_in :: "int list \<Rightarrow> nat \<Rightarrow> nat \<Rightarrow> nat \<Rightarrow> nat \<Rightarrow> nat \<Rightarrow> int list" where
  \<comment> \<open>the tile with a halo of two pixels in shared memory\<close>
  "tile_in inp W H base x0 y0 =
    map (\<lambda>k. let ly = k div (TW + 4); lx = k - ly * (TW + 4); gy = int y0 + int ly - 2; gx = int x0 + int lx - 2 in
        if 0 \<le> gx \<and> gx < int W \<and> 0 \<le> gy \<and> gy < int H then inp ! (base + nat gy * W + nat gx) else 0)
      [0..<(TH + 4) * (TW + 4)]"

definition tile_mid :: "int list \<Rightarrow> int list" where
  \<comment> \<open>sub-step 0 on the tile and a ring of one pixel\<close>
  "tile_mid s_in =
    map (\<lambda>k. let my = k div (TW + 2); mx = k - my * (TW + 2); idx = (my + 1) * (TW + 4) + (mx + 1); c = s_in ! idx in
        if c \<noteq> 0 \<and> zs_delete s_in idx (TW + 4) 0 then 0 else c)
      [0..<(TH + 2) * (TW + 2)]"

definition tile_pixel :: "int list \<Rightarrow> nat \<Rightarrow> int" where
  \<comment> \<open>sub-step 1 of one thread\<close>
  "tile_pixel s_mid tid =
    (let tx = tid mod TW; ty = tid div TW; midx = (ty + 1) * (TW + 2) + (tx + 1); r = s_mid ! midx in
     if r \<noteq> 0 \<and> zs_delete s_mid midx (TW + 2) 1 then 0 else r)"

definition run_block :: "int list \<Rightarrow> nat \<Rightarrow> nat \<Rightarrow> nat \<Rightarrow> nat \<times> nat \<times> nat \<Rightarrow> int list \<times> int \<Rightarrow> int list \<times> int" where
  "run_block inp W H ps b st =
    (case b of (bx, by, bz) \<Rightarrow> case st of (out, n) \<Rightarrow>
      (let base = bz * ps; x0 = bx * TW; y0 = by * TH;
           s_in = tile_in inp W H base x0 y0; s_mid = tile_mid s_in;
           inside = (\<lambda>tid. x0 + tid mod TW < W \<and> y0 + tid div TW < H);
           orig = (\<lambda>tid. s_in ! ((tid div TW + 2) * (TW + 4) + (tid mod TW + 2))) in
       (fold (\<lambda>tid out. if inside tid then out[base + (y0 + tid div TW) * W + (x0 + tid mod TW) := tile_pixel s_mid tid] else out)
          [0..<TW * TH] out,
        n + int (length (filter (\<lambda>tid. inside tid \<and> orig tid \<noteq> tile_pixel s_mid tid) [0..<TW * TH])))))"

type_synonym grid = "(nat \<times> nat \<times> nat) list"

definition k_zs_iter ::
  "nat \<Rightarrow> nat \<Rightarrow> nat \<Rightarrow> grid \<Rightarrow> nat \<Rightarrow> int list \<Rightarrow> int list \<Rightarrow> int list \<Rightarrow> int list \<times> int list" where
  "k_zs_iter W H ps order iter inp out counters =
    (if iter > 0 \<and> counters ! (iter - 1) = 0 then (out, counters)
     else case fold (run_block inp W H ps) order (out, counters ! iter) of (out, n) \<Rightarrow> (out, counters[iter := n]))"

definition thin_rounds :: "int \<Rightarrow> nat" where
  "thin_rounds max_iter = nat (max 2 (max_iter AND NOT 1))"

definition thin_round ::
  "nat \<Rightarrow> nat \<Rightarrow> (nat \<Rightarrow> grid) \<Rightarrow> nat \<Rightarrow> int list \<times> int list \<times> int list \<Rightarrow> int list \<times> int list \<times> int list" where
  "thin_round W H sched it st =
    (case st of (buf0, buf1, counters) \<Rightarrow>
      if odd it then (case k_zs_iter W H (W * H) (sched it) it buf1 buf0 counters of (buf0, counters) \<Rightarrow> (buf0, buf1, counters))
      else (case k_zs_iter W H (W * H) (sched it) it buf0 buf1 counters of (buf1, counters) \<Rightarrow> (buf0, buf1, counters)))"

definition launch_thin_iterations ::
  "nat \<Rightarrow> nat \<Rightarrow> (nat \<Rightarrow> grid) \<Rightarrow> int \<Rightarrow> int list \<times> int list \<times> int list \<Rightarrow> int list \<times> int list \<times> int list" where
  "launch_thin_iterations W H sched max_iter st = fold (thin_round W H sched) [0..<thin_rounds max_iter] st"

definition blocks_of :: "nat \<Rightarrow> nat \<Rightarrow> nat \<Rightarrow> nat \<Rightarrow> grid" where
  \<comment> \<open>\<open>dim3(cdiv(W, bw), cdiv(H, bh), 2)\<close>\<close>
  "blocks_of W H bw bh = [(bx, by, bz). bz \<leftarrow> [0..<2], by \<leftarrow> [0..<cdiv H bh], bx \<leftarrow> [0..<cdiv W bw]]"

subsection \<open>Corners\<close>

definition c_dy :: "int list" where "c_dy = [-1, -1, 0, 1, 1, 1, 0, -1]"

definition c_dx :: "int list" where "c_dx = [0, 1, 1, 1, 0, -1, -1, -1]"

definition corner_nbr :: "nat \<Rightarrow> nat \<Rightarrow> int list \<Rightarrow> nat \<Rightarrow> nat \<Rightarrow> nat \<Rightarrow> int" where
  "corner_nbr W H m x y k =
    (let yy = int y + c_dy ! k; xx = int x + c_dx ! k in
     if 0 \<le> yy \<and> yy < int H \<and> 0 \<le> xx \<and> xx < int W then m ! (nat yy * W + nat xx) else 0)"

definition k_corner :: "nat \<Rightarrow> nat \<Rightarrow> nat \<Rightarrow> nat \<Rightarrow> int list \<Rightarrow> nat \<Rightarrow> nat \<Rightarrow> nat \<Rightarrow> int" where
  \<comment> \<open>the byte the thread of pixel \<open>(x, y)\<close> of plane \<open>z\<close> writes\<close>
  "k_corner W H a b inp z x y =
    (let m = drop (z * (W * H)) inp; r = m ! (y * W + x) in
     if r \<noteq> 0 then
      (let B = (\<Sum>k\<leftarrow>[0..<8]. corner_nbr W H m x y k); va = corner_nbr W H m x y a; vb = corner_nbr W H m x y b in
       if B = 2 \<and> va \<noteq> 0 \<and> vb \<noteq> 0 then 0 else r)
     else r)"

definition corner_pass :: "nat \<Rightarrow> nat \<Rightarrow> nat \<times> nat \<Rightarrow> int list \<Rightarrow> int list" where
  \<comment> \<open>the grid writes every pixel of both planes\<close>
  "corner_pass W H ab inp =
    map (\<lambda>j. k_corner W H (fst ab) (snd ab) inp (j div (W * H)) (j mod (W * H) mod W) (j mod (W * H) div W)) [0..<2 * (W * H)]"

definition corner_pairs :: "(nat \<times> nat) list" where
  "corner_pairs = [(0, 2), (2, 4), (4, 6), (6, 0)]"

definition launch_thin_corners :: "nat \<Rightarrow> nat \<Rightarrow> int list \<times> int list \<Rightarrow> int list \<times> int list" where
  "launch_thin_corners W H st =
    fst (fold (\<lambda>p (st, n). (case st of (buf0, buf1) \<Rightarrow>
          if odd n then (corner_pass W H p buf1, buf1) else (buf0, corner_pass W H p buf0), n + 1))
      (corner_pairs @ corner_pairs) (st, 0 :: nat))"

section \<open>A tile computes a whole iteration\<close>

text \<open>A plane as a function of integer coordinates that is 0 outside, and one sub-step on such a picture.\<close>

type_synonym picture = "int \<Rightarrow> int \<Rightarrow> int"

definition pic :: "nat \<Rightarrow> nat \<Rightarrow> int list \<Rightarrow> nat \<Rightarrow> picture" where
  "pic W H img base x y = (if 0 \<le> x \<and> x < int W \<and> 0 \<le> y \<and> y < int H then img ! (base + nat y * W + nat x) else 0)"

definition deletes :: "nat \<Rightarrow> picture \<Rightarrow> int \<Rightarrow> int \<Rightarrow> bool" where
  "deletes step f x y =
    (let N = f x (y - 1); NE = f (x + 1) (y - 1); E = f (x + 1) y; SE = f (x + 1) (y + 1);
         S = f x (y + 1); SW = f (x - 1) (y + 1); Wn = f (x - 1) y; NW = f (x - 1) (y - 1);
         B = N + NE + E + SE + S + SW + Wn + NW in
     if B < 2 \<or> B > 6 then False
     else
      (let A = (lnot N AND NE) + (lnot NE AND E) + (lnot E AND SE) + (lnot SE AND S) + (lnot S AND SW) +
               (lnot SW AND Wn) + (lnot Wn AND NW) + (lnot NW AND N) in
       if A \<noteq> 1 then False
       else if step = 0 then ((N AND E AND S) OR (E AND S AND Wn)) = 0
       else ((N AND E AND Wn) OR (N AND S AND Wn)) = 0))"

definition substep :: "nat \<Rightarrow> picture \<Rightarrow> picture" where
  "substep step f x y = (if f x y \<noteq> 0 \<and> deletes step f x y then 0 else f x y)"

definition tile_view :: "int list \<Rightarrow> nat \<Rightarrow> nat \<Rightarrow> picture \<Rightarrow> int \<Rightarrow> int \<Rightarrow> bool" where
  \<comment> \<open>the array holds the part of the picture whose first pixel is \<open>(u, v)\<close>\<close>
  "tile_view p rs rows f u v \<longleftrightarrow> (\<forall>r < rows. \<forall>c < rs. p ! (r * rs + c) = f (u + int c) (v + int r))"

lemma tile_viewD: "tile_view p rs rows f u v \<Longrightarrow> r < rows \<Longrightarrow> c < rs \<Longrightarrow> k = r * rs + c \<Longrightarrow> p ! k = f (u + int c) (v + int r)"
  by (simp add: tile_view_def)

lemma tile_viewI:
  assumes "length p = rows * rs" and "\<And>k. k < rows * rs \<Longrightarrow> p ! k = f (u + int (k mod rs)) (v + int (k div rs))"
  shows "tile_view p rs rows f u v"
  unfolding tile_view_def
proof (intro allI impI)
  fix r c assume r: "r < rows" and c: "c < rs"
  have "r * rs + c < Suc r * rs" using c by simp
  also have "\<dots> \<le> rows * rs" using r by (intro mult_le_mono1) simp
  finally have "r * rs + c < rows * rs" .
  moreover have "(r * rs + c) mod rs = c" "(r * rs + c) div rs = r" using c by simp_all
  ultimately show "p ! (r * rs + c) = f (u + int c) (v + int r)" using assms(2) [of "r * rs + c"] by simp
qed

lemma zs_delete_view:
  assumes v: "tile_view p rs rows f u v" and r: "r + 2 < rows" and c: "c + 2 < rs"
  shows "zs_delete p ((r + 1) * rs + (c + 1)) rs step = deletes step f (u + int c + 1) (v + int r + 1)"
proof -
  define i x y where "i = (r + 1) * rs + (c + 1)" and "x = u + int c + 1" and "y = v + int r + 1"
  have at: "p ! k = f (x + (int b - 1)) (y + (int a - 1))" if "a < 3" "b < 3" "k = (r + a) * rs + (c + b)" for a b k
    using tile_viewD [OF v _ _ that(3)] that(1,2) r c by (simp add: x_def y_def algebra_simps)
  have up: "p ! (i - rs) = f x (y - 1)" "p ! (i - rs + 1) = f (x + 1) (y - 1)" "p ! (i - rs - 1) = f (x - 1) (y - 1)"
    using at [of 0 1 "i - rs"] at [of 0 2 "i - rs + 1"] at [of 0 0 "i - rs - 1"] by (simp_all add: i_def)
  have mid: "p ! (i + 1) = f (x + 1) y" "p ! (i - 1) = f (x - 1) y"
    using at [of 1 2 "i + 1"] at [of 1 0 "i - 1"] by (simp_all add: i_def)
  have down: "p ! (i + rs) = f x (y + 1)" "p ! (i + rs + 1) = f (x + 1) (y + 1)" "p ! (i + rs - 1) = f (x - 1) (y + 1)"
    using at [of 2 1 "i + rs"] at [of 2 2 "i + rs + 1"] at [of 2 0 "i + rs - 1"] by (simp_all add: i_def)
  show ?thesis
    unfolding zs_delete_def deletes_def i_def [symmetric] x_def [symmetric] y_def [symmetric] up mid down by (rule refl)
qed

lemma nat_div_minus: "k - k div m * m = k mod (m :: nat)"
  by (simp add: minus_div_mult_eq_mod)

lemma tile_in_view: "tile_view (tile_in inp W H base x0 y0) (TW + 4) (TH + 4) (pic W H inp base) (int x0 - 2) (int y0 - 2)"
  by (rule tile_viewI) (simp_all add: tile_in_def pic_def Let_def nat_div_minus diff_add_eq)

lemma tile_mid_view:
  assumes v: "tile_view s_in (TW + 4) (TH + 4) f (u - 1) (v - 1)"
  shows "tile_view (tile_mid s_in) (TW + 2) (TH + 2) (substep 0 f) u v"
proof (rule tile_viewI)
  fix k assume k: "k < (TH + 2) * (TW + 2)"
  define my mx where "my = k div (TW + 2)" and "mx = k mod (TW + 2)"
  have my: "my + 2 < TH + 4" using k by (simp add: my_def less_mult_imp_div_less)
  have mx: "mx + 2 < TW + 4" by (simp add: mx_def TW_def)
  have c: "s_in ! ((my + 1) * (TW + 4) + (mx + 1)) = f (u + int mx) (v + int my)"
    using tile_viewD [OF v, of "my + 1" "mx + 1"] my mx by simp
  have "zs_delete s_in ((my + 1) * (TW + 4) + (mx + 1)) (TW + 4) 0 = deletes 0 f (u + int mx) (v + int my)"
    using zs_delete_view [OF v my mx, of 0] by simp
  moreover have "tile_mid s_in ! k = (let idx = (my + 1) * (TW + 4) + (mx + 1); c = s_in ! idx in
      if c \<noteq> 0 \<and> zs_delete s_in idx (TW + 4) 0 then 0 else c)"
    using k unfolding tile_mid_def my_def mx_def by (simp only: Let_def nat_div_minus length_map length_upt nth_map nth_upt diff_zero add_0)
  ultimately show "tile_mid s_in ! k = substep 0 f (u + int (k mod (TW + 2))) (v + int (k div (TW + 2)))"
    unfolding Let_def c substep_def my_def [symmetric] mx_def [symmetric] by simp
qed (simp add: tile_mid_def)

lemma tile_pixel_view:
  assumes v: "tile_view s_mid (TW + 2) (TH + 2) f (u - 1) (v - 1)" and t: "tid < TW * TH"
  shows "tile_pixel s_mid tid = substep 1 f (u + int (tid mod TW)) (v + int (tid div TW))"
proof -
  define ty tx where "ty = tid div TW" and "tx = tid mod TW"
  have ty: "ty + 2 < TH + 2" using t by (simp add: ty_def less_mult_imp_div_less mult.commute)
  have tx: "tx + 2 < TW + 2" by (simp add: tx_def TW_def)
  have c: "s_mid ! ((ty + 1) * (TW + 2) + (tx + 1)) = f (u + int tx) (v + int ty)"
    using tile_viewD [OF v, of "ty + 1" "tx + 1"] ty tx by simp
  have "zs_delete s_mid ((ty + 1) * (TW + 2) + (tx + 1)) (TW + 2) 1 = deletes 1 f (u + int tx) (v + int ty)"
    using zs_delete_view [OF v ty tx, of 1] by simp
  with c show ?thesis
    unfolding tile_pixel_def Let_def substep_def ty_def [symmetric] tx_def [symmetric] by simp
qed

section \<open>A launch computes a whole iteration\<close>

definition thin_once :: "picture \<Rightarrow> picture" where
  "thin_once f = substep 1 (substep 0 f)"

definition zs_byte :: "nat \<Rightarrow> nat \<Rightarrow> int list \<Rightarrow> nat \<Rightarrow> int" where
  \<comment> \<open>what an iteration makes of the byte at an index of the buffer\<close>
  "zs_byte W H inp j =
    thin_once (pic W H inp (j div (W * H) * (W * H))) (int (j mod (W * H) mod W)) (int (j mod (W * H) div W))"

definition zs_buffer :: "nat \<Rightarrow> nat \<Rightarrow> int list \<Rightarrow> int list" where
  "zs_buffer W H inp = map (zs_byte W H inp) [0..<2 * (W * H)]"

lemma length_zs_buffer [simp]: "length (zs_buffer W H inp) = 2 * (W * H)"
  by (simp add: zs_buffer_def)

lemma cell_coords:
  fixes x y W H z :: nat
  assumes "x < W" "y < H" "j = z * (W * H) + y * W + x"
  shows "j div (W * H) = z" "j mod (W * H) mod W = x" "j mod (W * H) div W = y" "y * W + x < W * H"
proof -
  have "y * W + x < Suc y * W" using assms(1) by simp
  also have "\<dots> \<le> H * W" using assms(2) by (intro mult_le_mono1) simp
  finally have less: "y * W + x < W * H" by (simp add: mult.commute)
  have j: "j = (y * W + x) + z * (W * H)" using assms(3) by simp
  have m: "j mod (W * H) = y * W + x" unfolding j mod_mult_self1 using less by simp
  have "j div (W * H) = z + (y * W + x) div (W * H)"
    unfolding j using assms(1,2) by (subst div_mult_self1) auto
  then show "j div (W * H) = z" using less by simp
  show "j mod (W * H) mod W = x" "j mod (W * H) div W = y" "y * W + x < W * H" using assms(1) less by (simp_all add: m)
qed

lemma fold_writes:
  fixes v :: "nat \<Rightarrow> 'a"
  assumes "\<And>t. t \<in> set ts \<Longrightarrow> P t \<Longrightarrow> val t = v (pos t)"
  shows "length (fold (\<lambda>t out. if P t then out[pos t := val t] else out) ts out) = length out \<and>
    (j < length out \<longrightarrow> fold (\<lambda>t out. if P t then out[pos t := val t] else out) ts out ! j =
      (if \<exists>t \<in> set ts. P t \<and> pos t = j then v j else out ! j))"
  using assms
proof (induction ts arbitrary: out)
  case (Cons t ts)
  define out1 where "out1 = (if P t then out[pos t := val t] else out)"
  have "length out1 = length out" and "j < length out \<Longrightarrow> out1 ! j = (if P t \<and> pos t = j then v j else out ! j)"
    using Cons.prems [of t] by (auto simp: out1_def)
  with Cons.IH [of out1, OF Cons.prems] show ?case by (auto simp flip: out1_def)
qed simp

definition cell_of :: "nat \<Rightarrow> nat \<Rightarrow> nat \<times> nat \<times> nat \<Rightarrow> nat \<Rightarrow> bool" where
  \<comment> \<open>the index belongs to a pixel of the block\<close>
  "cell_of W H b j \<longleftrightarrow> (case b of (bx, by, bz) \<Rightarrow>
     \<exists>tid < TW * TH. bx * TW + tid mod TW < W \<and> by * TH + tid div TW < H \<and>
       j = bz * (W * H) + (by * TH + tid div TW) * W + (bx * TW + tid mod TW))"

lemma run_block_writes:
  assumes st: "run_block inp W H (W * H) b (out, n) = (out', n')"
  shows "j < length out \<Longrightarrow> out' ! j = (if cell_of W H b j then zs_byte W H inp j else out ! j)"
    "length out' = length out" "n \<le> n'" "n' = n \<longleftrightarrow> (\<forall>j. cell_of W H b j \<longrightarrow> zs_byte W H inp j = inp ! j)"
proof -
  obtain bx "by" bz where b: "b = (bx, by, bz)" by (cases b)
  let ?base = "bz * (W * H)" and ?x0 = "bx * TW" and ?y0 = "by * TH"
  define s_in s_mid where "s_in = tile_in inp W H ?base ?x0 ?y0" and "s_mid = tile_mid s_in"
  define inside where "inside tid \<longleftrightarrow> ?x0 + tid mod TW < W \<and> ?y0 + tid div TW < H" for tid
  define orig where "orig tid = s_in ! ((tid div TW + 2) * (TW + 4) + (tid mod TW + 2))" for tid
  define pos where "pos tid = ?base + (?y0 + tid div TW) * W + (?x0 + tid mod TW)" for tid
  let ?F = "pic W H inp ?base"
  have v1: "tile_view s_in (TW + 4) (TH + 4) ?F (int ?x0 - 1 - 1) (int ?y0 - 1 - 1)"
    unfolding s_in_def using tile_in_view [of inp W H ?base ?x0 ?y0] by simp
  have val: "tile_pixel s_mid tid = zs_byte W H inp (pos tid)" and old: "orig tid = inp ! pos tid"
    if tid: "tid < TW * TH" and i: "inside tid" for tid
  proof -
    from i have xy: "?x0 + tid mod TW < W" "?y0 + tid div TW < H" by (simp_all add: inside_def)
    note c = cell_coords(1-3) [OF xy, of "pos tid" bz, unfolded pos_def, OF refl]
    show "tile_pixel s_mid tid = zs_byte W H inp (pos tid)"
      using tile_pixel_view [OF tile_mid_view [OF v1] tid] unfolding s_mid_def zs_byte_def thin_once_def pos_def c by simp
    have ty: "tid div TW + 2 < TH + 4" using tid by (simp add: less_mult_imp_div_less mult.commute)
    have tx: "tid mod TW + 2 < TW + 4" by (simp add: TW_def)
    from tile_viewD [OF v1 ty tx refl] xy show "orig tid = inp ! pos tid"
      unfolding orig_def pos_def by (simp add: pic_def nat_add_distrib nat_mult_distrib add.assoc flip: of_nat_add of_nat_mult)
  qed
  have r: "out' = fold (\<lambda>tid out. if inside tid then out[pos tid := tile_pixel s_mid tid] else out) [0..<TW * TH] out"
    "n' = n + int (length (filter (\<lambda>tid. inside tid \<and> orig tid \<noteq> tile_pixel s_mid tid) [0..<TW * TH]))"
    using st unfolding run_block_def b Let_def prod.case s_mid_def s_in_def inside_def orig_def pos_def by (simp_all only: prod.inject)
  have cell: "cell_of W H b j \<longleftrightarrow> (\<exists>tid \<in> set [0..<TW * TH]. inside tid \<and> pos tid = j)" for j
    by (auto simp: cell_of_def b inside_def pos_def)
  have val': "t \<in> set [0..<TW * TH] \<Longrightarrow> inside t \<Longrightarrow> tile_pixel s_mid t = zs_byte W H inp (pos t)" for t
    using val by simp
  show "length out' = length out" and "j < length out \<Longrightarrow> out' ! j = (if cell_of W H b j then zs_byte W H inp j else out ! j)"
    unfolding r(1) cell using fold_writes [of "[0..<TW * TH]" inside "tile_pixel s_mid" "zs_byte W H inp" pos out j, OF val'] by blast+
  show "n \<le> n'" by (simp add: r(2))
  show "n' = n \<longleftrightarrow> (\<forall>j. cell_of W H b j \<longrightarrow> zs_byte W H inp j = inp ! j)"
    unfolding r(2) cell using val old by (auto simp: filter_empty_conv)
qed

lemma run_blocks_write:
  assumes "fold (run_block inp W H (W * H)) bs (out, n) = (out', n')"
  shows "(j < length out \<longrightarrow> out' ! j = (if \<exists>b \<in> set bs. cell_of W H b j then zs_byte W H inp j else out ! j)) \<and>
    length out' = length out \<and> n \<le> n' \<and> (n' = n \<longleftrightarrow> (\<forall>b \<in> set bs. \<forall>j. cell_of W H b j \<longrightarrow> zs_byte W H inp j = inp ! j))"
  using assms
proof (induction bs arbitrary: out n)
  case (Cons b bs)
  obtain out1 n1 where b: "run_block inp W H (W * H) b (out, n) = (out1, n1)" by fastforce
  with Cons.prems have "fold (run_block inp W H (W * H)) bs (out1, n1) = (out', n')" by simp
  from Cons.IH [OF this] run_block_writes [OF b] show ?case by auto
qed simp

lemma blocks_cover:
  assumes "j < 2 * (W * H)"
  shows "\<exists>b \<in> set (blocks_of W H TW TH). cell_of W H b j"
proof -
  have pos: "0 < W" "0 < H" using assms by (auto intro: gr0I)
  define z x y where "z = j div (W * H)" and "x = j mod (W * H) mod W" and "y = j mod (W * H) div W"
  have z: "z < 2" using assms pos by (simp add: z_def less_mult_imp_div_less)
  have x: "x < W" using pos by (simp add: x_def)
  have "j mod (W * H) < H * W" using pos by (simp add: mult.commute)
  then have y: "y < H" by (simp add: y_def less_mult_imp_div_less)
  have j: "j = z * (W * H) + y * W + x" by (simp add: z_def x_def y_def mult.commute add.assoc)
  have cd: "a < c \<Longrightarrow> 0 < k \<Longrightarrow> a div k < cdiv c k" for a c k :: nat
  proof -
    assume "a < c" "0 < k"
    then have "a + k \<le> c + k - 1" by simp
    then have "(a + k) div k \<le> cdiv c k" unfolding cdiv_def by (rule div_le_mono)
    with \<open>0 < k\<close> show "a div k < cdiv c k" by simp
  qed
  have TWH: "0 < TW" "0 < TH" by (simp_all add: TW_def TH_def)
  let ?b = "(x div TW, y div TH, z)" and ?t = "(y mod TH) * TW + x mod TW"
  have inb: "?b \<in> set (blocks_of W H TW TH)" using cd [OF x TWH(1)] cd [OF y TWH(2)] z by (force simp: blocks_of_def)
  have t: "?t mod TW = x mod TW" "?t div TW = y mod TH" using TWH by simp_all
  have "?t < Suc (y mod TH) * TW" using TWH by simp
  also have "\<dots> \<le> TH * TW" using TWH by (intro mult_le_mono1) (simp add: Suc_leI)
  finally have "?t < TW * TH" by (simp add: mult.commute)
  then have "cell_of W H ?b j"
    unfolding cell_of_def prod.case using x y by (intro exI [of _ ?t]) (simp only: t div_mult_mod_eq j simp_thms)
  with inb show ?thesis by blast
qed

lemma block_cells:
  assumes "b \<in> set (blocks_of W H TW TH)" "cell_of W H b j"
  shows "j < 2 * (W * H)"
proof -
  obtain bx "by" z where b: "b = (bx, by, z)" by (cases b)
  with assms(1) have z: "z < 2" by (auto simp: blocks_of_def)
  from assms(2) obtain x y where xy: "x < W" "y < H" "j = z * (W * H) + y * W + x" by (auto simp: cell_of_def b)
  have "z * (W * H) \<le> 1 * (W * H)" using z by (intro mult_le_mono1) simp
  with cell_coords(4) [OF xy] show ?thesis unfolding xy(3) by linarith
qed

lemma k_zs_iter_runs:
  assumes order: "set order = set (blocks_of W H TW TH)" and len: "length inp = 2 * (W * H)" "length out = 2 * (W * H)"
    and run: "\<not> (iter > 0 \<and> counters ! (iter - 1) = 0)" and zero: "counters ! iter = 0" "iter < length counters"
  shows "\<exists>n. k_zs_iter W H (W * H) order iter inp out counters = (zs_buffer W H inp, counters[iter := n]) \<and>
    (n = 0 \<longleftrightarrow> zs_buffer W H inp = inp)"
proof -
  obtain out' n where f: "fold (run_block inp W H (W * H)) order (out, counters ! iter) = (out', n)" by fastforce
  note w = run_blocks_write [OF f]
  have "out' = zs_buffer W H inp"
  proof (rule nth_equalityI)
    show l: "length out' = length (zs_buffer W H inp)" using w len by simp
    fix j assume "j < length out'"
    with l have j: "j < 2 * (W * H)" by simp
    with blocks_cover [of j W H] order w len show "out' ! j = zs_buffer W H inp ! j" by (auto simp: zs_buffer_def)
  qed
  moreover have "n = 0 \<longleftrightarrow> (\<forall>j < 2 * (W * H). zs_byte W H inp j = inp ! j)"
    using w zero order blocks_cover [of _ W H] block_cells [of _ W H] by (metis (no_types, lifting))
  moreover have "(\<forall>j < 2 * (W * H). zs_byte W H inp j = inp ! j) \<longleftrightarrow> zs_buffer W H inp = inp"
    using len by (auto simp: zs_buffer_def list_eq_iff_nth_eq)
  ultimately show ?thesis using f run by (intro exI [of _ n]) (auto simp: k_zs_iter_def)
qed

section \<open>The iterations\<close>

text \<open>The buffer iteration \<open>it\<close> reads, the other one, and what holds between the launches: the buffer to be read is the picture
  after \<open>it\<close> whole iterations; once an iteration has deleted nothing both buffers hold it and later launches return at once.\<close>

definition thin_inv :: "nat \<Rightarrow> nat \<Rightarrow> int list \<Rightarrow> nat \<Rightarrow> int list \<times> int list \<times> int list \<Rightarrow> bool" where
  "thin_inv W H img it st \<longleftrightarrow> (case st of (buf0, buf1, counters) \<Rightarrow>
     (let cur = (if odd it then buf1 else buf0); other = (if odd it then buf0 else buf1) in
      cur = (zs_buffer W H ^^ it) img \<and> length cur = 2 * (W * H) \<and> length other = 2 * (W * H) \<and>
      (\<forall>k. it \<le> k \<and> k < length counters \<longrightarrow> counters ! k = 0) \<and>
      (it > 0 \<and> counters ! (it - 1) = 0 \<longrightarrow> other = cur \<and> zs_buffer W H cur = cur)))"

lemma thin_round_inv:
  assumes inv: "thin_inv W H img it st" and order: "set (sched it) = set (blocks_of W H TW TH)"
    and len: "it < length (snd (snd st))"
  shows "thin_inv W H img (Suc it) (thin_round W H sched it st) \<and>
    length (snd (snd (thin_round W H sched it st))) = length (snd (snd st))"
proof -
  obtain buf0 buf1 counters where st: "st = (buf0, buf1, counters)" by (cases st)
  define cur other where "cur = (if odd it then buf1 else buf0)" and "other = (if odd it then buf0 else buf1)"
  have i: "cur = (zs_buffer W H ^^ it) img" "length cur = 2 * (W * H)" "length other = 2 * (W * H)"
    "\<And>k. it \<le> k \<Longrightarrow> k < length counters \<Longrightarrow> counters ! k = 0"
    "it > 0 \<Longrightarrow> counters ! (it - 1) = 0 \<Longrightarrow> other = cur \<and> zs_buffer W H cur = cur"
    using inv by (cases "odd it"; simp add: thin_inv_def st cur_def other_def Let_def)+
  have "\<exists>out c. k_zs_iter W H (W * H) (sched it) it cur other counters = (out, c) \<and> out = (zs_buffer W H ^^ Suc it) img \<and>
      length c = length counters \<and> (\<forall>k. Suc it \<le> k \<and> k < length c \<longrightarrow> c ! k = 0) \<and>
      (c ! it = 0 \<longrightarrow> cur = out \<and> zs_buffer W H out = out)"
  proof (cases "it > 0 \<and> counters ! (it - 1) = 0")
    case True
    with i(5) have "other = cur" "zs_buffer W H cur = cur" by simp_all
    with True i show ?thesis by (simp add: k_zs_iter_def)
  next
    case False
    have z: "counters ! it = 0" "it < length counters" using i(4) [of it] len st by simp_all
    from k_zs_iter_runs [OF order i(2,3) False z] obtain n where
      "k_zs_iter W H (W * H) (sched it) it cur other counters = (zs_buffer W H cur, counters[it := n])"
      "n = 0 \<longleftrightarrow> zs_buffer W H cur = cur" by blast
    with i z show ?thesis by auto
  qed
  then obtain out c where k: "k_zs_iter W H (W * H) (sched it) it cur other counters = (out, c)" "out = (zs_buffer W H ^^ Suc it) img"
    "length c = length counters" "\<And>k. Suc it \<le> k \<Longrightarrow> k < length c \<Longrightarrow> c ! k = 0" "c ! it = 0 \<Longrightarrow> cur = out \<and> zs_buffer W H out = out"
    by blast
  have lo: "length out = 2 * (W * H)" by (simp add: k(2))
  have "thin_round W H sched it st = (if odd it then (out, buf1, c) else (buf0, out, c))"
    using k(1) by (simp add: thin_round_def st cur_def other_def split: if_splits)
  with k lo i(2) show ?thesis by (auto simp: thin_inv_def Let_def cur_def st)
qed

lemma thin_rounds_inv:
  assumes "thin_inv W H img 0 st" "\<And>it. it < n \<Longrightarrow> set (sched it) = set (blocks_of W H TW TH)" "n \<le> length (snd (snd st))"
  shows "thin_inv W H img n (fold (thin_round W H sched) [0..<n] st) \<and>
    length (snd (snd (fold (thin_round W H sched) [0..<n] st))) = length (snd (snd st))"
  using assms
proof (induction n)
  case (Suc n)
  then have "thin_inv W H img n (fold (thin_round W H sched) [0..<n] st)"
    "length (snd (snd (fold (thin_round W H sched) [0..<n] st))) = length (snd (snd st))" by simp_all
  from thin_round_inv [OF this(1), of sched] this(2) Suc.prems show ?case by simp
qed simp

lemma thin_rounds_even: "even (thin_rounds m)" "2 \<le> thin_rounds m"
proof -
  have "even (m AND NOT 1)" by (simp add: even_and_iff)
  then have e: "even (max 2 (m AND NOT 1))" by (simp add: max_def)
  show "even (thin_rounds m)" "2 \<le> thin_rounds m" using e by (simp_all add: thin_rounds_def even_nat_iff)
qed

lemma launch_thin_iterations_result:
  assumes "length buf0 = 2 * (W * H)" "length buf1 = 2 * (W * H)" "thin_rounds m \<le> length counters" "set counters \<subseteq> {0}"
    "\<And>it. it < thin_rounds m \<Longrightarrow> set (sched it) = set (blocks_of W H TW TH)"
  shows "\<exists>buf1' counters'. launch_thin_iterations W H sched m (buf0, buf1, counters) =
    ((zs_buffer W H ^^ thin_rounds m) buf0, buf1', counters')"
proof -
  have z: "\<forall>k < length counters. counters ! k = 0" using assms(4) nth_mem by fastforce
  have "thin_inv W H buf0 0 (buf0, buf1, counters)" using assms(1,2) z by (simp add: thin_inv_def)
  from thin_rounds_inv [OF this assms(5)] assms(3)
  have "thin_inv W H buf0 (thin_rounds m) (launch_thin_iterations W H sched m (buf0, buf1, counters))"
    by (simp add: launch_thin_iterations_def)
  with thin_rounds_even(1) [of m] show ?thesis by (auto simp: thin_inv_def Let_def split: prod.splits)
qed

section \<open>The algorithm of Zhang and Suen\<close>

text \<open>
  The neighbours of a pixel clockwise from the north, \<open>P2\<close> to \<open>P9\<close> in the paper. A set pixel goes when two to six neighbours are
  set, exactly one step around it goes from clear to set, and one of two sides is open: east or south in the first sub-iteration,
  north or west in the second.
\<close>

definition around :: "picture \<Rightarrow> int \<Rightarrow> int \<Rightarrow> int list" where
  "around f x y = [f x (y - 1), f (x + 1) (y - 1), f (x + 1) y, f (x + 1) (y + 1), f x (y + 1), f (x - 1) (y + 1), f (x - 1) y,
     f (x - 1) (y - 1)]"

definition rises :: "int list \<Rightarrow> nat" where
  "rises ps = length (filter (\<lambda>(a, b). a = 0 \<and> b = 1) (zip ps (rotate1 ps)))"

definition zs_removable :: "nat \<Rightarrow> int list \<Rightarrow> bool" where
  "zs_removable step ps \<longleftrightarrow> (case ps of [p2, p3, p4, p5, p6, p7, p8, p9] \<Rightarrow>
      2 \<le> sum_list ps \<and> sum_list ps \<le> 6 \<and> rises ps = 1 \<and>
      (if step = 0 then p2 * p4 * p6 = 0 \<and> p4 * p6 * p8 = 0 else p2 * p4 * p8 = 0 \<and> p2 * p6 * p8 = 0)
    | _ \<Rightarrow> False)"

definition zhang_suen_sub :: "nat \<Rightarrow> picture \<Rightarrow> picture" where
  "zhang_suen_sub step f x y = (if zs_removable step (around f x y) then 0 else f x y)"

definition zhang_suen :: "picture \<Rightarrow> picture" where
  "zhang_suen f = zhang_suen_sub 1 (zhang_suen_sub 0 f)"

definition binary :: "picture \<Rightarrow> bool" where
  "binary f \<longleftrightarrow> (\<forall>x y. f x y = 0 \<or> f x y = 1)"

lemma bit_fact:
  fixes a b :: int
  assumes "a = 0 \<or> a = 1" "b = 0 \<or> b = 1"
  shows "a AND b = a * b" "lnot a AND b = (1 - a) * b" "lnot a = 1 - a" "(a OR b) = a + b - a * b"
  using assms by (auto simp: lnot_def)

lemma deletes_eq_removable:
  assumes "binary f"
  shows "deletes step f x y = zs_removable step (around f x y)"
proof -
  have b: "f u v = 0 \<or> f u v = 1" for u v using assms by (simp add: binary_def)
  have "(case [N, NE, E, SE, S, SW, Wn, NW] of ps \<Rightarrow>
      (let B = N + NE + E + SE + S + SW + Wn + NW in
       if B < 2 \<or> B > 6 then False
       else
        (let A = (lnot N AND NE) + (lnot NE AND E) + (lnot E AND SE) + (lnot SE AND S) + (lnot S AND SW) +
                 (lnot SW AND Wn) + (lnot Wn AND NW) + (lnot NW AND N) in
         if A \<noteq> 1 then False
         else if step = 0 then ((N AND E AND S) OR (E AND S AND Wn)) = 0
         else ((N AND E AND Wn) OR (N AND S AND Wn)) = 0)) \<longleftrightarrow> zs_removable step ps)"
    if "N = 0 \<or> N = 1" "NE = 0 \<or> NE = 1" "E = 0 \<or> E = 1" "SE = 0 \<or> SE = 1" "S = 0 \<or> S = 1" "SW = 0 \<or> SW = 1"
      "Wn = 0 \<or> Wn = 1" "NW = 0 \<or> NW = 1" for N NE E SE S SW Wn NW :: int
    using that by (elim disjE) (simp_all add: lnot_def zs_removable_def rises_def)
  from this [OF b b b b b b b b] show ?thesis unfolding deletes_def around_def Let_def by simp
qed

lemma substep_eq: "binary f \<Longrightarrow> substep step f = zhang_suen_sub step f"
  by (intro ext) (auto simp: substep_def zhang_suen_sub_def deletes_eq_removable)

lemma binary_sub: "binary f \<Longrightarrow> binary (zhang_suen_sub step f)"
  by (auto simp: binary_def zhang_suen_sub_def)

lemma thin_once_eq: "binary f \<Longrightarrow> thin_once f = zhang_suen f"
  by (simp add: thin_once_def zhang_suen_def substep_eq binary_sub)

definition plane :: "nat \<Rightarrow> nat \<Rightarrow> int list \<Rightarrow> nat \<Rightarrow> picture" where
  "plane W H buf z = pic W H buf (z * (W * H))"

lemma plane_zs_buffer:
  assumes z: "z < 2" and bin: "binary (plane W H img z)"
  shows "plane W H (zs_buffer W H img) z = zhang_suen (plane W H img z)"
proof (intro ext)
  fix x y
  show "plane W H (zs_buffer W H img) z x y = zhang_suen (plane W H img z) x y"
  proof (cases "0 \<le> x \<and> x < int W \<and> 0 \<le> y \<and> y < int H")
    case True
    let ?j = "z * (W * H) + nat y * W + nat x"
    have xy: "nat x < W" "nat y < H" using True by auto
    note c = cell_coords [OF xy, of _ z, OF refl]
    have "z * (W * H) \<le> 1 * (W * H)" using z by (intro mult_le_mono1) simp
    with c(4) have "?j < 2 * (W * H)" by linarith
    then have "zs_buffer W H img ! ?j = thin_once (plane W H img z) x y"
      using True unfolding zs_buffer_def plane_def by (simp add: zs_byte_def c(1-3))
    with True thin_once_eq [OF bin] show ?thesis by (simp add: plane_def pic_def)
  next
    case False
    then have "plane W H buf z x y = 0" for buf by (auto simp: plane_def pic_def)
    then show ?thesis by (simp add: zhang_suen_def zhang_suen_sub_def)
  qed
qed

lemma binary_zhang_suen: "binary f \<Longrightarrow> binary (zhang_suen f)"
  by (simp add: zhang_suen_def binary_sub)

lemma plane_zs_rounds:
  assumes z: "z < 2" and bin: "binary (plane W H img z)"
  shows "plane W H ((zs_buffer W H ^^ n) img) z = (zhang_suen ^^ n) (plane W H img z) \<and> binary ((zhang_suen ^^ n) (plane W H img z))"
  by (induction n) (use bin plane_zs_buffer [OF z] binary_zhang_suen in \<open>simp_all add: flip: plane_def\<close>)

lemma binary_plane:
  assumes "length buf = 2 * (W * H)" "set buf \<subseteq> {0, 1}" "z < 2"
  shows "binary (plane W H buf z)"
  unfolding binary_def plane_def pic_def
proof (intro allI)
  fix x y
  show "(if 0 \<le> x \<and> x < int W \<and> 0 \<le> y \<and> y < int H then buf ! (z * (W * H) + nat y * W + nat x) else 0) = 0 \<or>
    (if 0 \<le> x \<and> x < int W \<and> 0 \<le> y \<and> y < int H then buf ! (z * (W * H) + nat y * W + nat x) else 0) = 1"
  proof (cases "0 \<le> x \<and> x < int W \<and> 0 \<le> y \<and> y < int H")
    case True
    then have xy: "nat x < W" "nat y < H" by auto
    have "z * (W * H) \<le> 1 * (W * H)" using assms(3) by (intro mult_le_mono1) simp
    with cell_coords(4) [OF xy, of _ z, OF refl] assms(1) have "z * (W * H) + nat y * W + nat x < length buf" by linarith
    then have "buf ! (z * (W * H) + nat y * W + nat x) \<in> set buf" by (rule nth_mem)
    with assms(2) True show ?thesis by auto
  qed auto
qed

text \<open>C31: The fused thinning kernels compute the algorithm of Zhang and Suen: with zeroed counters, in whatever order the blocks of
  each launch run and whatever the second buffer held, the first buffer ends up holding, for both lane masks, the mask after exactly
  the even cap of whole iterations over the whole image, although each block only sees its tile with a halo of two pixels and the
  launches after convergence return at once.\<close>

theorem thinning_is_zhang_suen:
  assumes "length buf0 = 2 * (W * H)" "length buf1 = 2 * (W * H)" "set buf0 \<subseteq> {0, 1}"
    and "thin_rounds max_iter \<le> length counters" "set counters \<subseteq> {0}"
    and "\<And>it. it < thin_rounds max_iter \<Longrightarrow> set (sched it) = set (blocks_of W H TW TH)"
  shows "\<exists>buf0' buf1' counters'. launch_thin_iterations W H sched max_iter (buf0, buf1, counters) = (buf0', buf1', counters') \<and>
    (\<forall>z < 2. plane W H buf0' z = (zhang_suen ^^ thin_rounds max_iter) (plane W H buf0 z))"
  using launch_thin_iterations_result [OF assms(1,2,4,5,6)] plane_zs_rounds binary_plane [OF assms(1,3)] by fastforce

text \<open>A window of two by one pixels with a set plane, thinned with the least cap.\<close>

lemma thinning_is_zhang_suen_witness:
  "\<exists>buf0' buf1' counters'.
    launch_thin_iterations 2 1 (\<lambda>it. blocks_of 2 1 TW TH) 2 ([1, 1, 0, 0], [7, 7, 7, 7], [0, 0]) = (buf0', buf1', counters') \<and>
    plane 2 1 buf0' 0 = (zhang_suen ^^ 2) (plane 2 1 [1, 1, 0, 0] 0) \<and>
    plane 2 1 buf0' 1 = (zhang_suen ^^ 2) (plane 2 1 [1, 1, 0, 0] 1)"
proof -
  have n: "thin_rounds 2 = 2" by (simp add: thin_rounds_def)
  show ?thesis
    using thinning_is_zhang_suen [of "[1, 1, 0, 0]" 2 1 "[7, 7, 7, 7]" 2 "[0, 0]" "\<lambda>it. blocks_of 2 1 TW TH"]
    by (fastforce simp: n)
qed

section \<open>Corner removal\<close>

definition corner_at :: "nat \<times> nat \<Rightarrow> picture \<Rightarrow> int \<Rightarrow> int \<Rightarrow> bool" where
  "corner_at ab f x y \<longleftrightarrow> f x y \<noteq> 0 \<and> sum_list (around f x y) = 2 \<and> around f x y ! fst ab \<noteq> 0 \<and> around f x y ! snd ab \<noteq> 0"

definition cut_corners :: "nat \<times> nat \<Rightarrow> picture \<Rightarrow> picture" where
  "cut_corners ab f x y = (if corner_at ab f x y then 0 else f x y)"

lemma upt_8: "[0..<8] = [0, 1, 2, 3, 4, 5, 6, 7 :: nat]"
  by (simp add: upt_rec)

lemma plane_corner_pass:
  assumes z: "z < 2" and len: "length img = 2 * (W * H)" and ab: "fst ab < 8" "snd ab < 8"
  shows "plane W H (corner_pass W H ab img) z = cut_corners ab (plane W H img z)"
proof (intro ext)
  fix x y
  let ?f = "plane W H img z" and ?ps = "W * H"
  show "plane W H (corner_pass W H ab img) z x y = cut_corners ab ?f x y"
  proof (cases "0 \<le> x \<and> x < int W \<and> 0 \<le> y \<and> y < int H")
    case True
    let ?j = "z * ?ps + nat y * W + nat x"
    have xy: "nat x < W" "nat y < H" using True by auto
    note c = cell_coords [OF xy, of _ z, OF refl]
    have zp: "z * ?ps \<le> length img" using z len by (simp add: mult_le_mono1)
    have "z * ?ps \<le> 1 * ?ps" using z by (intro mult_le_mono1) simp
    with c(4) have j: "?j < 2 * ?ps" by linarith
    have m: "drop (z * ?ps) img ! i = img ! (z * ?ps + i)" for i using zp by (rule nth_drop)
    let ?v = "corner_nbr W H (drop (z * ?ps) img) (nat x) (nat y)"
    have v: "?v k = around ?f x y ! k" if "k < 8" for k
    proof -
      have "k \<in> {0, 1, 2, 3, 4, 5, 6, 7}" using that by auto
      moreover have "?v k = ?f (x + c_dx ! k) (y + c_dy ! k)"
        using True by (auto simp: corner_nbr_def Let_def m plane_def pic_def add.assoc)
      ultimately show ?thesis by (elim insertE; simp add: around_def c_dx_def c_dy_def)
    qed
    have s: "(\<Sum>k\<leftarrow>[0..<8]. ?v k) = sum_list (around ?f x y)"
      unfolding upt_8 using v by (simp add: around_def)
    have r: "drop (z * ?ps) img ! (nat y * W + nat x) = ?f x y"
      using True by (simp add: m plane_def pic_def add.assoc)
    have "corner_pass W H ab img ! ?j = k_corner W H (fst ab) (snd ab) img z (nat x) (nat y)"
      using j by (simp add: corner_pass_def c(1-3))
    also have "\<dots> = cut_corners ab ?f x y"
      unfolding k_corner_def Let_def s v [OF ab(1)] v [OF ab(2)] r cut_corners_def corner_at_def by auto
    finally show ?thesis using True by (simp add: plane_def pic_def)
  next
    case False
    then have "plane W H buf z x y = 0" for buf by (auto simp: plane_def pic_def)
    then show ?thesis by (simp add: cut_corners_def)
  qed
qed

text \<open>Two pixels are linked when a chain of set pixels, each touching the next with a side or a corner, joins them.\<close>

definition touch :: "picture \<Rightarrow> int \<times> int \<Rightarrow> int \<times> int \<Rightarrow> bool" where
  "touch f p q \<longleftrightarrow> f (fst p) (snd p) \<noteq> 0 \<and> f (fst q) (snd q) \<noteq> 0 \<and> \<bar>fst p - fst q\<bar> \<le> 1 \<and> \<bar>snd p - snd q\<bar> \<le> 1"

definition linked :: "picture \<Rightarrow> int \<times> int \<Rightarrow> int \<times> int \<Rightarrow> bool" where
  "linked f = (touch f)\<^sup>*\<^sup>*"

definition beside :: "nat \<Rightarrow> int \<times> int \<Rightarrow> int \<times> int" where
  "beside k p = (fst p + c_dx ! k, snd p + c_dy ! k)"

lemma length_around: "length (around f x y) = 8"
  by (simp add: around_def)

lemma around_beside: "k < 8 \<Longrightarrow> around f x y ! k = f (fst (beside k (x, y))) (snd (beside k (x, y)))"
  using less_Suc_eq [of k] by (auto simp: around_def beside_def c_dx_def c_dy_def eval_nat_numeral less_Suc_eq)

lemma ex_less_8: "(\<exists>k < 8. P k) \<longleftrightarrow> P 0 \<or> P 1 \<or> P 2 \<or> P 3 \<or> P 4 \<or> P 5 \<or> P 6 \<or> P (7 :: nat)"
proof -
  have "(\<exists>k < 8. P k) \<longleftrightarrow> (\<exists>k \<in> set [0..<8]. P k)" by auto
  then show ?thesis unfolding upt_8 by simp
qed

lemma near_beside:
  fixes x y u v :: int
  assumes "\<bar>u - x\<bar> \<le> 1" "\<bar>v - y\<bar> \<le> 1" "(u, v) \<noteq> (x, y)"
  shows "\<exists>k < 8. (u, v) = beside k (x, y)"
proof -
  have "u = x - 1 \<or> u = x \<or> u = x + 1" "v = y - 1 \<or> v = y \<or> v = y + 1" using assms(1,2) by arith+
  with assms(3) show ?thesis
    unfolding ex_less_8 by (elim disjE; simp add: beside_def c_dx_def c_dy_def)
qed

lemma two_of_sum:
  fixes g :: "nat \<Rightarrow> int"
  assumes "\<And>k. 0 \<le> g k" "(\<Sum>k < n. g k) = 2" "g a \<noteq> 0" "g b \<noteq> 0" "a \<noteq> b" "a < n" "b < n" "k < n" "g k \<noteq> 0"
  shows "k = a \<or> k = b"
proof (rule ccontr)
  assume n: "\<not> (k = a \<or> k = b)"
  have "g a + g b + g k = sum g {a, b, k}" using n assms(5) by (simp add: add.assoc)
  also have "\<dots> \<le> sum g {..<n}" by (rule sum_mono2) (use assms in auto)
  finally have "g a + g b + g k \<le> 2" using assms(2) by simp
  moreover have "1 \<le> g a" "1 \<le> g b" "1 \<le> g k" using assms(1) [of a] assms(1) [of b] assms(1) [of k] assms(3,4,9) by linarith+
  ultimately show False by linarith
qed

lemma corner_pair_sides: "ab \<in> set corner_pairs \<Longrightarrow> fst ab < 8 \<and> snd ab < 8 \<and> fst ab \<noteq> snd ab"
  by (auto simp: corner_pairs_def)

lemma corner_sides:
  assumes c: "corner_at ab f x y" and ab: "ab \<in> set corner_pairs" and bin: "binary f"
  shows "f (x + c_dx ! fst ab) (y + c_dy ! fst ab) \<noteq> 0" "f (x + c_dx ! snd ab) (y + c_dy ! snd ab) \<noteq> 0"
    and "\<bar>u - x\<bar> \<le> 1 \<Longrightarrow> \<bar>v - y\<bar> \<le> 1 \<Longrightarrow> f u v \<noteq> 0 \<Longrightarrow>
      (u, v) = (x, y) \<or> (u, v) = beside (fst ab) (x, y) \<or> (u, v) = beside (snd ab) (x, y)"
proof -
  let ?g = "\<lambda>k. f (fst (beside k (x, y))) (snd (beside k (x, y)))"
  note k8 = corner_pair_sides [OF ab]
  have nonneg: "0 \<le> ?g k" for k using bin unfolding binary_def by (metis zero_le_one order_refl)
  have "sum_list (around f x y) = (\<Sum>k < 8. around f x y ! k)" by (simp add: sum_list_sum_nth atLeast0LessThan length_around)
  also have "\<dots> = (\<Sum>k < 8. ?g k)" by (intro sum.cong refl around_beside) simp
  finally have two: "(\<Sum>k < 8. ?g k) = 2" using c by (simp add: corner_at_def)
  have ga: "?g (fst ab) \<noteq> 0" and gb: "?g (snd ab) \<noteq> 0" using c k8 by (simp_all add: corner_at_def around_beside)
  then show "f (x + c_dx ! fst ab) (y + c_dy ! fst ab) \<noteq> 0" "f (x + c_dx ! snd ab) (y + c_dy ! snd ab) \<noteq> 0"
    by (simp_all add: beside_def)
  assume u: "\<bar>u - x\<bar> \<le> 1" and v: "\<bar>v - y\<bar> \<le> 1" and f: "f u v \<noteq> 0"
  show "(u, v) = (x, y) \<or> (u, v) = beside (fst ab) (x, y) \<or> (u, v) = beside (snd ab) (x, y)"
  proof (cases "(u, v) = (x, y)")
    case False
    from near_beside [OF u v False] obtain k where k: "k < 8" "(u, v) = beside k (x, y)" by blast
    from two_of_sum [OF nonneg two ga gb _ _ _ k(1)] k8 f k(2) have "k = fst ab \<or> k = snd ab" by (metis fst_conv snd_conv)
    with k(2) show ?thesis by blast
  qed simp
qed

lemma cut_touch: "touch (cut_corners ab f) p q \<Longrightarrow> touch f p q"
  by (auto simp: touch_def cut_corners_def split: if_splits)

definition corner_keeper :: "nat \<times> nat \<Rightarrow> picture \<Rightarrow> int \<times> int \<Rightarrow> int \<times> int" where
  "corner_keeper ab f p = (if corner_at ab f (fst p) (snd p) then beside (fst ab) p else p)"

lemma sides_stay:
  assumes c: "corner_at ab f x y" and ab: "ab \<in> set corner_pairs" and bin: "binary f" and k: "k = fst ab \<or> k = snd ab"
  shows "\<not> corner_at ab f (x + c_dx ! k) (y + c_dy ! k)"
proof
  assume c': "corner_at ab f (x + c_dx ! k) (y + c_dy ! k)"
  let ?o = "if k = fst ab then snd ab else fst ab"
  have o: "f (x + c_dx ! k + c_dx ! ?o) (y + c_dy ! k + c_dy ! ?o) \<noteq> 0"
    using corner_sides(1,2) [OF c' ab bin] k by auto
  have abs: "ab = (0, 2) \<or> ab = (2, 4) \<or> ab = (4, 6) \<or> ab = (6, 0)" using ab by (simp add: corner_pairs_def)
  then show False
    using corner_sides(3) [OF c ab bin _ _ o] k by (elim disjE; simp add: beside_def c_dx_def c_dy_def)
qed

lemma keeper_touch:
  assumes t: "touch f p q" and ab: "ab \<in> set corner_pairs" and bin: "binary f"
  shows "touch (cut_corners ab f) (corner_keeper ab f p) (corner_keeper ab f q)"
proof -
  have stays: "cut_corners ab f (fst (corner_keeper ab f p)) (snd (corner_keeper ab f p)) \<noteq> 0" if "f (fst p) (snd p) \<noteq> 0" for p
    using that sides_stay [OF _ ab bin, of "fst p" "snd p" "fst ab"] corner_sides(1) [OF _ ab bin, of "fst p" "snd p"]
    by (auto simp: corner_keeper_def cut_corners_def beside_def)
  have near: "\<bar>fst (beside (fst ab) p) - fst q\<bar> \<le> 1 \<and> \<bar>snd (beside (fst ab) p) - snd q\<bar> \<le> 1"
    if "corner_at ab f (fst p) (snd p)" "\<not> corner_at ab f (fst q) (snd q)" "touch f p q" for p q
  proof -
    have "q = beside (fst ab) p \<or> q = beside (snd ab) p"
      using corner_sides(3) [OF that(1) ab bin, of "fst q" "snd q"] that by (auto simp: touch_def prod_eq_iff abs_minus_commute)
    moreover have "ab = (0, 2) \<or> ab = (2, 4) \<or> ab = (4, 6) \<or> ab = (6, 0)" using ab by (simp add: corner_pairs_def)
    ultimately show ?thesis by (elim disjE; simp add: beside_def c_dx_def c_dy_def)
  qed
  have both: "p = q" if "corner_at ab f (fst p) (snd p)" "corner_at ab f (fst q) (snd q)" "touch f p q" for p q
  proof -
    have "q = p \<or> q = beside (fst ab) p \<or> q = beside (snd ab) p"
      using corner_sides(3) [OF that(1) ab bin, of "fst q" "snd q"] that by (auto simp: touch_def prod_eq_iff abs_minus_commute)
    with sides_stay [OF that(1) ab bin] that(2) show ?thesis by (auto simp: beside_def)
  qed
  have sym: "touch f q p" using t by (auto simp: touch_def abs_minus_commute)
  have "\<bar>fst (corner_keeper ab f p) - fst (corner_keeper ab f q)\<bar> \<le> 1 \<and> \<bar>snd (corner_keeper ab f p) - snd (corner_keeper ab f q)\<bar> \<le> 1"
    using near [of p q] near [of q p] both [of p q] t sym
    by (cases "corner_at ab f (fst p) (snd p)"; cases "corner_at ab f (fst q) (snd q)")
       (auto simp: corner_keeper_def touch_def abs_minus_commute)
  with stays [of p] stays [of q] t show ?thesis by (simp add: touch_def)
qed

lemma cut_corners_linked:
  assumes ab: "ab \<in> set corner_pairs" and bin: "binary f"
    and p: "cut_corners ab f (fst p) (snd p) \<noteq> 0" and q: "cut_corners ab f (fst q) (snd q) \<noteq> 0"
  shows "linked (cut_corners ab f) p q \<longleftrightarrow> linked f p q"
proof
  assume "linked (cut_corners ab f) p q"
  then show "linked f p q" unfolding linked_def by (rule rtranclp_mono [THEN predicate2D, rotated]) (auto intro: cut_touch)
next
  have keep: "corner_keeper ab f r = r" if "cut_corners ab f (fst r) (snd r) \<noteq> 0" for r
    using that by (auto simp: corner_keeper_def cut_corners_def split: if_splits)
  assume "linked f p q"
  then have "linked (cut_corners ab f) (corner_keeper ab f p) (corner_keeper ab f q)"
    unfolding linked_def
    by (induction rule: rtranclp_induct) (auto intro: rtranclp.rtrancl_into_rtrancl keeper_touch [OF _ ab bin])
  then show "linked (cut_corners ab f) p q" by (simp add: keep p q)
qed

section \<open>All corner passes\<close>

lemma length_corner_pass [simp]: "length (corner_pass W H ab img) = 2 * (W * H)"
  by (simp add: corner_pass_def)

lemma binary_cut: "binary f \<Longrightarrow> binary (cut_corners ab f)"
  by (auto simp: binary_def cut_corners_def)

lemma launch_thin_corners_result:
  "fst (launch_thin_corners W H (buf0, buf1)) = fold (corner_pass W H) (corner_pairs @ corner_pairs) buf0"
  by (simp add: launch_thin_corners_def corner_pairs_def)

lemma plane_corner_passes:
  assumes z: "z < 2"
  shows "set ps \<subseteq> set corner_pairs \<Longrightarrow> length img = 2 * (W * H) \<Longrightarrow>
    plane W H (fold (corner_pass W H) ps img) z = fold cut_corners ps (plane W H img z)"
  by (induction ps arbitrary: img) (use plane_corner_pass [OF z] corner_pair_sides in auto)

lemma cut_shrinks: "cut_corners ab f x y \<noteq> 0 \<Longrightarrow> f x y \<noteq> 0"
  by (auto simp: cut_corners_def split: if_splits)

lemma cuts_linked:
  assumes "set ps \<subseteq> set corner_pairs" "binary f"
    and "fold cut_corners ps f (fst p) (snd p) \<noteq> 0" "fold cut_corners ps f (fst q) (snd q) \<noteq> 0"
  shows "f (fst p) (snd p) \<noteq> 0 \<and> f (fst q) (snd q) \<noteq> 0 \<and> (linked (fold cut_corners ps f) p q \<longleftrightarrow> linked f p q)"
  using assms
proof (induction ps arbitrary: f)
  case (Cons ab ps)
  then have "cut_corners ab f (fst p) (snd p) \<noteq> 0 \<and> cut_corners ab f (fst q) (snd q) \<noteq> 0 \<and>
      (linked (fold cut_corners ps (cut_corners ab f)) p q \<longleftrightarrow> linked (cut_corners ab f) p q)"
    using binary_cut by simp
  with cut_corners_linked [of ab f p q] Cons.prems cut_shrinks [of ab f "fst p" "snd p"] cut_shrinks [of ab f "fst q" "snd q"] show ?case by simp
qed simp

text \<open>C32: The eight corner passes leave their result in the first buffer. For both lane masks they only clear pixels, and two pixels
  that stay are joined by a chain of touching set pixels afterwards exactly when they were before: removing staircase corners never
  splits a lane line.\<close>

theorem corner_removal_keeps_lines_joined:
  assumes "length buf0 = 2 * (W * H)" "set buf0 \<subseteq> {0, 1}" "z < 2"
    and "plane W H (fst (launch_thin_corners W H (buf0, buf1))) z (fst p) (snd p) \<noteq> 0"
    and "plane W H (fst (launch_thin_corners W H (buf0, buf1))) z (fst q) (snd q) \<noteq> 0"
  shows "plane W H buf0 z (fst p) (snd p) \<noteq> 0 \<and> plane W H buf0 z (fst q) (snd q) \<noteq> 0 \<and>
    (linked (plane W H (fst (launch_thin_corners W H (buf0, buf1))) z) p q \<longleftrightarrow> linked (plane W H buf0 z) p q)"
proof -
  have ps: "set (corner_pairs @ corner_pairs) \<subseteq> set corner_pairs" by simp
  show ?thesis
    using cuts_linked [OF ps binary_plane [OF assms(1-3)]] assms(4,5)
    unfolding launch_thin_corners_result plane_corner_passes [OF assms(3) ps assms(1)] by blast
qed

text \<open>Three pixels around a corner: the corner goes and its two sides, which touch diagonally, stay joined.\<close>

lemma corner_removal_keeps_lines_joined_witness:
  "fst (launch_thin_corners 2 2 ([1, 0, 1, 1, 0, 0, 0, 0], replicate 8 0)) = [1, 0, 0, 1, 0, 0, 0, 0] \<and>
   (linked (plane 2 2 [1, 0, 0, 1, 0, 0, 0, 0] 0) (0, 0) (1, 1) \<longleftrightarrow> linked (plane 2 2 [1, 0, 1, 1, 0, 0, 0, 0] 0) (0, 0) (1, 1))"
proof -
  have r: "fst (launch_thin_corners 2 2 ([1, 0, 1, 1, 0, 0, 0, 0], replicate 8 0)) = [1, 0, 0, 1, 0, 0, 0, 0]"
    by code_simp
  show ?thesis
    using corner_removal_keeps_lines_joined [of "[1, 0, 1, 1, 0, 0, 0, 0]" 2 2 0 "replicate 8 0" "(0, 0)" "(1, 1)"]
    unfolding r by (simp add: plane_def pic_def)
qed

end
