(* ===== verification/Component_Kernel.thy ===== *)
theory Component_Kernel
  imports Thinning_Kernel
begin

text \<open>
  \<open>src/vision_cpp/src/gpu_kernels.cu\<close>, connected components by lock-free union-find, on one plane (the planes of a launch share no
  cell). Every thread is a small machine whose steps are the single accesses to the shared arrays: loads, stores and the atomic
  operations. A schedule lists the threads in the order of their accesses, so any interleaving of a launch is a schedule. The
  areas stay below \<open>2 ^ 31\<close> and are natural numbers.
\<close>

section \<open>Find and union\<close>

text \<open>\<open>Load x\<close> reads \<open>p[x]\<close>, \<open>Load2 x px\<close> reads \<open>p[px]\<close>, \<open>Store x v\<close> is about to write \<open>p[x] = v\<close>.\<close>

datatype find_pc = Load nat | Load2 nat nat | Store nat nat

fun uf_find :: "nat list \<Rightarrow> find_pc \<Rightarrow> nat list \<times> (find_pc + nat)" where
  "uf_find p (Load x) = (p, if p ! x = x then Inr x else Inl (Load2 x (p ! x)))"
| "uf_find p (Load2 x px) = (p, Inl (if p ! px \<noteq> px then Store x (p ! px) else Load (p ! px)))"
| "uf_find p (Store x ppx) = (p[x := ppx], Inl (Load ppx))"

datatype union_pc = Find_A find_pc nat | Find_B nat find_pc | Cas nat nat

fun uf_union :: "nat list \<Rightarrow> union_pc \<Rightarrow> nat list \<times> union_pc option" where
  "uf_union p (Find_A f b) =
    (case uf_find p f of (p, Inl f) \<Rightarrow> (p, Some (Find_A f b)) | (p, Inr a) \<Rightarrow> (p, Some (Find_B a (Load b))))"
| "uf_union p (Find_B a f) =
    (case uf_find p f of
       (p, Inl f) \<Rightarrow> (p, Some (Find_B a f))
     | (p, Inr b) \<Rightarrow> (p, if a = b then None else if a < b then Some (Cas b a) else Some (Cas a b)))"
| "uf_union p (Cas a b) = (if p ! a = a then (p[a := b], None) else (p, Some (Find_A (Load a) b)))"

section \<open>The kernels\<close>

definition k_cc_init :: "int list \<Rightarrow> nat list \<times> (nat \<times> nat) list \<Rightarrow> nat list \<times> (nat \<times> nat) list" where
  "k_cc_init m st =
    (map (\<lambda>i. if m ! i \<noteq> 0 then i else fst st ! i) [0..<length m], map (\<lambda>i. if m ! i \<noteq> 0 then (0, 0) else snd st ! i) [0..<length m])"

definition merge_pairs :: "nat \<Rightarrow> int list \<Rightarrow> nat \<Rightarrow> (nat \<times> nat) list" where
  \<comment> \<open>the unions of the thread of pixel \<open>i\<close>\<close>
  "merge_pairs W m i =
    (let x = i mod W; y = i div W in
     if m ! i = 0 then []
     else (if x > 0 \<and> m ! (i - 1) \<noteq> 0 then [(i, i - 1)] else []) @
       (if y > 0 then
         (if x > 0 \<and> m ! (i - W - 1) \<noteq> 0 then [(i, i - W - 1)] else []) @
         (if m ! (i - W) \<noteq> 0 then [(i, i - W)] else []) @
         (if x < W - 1 \<and> m ! (i - W + 1) \<noteq> 0 then [(i, i - W + 1)] else [])
        else []))"

type_synonym merge_thread = "union_pc option \<times> (nat \<times> nat) list"

fun merge_access :: "nat list \<Rightarrow> merge_thread \<Rightarrow> nat list \<times> merge_thread" where
  "merge_access p (None, []) = (p, (None, []))"
| "merge_access p (None, (a, b) # ps) = (p, (Some (Find_A (Load a) b), ps))"
| "merge_access p (Some u, ps) = (case uf_union p u of (p, u) \<Rightarrow> (p, (u, ps)))"

definition k_cc_merge :: "nat list \<Rightarrow> nat list \<times> merge_thread list \<Rightarrow> nat list \<times> merge_thread list" where
  "k_cc_merge sched st =
    fold (\<lambda>t (p, ths). if t < length ths then (case merge_access p (ths ! t) of (p, th) \<Rightarrow> (p, ths[t := th])) else (p, ths)) sched st"

definition merge_start :: "nat \<Rightarrow> int list \<Rightarrow> merge_thread list" where
  "merge_start W m = map (\<lambda>i. (None, merge_pairs W m i)) [0..<length m]"

datatype stats_pc = S_Find find_pc | S_Flat nat | S_Area nat | S_Edge nat | S_Done

definition edge_pixel :: "nat \<Rightarrow> nat \<Rightarrow> int list \<Rightarrow> nat \<Rightarrow> bool" where
  \<comment> \<open>removed by a 3x3 erosion with neutral borders\<close>
  "edge_pixel W H m i =
    (let x = int (i mod W); y = int (i div W) in
     list_ex (\<lambda>dy. list_ex (\<lambda>dx. let yy = y + dy; xx = x + dx in
       \<not> (yy < 0 \<or> yy \<ge> int H \<or> xx < 0 \<or> xx \<ge> int W) \<and> m ! (nat yy * W + nat xx) = 0) [-1, 0, 1]) [-1, 0, 1])"

fun stats_access :: "bool \<Rightarrow> nat \<Rightarrow> nat list \<times> (nat \<times> nat) list \<Rightarrow> stats_pc \<Rightarrow> (nat list \<times> (nat \<times> nat) list) \<times> stats_pc" where
  "stats_access edge i (p, st) (S_Find f) =
    (case uf_find p f of (p, Inl f) \<Rightarrow> ((p, st), S_Find f) | (p, Inr r) \<Rightarrow> ((p, st), S_Flat r))"
| "stats_access edge i (p, st) (S_Flat r) = ((p[i := r], st), S_Area r)"
| "stats_access edge i (p, st) (S_Area r) =
    ((p, st[r := (fst (st ! r) + 1, snd (st ! r))]), if edge then S_Edge r else S_Done)"
| "stats_access edge i (p, st) (S_Edge r) = ((p, st[r := (fst (st ! r), snd (st ! r) + 1)]), S_Done)"
| "stats_access edge i (p, st) S_Done = ((p, st), S_Done)"

definition stats_start :: "int list \<Rightarrow> stats_pc list" where
  "stats_start m = map (\<lambda>i. if m ! i = 0 then S_Done else S_Find (Load i)) [0..<length m]"

definition k_cc_stats ::
  "nat \<Rightarrow> nat \<Rightarrow> int list \<Rightarrow> bool \<Rightarrow> nat list \<Rightarrow> (nat list \<times> (nat \<times> nat) list) \<times> stats_pc list
    \<Rightarrow> (nat list \<times> (nat \<times> nat) list) \<times> stats_pc list" where
  "k_cc_stats W H m perimeter sched st =
    fold (\<lambda>t (mem, ths). if t < length ths
      then (case stats_access (perimeter \<and> edge_pixel W H m t) t mem (ths ! t) of (mem, th) \<Rightarrow> (mem, ths[t := th]))
      else (mem, ths)) sched st"

definition launch_cc ::
  "nat \<Rightarrow> nat \<Rightarrow> bool \<Rightarrow> nat list \<Rightarrow> nat list \<Rightarrow> int list \<Rightarrow> nat list \<times> (nat \<times> nat) list \<Rightarrow> nat list \<times> (nat \<times> nat) list" where
  \<comment> \<open>a kernel starts when all threads of the previous one are done\<close>
  "launch_cc W H perimeter merge_sched stats_sched m st =
    (case k_cc_init m st of (parent, stats) \<Rightarrow>
     case k_cc_merge merge_sched (parent, merge_start W m) of (parent, _) \<Rightarrow>
     case k_cc_stats W H m perimeter stats_sched ((parent, stats), stats_start m) of (mem, _) \<Rightarrow> mem)"

definition k_cc_filter :: "int list \<Rightarrow> nat list \<times> (nat \<times> nat) list \<Rightarrow> nat \<Rightarrow> nat \<Rightarrow> int list" where
  "k_cc_filter m mem min_area min_perim =
    map (\<lambda>i. if m ! i \<noteq> 0 then
        (let s = snd mem ! (fst mem ! i) in if fst s \<ge> min_area \<and> snd s \<ge> min_perim then 1 else 0)
      else 0) [0..<length m]"

section \<open>Forests\<close>

text \<open>Links lead to smaller indices, so following them ends at the root of a pixel.\<close>

function root_of :: "nat list \<Rightarrow> nat \<Rightarrow> nat" where
  "root_of p x = (if p ! x < x then root_of p (p ! x) else x)"
  by auto
termination by (relation "measure snd") auto

declare root_of.simps [simp del]

definition forest :: "nat set \<Rightarrow> nat list \<Rightarrow> bool" where
  "forest F p \<longleftrightarrow> F \<subseteq> {..<length p} \<and> (\<forall>x \<in> F. p ! x \<le> x \<and> p ! x \<in> F)"

lemma root_of_le: "root_of p x \<le> x"
proof (induction p x rule: root_of.induct)
  case (1 p x)
  then show ?case by (subst root_of.simps) auto
qed

lemma root_of_root: "p ! x = x \<Longrightarrow> root_of p x = x"
  by (subst root_of.simps) simp

lemma root_of_parent: "forest F p \<Longrightarrow> x \<in> F \<Longrightarrow> root_of p (p ! x) = root_of p x"
  by (subst (2) root_of.simps) (auto simp: forest_def root_of_root le_less)

lemma root_of_is_root:
  assumes "forest F p"
  shows "x \<in> F \<Longrightarrow> root_of p x \<in> F \<and> p ! root_of p x = root_of p x"
proof (induction x rule: less_induct)
  case (less x)
  show ?case
  proof (cases "p ! x < x")
    case True
    then have "root_of p x = root_of p (p ! x)" by (subst root_of.simps) simp
    with less True assms show ?thesis by (simp add: forest_def)
  next
    case False
    with less.prems assms have "p ! x = x" by (auto simp: forest_def le_less)
    with less.prems show ?thesis by (simp add: root_of_root)
  qed
qed

text \<open>Writing a smaller node of the same tree over a link keeps every root; hanging a root under a smaller node joins two trees.\<close>

lemma relink_roots:
  assumes f: "forest F p" and x: "x \<in> F" and v: "v \<in> F" "v < x" "root_of p v = root_of p x"
  shows "forest F (p[x := v]) \<and> (\<forall>y \<in> F. root_of (p[x := v]) y = root_of p y)"
proof
  show f': "forest F (p[x := v])" using f x v by (auto simp: forest_def nth_list_update)
  have lx: "x < length p" using f x by (auto simp: forest_def)
  show "\<forall>y \<in> F. root_of (p[x := v]) y = root_of p y"
  proof
    fix y assume "y \<in> F"
    then show "root_of (p[x := v]) y = root_of p y"
    proof (induction y rule: less_induct)
      case (less y)
      let ?q = "p[x := v] ! y"
      have q: "?q \<in> F" "?q \<le> y" using f' less.prems by (auto simp: forest_def)
      have same: "root_of p ?q = root_of p y"
        using v(3) lx root_of_parent [OF f less.prems] by (cases "y = x") auto
      show ?case
      proof (cases "?q = y")
        case True
        then have "y \<noteq> x" using v(2) lx by auto
        with True show ?thesis by (simp add: root_of_root)
      next
        case False
        then have "?q < y" using q by simp
        from less.IH [OF this q(1)] root_of_parent [OF f' less.prems] same show ?thesis by simp
      qed
    qed
  qed
qed

lemma link_roots:
  assumes f: "forest F p" and a: "a \<in> F" "p ! a = a" and b: "b \<in> F" "b < a"
  shows "forest F (p[a := b]) \<and>
    (\<forall>y \<in> F. root_of (p[a := b]) y = (if root_of p y = a then root_of p b else root_of p y))"
proof
  show f': "forest F (p[a := b])" using f a b by (auto simp: forest_def nth_list_update)
  have la: "a < length p" using f a by (auto simp: forest_def)
  have ba: "root_of p b \<noteq> a" using root_of_le [of p b] b(2) by simp
  show "\<forall>y \<in> F. root_of (p[a := b]) y = (if root_of p y = a then root_of p b else root_of p y)"
  proof
    fix y assume "y \<in> F"
    then show "root_of (p[a := b]) y = (if root_of p y = a then root_of p b else root_of p y)"
    proof (induction y rule: less_induct)
      case (less y)
      show ?case
      proof (cases "y = a")
        case True
        have "root_of (p[a := b]) a = root_of (p[a := b]) b" using b(2) la by (subst root_of.simps) simp
        also have "\<dots> = root_of p b" using less.IH [of b] b True ba by simp
        finally show ?thesis using True a(2) by (simp add: root_of_root)
      next
        case False
        then have q: "p[a := b] ! y = p ! y" by simp
        have qF: "p ! y \<in> F" "p ! y \<le> y" using f less.prems by (auto simp: forest_def)
        show ?thesis
        proof (cases "p ! y = y")
          case True
          with q False show ?thesis by (simp add: root_of_root)
        next
          case nr: False
          with qF have "p ! y < y" by simp
          from less.IH [OF this qF(1)] root_of_parent [OF f less.prems] root_of_parent [OF f' less.prems] q show ?thesis by (simp split: if_splits)
        qed
      qed
    qed
  qed
qed

section \<open>What a thread may rely on\<close>

text \<open>The effect of any access: nodes of one tree stay in one tree, and a node that is not a root never becomes one again.\<close>

definition evolves :: "nat set \<Rightarrow> nat list \<Rightarrow> nat list \<Rightarrow> bool" where
  "evolves F p p' \<longleftrightarrow> forest F p' \<and> length p' = length p \<and>
     (\<forall>x \<in> F. \<forall>y \<in> F. root_of p x = root_of p y \<longrightarrow> root_of p' x = root_of p' y) \<and>
     (\<forall>x \<in> F. p ! x \<noteq> x \<longrightarrow> p' ! x \<noteq> x)"

lemma evolves_refl: "forest F p \<Longrightarrow> evolves F p p"
  by (simp add: evolves_def)

lemma evolves_forest: "evolves F p p' \<Longrightarrow> forest F p'"
  by (simp add: evolves_def)

lemma evolves_root_eq: "evolves F p p' \<Longrightarrow> x \<in> F \<Longrightarrow> y \<in> F \<Longrightarrow> root_of p x = root_of p y \<Longrightarrow> root_of p' x = root_of p' y"
  unfolding evolves_def by blast

text \<open>What the machine of a find knows about its argument \<open>u\<close>, and how far it still has to go.\<close>

fun find_ok :: "nat set \<Rightarrow> nat list \<Rightarrow> nat \<Rightarrow> find_pc \<Rightarrow> bool" where
  "find_ok F p u (Load x) \<longleftrightarrow> x \<in> F \<and> root_of p x = root_of p u"
| "find_ok F p u (Load2 x px) \<longleftrightarrow> x \<in> F \<and> px \<in> F \<and> px < x \<and> root_of p x = root_of p u \<and> root_of p px = root_of p u"
| "find_ok F p u (Store x v) \<longleftrightarrow> x \<in> F \<and> v \<in> F \<and> v < x \<and> root_of p x = root_of p u \<and> root_of p v = root_of p u"

fun find_level :: "nat list \<Rightarrow> find_pc \<Rightarrow> nat" where
  \<comment> \<open>a bound on the root that will be returned\<close>
  "find_level p (Load x) = (if p ! x = x then x else x - 1)"
| "find_level p (Load2 x px) = px"
| "find_level p (Store x v) = v"

fun find_phase :: "find_pc \<Rightarrow> nat" where
  "find_phase (Load x) = 3 * x + 2"
| "find_phase (Load2 x px) = 3 * x + 1"
| "find_phase (Store x v) = 3 * x"

lemma find_ok_evolves:
  assumes "evolves F p p'" "u \<in> F" "find_ok F p u f"
  shows "find_ok F p' u f"
proof -
  note key = evolves_root_eq [OF assms(1) _ assms(2)]
  show ?thesis using assms(3) by (cases f) (auto intro: key)
qed

lemma find_level_evolves: "evolves F p p' \<Longrightarrow> find_ok F p u f \<Longrightarrow> find_level p' f \<le> find_level p f"
  by (cases f) (auto simp: evolves_def)

definition find_head :: "find_pc \<Rightarrow> nat" where
  "find_head f = (case f of Load x \<Rightarrow> x | Load2 x px \<Rightarrow> x | Store x v \<Rightarrow> x)"

lemma find_phase_bound: "find_ok F p u f \<Longrightarrow> F \<subseteq> {..<n} \<Longrightarrow> find_phase f < 3 * n \<and> find_level p f < n"
  by (cases f) auto

lemma nonroot_write: "p ! y \<noteq> y \<Longrightarrow> v < x \<Longrightarrow> x < length p \<Longrightarrow> p[x := v] ! y \<noteq> y"
  by (cases "y = x") auto

lemma uf_find_ok:
  assumes f: "forest F p" and u: "u \<in> F" and ok: "find_ok F p u g" and st: "uf_find p g = (p', r)"
  shows "evolves F p p' \<and> (\<forall>y \<in> F. root_of p' y = root_of p y) \<and>
    (case r of
       Inl g' \<Rightarrow> find_ok F p' u g' \<and> find_level p' g' \<le> find_level p g \<and> find_phase g' < find_phase g
     | Inr x \<Rightarrow> x \<in> F \<and> p' ! x = x \<and> x = root_of p' u \<and> find_level p g = x)"
proof (cases g)
  case (Load x)
  with ok have x: "x \<in> F" "root_of p x = root_of p u" by simp_all
  with f have "p ! x \<noteq> x \<Longrightarrow> p ! x < x \<and> p ! x \<in> F" by (auto simp: forest_def le_less)
  moreover have "root_of p (p ! x) = root_of p u" using x root_of_parent [OF f] by simp
  moreover have "p ! x = x \<Longrightarrow> root_of p u = x" using x root_of_root [of p x] by simp
  ultimately show ?thesis using x Load st evolves_refl [OF f] by (auto split: if_splits)
next
  case (Load2 x px)
  with ok have x: "x \<in> F" "px \<in> F" "px < x" "root_of p x = root_of p u" "root_of p px = root_of p u" by simp_all
  have "p ! px \<in> F" "p ! px \<le> px" "root_of p (p ! px) = root_of p px" using f x(2) root_of_parent [OF f x(2)] by (auto simp: forest_def)
  with x Load2 st evolves_refl [OF f] show ?thesis by auto
next
  case (Store x v)
  with ok have x: "x \<in> F" "v \<in> F" "v < x" "root_of p x = root_of p u" "root_of p v = root_of p u" by simp_all
  then have same: "root_of p v = root_of p x" by simp
  note r = relink_roots [OF f x(1-3) same]
  have "p' = p[x := v]" "r = Inl (Load v)" using Store st by auto
  moreover have "evolves F p (p[x := v])"
    using r x f nonroot_write [of p _ v x] by (auto simp: evolves_def forest_def)
  ultimately show ?thesis using r x u Store by auto
qed

text \<open>A union of \<open>u\<close> and \<open>v\<close>: its two finds carry one tree each, in some order.\<close>

fun union_ok :: "nat set \<Rightarrow> nat list \<Rightarrow> nat \<Rightarrow> nat \<Rightarrow> union_pc \<Rightarrow> bool" where
  "union_ok F p u v (Find_A f b) \<longleftrightarrow> find_ok F p u f \<and> b \<in> F \<and> root_of p b = root_of p v"
| "union_ok F p u v (Find_B a f) \<longleftrightarrow> find_ok F p v f \<and> a \<in> F \<and> root_of p a = root_of p u"
| "union_ok F p u v (Cas a b) \<longleftrightarrow> a \<in> F \<and> b \<in> F \<and> b < a \<and> root_of p a = root_of p u \<and> root_of p b = root_of p v"

fun union_level :: "nat list \<Rightarrow> union_pc \<Rightarrow> nat" where
  "union_level p (Find_A f b) = find_level p f + b"
| "union_level p (Find_B a f) = a + find_level p f"
| "union_level p (Cas a b) = a + b"

fun union_phase :: "union_pc \<Rightarrow> nat" where
  "union_phase (Find_A f b) = find_phase f + 3 * b + 4"
| "union_phase (Find_B a f) = find_phase f + 1"
| "union_phase (Cas a b) = 0"

lemma union_ok_evolves:
  assumes "evolves F p p'" "u \<in> F" "v \<in> F" "union_ok F p u v c"
  shows "union_ok F p' u v c"
proof -
  have "x \<in> F \<Longrightarrow> root_of p x = root_of p w \<Longrightarrow> w \<in> F \<Longrightarrow> root_of p' x = root_of p' w" for x w
    using evolves_root_eq [OF assms(1)] .
  note key = this [OF _ _ assms(2)] this [OF _ _ assms(3)] find_ok_evolves [OF assms(1)]
  show ?thesis using assms(2-4) by (cases c) (auto intro: key)
qed

lemma union_level_evolves: "evolves F p p' \<Longrightarrow> union_ok F p u v c \<Longrightarrow> union_level p' c \<le> union_level p c"
  by (cases c) (auto intro: find_level_evolves)

lemma union_bounds:
  assumes "union_ok F p u v c" "F \<subseteq> {..<n}"
  shows "union_phase c < 6 * n + 2 \<and> union_level p c < 2 * n"
proof (cases c)
  case (Find_A f b)
  with assms have "find_phase f < 3 * n" "find_level p f < n" "b < n" using find_phase_bound [of F p u f n] by auto
  with Find_A show ?thesis by simp
next
  case (Find_B a f)
  with assms have "find_phase f < 3 * n" "find_level p f < n" "a < n" using find_phase_bound [of F p v f n] by auto
  with Find_B show ?thesis by simp
next
  case (Cas a b)
  with assms have "a < n" "b < n" by auto
  with Cas show ?thesis by simp
qed

text \<open>One access of a union: no tree is split, only the trees of \<open>u\<close> and \<open>v\<close> are joined, the machine gets closer to its end, and
  at its end \<open>u\<close> and \<open>v\<close> are in one tree.\<close>

definition joins_only :: "nat set \<Rightarrow> nat list \<Rightarrow> nat list \<Rightarrow> nat \<Rightarrow> nat \<Rightarrow> bool" where
  "joins_only F p p' u v \<longleftrightarrow> (\<forall>x \<in> F. \<forall>y \<in> F. root_of p' x = root_of p' y \<longrightarrow>
     root_of p x = root_of p y \<or> {root_of p x, root_of p y} = {root_of p u, root_of p v})"

lemma joins_only_same: "\<forall>y \<in> F. root_of p' y = root_of p y \<Longrightarrow> joins_only F p p' u v"
  by (simp add: joins_only_def)

definition union_next :: "nat set \<Rightarrow> nat list \<Rightarrow> nat list \<Rightarrow> nat \<Rightarrow> nat \<Rightarrow> union_pc \<Rightarrow> union_pc option \<Rightarrow> bool" where
  "union_next F p p' u v c r \<longleftrightarrow> (case r of
       None \<Rightarrow> root_of p' u = root_of p' v
     | Some c' \<Rightarrow> (union_ok F p' u v c' \<or> union_ok F p' v u c') \<and>
         (union_level p' c' < union_level p c \<or> union_level p' c' \<le> union_level p c \<and> union_phase c' < union_phase c))"

lemma uf_union_ok:
  assumes f: "forest F p" and uv: "u \<in> F" "v \<in> F" and ok: "union_ok F p u v c" and st: "uf_union p c = (p', r)"
  shows "evolves F p p' \<and> joins_only F p p' u v \<and> union_next F p p' u v c r"
proof (cases c)
  case (Find_A g b)
  obtain p1 r1 where g: "uf_find p g = (p1, r1)" by fastforce
  have ok': "find_ok F p u g" and b: "b \<in> F" "root_of p b = root_of p v" using ok Find_A by simp_all
  note n = uf_find_ok [OF f uv(1) ok' g]
  have b': "root_of p1 b = root_of p1 v" using n b uv by auto
  show ?thesis
  proof (cases r1)
    case (Inl g')
    with g Find_A st have "p' = p1" "r = Some (Find_A g' b)" by auto
    with n Inl b b' Find_A show ?thesis by (auto simp: union_next_def joins_only_same)
  next
    case (Inr a)
    with g Find_A st have "p' = p1" "r = Some (Find_B a (Load b))" by auto
    moreover have a: "a \<in> F" "p1 ! a = a" "a = root_of p1 u" "find_level p g = a" using n [unfolded Inr sum.case] by blast+
    moreover have "root_of p1 a = root_of p1 u" using root_of_root [OF a(2)] a(3) by simp
    ultimately show ?thesis using n b b' Find_A by (auto simp: union_next_def joins_only_same)
  qed
next
  case (Find_B a g)
  obtain p1 r1 where g: "uf_find p g = (p1, r1)" by fastforce
  have ok': "find_ok F p v g" and a: "a \<in> F" "root_of p a = root_of p u" using ok Find_B by simp_all
  note n = uf_find_ok [OF f uv(2) ok' g]
  have a': "root_of p1 a = root_of p1 u" using n a uv by auto
  show ?thesis
  proof (cases r1)
    case (Inl g')
    with g Find_B st have "p' = p1" "r = Some (Find_B a g')" by auto
    with n Inl a a' Find_B show ?thesis by (auto simp: union_next_def joins_only_same)
  next
    case (Inr b)
    have b: "b \<in> F" "p1 ! b = b" "b = root_of p1 v" "find_level p g = b" using n [unfolded Inr sum.case] by blast+
    have rb: "root_of p1 b = root_of p1 v" using root_of_root [OF b(2)] b(3) by simp
    from Inr g Find_B st have "p' = p1" "r = (if a = b then None else if a < b then Some (Cas b a) else Some (Cas a b))" by auto
    with n a a' b(1,4) rb Find_B show ?thesis by (auto simp: union_next_def joins_only_same)
  qed
next
  case (Cas a b)
  with ok have ab: "a \<in> F" "b \<in> F" "b < a" "root_of p a = root_of p u" "root_of p b = root_of p v" by simp_all
  show ?thesis
  proof (cases "p ! a = a")
    case True
    note l = link_roots [OF f ab(1) True ab(2,3)]
    have ra: "root_of p a = a" using True by (rule root_of_root)
    have p': "p' = p[a := b]" "r = None" using st Cas True by auto
    have "evolves F p p'"
      using l f ab nonroot_write [of p _ b a] unfolding p' by (auto simp: evolves_def forest_def)
    moreover have "joins_only F p p' u v"
      using l ra ab unfolding p' joins_only_def by (auto split: if_splits)
    moreover have "root_of p' u = root_of p' v"
      using l ra ab uv root_of_le [of p b] unfolding p' by auto
    ultimately show ?thesis using p' by (simp add: union_next_def)
  next
    case False
    with st Cas have "p' = p" "r = Some (Find_A (Load a) b)" by auto
    with False ab Cas evolves_refl [OF f] show ?thesis by (auto simp: union_next_def joins_only_def)
  qed
qed

section \<open>Threads under interference\<close>

text \<open>
  The contract shared by the kernels: every access of a thread keeps the invariant of the memory and changes it only as the other
  threads rely on; a thread's own assertion survives such changes, and its cost never grows by them and falls with each of its own
  accesses. Then no schedule can block a thread: as many turns as its cost are enough.
\<close>

locale thread_system =
  fixes access :: "nat \<Rightarrow> 'm \<Rightarrow> 't \<Rightarrow> 'm \<times> 't"
    and inv :: "'m \<Rightarrow> bool"
    and ok :: "'m \<Rightarrow> nat \<Rightarrow> 't \<Rightarrow> bool"
    and cost :: "'m \<Rightarrow> 't \<Rightarrow> nat"
    and rely :: "'m \<Rightarrow> 'm \<Rightarrow> bool"
  assumes guarantee: "inv m \<Longrightarrow> ok m t th \<Longrightarrow> access t m th = (m', th') \<Longrightarrow>
      inv m' \<and> rely m m' \<and> ok m' t th' \<and> (cost m' th' < cost m th \<or> cost m th = 0 \<and> cost m' th' = 0)"
    and stable: "inv m \<Longrightarrow> rely m m' \<Longrightarrow> ok m t th \<Longrightarrow> ok m' t th \<and> cost m' th \<le> cost m th"
begin

definition turn :: "nat \<Rightarrow> 'm \<times> 't list \<Rightarrow> 'm \<times> 't list" where
  "turn t st = (case st of (m, ths) \<Rightarrow>
     if t < length ths then (case access t m (ths ! t) of (m, th) \<Rightarrow> (m, ths[t := th])) else (m, ths))"

definition all_ok :: "'m \<times> 't list \<Rightarrow> bool" where
  "all_ok st \<longleftrightarrow> inv (fst st) \<and> (\<forall>t < length (snd st). ok (fst st) t (snd st ! t))"

definition left :: "'m \<times> 't list \<Rightarrow> nat \<Rightarrow> nat" where
  "left st t = (if t < length (snd st) then cost (fst st) (snd st ! t) else 0)"

lemma turn_ok:
  assumes "all_ok st"
  shows "all_ok (turn t st) \<and> length (snd (turn t st)) = length (snd st) \<and>
    (\<forall>s. left (turn t st) s \<le> left st s) \<and> (left (turn t st) t < left st t \<or> left (turn t st) t = 0)"
proof (cases "t < length (snd st)")
  case True
  obtain m ths where st: "st = (m, ths)" by (cases st)
  obtain m' th' where a: "access t m (ths ! t) = (m', th')" by fastforce
  from True assms have i: "inv m" "ok m t (ths ! t)" by (simp_all add: all_ok_def st)
  note g = guarantee [OF i a]
  have other: "ok m' s (ths ! s) \<and> cost m' (ths ! s) \<le> cost m (ths ! s)" if "s < length ths" for s
    using stable [OF i(1), of m' s "ths ! s"] g assms that by (simp add: all_ok_def st)
  have "turn t st = (m', ths[t := th'])" using True by (simp add: turn_def st a)
  with g other True show ?thesis by (auto simp: all_ok_def left_def st nth_list_update)
next
  case False
  then have "turn t st = st" by (cases st) (simp add: turn_def)
  with assms False show ?thesis by (simp add: left_def)
qed

lemma schedule_ok:
  assumes "all_ok st"
  shows "all_ok (fold turn sched st) \<and> length (snd (fold turn sched st)) = length (snd st) \<and>
    left (fold turn sched st) t \<le> left st t - count_list sched t"
  using assms
proof (induction sched arbitrary: st)
  case (Cons s sched)
  note o = turn_ok [OF Cons.prems, of s]
  with Cons.IH [of "turn s st"] have IH: "all_ok (fold turn sched (turn s st))" "length (snd (fold turn sched (turn s st))) = length (snd st)"
    "left (fold turn sched (turn s st)) t \<le> left (turn s st) t - count_list sched t" by auto
  from o have "left (turn s st) t \<le> left st t - (if s = t then 1 else 0)" by (cases "s = t") (auto dest: spec [of _ t])
  with IH show ?case by (cases "s = t"; simp; linarith)
qed simp

lemma schedule_finishes:
  assumes "all_ok st" "\<And>t. t < length (snd st) \<Longrightarrow> left st t \<le> count_list sched t"
  shows "all_ok (fold turn sched st) \<and> (\<forall>t. left (fold turn sched st) t = 0)"
proof -
  have "left (fold turn sched st) t = 0" for t
    using schedule_ok [OF assms(1), of sched t] assms(2) [of t] by (cases "t < length (snd st)") (auto simp: left_def)
  with schedule_ok [OF assms(1)] show ?thesis by blast
qed

end

section \<open>Pixels and their neighbours\<close>

definition fg :: "int list \<Rightarrow> nat set" where
  "fg m = {i. i < length m \<and> m ! i \<noteq> 0}"

definition coord :: "nat \<Rightarrow> nat \<Rightarrow> int \<times> int" where
  "coord W i = (int (i mod W), int (i div W))"

definition joined :: "nat \<Rightarrow> nat \<Rightarrow> int list \<Rightarrow> nat \<Rightarrow> nat \<Rightarrow> bool" where
  \<comment> \<open>a chain of set pixels that touch each other leads from one to the other\<close>
  "joined W H m i j \<longleftrightarrow> linked (pic W H m 0) (coord W i) (coord W j)"

lemma pixel_coords:
  assumes "i < W * (H :: nat)"
  shows "i mod W < W" "i div W < H" "i = i div W * W + i mod W" "0 < W"
proof -
  show "0 < W" using assms by (auto intro: gr0I)
  then show "i mod W < W" "i div W < H" using assms by (simp_all add: less_mult_imp_div_less mult.commute)
  show "i = i div W * W + i mod W" by simp
qed

lemma pic_coord: "i < W * H \<Longrightarrow> pic W H m 0 (fst (coord W i)) (snd (coord W i)) = m ! i"
  using pixel_coords [of i W H] by (simp add: pic_def coord_def)

lemma pic_pixel:
  assumes "pic W H m 0 x y \<noteq> 0" "length m = W * H"
  obtains i where "i \<in> fg m" "coord W i = (x, y)"
proof -
  have xy: "0 \<le> x" "x < int W" "0 \<le> y" "y < int H" and nz: "m ! (nat y * W + nat x) \<noteq> 0"
    using assms(1) by (auto simp: pic_def split: if_splits)
  have "nat x < W" "nat y < H" using xy by auto
  note c = cell_coords [OF this, of _ 0, simplified, OF refl]
  show thesis
    by (rule that [of "nat y * W + nat x"]) (use nz c xy assms(2) in \<open>auto simp: fg_def coord_def\<close>)
qed

lemma pixel_index:
  fixes x y W H :: nat
  assumes "x < W" "y < H" "i = y * W + x"
  shows "i < W * H" "i mod W = x" "i div W = y" "coord W i = (int x, int y)"
  using cell_coords [OF assms(1,2), of i 0] assms by (simp_all add: coord_def)

text \<open>The unions of a thread are exactly the pairs of set pixels that touch, each pair once, at the later pixel.\<close>

definition before :: "nat \<times> nat \<Rightarrow> nat \<times> nat \<Rightarrow> bool" where
  \<comment> \<open>the neighbour comes first in raster order\<close>
  "before q p \<longleftrightarrow> (case (q, p) of ((x', y'), (x, y)) \<Rightarrow>
     y' = y \<and> x = x' + 1 \<or> y = y' + 1 \<and> (x' = x \<or> x = x' + 1 \<or> x' = x + 1))"

lemma in_guarded_list: "q \<in> set (if b then rs else []) \<longleftrightarrow> b \<and> q \<in> set rs"
  by simp

lemma merge_pairs_iff:
  assumes xy: "x < W" "y < H" "i = y * W + x" and i: "m ! i \<noteq> 0"
  shows "(a, j) \<in> set (merge_pairs W m i) \<longleftrightarrow>
    a = i \<and> (\<exists>x' y'. x' < W \<and> before (x', y') (x, y) \<and> j = y' * W + x' \<and> m ! j \<noteq> 0)"
proof -
  note c = pixel_index [OF xy]
  have left: "i - 1 = y * W + (x - 1)" if "0 < x" unfolding xy(3) using that by simp
  have up: "i - W = (y - 1) * W + x" if "0 < y" unfolding xy(3) using that by (cases y) simp_all
  have ul: "i - W - 1 = (y - 1) * W + (x - 1)" if "0 < x" "0 < y" using up that by simp
  have ur: "i - W + 1 = (y - 1) * W + (x + 1)" if "0 < y" using up that by simp
  have "(a, j) \<in> set (merge_pairs W m i) \<longleftrightarrow> a = i \<and>
    (0 < x \<and> j = i - 1 \<and> m ! j \<noteq> 0 \<or> 0 < y \<and> 0 < x \<and> j = i - W - 1 \<and> m ! j \<noteq> 0 \<or> 0 < y \<and> j = i - W \<and> m ! j \<noteq> 0 \<or>
     0 < y \<and> x < W - 1 \<and> j = i - W + 1 \<and> m ! j \<noteq> 0)"
    unfolding merge_pairs_def Let_def c(2,3) if_not_P [OF i] set_append Un_iff in_guarded_list list.set insert_iff empty_iff prod.inject by blast
  also have "\<dots> \<longleftrightarrow> a = i \<and> (\<exists>x' y'. x' < W \<and> before (x', y') (x, y) \<and> j = y' * W + x' \<and> m ! j \<noteq> 0)" (is "?l \<longleftrightarrow> ?r")
  proof
    assume ?l
    then consider "a = i" "0 < x" "j = y * W + (x - 1)" "m ! j \<noteq> 0" | "a = i" "0 < y" "0 < x" "j = (y - 1) * W + (x - 1)" "m ! j \<noteq> 0"
      | "a = i" "0 < y" "j = (y - 1) * W + x" "m ! j \<noteq> 0" | "a = i" "0 < y" "x < W - 1" "j = (y - 1) * W + (x + 1)" "m ! j \<noteq> 0"
      using left up ul ur by metis
    then show ?r
    proof cases
      case 1
      then show ?thesis using xy(1) by (intro conjI exI [of _ "x - 1"] exI [of _ y]) (auto simp: before_def)
    next
      case 2
      then show ?thesis using xy(1) by (intro conjI exI [of _ "x - 1"] exI [of _ "y - 1"]) (auto simp: before_def)
    next
      case 3
      then show ?thesis using xy(1) by (intro conjI exI [of _ x] exI [of _ "y - 1"]) (auto simp: before_def)
    next
      case 4
      then show ?thesis by (intro conjI exI [of _ "x + 1"] exI [of _ "y - 1"]) (auto simp: before_def)
    qed
  next
    assume ?r
    then obtain x' y' where q: "a = i" "x' < W" "before (x', y') (x, y)" "j = y' * W + x'" "m ! j \<noteq> 0" by blast
    from q(3) consider "y' = y" "x = x' + 1" | "y = y' + 1" "x' = x" | "y = y' + 1" "x = x' + 1" | "y = y' + 1" "x' = x + 1"
      by (auto simp: before_def)
    then show ?l
    proof cases
      case 1
      with q left show ?thesis by simp
    next
      case 2
      with q up show ?thesis by simp
    next
      case 3
      with q ul show ?thesis by simp
    next
      case 4
      with q(2) have "x < W - 1" by simp
      with 4 q ur show ?thesis by simp
    qed
  qed
  finally show ?thesis .
qed

lemma pair_touches:
  assumes len: "length m = W * H" and t: "t < length m" and pr: "(u, v) \<in> set (merge_pairs W m t)"
  shows "u \<in> fg m \<and> v \<in> fg m \<and> touch (pic W H m 0) (coord W u) (coord W v)"
proof -
  have t': "t < W * H" using t len by simp
  define x y where "x = t mod W" and "y = t div W"
  note c = pixel_coords [OF t', folded x_def y_def]
  have nz: "m ! t \<noteq> 0" using pr by (auto simp: merge_pairs_def)
  from merge_pairs_iff [where m = m, OF c(1-3) nz] pr obtain x' y' where
    v: "u = t" "x' < W" "before (x', y') (x, y)" "v = y' * W + x'" "m ! v \<noteq> 0" by blast
  have "y' < H" using v(3) c(2) by (auto simp: before_def)
  note cv = pixel_index [OF v(2) this v(4)]
  have near: "\<bar>int x - int x'\<bar> \<le> 1" "\<bar>int y - int y'\<bar> \<le> 1" using v(3) by (auto simp: before_def)
  have cu: "coord W t = (int x, int y)" by (simp add: coord_def x_def y_def)
  have "pic W H m 0 (int x) (int y) \<noteq> 0" "pic W H m 0 (int x') (int y') \<noteq> 0"
    using pic_coord [OF t', of m] pic_coord [OF cv(1), of m] nz v(5) by (simp_all add: cu cv(4))
  with near have "touch (pic W H m 0) (coord W u) (coord W v)" unfolding v(1) cu cv(4) touch_def by simp
  moreover have "u \<in> fg m" "v \<in> fg m" using t' nz cv(1) v(1,5) len by (simp_all add: fg_def)
  ultimately show ?thesis by blast
qed

lemma touching_pair:
  assumes len: "length m = W * H" and uv: "u \<in> fg m" "v \<in> fg m" "u \<noteq> v" and t: "touch (pic W H m 0) (coord W u) (coord W v)"
  shows "(u, v) \<in> set (merge_pairs W m u) \<or> (v, u) \<in> set (merge_pairs W m v)"
proof -
  have b: "u < W * H" "v < W * H" "m ! u \<noteq> 0" "m ! v \<noteq> 0" using uv len by (simp_all add: fg_def)
  define x y x' y' where "x = u mod W" and "y = u div W" and "x' = v mod W" and "y' = v div W"
  note cu = pixel_coords [OF b(1), folded x_def y_def] and cv = pixel_coords [OF b(2), folded x'_def y'_def]
  have near: "\<bar>int x - int x'\<bar> \<le> 1" "\<bar>int y - int y'\<bar> \<le> 1"
    using t by (simp_all add: touch_def coord_def x_def y_def x'_def y'_def)
  have "x \<noteq> x' \<or> y \<noteq> y'"
  proof (rule ccontr)
    assume "\<not> (x \<noteq> x' \<or> y \<noteq> y')"
    then have "y * W + x = y' * W + x'" by simp
    with cu(3) cv(3) uv(3) show False by simp
  qed
  moreover have "x = x' \<or> x = x' + 1 \<or> x' = x + 1" "y = y' \<or> y = y' + 1 \<or> y' = y + 1" using near by arith+
  ultimately have "before (x', y') (x, y) \<or> before (x, y) (x', y')" unfolding before_def prod.case by blast
  then show ?thesis
    using merge_pairs_iff [where m = m, OF cu(1-3) b(3), of u v] merge_pairs_iff [where m = m, OF cv(1-3) b(4), of v u]
      cu(1,3) cv(1,3) b(3,4) by blast
qed

section \<open>The merge kernel\<close>

definition merge_inv :: "nat \<Rightarrow> nat \<Rightarrow> int list \<Rightarrow> nat list \<Rightarrow> bool" where
  "merge_inv W H m p \<longleftrightarrow> length m = W * H \<and> length p = W * H \<and> forest (fg m) p \<and>
     (\<forall>x \<in> fg m. \<forall>y \<in> fg m. root_of p x = root_of p y \<longrightarrow> joined W H m x y)"

definition merge_rely :: "int list \<Rightarrow> nat list \<Rightarrow> nat list \<Rightarrow> bool" where
  "merge_rely m p p' \<longleftrightarrow> evolves (fg m) p p'"

definition merge_ok :: "nat \<Rightarrow> int list \<Rightarrow> nat list \<Rightarrow> nat \<Rightarrow> merge_thread \<Rightarrow> bool" where
  \<comment> \<open>the unions before the current one have joined their trees for good\<close>
  "merge_ok W m p t th \<longleftrightarrow> t < length m \<and>
     (\<exists>dn. (case fst th of
         None \<Rightarrow> merge_pairs W m t = dn @ snd th
       | Some c \<Rightarrow> \<exists>u v. merge_pairs W m t = dn @ (u, v) # snd th \<and> (union_ok (fg m) p u v c \<or> union_ok (fg m) p v u c)) \<and>
       (\<forall>(a, b) \<in> set dn. root_of p a = root_of p b))"

definition union_cost :: "nat \<Rightarrow> nat list \<Rightarrow> union_pc \<Rightarrow> nat" where
  "union_cost n p c = union_level p c * (6 * n + 2) + union_phase c + 1"

definition merge_cost :: "nat \<Rightarrow> nat list \<Rightarrow> merge_thread \<Rightarrow> nat" where
  "merge_cost n p th = (case fst th of None \<Rightarrow> 0 | Some c \<Rightarrow> union_cost n p c) + length (snd th) * (2 * n * (6 * n + 2) + 1)"

lemma joined_touch: "touch (pic W H m 0) (coord W u) (coord W v) \<Longrightarrow> joined W H m u v"
  by (auto simp: joined_def linked_def)

lemma joined_trans: "joined W H m a b \<Longrightarrow> joined W H m b c \<Longrightarrow> joined W H m a c"
  unfolding joined_def linked_def by (rule rtranclp_trans)

lemma linked_sym: "linked f a b \<Longrightarrow> linked f b a"
  unfolding linked_def by (rule sympD [OF symp_rtranclp]) (auto simp: symp_def touch_def abs_minus_commute)

lemma joined_sym: "joined W H m a b \<Longrightarrow> joined W H m b a"
  unfolding joined_def by (rule linked_sym)

lemma merge_inv_joins:
  assumes inv: "merge_inv W H m p" and ev: "evolves (fg m) p p'" and j: "joins_only (fg m) p p' u v"
    and uv: "u \<in> fg m" "v \<in> fg m" "joined W H m u v"
  shows "merge_inv W H m p'"
proof -
  have same: "joined W H m x y" if "x \<in> fg m" "y \<in> fg m" "root_of p x = root_of p y" for x y
    using inv that by (simp add: merge_inv_def)
  have j': "joined W H m x y" if xy: "x \<in> fg m" "y \<in> fg m" "root_of p' x = root_of p' y" for x y
  proof -
    from j xy have "root_of p x = root_of p y \<or> root_of p x = root_of p u \<and> root_of p y = root_of p v \<or>
        root_of p x = root_of p v \<and> root_of p y = root_of p u"
      unfolding joins_only_def doubleton_eq_iff by blast
    then show ?thesis
    proof (elim disjE conjE)
      assume "root_of p x = root_of p y"
      then show ?thesis by (rule same [OF xy(1,2)])
    next
      assume "root_of p x = root_of p u" "root_of p y = root_of p v"
      then have "joined W H m x u" "joined W H m v y" using same xy uv joined_sym by simp_all
      with uv(3) show ?thesis by (blast intro: joined_trans)
    next
      assume "root_of p x = root_of p v" "root_of p y = root_of p u"
      then have "joined W H m x v" "joined W H m u y" using same xy uv joined_sym by simp_all
      with joined_sym [OF uv(3)] show ?thesis by (blast intro: joined_trans)
    qed
  qed
  have "length p' = length p" "forest (fg m) p'" using ev by (simp_all add: evolves_def)
  with inv j' show ?thesis unfolding merge_inv_def by metis
qed

lemma merge_ok_evolves:
  assumes len: "length m = W * H" and ev: "evolves (fg m) p p'" and ok: "merge_ok W m p t th"
  shows "merge_ok W m p' t th \<and> merge_cost (W * H) p' th \<le> merge_cost (W * H) p th"
proof -
  from ok have t: "t < length m" by (simp add: merge_ok_def)
  have pr: "u \<in> fg m \<and> v \<in> fg m" if "(u, v) \<in> set (merge_pairs W m t)" for u v using pair_touches [OF len t that] by blast
  from ok obtain dn where dn: "\<forall>(a, b) \<in> set dn. root_of p a = root_of p b"
    and c: "case fst th of None \<Rightarrow> merge_pairs W m t = dn @ snd th
       | Some c \<Rightarrow> \<exists>u v. merge_pairs W m t = dn @ (u, v) # snd th \<and> (union_ok (fg m) p u v c \<or> union_ok (fg m) p v u c)"
    unfolding merge_ok_def by blast
  have "set dn \<subseteq> set (merge_pairs W m t)" using c by (auto split: option.splits)
  with pr have dnF: "(a, b) \<in> set dn \<Longrightarrow> a \<in> fg m \<and> b \<in> fg m" for a b by blast
  with dn evolves_root_eq [OF ev] have dn': "\<forall>(a, b) \<in> set dn. root_of p' a = root_of p' b" by blast
  show ?thesis
  proof (cases "fst th")
    case None
    with c dn' t show ?thesis by (auto simp: merge_ok_def merge_cost_def)
  next
    case (Some d)
    with c obtain u v where uv: "merge_pairs W m t = dn @ (u, v) # snd th" "union_ok (fg m) p u v d \<or> union_ok (fg m) p v u d" by auto
    have F: "u \<in> fg m" "v \<in> fg m" using pr [of u v] uv(1) by simp_all
    have "union_ok (fg m) p' u v d \<or> union_ok (fg m) p' v u d" using uv(2) F union_ok_evolves [OF ev] by blast
    moreover have "union_level p' d \<le> union_level p d" using uv(2) union_level_evolves [OF ev] by blast
    then have "union_cost (W * H) p' d \<le> union_cost (W * H) p d" unfolding union_cost_def by (intro add_mono mult_le_mono1) simp_all
    ultimately show ?thesis using Some uv(1) dn' t by (auto simp: merge_ok_def merge_cost_def)
  qed
qed

lemma level_phase_less:
  fixes K :: nat
  assumes "l' < l \<or> l' \<le> l \<and> f' < f" "f' < K"
  shows "l' * K + f' < l * K + f"
proof (cases "l' < l")
  case True
  then have "Suc l' * K \<le> l * K" by (intro mult_le_mono1) simp
  with assms(2) show ?thesis by simp
next
  case False
  with assms(1) have "l' \<le> l" "f' < f" by auto
  then have "l' * K \<le> l * K" by (intro mult_le_mono1)
  with \<open>f' < f\<close> show ?thesis by linarith
qed

lemma union_cost_le:
  assumes "union_phase c < 6 * n + 2 \<and> union_level p c < 2 * n"
  shows "union_cost n p c \<le> 2 * n * (6 * n + 2)"
proof -
  have "union_level p c * (6 * n + 2) + union_phase c < 2 * n * (6 * n + 2) + 0"
    by (rule level_phase_less) (use assms in auto)
  then show ?thesis by (simp add: union_cost_def)
qed

lemma merge_access_step:
  assumes inv: "merge_inv W H m p" and ok: "merge_ok W m p t th" and st: "merge_access p th = (p', th')"
  shows "merge_inv W H m p' \<and> merge_rely m p p' \<and> merge_ok W m p' t th' \<and>
    (merge_cost (W * H) p' th' < merge_cost (W * H) p th \<or> merge_cost (W * H) p th = 0 \<and> merge_cost (W * H) p' th' = 0)"
proof -
  let ?n = "W * H"
  have len: "length m = ?n" and f: "forest (fg m) p" and refl: "merge_rely m p p"
    using inv evolves_refl by (auto simp: merge_inv_def merge_rely_def)
  have bnd: "fg m \<subseteq> {..<?n}" using len by (auto simp: fg_def)
  from ok have t: "t < length m" by (simp add: merge_ok_def)
  note touches = pair_touches [OF len t]
  obtain c ps where th: "th = (c, ps)" by (cases th)
  show ?thesis
  proof (cases c)
    case None
    show ?thesis
    proof (cases ps)
      case Nil
      with th None st have "p' = p" "th' = th" by auto
      with th None Nil inv ok refl show ?thesis by (simp add: merge_cost_def)
    next
      case (Cons pr ps')
      obtain u v where pr: "pr = (u, v)" by (cases pr)
      from st th None Cons pr have st': "p' = p" "th' = (Some (Find_A (Load u) v), ps')" by auto
      from ok th None Cons pr obtain dn where dn: "merge_pairs W m t = dn @ (u, v) # ps'" "\<forall>(a, b) \<in> set dn. root_of p a = root_of p b"
        unfolding merge_ok_def by auto
      then have uv: "u \<in> fg m" "v \<in> fg m" using touches [of u v] by simp_all
      then have u_ok: "union_ok (fg m) p u v (Find_A (Load u) v)" by simp
      have "union_cost ?n p (Find_A (Load u) v) \<le> 2 * ?n * (6 * ?n + 2)"
        using union_bounds [OF u_ok bnd] by (rule union_cost_le)
      with st' th None Cons have "merge_cost ?n p' th' < merge_cost ?n p th" by (simp add: merge_cost_def)
      moreover have "merge_ok W m p t th'" using dn u_ok t unfolding merge_ok_def st'(2) by auto
      ultimately show ?thesis using st'(1) inv refl by simp
    qed
  next
    case (Some d)
    obtain r where r: "uf_union p d = (p', r)" "th' = (r, ps)" using st th Some by (auto split: prod.splits)
    from ok th Some obtain dn u v where dn: "merge_pairs W m t = dn @ (u, v) # ps" "\<forall>(a, b) \<in> set dn. root_of p a = root_of p b"
      and d: "union_ok (fg m) p u v d \<or> union_ok (fg m) p v u d" unfolding merge_ok_def by auto
    have uv: "u \<in> fg m" "v \<in> fg m" "joined W H m u v" "joined W H m v u"
      using touches [of u v] dn(1) joined_touch joined_sym by simp_all
    obtain a b where ab: "(a, b) = (u, v) \<or> (a, b) = (v, u)" and dab: "union_ok (fg m) p a b d" using d by blast
    then have F: "a \<in> fg m" "b \<in> fg m" "joined W H m a b" using uv by auto
    note n = uf_union_ok [OF f F(1,2) dab r(1)]
    have ev: "evolves (fg m) p p'" using n by blast
    have inv': "merge_inv W H m p'" using merge_inv_joins [OF inv ev _ F] n by blast
    have dnF: "set dn \<subseteq> set (merge_pairs W m t)" using dn(1) by auto
    have dn': "\<forall>(a, b) \<in> set dn. root_of p' a = root_of p' b"
      using dn(2) dnF touches evolves_root_eq [OF ev] by blast
    show ?thesis
    proof (cases r)
      case None
      with n have "root_of p' a = root_of p' b" by (simp add: union_next_def)
      then have "\<forall>(a, b) \<in> set (dn @ [(u, v)]). root_of p' a = root_of p' b" using dn' ab by auto
      moreover have "merge_pairs W m t = (dn @ [(u, v)]) @ ps" using dn(1) by simp
      ultimately have "merge_ok W m p' t th'" unfolding merge_ok_def r(2) None
        using t by (intro conjI exI [of _ "dn @ [(u, v)]"]) simp_all
      moreover have "merge_cost ?n p' th' < merge_cost ?n p th" using r(2) None th Some by (simp add: merge_cost_def union_cost_def)
      ultimately show ?thesis using inv' ev by (simp add: merge_rely_def)
    next
      case (Some d')
      with n have d': "union_ok (fg m) p' a b d' \<or> union_ok (fg m) p' b a d'"
        and less: "union_level p' d' < union_level p d \<or> union_level p' d' \<le> union_level p d \<and> union_phase d' < union_phase d"
        by (simp_all add: union_next_def)
      have "union_phase d' < 6 * ?n + 2" using d' union_bounds [OF _ bnd] by blast
      from level_phase_less [OF less this] have "merge_cost ?n p' th' < merge_cost ?n p th"
        using r(2) Some th \<open>c = Some d\<close> by (simp add: merge_cost_def union_cost_def)
      moreover have "merge_ok W m p' t th'" using dn(1) dn' d' ab t unfolding merge_ok_def r(2) Some by auto
      ultimately show ?thesis using inv' ev by (simp add: merge_rely_def)
    qed
  qed
qed

interpretation merging: thread_system "\<lambda>t. merge_access" "merge_inv W H m" "merge_ok W m" "merge_cost (W * H)" "merge_rely m" for W H m
proof
  show "merge_inv W H m p \<Longrightarrow> merge_ok W m p t th \<Longrightarrow> merge_access p th = (p', th') \<Longrightarrow>
      merge_inv W H m p' \<and> merge_rely m p p' \<and> merge_ok W m p' t th' \<and>
      (merge_cost (W * H) p' th' < merge_cost (W * H) p th \<or> merge_cost (W * H) p th = 0 \<and> merge_cost (W * H) p' th' = 0)"
    for p t th p' th' by (rule merge_access_step)
  show "merge_inv W H m p \<Longrightarrow> merge_rely m p p' \<Longrightarrow> merge_ok W m p t th \<Longrightarrow>
      merge_ok W m p' t th \<and> merge_cost (W * H) p' th \<le> merge_cost (W * H) p th"
    for p p' t th using merge_ok_evolves [of m W H p p' t th] by (simp add: merge_inv_def merge_rely_def)
qed

lemma k_cc_merge_turns: "k_cc_merge sched st = fold merging.turn sched st"
  unfolding k_cc_merge_def merging.turn_def by (rule arg_cong [where f = "\<lambda>g. fold g sched st"]) (auto simp: fun_eq_iff)

definition merge_turns :: "nat \<Rightarrow> nat" where
  \<comment> \<open>accesses a thread needs at most, on a plane of \<open>n\<close> pixels\<close>
  "merge_turns n = 4 * (2 * n * (6 * n + 2) + 1)"

definition fair :: "nat \<Rightarrow> nat \<Rightarrow> nat list \<Rightarrow> bool" where
  \<comment> \<open>each of \<open>n\<close> threads gets \<open>k\<close> turns\<close>
  "fair n k sched \<longleftrightarrow> list_all (\<lambda>t. k \<le> count_list sched t) [0..<n]"

lemma fair_count: "fair n k sched \<Longrightarrow> t < n \<Longrightarrow> k \<le> count_list sched t"
  by (simp add: fair_def list_all_iff)

lemma length_merge_pairs: "length (merge_pairs W m i) \<le> 4"
  by (simp add: merge_pairs_def Let_def)

lemma merging_start:
  assumes len: "length m = W * H" and p: "p = fst (k_cc_init m st)"
  shows "merging.all_ok W H m (p, merge_start W m) \<and> (\<forall>t. merging.left W H (p, merge_start W m) t \<le> merge_turns (W * H))"
proof -
  have pi: "p ! i = i" if "i \<in> fg m" for i using that by (simp add: p k_cc_init_def fg_def)
  then have roots: "root_of p x = x" if "x \<in> fg m" for x using that by (simp add: root_of_root)
  have lp: "length p = length m" by (simp add: p k_cc_init_def)
  have "forest (fg m) p" using pi lp by (auto simp: forest_def fg_def)
  with roots lp len have "merge_inv W H m p" by (simp add: merge_inv_def joined_def linked_def)
  moreover have "merge_ok W m p t (None, merge_pairs W m t)" if "t < length m" for t
    unfolding merge_ok_def using that by (intro conjI exI [of _ "[]"]) simp_all
  moreover have "merge_cost (W * H) p (None, merge_pairs W m t) \<le> merge_turns (W * H)" for t
    unfolding merge_cost_def merge_turns_def using length_merge_pairs [of W m t] by (simp only: fst_conv snd_conv option.case add_0 mult_le_mono1)
  ultimately show ?thesis by (simp add: merging.all_ok_def merging.left_def merge_start_def)
qed

lemma merge_result:
  assumes len: "length m = W * H" and p: "p = fst (k_cc_init m st)" and fair: "fair (W * H) (merge_turns (W * H)) sched"
  shows "\<exists>p'. k_cc_merge sched (p, merge_start W m) = (p', replicate (W * H) (None, [])) \<and> merge_inv W H m p' \<and>
    (\<forall>x \<in> fg m. \<forall>y \<in> fg m. root_of p' x = root_of p' y \<longleftrightarrow> joined W H m x y)"
proof -
  obtain p' ths where r: "k_cc_merge sched (p, merge_start W m) = (p', ths)" by fastforce
  note s = merging_start [OF len p]
  have l0: "length (merge_start W m) = W * H" by (simp add: merge_start_def len)
  have turns: "merging.left W H (p, merge_start W m) t \<le> count_list sched t" if "t < length (snd (p, merge_start W m))" for t
    using le_trans [OF conjunct2 [OF s, rule_format, of t] fair_count [OF fair, of t]] that l0 by simp
  have fin: "merging.all_ok W H m (p', ths)" "\<And>t. merging.left W H (p', ths) t = 0" "length ths = W * H"
    using merging.schedule_finishes [of W H m "(p, merge_start W m)" sched] merging.schedule_ok [of W H m "(p, merge_start W m)" sched] s turns l0
    unfolding r [unfolded k_cc_merge_turns] by auto
  have idle: "ths ! t = (None, [])" if "t < W * H" for t
    using fin(2) [of t] that fin(3) by (cases "ths ! t") (auto simp: merging.left_def merge_cost_def union_cost_def split: option.splits)
  have inv: "merge_inv W H m p'" using fin(1) by (simp add: merging.all_ok_def)
  have pairs: "root_of p' u = root_of p' v" if "t < W * H" "(u, v) \<in> set (merge_pairs W m t)" for t u v
    using fin(1,3) idle [OF that(1)] that by (fastforce simp: merging.all_ok_def merge_ok_def)
  have adj: "root_of p' u = root_of p' v" if F: "u \<in> fg m" "v \<in> fg m" and t: "touch (pic W H m 0) (coord W u) (coord W v)" for u v
  proof (cases "u = v")
    case False
    have "u < W * H" "v < W * H" using F len by (simp_all add: fg_def)
    with touching_pair [OF len F False t] pairs show ?thesis by metis
  qed simp
  have conn: "\<forall>y \<in> fg m. coord W y = q \<longrightarrow> root_of p' x = root_of p' y"
    if "x \<in> fg m" "(touch (pic W H m 0))\<^sup>*\<^sup>* (coord W x) q" for x q
    using that(2)
  proof (induction rule: rtranclp_induct)
    case base
    show ?case
    proof (intro ballI impI)
      fix y assume y: "y \<in> fg m" "coord W y = coord W x"
      have "touch (pic W H m 0) (coord W y) (coord W x)"
        using y that(1) pic_coord [of x W H m] len by (auto simp: touch_def fg_def)
      from adj [OF y(1) that(1) this] show "root_of p' x = root_of p' y" by simp
    qed
  next
    case (step a b)
    from step(2) have "pic W H m 0 (fst a) (snd a) \<noteq> 0" by (simp add: touch_def)
    then obtain i where i: "i \<in> fg m" "coord W i = a" using pic_pixel [OF _ len] by (metis prod.collapse)
    show ?case using step(2,3) i adj by metis
  qed
  have "root_of p' x = root_of p' y \<longleftrightarrow> joined W H m x y" if "x \<in> fg m" "y \<in> fg m" for x y
    using inv conn [OF that(1)] that unfolding merge_inv_def joined_def linked_def by blast
  moreover have "ths = replicate (W * H) (None, [])" using idle fin(3) by (simp add: list_eq_iff_nth_eq)
  ultimately show ?thesis using r inv by blast
qed

section \<open>The statistics kernel\<close>

definition component :: "nat \<Rightarrow> nat \<Rightarrow> int list \<Rightarrow> nat \<Rightarrow> nat set" where
  "component W H m x = {y \<in> fg m. joined W H m x y}"

definition label_of :: "nat \<Rightarrow> nat \<Rightarrow> int list \<Rightarrow> nat \<Rightarrow> nat" where
  \<comment> \<open>the first pixel of the component in raster order\<close>
  "label_of W H m x = Min (component W H m x)"

lemma component_self: "x \<in> fg m \<Longrightarrow> x \<in> component W H m x"
  by (simp add: component_def joined_def linked_def)

lemma finite_component [simp]: "finite (component W H m x)"
  by (rule finite_subset [of _ "{..<length m}"]) (auto simp: component_def fg_def)

lemma root_is_label:
  assumes inv: "merge_inv W H m p" and roots: "\<forall>x \<in> fg m. \<forall>y \<in> fg m. root_of p x = root_of p y \<longleftrightarrow> joined W H m x y"
    and x: "x \<in> fg m"
  shows "root_of p x = label_of W H m x"
proof -
  have f: "forest (fg m) p" using inv by (simp add: merge_inv_def)
  have r: "root_of p x \<in> fg m" "root_of p (root_of p x) = root_of p x"
    using root_of_is_root [OF f x] by (auto intro: root_of_root)
  then have "joined W H m x (root_of p x)" using roots x r(2) [symmetric] by blast
  with r(1) have "root_of p x \<in> component W H m x" by (simp add: component_def)
  moreover have "root_of p x \<le> y" if "y \<in> component W H m x" for y
  proof -
    from that have "root_of p x = root_of p y" using roots x by (simp add: component_def)
    with root_of_le [of p y] show ?thesis by simp
  qed
  ultimately show ?thesis unfolding label_of_def by (intro Min_eqI [symmetric]) simp_all
qed

type_synonym cc_memory = "nat list \<times> (nat \<times> nat) list"

definition stats_inv :: "nat \<Rightarrow> nat \<Rightarrow> int list \<Rightarrow> cc_memory \<Rightarrow> bool" where
  "stats_inv W H m mem \<longleftrightarrow> length m = W * H \<and> length (fst mem) = W * H \<and> length (snd mem) = W * H \<and> forest (fg m) (fst mem) \<and>
     (\<forall>x \<in> fg m. root_of (fst mem) x = label_of W H m x)"

definition stats_rely :: "int list \<Rightarrow> cc_memory \<Rightarrow> cc_memory \<Rightarrow> bool" where
  "stats_rely m mem mem' \<longleftrightarrow> (\<forall>x \<in> fg m. root_of (fst mem') x = root_of (fst mem) x)"

definition stats_ok :: "nat \<Rightarrow> nat \<Rightarrow> int list \<Rightarrow> cc_memory \<Rightarrow> nat \<Rightarrow> stats_pc \<Rightarrow> bool" where
  "stats_ok W H m mem t th \<longleftrightarrow> (case th of
       S_Find f \<Rightarrow> t \<in> fg m \<and> find_ok (fg m) (fst mem) t f
     | S_Flat r \<Rightarrow> t \<in> fg m \<and> r = label_of W H m t
     | S_Area r \<Rightarrow> t \<in> fg m \<and> r = label_of W H m t
     | S_Edge r \<Rightarrow> t \<in> fg m \<and> r = label_of W H m t
     | S_Done \<Rightarrow> True)"

definition stats_cost :: "cc_memory \<Rightarrow> stats_pc \<Rightarrow> nat" where
  "stats_cost mem th = (case th of S_Find f \<Rightarrow> find_phase f + 4 | S_Flat r \<Rightarrow> 3 | S_Area r \<Rightarrow> 2 | S_Edge r \<Rightarrow> 1 | S_Done \<Rightarrow> 0)"

lemma label_in_fg:
  assumes "stats_inv W H m mem" "x \<in> fg m"
  shows "label_of W H m x \<in> fg m" "label_of W H m x \<le> x" "root_of (fst mem) (label_of W H m x) = label_of W H m x"
    "fst mem ! label_of W H m x = label_of W H m x"
proof -
  have f: "forest (fg m) (fst mem)" and r: "root_of (fst mem) x = label_of W H m x" using assms by (simp_all add: stats_inv_def)
  from root_of_is_root [OF f assms(2)] root_of_le [of "fst mem" x]
  show "label_of W H m x \<in> fg m" "label_of W H m x \<le> x" "fst mem ! label_of W H m x = label_of W H m x" by (simp_all add: r)
  then show "root_of (fst mem) (label_of W H m x) = label_of W H m x" by (intro root_of_root)
qed

lemma stats_access_step:
  assumes inv: "stats_inv W H m mem" and ok: "stats_ok W H m mem t th" and st: "stats_access e t mem th = (mem', th')"
  shows "stats_inv W H m mem' \<and> stats_rely m mem mem' \<and> stats_ok W H m mem' t th' \<and>
    (stats_cost mem' th' < stats_cost mem th \<or> stats_cost mem th = 0 \<and> stats_cost mem' th' = 0)"
proof -
  obtain p st where mem: "mem = (p, st)" by (cases mem)
  have f: "forest (fg m) p" and roots: "x \<in> fg m \<Longrightarrow> root_of p x = label_of W H m x" for x using inv by (simp_all add: stats_inv_def mem)
  have keep: "stats_inv W H m (p', st') \<and> stats_rely m mem (p', st')"
    if "forest (fg m) p'" "length p' = length p" "\<forall>x \<in> fg m. root_of p' x = root_of p x" "length st' = length st" for p' st'
    using inv that by (simp add: stats_inv_def stats_rely_def mem)
  show ?thesis
  proof (cases th)
    case (S_Find g)
    have t: "t \<in> fg m" and g: "find_ok (fg m) p t g" using ok by (simp_all add: stats_ok_def S_Find mem)
    obtain p1 r1 where u: "uf_find p g = (p1, r1)" by fastforce
    note n = uf_find_ok [OF f t g u]
    have k: "forest (fg m) p1" "length p1 = length p" "\<forall>x \<in> fg m. root_of p1 x = root_of p x"
      using n unfolding evolves_def by blast+
    show ?thesis
    proof (cases r1)
      case (Inl g')
      with st S_Find mem u have "mem' = (p1, st)" "th' = S_Find g'" by auto
      with keep [OF k refl] n Inl t S_Find show ?thesis by (auto simp: stats_ok_def stats_cost_def)
    next
      case (Inr r)
      with st S_Find mem u have "mem' = (p1, st)" "th' = S_Flat r" by auto
      moreover have "r = label_of W H m t" using n [unfolded Inr sum.case] k(3) roots t by auto
      ultimately show ?thesis using keep [OF k refl] t S_Find by (auto simp: stats_ok_def stats_cost_def)
    qed
  next
    case (S_Flat r)
    have t: "t \<in> fg m" "r = label_of W H m t" using ok by (simp_all add: stats_ok_def S_Flat)
    note l = label_in_fg [OF inv t(1), folded t(2), unfolded mem fst_conv]
    have mem': "mem' = (p[t := r], st)" "th' = S_Area r" using st S_Flat mem by auto
    have "forest (fg m) (p[t := r]) \<and> (\<forall>x \<in> fg m. root_of (p[t := r]) x = root_of p x)"
    proof (cases "r = t")
      case True
      with l(4) have "p[t := r] = p" by (metis list_update_id)
      with f show ?thesis by simp
    next
      case False
      with l(2) have "r < t" by simp
      from relink_roots [OF f t(1) l(1) this] l(3) roots [OF t(1)] t(2) show ?thesis by simp
    qed
    with keep [of "p[t := r]" st] mem' t S_Flat show ?thesis by (simp add: stats_ok_def stats_cost_def)
  next
    case (S_Area r)
    then have "fst mem' = p" "length (snd mem') = length st" "th' = (if e then S_Edge r else S_Done)" using st mem by auto
    with keep [of p "snd mem'"] f ok S_Area show ?thesis by (cases mem') (auto simp: stats_ok_def stats_cost_def)
  next
    case (S_Edge r)
    then have "fst mem' = p" "length (snd mem') = length st" "th' = S_Done" using st mem by auto
    with keep [of p "snd mem'"] f ok S_Edge show ?thesis by (cases mem') (auto simp: stats_ok_def stats_cost_def)
  next
    case S_Done
    then have "mem' = mem" "th' = S_Done" using st mem by auto
    with inv ok S_Done show ?thesis by (simp add: stats_rely_def stats_cost_def)
  qed
qed

interpretation counting: thread_system "\<lambda>t. stats_access (perimeter \<and> edge_pixel W H m t) t" "stats_inv W H m" "stats_ok W H m" stats_cost "stats_rely m"
  for W H m perimeter
proof
  show "stats_inv W H m mem \<Longrightarrow> stats_ok W H m mem t th \<Longrightarrow> stats_access (perimeter \<and> edge_pixel W H m t) t mem th = (mem', th') \<Longrightarrow>
      stats_inv W H m mem' \<and> stats_rely m mem mem' \<and> stats_ok W H m mem' t th' \<and>
      (stats_cost mem' th' < stats_cost mem th \<or> stats_cost mem th = 0 \<and> stats_cost mem' th' = 0)"
    for mem t th mem' th' by (rule stats_access_step)
  show "stats_inv W H m mem \<Longrightarrow> stats_rely m mem mem' \<Longrightarrow> stats_ok W H m mem t th \<Longrightarrow>
      stats_ok W H m mem' t th \<and> stats_cost mem' th \<le> stats_cost mem th" for mem mem' t th
  proof -
    assume "stats_rely m mem mem'" and ok: "stats_ok W H m mem t th"
    then have same: "x \<in> fg m \<Longrightarrow> root_of (fst mem') x = root_of (fst mem) x" for x by (simp add: stats_rely_def)
    have "find_ok (fg m) (fst mem') t f" if "t \<in> fg m" "find_ok (fg m) (fst mem) t f" for f
      using that same by (cases f) auto
    with ok show ?thesis by (auto simp: stats_ok_def stats_cost_def split: stats_pc.splits)
  qed
qed

lemma k_cc_stats_turns: "k_cc_stats W H m perimeter sched st = fold (counting.turn perimeter W H m) sched st"
  unfolding k_cc_stats_def counting.turn_def by (rule arg_cong [where f = "\<lambda>g. fold g sched st"]) (auto simp: fun_eq_iff)

definition past_area :: "stats_pc \<Rightarrow> bool" where
  "past_area th \<longleftrightarrow> (case th of S_Edge r \<Rightarrow> True | S_Done \<Rightarrow> True | _ \<Rightarrow> False)"

definition counted :: "nat \<Rightarrow> nat \<Rightarrow> int list \<Rightarrow> (nat \<Rightarrow> bool) \<Rightarrow> nat \<Rightarrow> nat set" where
  "counted W H m P r = {t \<in> fg m. label_of W H m t = r \<and> P t}"

definition counts_ok :: "nat \<Rightarrow> nat \<Rightarrow> int list \<Rightarrow> bool \<Rightarrow> cc_memory \<times> stats_pc list \<Rightarrow> bool" where
  \<comment> \<open>the counters of a pixel count the threads of its label that are past the atomic operation\<close>
  "counts_ok W H m perimeter st \<longleftrightarrow> length (snd st) = length m \<and>
     (\<forall>t < length m. (\<exists>r. snd st ! t = S_Edge r) \<longrightarrow> perimeter \<and> edge_pixel W H m t) \<and>
     (\<forall>r \<in> fg m. snd (fst st) ! r =
       (card (counted W H m (\<lambda>t. past_area (snd st ! t)) r),
        card (counted W H m (\<lambda>t. perimeter \<and> edge_pixel W H m t \<and> snd st ! t = S_Done) r)))"

lemma finite_fg [simp]: "finite (fg m)"
  by (simp add: fg_def)

lemma counted_same: "(\<And>t. t \<in> fg m \<Longrightarrow> P t = Q t) \<Longrightarrow> counted W H m P r = counted W H m Q r"
  by (auto simp: counted_def)

lemma counted_more:
  assumes "t \<in> fg m" "\<not> P t" "Q t" "\<And>s. s \<in> fg m \<Longrightarrow> s \<noteq> t \<Longrightarrow> P s = Q s"
  shows "card (counted W H m Q r) = card (counted W H m P r) + (if label_of W H m t = r then 1 else 0)"
proof (cases "label_of W H m t = r")
  case True
  have "counted W H m Q r = insert t (counted W H m P r)" using assms True by (auto simp: counted_def)
  moreover have "t \<notin> counted W H m P r" "finite (counted W H m P r)" using assms(2) by (simp_all add: counted_def)
  ultimately show ?thesis using True by simp
next
  case False
  have "counted W H m Q r = counted W H m P r" using assms False by (auto simp: counted_def)
  with False show ?thesis by simp
qed

lemma counts_turn:
  assumes ok: "counting.all_ok W H m st" and c: "counts_ok W H m perimeter st"
  shows "counts_ok W H m perimeter (counting.turn perimeter W H m t st)"
proof (cases "t < length (snd st)")
  case False
  then have "counting.turn perimeter W H m t st = st" by (cases st) (simp add: counting.turn_def)
  with c show ?thesis by simp
next
  case True
  obtain mem ths where st: "st = (mem, ths)" by (cases st)
  obtain p cs where mem: "mem = (p, cs)" by (cases mem)
  let ?e = "perimeter \<and> edge_pixel W H m t" and ?edge = "\<lambda>t. perimeter \<and> edge_pixel W H m t"
  obtain mem' th' where a: "stats_access ?e t mem (ths ! t) = (mem', th')" by fastforce
  have turn: "counting.turn perimeter W H m t st = (mem', ths[t := th'])" using True by (simp add: counting.turn_def st a)
  have t: "t < length ths" "length ths = length m" using True c by (simp_all add: st counts_ok_def)
  have okt: "stats_ok W H m mem t (ths ! t)" and inv: "stats_inv W H m mem" using ok t by (simp_all add: counting.all_ok_def st)
  have lcs: "length cs = length m" using inv by (simp add: stats_inv_def mem)
  have old: "cs ! r = (card (counted W H m (\<lambda>s. past_area (ths ! s)) r), card (counted W H m (\<lambda>s. ?edge s \<and> ths ! s = S_Done) r))"
    if "r \<in> fg m" for r using c that by (simp add: counts_ok_def st mem)
  have edges: "?edge s" if "s < length m" "ths ! s = S_Edge r" for s r using c that by (auto simp: counts_ok_def st)
  have upd: "ths[t := th'] ! s = (if s = t then th' else ths ! s)" for s using t by simp
  have quiet: ?thesis if "snd mem' = cs" "\<not> past_area (ths ! t)" "\<not> past_area th'"
  proof -
    have np: "ths ! t \<noteq> S_Done" "th' \<noteq> S_Done" "th' \<noteq> S_Edge r" for r using that(2,3) by (auto simp: past_area_def)
    have "counted W H m (\<lambda>s. past_area (ths[t := th'] ! s)) r = counted W H m (\<lambda>s. past_area (ths ! s)) r" for r
      unfolding upd using that by (intro counted_same) auto
    moreover have "counted W H m (\<lambda>s. ?edge s \<and> ths[t := th'] ! s = S_Done) r = counted W H m (\<lambda>s. ?edge s \<and> ths ! s = S_Done) r" for r
      unfolding upd using np by (intro counted_same) auto
    ultimately show ?thesis using old edges t that np unfolding turn counts_ok_def by (auto simp: upd)
  qed
  show ?thesis
  proof (cases "ths ! t")
    case (S_Find f)
    then have "snd mem' = cs" "\<not> past_area th'" using a mem by (auto simp: past_area_def split: prod.splits sum.splits)
    with quiet S_Find show ?thesis by (simp add: past_area_def)
  next
    case (S_Flat q)
    then have "snd mem' = cs" "th' = S_Area q" using a mem by auto
    with quiet S_Flat show ?thesis by (simp add: past_area_def)
  next
    case (S_Area q)
    then have tq: "t \<in> fg m" "q = label_of W H m t" using okt by (simp_all add: stats_ok_def)
    then have q: "q \<in> fg m" using label_in_fg(1) [OF inv] by simp
    then have lq: "q < length cs" using lcs by (simp add: fg_def)
    have th': "snd mem' = cs[q := (fst (cs ! q) + 1, snd (cs ! q))]" "th' = (if ?e then S_Edge q else S_Done)"
      using a mem S_Area by auto
    have past: "card (counted W H m (\<lambda>s. past_area (ths[t := th'] ! s)) r) =
        card (counted W H m (\<lambda>s. past_area (ths ! s)) r) + (if q = r then 1 else 0)" for r
      unfolding tq(2) upd by (rule counted_more) (use tq S_Area th' in \<open>auto simp: past_area_def\<close>)
    have same: "counted W H m (\<lambda>s. ?edge s \<and> ths[t := th'] ! s = S_Done) r = counted W H m (\<lambda>s. ?edge s \<and> ths ! s = S_Done) r" for r
      unfolding upd using th' S_Area by (intro counted_same) (auto split: if_splits)
    have "cs[q := (fst (cs ! q) + 1, snd (cs ! q))] ! r = (fst (cs ! r) + (if q = r then 1 else 0), snd (cs ! r))" for r
      using lq by (cases "q = r") simp_all
    then have "\<forall>r \<in> fg m. snd mem' ! r = (card (counted W H m (\<lambda>s. past_area (ths[t := th'] ! s)) r),
        card (counted W H m (\<lambda>s. ?edge s \<and> ths[t := th'] ! s = S_Done) r))"
      unfolding past same th'(1) using old by simp
    moreover have "\<forall>s < length m. (\<exists>r. ths[t := th'] ! s = S_Edge r) \<longrightarrow> ?edge s"
      unfolding upd using edges th'(2) by auto
    ultimately show ?thesis unfolding turn counts_ok_def using t by simp
  next
    case (S_Edge q)
    then have tq: "t \<in> fg m" "q = label_of W H m t" using okt by (simp_all add: stats_ok_def)
    then have q: "q \<in> fg m" using label_in_fg(1) [OF inv] by simp
    then have lq: "q < length cs" using lcs by (simp add: fg_def)
    have e: ?e using edges [of t q] S_Edge t by simp
    have th': "snd mem' = cs[q := (fst (cs ! q), snd (cs ! q) + 1)]" "th' = S_Done" using a mem S_Edge by auto
    have more: "card (counted W H m (\<lambda>s. ?edge s \<and> ths[t := th'] ! s = S_Done) r) =
        card (counted W H m (\<lambda>s. ?edge s \<and> ths ! s = S_Done) r) + (if q = r then 1 else 0)" for r
      unfolding tq(2) upd by (rule counted_more) (use tq S_Edge th' e in auto)
    have same: "counted W H m (\<lambda>s. past_area (ths[t := th'] ! s)) r = counted W H m (\<lambda>s. past_area (ths ! s)) r" for r
      unfolding upd using th' S_Edge by (intro counted_same) (auto simp: past_area_def)
    have "cs[q := (fst (cs ! q), snd (cs ! q) + 1)] ! r = (fst (cs ! r), snd (cs ! r) + (if q = r then 1 else 0))" for r
      using lq by (cases "q = r") simp_all
    then have "\<forall>r \<in> fg m. snd mem' ! r = (card (counted W H m (\<lambda>s. past_area (ths[t := th'] ! s)) r),
        card (counted W H m (\<lambda>s. ?edge s \<and> ths[t := th'] ! s = S_Done) r))"
      unfolding more same th'(1) using old by simp
    moreover have "\<forall>s < length m. (\<exists>r. ths[t := th'] ! s = S_Edge r) \<longrightarrow> ?edge s"
      unfolding upd using edges th'(2) by auto
    ultimately show ?thesis unfolding turn counts_ok_def using t by simp
  next
    case S_Done
    then have "mem' = mem" "th' = ths ! t" using a mem by simp_all
    then have "mem' = mem" "ths[t := th'] = ths" by simp_all
    with c show ?thesis unfolding turn by (simp add: st)
  qed
qed

definition stats_turns :: "nat \<Rightarrow> nat" where
  "stats_turns n = 3 * n + 6"

lemma stats_schedule_counts:
  "counting.all_ok W H m st \<Longrightarrow> counts_ok W H m perimeter st \<Longrightarrow> counts_ok W H m perimeter (k_cc_stats W H m perimeter sched st)"
  unfolding k_cc_stats_turns
proof (induction sched arbitrary: st)
  case (Cons t sched)
  with counts_turn [OF Cons.prems] counting.turn_ok [OF Cons.prems(1), of perimeter t] show ?case by simp
qed simp

lemma label_eq_iff:
  assumes roots: "\<forall>x \<in> fg m. \<forall>y \<in> fg m. root_of p x = root_of p y \<longleftrightarrow> joined W H m x y" and inv: "merge_inv W H m p"
    and "x \<in> fg m" "y \<in> fg m"
  shows "label_of W H m x = label_of W H m y \<longleftrightarrow> joined W H m x y"
  using assms root_is_label [OF inv roots] by metis

lemma stats_result:
  assumes len: "length m = W * H" and cs0: "cs = snd (k_cc_init m st0)" and inv: "merge_inv W H m p"
    and roots: "\<forall>x \<in> fg m. \<forall>y \<in> fg m. root_of p x = root_of p y \<longleftrightarrow> joined W H m x y"
    and fair: "fair (W * H) (stats_turns (W * H)) sched"
  shows "\<exists>mem. k_cc_stats W H m perimeter sched ((p, cs), stats_start m) = (mem, replicate (W * H) S_Done) \<and> stats_inv W H m mem \<and>
    (\<forall>x \<in> fg m. snd mem ! label_of W H m x = (card (component W H m x),
       if perimeter then card {y \<in> component W H m x. edge_pixel W H m y} else 0)) \<and>
    (\<forall>x \<in> fg m. x \<noteq> label_of W H m x \<longrightarrow> snd mem ! x = (0, 0))"
proof -
  let ?start = "((p, cs), stats_start m)"
  obtain mem ths where r: "k_cc_stats W H m perimeter sched ?start = (mem, ths)" by fastforce
  have lcs: "length cs = length m" and cs: "x \<in> fg m \<Longrightarrow> cs ! x = (0, 0)" for x by (simp_all add: cs0 k_cc_init_def fg_def)
  have inv0: "stats_inv W H m (p, cs)"
    using inv lcs len root_is_label [OF inv roots] by (simp add: stats_inv_def merge_inv_def)
  have okt: "stats_ok W H m (p, cs) t (stats_start m ! t)" if "t < length m" for t
    using that by (simp add: stats_ok_def stats_start_def fg_def)
  have ok0: "counting.all_ok W H m ?start"
    using inv0 okt by (simp add: counting.all_ok_def stats_start_def)
  have l0: "length (stats_start m) = W * H" by (simp add: stats_start_def len)
  have "counting.left ?start t \<le> stats_turns (W * H)" for t
    using len by (auto simp: counting.left_def stats_start_def stats_cost_def stats_turns_def)
  then have turns: "counting.left ?start t \<le> count_list sched t" if "t < length (snd ?start)" for t
    using le_trans [OF _ fair_count [OF fair, of t]] that l0 by simp
  have fin: "counting.all_ok W H m (mem, ths)" "\<And>t. counting.left (mem, ths) t = 0" "length ths = W * H"
    using counting.schedule_finishes [of W H m ?start sched perimeter] counting.schedule_ok [of W H m ?start perimeter sched] ok0 turns l0
    unfolding r [unfolded k_cc_stats_turns] by auto
  have idle: "ths ! t = S_Done" if "t < W * H" for t
    using fin(2) [of t] that fin(3) by (auto simp: counting.left_def stats_cost_def split: stats_pc.splits)
  have fgW: "t \<in> fg m \<Longrightarrow> t < W * H" for t using len by (simp add: fg_def)
  have none: "\<not> past_area (stats_start m ! t)" "stats_start m ! t \<noteq> S_Done" if "t \<in> fg m" for t
    using that by (simp_all add: stats_start_def fg_def past_area_def)
  have "counted W H m (\<lambda>t. past_area (stats_start m ! t)) x = {}"
    "counted W H m (\<lambda>t. perimeter \<and> edge_pixel W H m t \<and> stats_start m ! t = S_Done) x = {}" for x
    using none by (auto simp: counted_def)
  then have "counts_ok W H m perimeter ?start" using cs by (auto simp: counts_ok_def stats_start_def)
  from stats_schedule_counts [OF ok0 this, of sched] have c: "counts_ok W H m perimeter (mem, ths)" by (simp add: r)
  have sinv: "stats_inv W H m mem" using fin(1) by (simp add: counting.all_ok_def)
  have fst_set: "counted W H m (\<lambda>t. past_area (ths ! t)) x = {t \<in> fg m. label_of W H m t = x}" for x
    using idle fgW by (auto simp: counted_def past_area_def)
  have snd_set: "counted W H m (\<lambda>t. perimeter \<and> edge_pixel W H m t \<and> ths ! t = S_Done) x =
      {t \<in> fg m. label_of W H m t = x \<and> perimeter \<and> edge_pixel W H m t}" for x
    using idle fgW by (auto simp: counted_def)
  have at: "snd mem ! x = (card {t \<in> fg m. label_of W H m t = x}, card {t \<in> fg m. label_of W H m t = x \<and> perimeter \<and> edge_pixel W H m t})"
    if "x \<in> fg m" for x
    using c that unfolding counts_ok_def fst_conv snd_conv fst_set snd_set by blast
  have comp: "{t \<in> fg m. label_of W H m t = label_of W H m x} = component W H m x" if "x \<in> fg m" for x
    using label_eq_iff [OF roots inv _ that] by (auto simp: component_def intro: joined_sym)
  have comp': "{t \<in> fg m. label_of W H m t = label_of W H m x \<and> perimeter \<and> edge_pixel W H m t} =
      (if perimeter then {y \<in> component W H m x. edge_pixel W H m y} else {})" if "x \<in> fg m" for x
    using comp [OF that] by auto
  have "snd mem ! label_of W H m x = (card (component W H m x),
      if perimeter then card {y \<in> component W H m x. edge_pixel W H m y} else 0)" if "x \<in> fg m" for x
    using at [OF label_in_fg(1) [OF sinv that]] unfolding comp [OF that] comp' [OF that] by simp
  moreover have "snd mem ! x = (0, 0)" if x: "x \<in> fg m" and ne: "x \<noteq> label_of W H m x" for x
  proof -
    have "label_of W H m t \<noteq> x" if t: "t \<in> fg m" for t
    proof
      assume l: "label_of W H m t = x"
      have "root_of p t = x" "root_of p x = label_of W H m x" using root_is_label [OF inv roots] t x l by simp_all
      with label_in_fg(3) [OF inv0 t] l ne show False by simp
    qed
    then have "{t \<in> fg m. label_of W H m t = x} = {}" "{t \<in> fg m. label_of W H m t = x \<and> perimeter \<and> edge_pixel W H m t} = {}"
      by auto
    with at [OF x] show ?thesis by simp
  qed
  moreover have "ths = replicate (W * H) S_Done" using idle fin(3) by (simp add: list_eq_iff_nth_eq)
  ultimately show ?thesis using r sinv by blast
qed

section \<open>The launch\<close>

lemma launch_cc_result:
  assumes len: "length m = W * H" and mf: "fair (W * H) (merge_turns (W * H)) merge_sched"
    and sf: "fair (W * H) (stats_turns (W * H)) stats_sched"
  shows "\<exists>mem. launch_cc W H perimeter merge_sched stats_sched m st = mem \<and> stats_inv W H m mem \<and>
    (\<forall>x \<in> fg m. fst mem ! x \<in> component W H m x \<and> fst mem ! x \<le> x) \<and>
    (\<forall>x \<in> fg m. snd mem ! label_of W H m x = (card (component W H m x),
       if perimeter then card {y \<in> component W H m x. edge_pixel W H m y} else 0)) \<and>
    (\<forall>x \<in> fg m. x \<noteq> label_of W H m x \<longrightarrow> snd mem ! x = (0, 0)) \<and>
    (\<forall>x \<in> fg m. \<forall>y \<in> fg m. label_of W H m x = label_of W H m y \<longleftrightarrow> joined W H m x y)"
proof -
  obtain p cs where i: "k_cc_init m st = (p, cs)" by fastforce
  obtain p' where p': "k_cc_merge merge_sched (p, merge_start W m) = (p', replicate (W * H) (None, []))" "merge_inv W H m p'"
    "\<forall>x \<in> fg m. \<forall>y \<in> fg m. root_of p' x = root_of p' y \<longleftrightarrow> joined W H m x y"
    using merge_result [OF len _ mf, of p st] i by auto
  obtain mem where s: "k_cc_stats W H m perimeter stats_sched ((p', cs), stats_start m) = (mem, replicate (W * H) S_Done)"
    "stats_inv W H m mem"
    "\<forall>x \<in> fg m. snd mem ! label_of W H m x = (card (component W H m x),
       if perimeter then card {y \<in> component W H m x. edge_pixel W H m y} else 0)"
    "\<forall>x \<in> fg m. x \<noteq> label_of W H m x \<longrightarrow> snd mem ! x = (0, 0)"
    using stats_result [OF len _ p'(2,3) sf, of cs st perimeter] i by auto
  have f: "forest (fg m) (fst mem)" using s(2) by (simp add: stats_inv_def)
  note same = label_eq_iff [OF p'(3,2)]
  have "fst mem ! x \<in> component W H m x \<and> fst mem ! x \<le> x" if x: "x \<in> fg m" for x
  proof -
    have q: "fst mem ! x \<in> fg m" "fst mem ! x \<le> x" using f x by (simp_all add: forest_def)
    have "label_of W H m x = label_of W H m (fst mem ! x)"
      using root_of_parent [OF f x] s(2) x q by (simp add: stats_inv_def)
    with same [OF x q(1)] q show ?thesis by (simp add: component_def)
  qed
  moreover have "launch_cc W H perimeter merge_sched stats_sched m st = mem" by (simp add: launch_cc_def i p'(1) s(1))
  ultimately show ?thesis using s(2-4) same by blast
qed

text \<open>C33: The lock-free labelling computes the connected components of a mask, in whatever order the threads of its kernels make
  their accesses, as soon as every thread gets its bounded number of turns: following the links from a set pixel ends at the first
  pixel of its component of touching pixels, every link stays inside the component, and that first pixel carries the number of
  pixels of the component and of its boundary pixels, while every other pixel carries zeros.\<close>

theorem components_are_labelled:
  assumes "length m = W * H" "fair (W * H) (merge_turns (W * H)) merge_sched" "fair (W * H) (stats_turns (W * H)) stats_sched"
    and "launch_cc W H perimeter merge_sched stats_sched m st = (parent, stats)" and "x \<in> fg m"
  shows "root_of parent x = Min (component W H m x) \<and> parent ! x \<in> component W H m x \<and>
    stats ! Min (component W H m x) = (card (component W H m x),
      if perimeter then card {y \<in> component W H m x. edge_pixel W H m y} else 0) \<and>
    (x \<noteq> Min (component W H m x) \<longrightarrow> stats ! x = (0, 0))"
proof -
  from launch_cc_result [OF assms(1-3), of perimeter st] have
    "stats_inv W H m (parent, stats)" "\<forall>x \<in> fg m. parent ! x \<in> component W H m x \<and> parent ! x \<le> x"
    "\<forall>x \<in> fg m. stats ! label_of W H m x = (card (component W H m x),
       if perimeter then card {y \<in> component W H m x. edge_pixel W H m y} else 0)"
    "\<forall>x \<in> fg m. x \<noteq> label_of W H m x \<longrightarrow> stats ! x = (0, 0)"
    by (simp_all add: assms(4))
  with assms(5) show ?thesis by (simp add: stats_inv_def label_of_def)
qed

text \<open>Turns in rotation are fair; two pixels of a row are one component.\<close>

lemma count_list_concat: "count_list (concat xss) t = sum_list (map (\<lambda>xs. count_list xs t) xss)"
  by (induction xss) simp_all

lemma count_list_upt: "count_list [0..<n] t = (if t < n then 1 else 0)"
  by (induction n) auto

lemma rotation_fair: "fair n k (concat (replicate k [0..<n]))"
proof -
  have "count_list (concat (replicate k [0..<n])) t = k" if "t < n" for t
    using that by (simp add: count_list_concat sum_list_replicate count_list_upt)
  then show ?thesis by (simp add: fair_def list_all_iff)
qed

lemma component_row: "component 2 1 [1, 1] 1 = {0, 1}"
proof -
  have "touch (pic 2 1 [1, 1] 0) (coord 2 1) (coord 2 0)" by (simp add: touch_def pic_def coord_def)
  then have "joined 2 1 [1, 1] 1 0" by (rule joined_touch)
  moreover have "fg [1, 1] = {0, 1}" by (auto simp: fg_def less_Suc_eq)
  moreover have "joined 2 1 [1, 1] 1 1" by (simp add: joined_def linked_def)
  ultimately show ?thesis by (auto simp: component_def)
qed

lemma components_are_labelled_witness:
  "snd (launch_cc 2 1 False (concat (replicate (merge_turns 2) [0..<2])) (concat (replicate (stats_turns 2) [0..<2])) [1, 1]
     ([9, 9], [(5, 5), (5, 5)])) ! 0 = (2, 0)"
  using components_are_labelled [of "[1, 1]" 2 1 "concat (replicate (merge_turns 2) [0..<2])" "concat (replicate (stats_turns 2) [0..<2])"
      False "([9, 9], [(5, 5), (5, 5)])" _ _ 1]
  by (cases "launch_cc 2 1 False (concat (replicate (merge_turns 2) [0..<2])) (concat (replicate (stats_turns 2) [0..<2])) [1, 1]
     ([9, 9], [(5, 5), (5, 5)])") (simp add: rotation_fair component_row [unfolded One_nat_def] fg_def)

text \<open>
  C34: The component filter keeps no speck. For every mask, every area limit of at least one pixel and every schedule that gives the
  threads of both launches their turns, a pixel of the cleaned mask is a pixel of the mask whose component has the demanded
  area and boundary. Of a component that is large enough the first pixel always stays, and every other pixel stays exactly when its
  link is the first pixel at the end of the launch.
\<close>

theorem filter_keeps_large_components:
  assumes "length m = W * H" "fair (W * H) (merge_turns (W * H)) merge_sched" "fair (W * H) (stats_turns (W * H)) stats_sched"
    and "launch_cc W H True merge_sched stats_sched m st = mem" and "0 < min_area" and "x < W * H"
  shows "k_cc_filter m mem min_area min_perim ! x =
    (if m ! x \<noteq> 0 \<and> min_area \<le> card (component W H m x) \<and> min_perim \<le> card {y \<in> component W H m x. edge_pixel W H m y} \<and>
       fst mem ! x = Min (component W H m x) then 1 else 0) \<and>
    (m ! x \<noteq> 0 \<longrightarrow> fst mem ! Min (component W H m x) = Min (component W H m x))"
proof (cases "m ! x = 0")
  case True
  with assms show ?thesis by (simp add: k_cc_filter_def)
next
  case False
  then have x: "x \<in> fg m" using assms(1,6) by (simp add: fg_def)
  from launch_cc_result [OF assms(1-3), of True st] have r: "stats_inv W H m mem"
    "\<And>x. x \<in> fg m \<Longrightarrow> fst mem ! x \<in> component W H m x"
    "\<And>x. x \<in> fg m \<Longrightarrow> snd mem ! label_of W H m x = (card (component W H m x), card {y \<in> component W H m x. edge_pixel W H m y})"
    "\<And>x. x \<in> fg m \<Longrightarrow> x \<noteq> label_of W H m x \<Longrightarrow> snd mem ! x = (0, 0)"
    "\<And>x y. x \<in> fg m \<Longrightarrow> y \<in> fg m \<Longrightarrow> label_of W H m x = label_of W H m y \<longleftrightarrow> joined W H m x y"
    by (simp_all add: assms(4))
  let ?q = "fst mem ! x"
  have q: "?q \<in> fg m" "label_of W H m x = label_of W H m ?q"
    using r(2) [OF x] r(5) [OF x] by (auto simp: component_def)
  have "snd mem ! ?q = (if ?q = label_of W H m x then (card (component W H m x), card {y \<in> component W H m x. edge_pixel W H m y}) else (0, 0))"
    using r(3) [OF x] r(4) [OF q(1)] unfolding q(2) [symmetric] by (metis (full_types))
  then have "k_cc_filter m mem min_area min_perim ! x = (if min_area \<le> card (component W H m x) \<and>
      min_perim \<le> card {y \<in> component W H m x. edge_pixel W H m y} \<and> ?q = label_of W H m x then 1 else 0)"
    using assms(1,5,6) False by (auto simp: k_cc_filter_def Let_def)
  with label_in_fg(4) [OF r(1) x] False show ?thesis by (simp add: label_of_def)
qed

lemma filter_keeps_large_components_witness:
  "k_cc_filter [1, 1] (launch_cc 2 1 True (concat (replicate (merge_turns 2) [0..<2])) (concat (replicate (stats_turns 2) [0..<2])) [1, 1]
     ([9, 9], [(5, 5), (5, 5)])) 3 0 ! 1 = 0"
  using filter_keeps_large_components [of "[1, 1]" 2 1 "concat (replicate (merge_turns 2) [0..<2])"
      "concat (replicate (stats_turns 2) [0..<2])" "([9, 9], [(5, 5), (5, 5)])" _ 3 1 0]
  by (simp add: rotation_fair component_row [unfolded One_nat_def])

section \<open>A lost pixel\<close>

text \<open>A row of six pixels. In the merge kernel the threads go in step, so that each pixel hangs under its neighbour. In the
  statistics kernel thread 5 is about to halve the path at pixel 3 with the links it has read, thread 3 then writes the root into
  its own cell and is done, and the halving overwrites it with pixel 1.\<close>

definition row :: "int list" where "row = replicate 6 1"

definition in_step :: "nat list" where "in_step = concat (replicate 4 [0..<6])"

definition late_halving :: "nat list" where
  "late_halving = replicate 5 5 @ replicate 20 3 @ concat (map (replicate 20) [0, 1, 2, 4, 5])"

text \<open>The label of a pixel is not always the first pixel of its component when the launch is over: there is an order of the
  accesses, after which all threads have ended, in which a path halving that began before a thread flattened its cell overwrites
  that cell. The component filter then drops this pixel of a component that is exactly large enough, although the counters of the
  component are right.\<close>

theorem late_halving_drops_a_pixel:
  "k_cc_merge in_step ([0..<6], merge_start 6 row) = ([0, 0, 1, 2, 3, 4], replicate 6 (None, [])) \<and>
   k_cc_stats 6 1 row False late_halving (([0, 0, 1, 2, 3, 4], replicate 6 (0, 0)), stats_start row) =
     (launch_cc 6 1 False in_step late_halving row (replicate 6 0, replicate 6 (0, 0)), replicate 6 S_Done) \<and>
   fst (launch_cc 6 1 False in_step late_halving row (replicate 6 0, replicate 6 (0, 0))) ! 3 = 1 \<and>
   snd (launch_cc 6 1 False in_step late_halving row (replicate 6 0, replicate 6 (0, 0))) ! 0 = (6, 0) \<and>
   k_cc_filter row (launch_cc 6 1 False in_step late_halving row (replicate 6 0, replicate 6 (0, 0))) 6 0 = [1, 1, 1, 0, 1, 1]"
  by code_simp

end
