(* ===== verification/Mask_Kernel.thy ===== *)
theory Mask_Kernel
  imports Component_Kernel
begin

text \<open>
  \<open>src/vision_cpp/src/gpu_kernels.cu\<close>, the kernels that make and clean the class masks: the class with the greatest score at
  each pixel, opening and closing by separable passes, the lowest row of the stop line and the window that is thinned. Every thread
  writes its own cell and reads another buffer, so a launch is one map over the cells. Scores are real numbers.
\<close>

section \<open>The code\<close>

definition best_class :: "real list \<Rightarrow> nat \<Rightarrow> nat \<Rightarrow> nat \<Rightarrow> nat" where
  "best_class logits C HW i =
    fst (fold (\<lambda>c (best, bv). let v = logits ! (c * HW + i) in if v > bv then (c, v) else (best, bv)) [1..<C] (0, logits ! i))"

definition k_seg_planes :: "real list \<Rightarrow> nat \<Rightarrow> nat \<Rightarrow> int list" where
  "k_seg_planes logits C HW = map (\<lambda>j. if best_class logits C HW (j mod HW) = j div HW + 1 then 1 else 0) [0..<3 * HW]"

definition k_morph_h :: "bool \<Rightarrow> nat \<Rightarrow> nat \<Rightarrow> int \<Rightarrow> int list \<Rightarrow> nat \<Rightarrow> nat \<Rightarrow> nat \<Rightarrow> int" where
  "k_morph_h erode W H r inp z x y =
    (let base = z * (W * H) + y * W in
     fold (\<lambda>dx acc. let xx = int x + dx in
        if xx < 0 \<or> xx \<ge> int W then acc
        else (let v = inp ! (base + nat xx) in if erode then acc AND v else acc OR v)) [-r..r] (if erode then 1 else 0))"

definition k_morph_v :: "bool \<Rightarrow> nat \<Rightarrow> nat \<Rightarrow> int \<Rightarrow> int list \<Rightarrow> nat \<Rightarrow> nat \<Rightarrow> nat \<Rightarrow> int" where
  "k_morph_v erode W H r inp z x y =
    (let base = z * (W * H) in
     fold (\<lambda>dy acc. let yy = int y + dy in
        if yy < 0 \<or> yy \<ge> int H then acc
        else (let v = inp ! (base + nat yy * W + x) in if erode then acc AND v else acc OR v)) [-r..r] (if erode then 1 else 0))"

definition over_planes :: "nat \<Rightarrow> nat \<Rightarrow> nat \<Rightarrow> (nat \<Rightarrow> nat \<Rightarrow> nat \<Rightarrow> int) \<Rightarrow> int list" where
  \<comment> \<open>one thread per pixel of every plane\<close>
  "over_planes W H planes k = map (\<lambda>j. k (j div (W * H)) (j mod (W * H) mod W) (j mod (W * H) div W)) [0..<planes * (W * H)]"

definition morph_pass :: "nat \<Rightarrow> nat \<Rightarrow> nat \<Rightarrow> bool \<Rightarrow> int \<Rightarrow> int list \<times> int list \<Rightarrow> int list \<times> int list" where
  "morph_pass W H planes erode k st =
    (let r = k div 2; b = over_planes W H planes (k_morph_h erode W H r (fst st)); a = over_planes W H planes (k_morph_v erode W H r b) in
     (a, b))"

definition launch_clean_morph :: "nat \<Rightarrow> nat \<Rightarrow> nat \<Rightarrow> int \<Rightarrow> int \<Rightarrow> int list \<times> int list \<Rightarrow> int list \<times> int list" where
  "launch_clean_morph W H planes open_k close_k st =
    (let st = (if open_k > 1 then morph_pass W H planes False open_k (morph_pass W H planes True open_k st) else st) in
     if close_k > 1 then morph_pass W H planes True close_k (morph_pass W H planes False close_k st) else st)"

definition int16 :: "int \<Rightarrow> int" where
  \<comment> \<open>the cast to \<open>int16_t\<close>\<close>
  "int16 v = sint (word_of_int v :: 16 word)"

definition k_leading_edge :: "int list \<Rightarrow> nat \<Rightarrow> nat \<Rightarrow> nat \<Rightarrow> nat \<Rightarrow> int" where
  "k_leading_edge m W H step u =
    (let x = u * step; Hs = (H + step - 1) div step in
     case find (\<lambda>v. m ! (v * step * W + x) \<noteq> 0) (rev [0..<Hs]) of None \<Rightarrow> -1 | Some v \<Rightarrow> int16 (int v))"

definition launch_leading_edge :: "int list \<Rightarrow> nat \<Rightarrow> nat \<Rightarrow> nat \<Rightarrow> nat \<Rightarrow> int list" where
  "launch_leading_edge m W H step cols = map (k_leading_edge m W H step) [0..<cols]"

definition launch_thin_init :: "int list \<Rightarrow> nat \<Rightarrow> nat \<Rightarrow> nat \<Rightarrow> nat \<Rightarrow> nat \<Rightarrow> nat \<Rightarrow> int list" where
  "launch_thin_init planes W H step r0 Wt Ht =
    over_planes Wt Ht 2 (\<lambda>z x y. planes ! (z * W * H + (y + r0) * step * W + x * step))"

section \<open>Opening and closing\<close>

text \<open>The laws of an opening and a closing follow from one: dilation is adjoint to erosion.\<close>

locale adjoint_pair =
  fixes D :: "'a set" and dilation erosion :: "'a set \<Rightarrow> 'a set"
  assumes dilation_in: "A \<subseteq> D \<Longrightarrow> dilation A \<subseteq> D"
    and erosion_in: "A \<subseteq> D \<Longrightarrow> erosion A \<subseteq> D"
    and adjoint: "A \<subseteq> D \<Longrightarrow> B \<subseteq> D \<Longrightarrow> dilation A \<subseteq> B \<longleftrightarrow> A \<subseteq> erosion B"
begin

lemma opening_shrinks: "A \<subseteq> D \<Longrightarrow> dilation (erosion A) \<subseteq> A"
  using adjoint [of "erosion A" A] erosion_in by blast

lemma closing_grows: "A \<subseteq> D \<Longrightarrow> A \<subseteq> erosion (dilation A)"
  using adjoint [of A "dilation A"] dilation_in by blast

lemma dilation_mono:
  assumes "A \<subseteq> B" "B \<subseteq> D"
  shows "dilation A \<subseteq> dilation B"
proof -
  have "A \<subseteq> D" "A \<subseteq> erosion (dilation B)" using assms closing_grows [OF assms(2)] by (blast intro: subset_trans)+
  with adjoint [of A "dilation B"] dilation_in [OF assms(2)] show ?thesis by simp
qed

lemma erosion_mono:
  assumes "A \<subseteq> B" "B \<subseteq> D"
  shows "erosion A \<subseteq> erosion B"
proof -
  have A: "A \<subseteq> D" using assms by (rule subset_trans)
  have "dilation (erosion A) \<subseteq> B" using opening_shrinks [OF A] assms(1) by (rule subset_trans)
  with adjoint [of "erosion A" B] erosion_in [OF A] assms(2) show ?thesis by simp
qed

lemma opening_again:
  assumes "A \<subseteq> D"
  shows "dilation (erosion (dilation (erosion A))) = dilation (erosion A)"
proof
  have e: "erosion A \<subseteq> D" and o: "dilation (erosion A) \<subseteq> D" using assms by (simp_all add: erosion_in dilation_in)
  show "dilation (erosion (dilation (erosion A))) \<subseteq> dilation (erosion A)" using opening_shrinks [OF o] .
  show "dilation (erosion A) \<subseteq> dilation (erosion (dilation (erosion A)))"
    using dilation_mono [OF closing_grows [OF e] erosion_in [OF o]] .
qed

lemma closing_again:
  assumes "A \<subseteq> D"
  shows "erosion (dilation (erosion (dilation A))) = erosion (dilation A)"
proof
  have d: "dilation A \<subseteq> D" and c: "erosion (dilation A) \<subseteq> D" using assms by (simp_all add: erosion_in dilation_in)
  show "erosion (dilation A) \<subseteq> erosion (dilation (erosion (dilation A)))" using closing_grows [OF c] .
  show "erosion (dilation (erosion (dilation A))) \<subseteq> erosion (dilation A)"
    using erosion_mono [OF opening_shrinks [OF d] d] .
qed

end

text \<open>The masks as sets of pixels, and the rectangle of half width \<open>r\<close>.\<close>

definition frame :: "nat \<Rightarrow> nat \<Rightarrow> (int \<times> int) set" where
  "frame W H = {0..<int W} \<times> {0..<int H}"

definition box_near :: "int \<Rightarrow> int \<times> int \<Rightarrow> int \<times> int \<Rightarrow> bool" where
  "box_near r p q \<longleftrightarrow> \<bar>fst p - fst q\<bar> \<le> r \<and> \<bar>snd p - snd q\<bar> \<le> r"

definition eroded :: "nat \<Rightarrow> nat \<Rightarrow> int \<Rightarrow> (int \<times> int) set \<Rightarrow> (int \<times> int) set" where
  "eroded W H r A = {p \<in> frame W H. \<forall>q \<in> frame W H. box_near r p q \<longrightarrow> q \<in> A}"

definition dilated :: "nat \<Rightarrow> nat \<Rightarrow> int \<Rightarrow> (int \<times> int) set \<Rightarrow> (int \<times> int) set" where
  "dilated W H r A = {p \<in> frame W H. \<exists>q \<in> A. box_near r p q}"

interpretation rect: adjoint_pair "frame W H" "dilated W H r" "eroded W H r" for W H r
proof
  have sym: "box_near r p q = box_near r q p" for p q by (simp add: box_near_def abs_minus_commute)
  show "dilated W H r A \<subseteq> frame W H" "eroded W H r A \<subseteq> frame W H" for A by (auto simp: dilated_def eroded_def)
  show "dilated W H r A \<subseteq> B \<longleftrightarrow> A \<subseteq> eroded W H r B" if "A \<subseteq> frame W H" "B \<subseteq> frame W H" for A B
    using that sym unfolding dilated_def eroded_def by blast
qed

definition set_of :: "nat \<Rightarrow> nat \<Rightarrow> int list \<Rightarrow> nat \<Rightarrow> (int \<times> int) set" where
  \<comment> \<open>the set pixels of a plane\<close>
  "set_of W H buf z = {(x, y). plane W H buf z x y \<noteq> 0}"

definition bytes01 :: "nat \<Rightarrow> nat \<Rightarrow> nat \<Rightarrow> int list \<Rightarrow> bool" where
  "bytes01 W H planes buf \<longleftrightarrow> length buf = planes * (W * H) \<and> set buf \<subseteq> {0, 1}"

lemma over_planes_nth:
  assumes "z < planes" "x < W" "y < H" "j = z * (W * H) + y * W + x"
  shows "over_planes W H planes k ! j = k z x y" "j < planes * (W * H)"
proof -
  note c = cell_coords [OF assms(2-4)]
  have "Suc z * (W * H) \<le> planes * (W * H)" using assms(1) by (intro mult_le_mono1) simp
  with c(4) assms(4) show j: "j < planes * (W * H)" by simp
  then show "over_planes W H planes k ! j = k z x y" by (simp add: over_planes_def c(1-3))
qed

lemma length_over_planes [simp]: "length (over_planes W H planes k) = planes * (W * H)"
  by (simp add: over_planes_def)

lemma plane_nat: "x < W \<Longrightarrow> y < H \<Longrightarrow> plane W H buf z (int x) (int y) = buf ! (z * (W * H) + y * W + x)"
  by (simp add: plane_def pic_def)

lemma plane_outside: "(x, y) \<notin> frame W H \<Longrightarrow> plane W H buf z x y = 0"
  by (auto simp: plane_def pic_def frame_def)

lemma plane_over_planes:
  assumes "z < planes"
  shows "plane W H (over_planes W H planes k) z x y = (if (x, y) \<in> frame W H then k z (nat x) (nat y) else 0)"
proof (cases "(x, y) \<in> frame W H")
  case True
  then have xy: "nat x < W" "nat y < H" "int (nat x) = x" "int (nat y) = y" by (auto simp: frame_def)
  have "plane W H (over_planes W H planes k) z (int (nat x)) (int (nat y)) = k z (nat x) (nat y)"
    unfolding plane_nat [OF xy(1,2)] using over_planes_nth(1) [OF assms xy(1,2) refl] .
  with True xy show ?thesis by simp
next
  case False
  then show ?thesis by (simp add: plane_outside)
qed

lemma set_over_planes: "z < planes \<Longrightarrow> set_of W H (over_planes W H planes k) z = {(x, y) \<in> frame W H. k z (nat x) (nat y) \<noteq> 0}"
  by (auto simp: set_of_def plane_over_planes)

text \<open>Accumulating with AND and OR over bytes 0 and 1.\<close>

lemma fold_and:
  assumes "\<And>d. d \<in> set ds \<Longrightarrow> \<not> skip d \<Longrightarrow> v d = 0 \<or> v d = (1 :: int)" "acc = 0 \<or> acc = 1"
  shows "fold (\<lambda>d acc. if skip d then acc else acc AND v d) ds acc =
    (if acc = 1 \<and> (\<forall>d \<in> set ds. \<not> skip d \<longrightarrow> v d = 1) then 1 else 0)"
  using assms
proof (induction ds arbitrary: acc)
  case (Cons d ds)
  define acc1 where "acc1 = (if skip d then acc else acc AND v d)"
  have "acc1 = 0 \<or> acc1 = 1" "acc1 = 1 \<longleftrightarrow> acc = 1 \<and> (\<not> skip d \<longrightarrow> v d = 1)"
    using Cons.prems(1) [of d] Cons.prems(2) by (auto simp: acc1_def)
  with Cons.IH [of acc1] Cons.prems(1) show ?case by (simp flip: acc1_def)
qed auto

lemma fold_or:
  assumes "\<And>d. d \<in> set ds \<Longrightarrow> \<not> skip d \<Longrightarrow> v d = 0 \<or> v d = (1 :: int)" "acc = 0 \<or> acc = 1"
  shows "fold (\<lambda>d acc. if skip d then acc else acc OR v d) ds acc =
    (if acc = 1 \<or> (\<exists>d \<in> set ds. \<not> skip d \<and> v d = 1) then 1 else 0)"
  using assms
proof (induction ds arbitrary: acc)
  case (Cons d ds)
  define acc1 where "acc1 = (if skip d then acc else acc OR v d)"
  have "acc1 = 0 \<or> acc1 = 1" "acc1 = 1 \<longleftrightarrow> acc = 1 \<or> (\<not> skip d \<and> v d = 1)"
    using Cons.prems(1) [of d] Cons.prems(2) by (auto simp: acc1_def)
  with Cons.IH [of acc1] Cons.prems(1) show ?case by (simp flip: acc1_def)
qed auto

lemma plane01:
  assumes "bytes01 W H planes buf" "z < planes"
  shows "plane W H buf z x y = 0 \<or> plane W H buf z x y = 1"
proof (cases "(x, y) \<in> frame W H")
  case True
  then have xy: "nat x < W" "nat y < H" "int (nat x) = x" "int (nat y) = y" by (auto simp: frame_def)
  note j = over_planes_nth(2) [OF assms(2) xy(1,2) refl]
  with assms(1) have "buf ! (z * (W * H) + nat y * W + nat x) \<in> set buf" by (intro nth_mem) (simp add: bytes01_def)
  with assms(1) have "buf ! (z * (W * H) + nat y * W + nat x) \<in> {0, 1}" by (auto simp: bytes01_def)
  with plane_nat [OF xy(1,2), of buf z] xy show ?thesis by auto
next
  case False
  then show ?thesis by (simp add: plane_outside)
qed

lemma scan_value:
  fixes val :: "int \<Rightarrow> int"
  assumes v01: "\<And>u. 0 \<le> u \<Longrightarrow> u < n \<Longrightarrow> val u = 0 \<or> val u = 1"
  shows "fold (\<lambda>d acc. if x + d < 0 \<or> x + d \<ge> n then acc else if erode then acc AND val (x + d) else acc OR val (x + d))
      [-r..r] (if erode then 1 else 0) =
    (if (if erode then \<forall>u. \<bar>u - x\<bar> \<le> r \<and> 0 \<le> u \<and> u < n \<longrightarrow> val u = 1
         else \<exists>u. \<bar>u - x\<bar> \<le> r \<and> 0 \<le> u \<and> u < n \<and> val u = 1) then 1 else 0)"
proof -
  let ?skip = "\<lambda>d. x + d < 0 \<or> x + d \<ge> n" and ?v = "\<lambda>d. val (x + d)"
  have v: "\<not> ?skip d \<Longrightarrow> ?v d = 0 \<or> ?v d = 1" for d using v01 by simp
  have all: "(\<forall>d \<in> set [-r..r]. \<not> ?skip d \<longrightarrow> ?v d = 1) \<longleftrightarrow> (\<forall>u. \<bar>u - x\<bar> \<le> r \<and> 0 \<le> u \<and> u < n \<longrightarrow> val u = 1)"
  proof (intro iffI allI impI ballI)
    fix u assume a: "\<forall>d \<in> set [-r..r]. \<not> ?skip d \<longrightarrow> ?v d = 1" and u: "\<bar>u - x\<bar> \<le> r \<and> 0 \<le> u \<and> u < n"
    then show "val u = 1" using a [rule_format, of "u - x"] by (auto simp: abs_le_iff)
  qed auto
  have ex: "(\<exists>d \<in> set [-r..r]. \<not> ?skip d \<and> ?v d = 1) \<longleftrightarrow> (\<exists>u. \<bar>u - x\<bar> \<le> r \<and> 0 \<le> u \<and> u < n \<and> val u = 1)"
  proof
    assume "\<exists>d \<in> set [-r..r]. \<not> ?skip d \<and> ?v d = 1"
    then obtain d where "d \<in> set [-r..r]" "\<not> ?skip d" "?v d = 1" by blast
    then show "\<exists>u. \<bar>u - x\<bar> \<le> r \<and> 0 \<le> u \<and> u < n \<and> val u = 1" by (intro exI [of _ "x + d"]) auto
  next
    assume "\<exists>u. \<bar>u - x\<bar> \<le> r \<and> 0 \<le> u \<and> u < n \<and> val u = 1"
    then obtain u where "\<bar>u - x\<bar> \<le> r" "0 \<le> u" "u < n" "val u = 1" by blast
    then show "\<exists>d \<in> set [-r..r]. \<not> ?skip d \<and> ?v d = 1" by (intro bexI [of _ "u - x"]) auto
  qed
  show ?thesis
  proof (cases erode)
    case True
    with fold_and [of "[-r..r]" ?skip ?v 1, OF v] show ?thesis unfolding all by (simp cong: if_cong)
  next
    case False
    with fold_or [of "[-r..r]" ?skip ?v 0, OF v] show ?thesis unfolding ex by (simp cong: if_cong)
  qed
qed

lemma k_morph_h_value:
  assumes b: "bytes01 W H planes buf" and z: "z < planes" and xy: "x < W" "y < H"
  shows "k_morph_h erode W H r buf z x y =
    (if (if erode then \<forall>u. \<bar>u - int x\<bar> \<le> r \<and> 0 \<le> u \<and> u < int W \<longrightarrow> plane W H buf z u (int y) = 1
         else \<exists>u. \<bar>u - int x\<bar> \<le> r \<and> 0 \<le> u \<and> u < int W \<and> plane W H buf z u (int y) = 1) then 1 else 0)"
proof -
  have v: "buf ! (z * (W * H) + y * W + nat u) = plane W H buf z u (int y)" if "0 \<le> u" "u < int W" for u
    using plane_nat [of "nat u" W y H buf z] that xy(2) by simp
  have "fold (\<lambda>d acc. if int x + d < 0 \<or> int x + d \<ge> int W then acc
      else if erode then acc AND buf ! (z * (W * H) + y * W + nat (int x + d)) else acc OR buf ! (z * (W * H) + y * W + nat (int x + d))) =
    fold (\<lambda>d acc. if int x + d < 0 \<or> int x + d \<ge> int W then acc
      else if erode then acc AND plane W H buf z (int x + d) (int y) else acc OR plane W H buf z (int x + d) (int y))"
    using v by (intro arg_cong [where f = fold] ext) simp
  with scan_value [of "int W" "\<lambda>u. plane W H buf z u (int y)" "int x" erode r] plane01 [OF b z]
  show ?thesis unfolding k_morph_h_def Let_def by simp
qed

lemma k_morph_v_value:
  assumes b: "bytes01 W H planes buf" and z: "z < planes" and xy: "x < W" "y < H"
  shows "k_morph_v erode W H r buf z x y =
    (if (if erode then \<forall>u. \<bar>u - int y\<bar> \<le> r \<and> 0 \<le> u \<and> u < int H \<longrightarrow> plane W H buf z (int x) u = 1
         else \<exists>u. \<bar>u - int y\<bar> \<le> r \<and> 0 \<le> u \<and> u < int H \<and> plane W H buf z (int x) u = 1) then 1 else 0)"
proof -
  have v: "buf ! (z * (W * H) + nat u * W + x) = plane W H buf z (int x) u" if "0 \<le> u" "u < int H" for u
    using plane_nat [of x W "nat u" H buf z] that xy(1) by simp
  have "fold (\<lambda>d acc. if int y + d < 0 \<or> int y + d \<ge> int H then acc
      else if erode then acc AND buf ! (z * (W * H) + nat (int y + d) * W + x) else acc OR buf ! (z * (W * H) + nat (int y + d) * W + x)) =
    fold (\<lambda>d acc. if int y + d < 0 \<or> int y + d \<ge> int H then acc
      else if erode then acc AND plane W H buf z (int x) (int y + d) else acc OR plane W H buf z (int x) (int y + d))"
    using v by (intro arg_cong [where f = fold] ext) simp
  with scan_value [of "int H" "\<lambda>u. plane W H buf z (int x) u" "int y" erode r] plane01 [OF b z]
  show ?thesis unfolding k_morph_v_def Let_def by simp
qed

text \<open>A horizontal and a vertical pass make the rectangle.\<close>

lemma bytes01_over_planes:
  "(\<And>z x y. z < planes \<Longrightarrow> x < W \<Longrightarrow> y < H \<Longrightarrow> k z x y = 0 \<or> k z x y = 1) \<Longrightarrow> bytes01 W H planes (over_planes W H planes k)"
proof -
  assume k: "\<And>z x y. z < planes \<Longrightarrow> x < W \<Longrightarrow> y < H \<Longrightarrow> k z x y = 0 \<or> k z x y = 1"
  have "k (j div (W * H)) (j mod (W * H) mod W) (j mod (W * H) div W) \<in> {0, 1}" if j: "j < planes * (W * H)" for j
  proof -
    have "0 < W * H" using j by (auto intro: gr0I)
    then have "j mod (W * H) < W * H" by (rule mod_less_divisor)
    from pixel_coords(1,2) [OF this] k less_mult_imp_div_less [OF j] show ?thesis by simp
  qed
  then show ?thesis by (simp add: bytes01_def over_planes_def image_subset_iff)
qed

lemma set_of_1: "bytes01 W H planes buf \<Longrightarrow> z < planes \<Longrightarrow> (x, y) \<in> set_of W H buf z \<longleftrightarrow> plane W H buf z x y = 1"
  using plane01 [of W H planes buf z x y] by (auto simp: set_of_def)

lemma set_of_frame: "set_of W H buf z \<subseteq> frame W H"
  by (auto simp: set_of_def intro: ccontr dest: plane_outside)

lemma morph_pass_set:
  assumes b: "bytes01 W H planes (fst st)" and z: "z < planes"
  shows "set_of W H (fst (morph_pass W H planes erode k st)) z =
      (if erode then eroded W H (k div 2) (set_of W H (fst st) z) else dilated W H (k div 2) (set_of W H (fst st) z))"
    "bytes01 W H planes (fst (morph_pass W H planes erode k st))"
proof -
  let ?r = "k div 2" and ?buf = "fst st"
  define mid where "mid = over_planes W H planes (k_morph_h erode W H ?r ?buf)"
  have m01: "bytes01 W H planes mid"
    unfolding mid_def by (rule bytes01_over_planes) (simp add: k_morph_h_value [OF b])
  have res: "fst (morph_pass W H planes erode k st) = over_planes W H planes (k_morph_v erode W H ?r mid)"
    by (simp add: morph_pass_def Let_def mid_def)
  show "bytes01 W H planes (fst (morph_pass W H planes erode k st))"
    unfolding res by (rule bytes01_over_planes) (simp add: k_morph_v_value [OF m01])
  have h: "plane W H mid z u v = 1 \<longleftrightarrow>
      (if erode then \<forall>u'. \<bar>u' - u\<bar> \<le> ?r \<and> 0 \<le> u' \<and> u' < int W \<longrightarrow> (u', v) \<in> set_of W H ?buf z
       else \<exists>u'. \<bar>u' - u\<bar> \<le> ?r \<and> 0 \<le> u' \<and> u' < int W \<and> (u', v) \<in> set_of W H ?buf z)" if "(u, v) \<in> frame W H" for u v
  proof -
    from that have uv: "nat u < W" "nat v < H" "int (nat u) = u" "int (nat v) = v" by (auto simp: frame_def)
    show ?thesis
      unfolding mid_def plane_over_planes [OF z] set_of_1 [OF b z]
      using that k_morph_h_value [OF b z uv(1,2), of erode ?r] uv(3,4) by simp
  qed
  show "set_of W H (fst (morph_pass W H planes erode k st)) z =
      (if erode then eroded W H ?r (set_of W H ?buf z) else dilated W H ?r (set_of W H ?buf z))" (is "?l = ?s")
  proof (rule set_eqI, clarify)
    fix x y
    show "(x, y) \<in> ?l \<longleftrightarrow> (x, y) \<in> ?s"
    proof (cases "(x, y) \<in> frame W H")
      case False
      then have "(x, y) \<notin> ?l" "(x, y) \<notin> ?s"
        using subsetD [OF set_of_frame [of W H "fst (morph_pass W H planes erode k st)" z]] by (auto simp: eroded_def dilated_def)
      then show ?thesis by simp
    next
      case True
      then have xy: "nat x < W" "nat y < H" "int (nat x) = x" "int (nat y) = y" by (auto simp: frame_def)
      have nn: "0 \<le> x" "0 \<le> y" using True by (auto simp: frame_def)
      have col: "(x, v) \<in> frame W H \<longleftrightarrow> 0 \<le> v \<and> v < int H" for v using True by (auto simp: frame_def)
      have "(x, y) \<in> ?l \<longleftrightarrow> (if erode then \<forall>v. \<bar>v - y\<bar> \<le> ?r \<and> (x, v) \<in> frame W H \<longrightarrow> plane W H mid z x v = 1
          else \<exists>v. \<bar>v - y\<bar> \<le> ?r \<and> (x, v) \<in> frame W H \<and> plane W H mid z x v = 1)"
        unfolding res set_over_planes [OF z] using True k_morph_v_value [OF m01 z xy(1,2), of erode ?r] xy(3,4) nn col
        by (cases erode) simp_all
      also have "\<dots> \<longleftrightarrow> (x, y) \<in> ?s"
      proof (cases erode)
        case e: True
        show ?thesis
          using e True h set_of_frame [of W H ?buf z]
          by (auto simp: eroded_def box_near_def abs_minus_commute frame_def)
      next
        case e: False
        show ?thesis
        proof
          assume "if erode then \<forall>v. \<bar>v - y\<bar> \<le> ?r \<and> (x, v) \<in> frame W H \<longrightarrow> plane W H mid z x v = 1
            else \<exists>v. \<bar>v - y\<bar> \<le> ?r \<and> (x, v) \<in> frame W H \<and> plane W H mid z x v = 1"
          then obtain v where v: "\<bar>v - y\<bar> \<le> ?r" "(x, v) \<in> frame W H" "plane W H mid z x v = 1" using e by auto
          with h [OF v(2)] e obtain u where "\<bar>u - x\<bar> \<le> ?r" "(u, v) \<in> set_of W H ?buf z" by auto
          with v e True show "(x, y) \<in> ?s"
            by (auto simp: dilated_def box_near_def abs_minus_commute intro!: bexI [of _ "(u, v)"])
        next
          assume "(x, y) \<in> ?s"
          then obtain u v where uv: "(u, v) \<in> set_of W H ?buf z" "\<bar>u - x\<bar> \<le> ?r" "\<bar>v - y\<bar> \<le> ?r"
            using e by (auto simp: dilated_def box_near_def abs_minus_commute)
          then have "(u, v) \<in> frame W H" using set_of_frame by blast
          with True have f: "(x, v) \<in> frame W H" "0 \<le> u" "u < int W" by (auto simp: frame_def)
          with h [OF f(1)] e uv show "if erode then \<forall>v. \<bar>v - y\<bar> \<le> ?r \<and> (x, v) \<in> frame W H \<longrightarrow> plane W H mid z x v = 1
            else \<exists>v. \<bar>v - y\<bar> \<le> ?r \<and> (x, v) \<in> frame W H \<and> plane W H mid z x v = 1" by auto
        qed
      qed
      finally show ?thesis .
    qed
  qed
qed

definition cleaned :: "nat \<Rightarrow> nat \<Rightarrow> int \<Rightarrow> int \<Rightarrow> (int \<times> int) set \<Rightarrow> (int \<times> int) set" where
  \<comment> \<open>the closing of the opening, each with its rectangle when it is on\<close>
  "cleaned W H open_k close_k A =
    (let B = (if open_k > 1 then dilated W H (open_k div 2) (eroded W H (open_k div 2) A) else A) in
     if close_k > 1 then eroded W H (close_k div 2) (dilated W H (close_k div 2) B) else B)"

lemma launch_clean_morph_set:
  assumes b: "bytes01 W H planes a" and z: "z < planes"
  shows "set_of W H (fst (launch_clean_morph W H planes open_k close_k (a, b'))) z = cleaned W H open_k close_k (set_of W H a z)"
    "bytes01 W H planes (fst (launch_clean_morph W H planes open_k close_k (a, b')))"
proof -
  define st where "st = (if open_k > 1 then morph_pass W H planes False open_k (morph_pass W H planes True open_k (a, b')) else (a, b'))"
  have b0: "bytes01 W H planes (fst (a, b'))" using b by simp
  have b1: "bytes01 W H planes (fst st)" and s1: "set_of W H (fst st) z =
      (if open_k > 1 then dilated W H (open_k div 2) (eroded W H (open_k div 2) (set_of W H a z)) else set_of W H a z)"
    using morph_pass_set [OF b0 z] morph_pass_set(2) [OF b0 z, THEN morph_pass_set(1) [OF _ z]]
      morph_pass_set(2) [OF b0 z, THEN morph_pass_set(2) [OF _ z]] b by (simp_all add: st_def)
  note p = morph_pass_set [OF b1 z] morph_pass_set(2) [OF b1 z, THEN morph_pass_set(1) [OF _ z]]
    morph_pass_set(2) [OF b1 z, THEN morph_pass_set(2) [OF _ z]]
  have res: "launch_clean_morph W H planes open_k close_k (a, b') =
      (if close_k > 1 then morph_pass W H planes True close_k (morph_pass W H planes False close_k st) else st)"
    by (simp add: launch_clean_morph_def st_def Let_def)
  show "set_of W H (fst (launch_clean_morph W H planes open_k close_k (a, b'))) z = cleaned W H open_k close_k (set_of W H a z)"
    unfolding res cleaned_def Let_def s1 [symmetric] using p by simp
  show "bytes01 W H planes (fst (launch_clean_morph W H planes open_k close_k (a, b')))"
    unfolding res using p b1 by simp
qed

text \<open>C35: The separable passes clean a class mask by an opening and a closing with whole rectangles: whatever the scratch buffer
  held, the first buffer ends up holding, for every plane, the closing of the opening of its set pixels, where pixels outside the
  image do not count. The opening adds no pixel and the closing loses none, and doing either a second time changes nothing.\<close>

theorem masks_are_opened_and_closed:
  assumes "bytes01 W H planes a" "z < planes"
  shows "set_of W H (fst (launch_clean_morph W H planes open_k close_k (a, b))) z = cleaned W H open_k close_k (set_of W H a z) \<and>
    cleaned W H open_k 0 A \<inter> frame W H \<subseteq> A \<and> A \<inter> frame W H \<subseteq> cleaned W H 0 close_k (A \<inter> frame W H) \<and>
    cleaned W H open_k 0 (cleaned W H open_k 0 (A \<inter> frame W H)) = cleaned W H open_k 0 (A \<inter> frame W H) \<and>
    cleaned W H 0 close_k (cleaned W H 0 close_k (A \<inter> frame W H)) = cleaned W H 0 close_k (A \<inter> frame W H)"
proof -
  let ?A = "A \<inter> frame W H"
  have A: "?A \<subseteq> frame W H" by blast
  have "eroded W H r A = eroded W H r ?A" for r by (auto simp: eroded_def)
  then have "cleaned W H open_k 0 A \<inter> frame W H \<subseteq> A"
    using rect.opening_shrinks [OF A, of "open_k div 2"] by (auto simp: cleaned_def)
  moreover have "?A \<subseteq> cleaned W H 0 close_k ?A" using rect.closing_grows [OF A] by (simp add: cleaned_def Let_def)
  moreover have "cleaned W H open_k 0 (cleaned W H open_k 0 ?A) = cleaned W H open_k 0 ?A"
    using rect.opening_again [OF A] by (simp add: cleaned_def)
  moreover have "cleaned W H 0 close_k (cleaned W H 0 close_k ?A) = cleaned W H 0 close_k ?A"
    using rect.closing_again [OF A] by (simp add: cleaned_def Let_def)
  ultimately show ?thesis using launch_clean_morph_set(1) [OF assms] by blast
qed

text \<open>A single pixel in a row of three: the opening with a rectangle of width three removes it.\<close>

lemma masks_are_opened_and_closed_witness:
  "set_of 3 1 (fst (launch_clean_morph 3 1 1 3 0 ([0, 1, 0], [7, 7, 7]))) 0 = {}"
proof -
  have "bytes01 3 1 1 [0, 1, 0]" by (simp add: bytes01_def)
  from masks_are_opened_and_closed [OF this, of 0 3 0 "[7, 7, 7]" "{}"]
  have "set_of 3 1 (fst (launch_clean_morph 3 1 1 3 0 ([0, 1, 0], [7, 7, 7]))) 0 = cleaned 3 1 3 0 (set_of 3 1 [0, 1, 0] 0)" by simp
  moreover have "(0, 0) \<notin> set_of 3 1 [0, 1, 0] 0" "(2, 0) \<notin> set_of 3 1 [0, 1, 0] 0" by (simp_all add: set_of_def plane_def pic_def)
  then have "eroded 3 1 1 (set_of 3 1 [0, 1, 0] 0) = {}"
  proof -
    assume a: "(0, 0) \<notin> set_of 3 1 [0, 1, 0] 0" "(2, 0) \<notin> set_of 3 1 [0, 1, 0] 0"
    have "(x, y) \<notin> eroded 3 1 1 (set_of 3 1 [0, 1, 0] 0)" for x y
    proof
      assume e: "(x, y) \<in> eroded 3 1 1 (set_of 3 1 [0, 1, 0] 0)"
      then have xy: "0 \<le> x" "x \<le> 2" "y = 0" by (auto simp: eroded_def frame_def)
      have "(if x \<le> 1 then 0 else 2, 0) \<in> set_of 3 1 [0, 1, 0] 0" using e xy by (auto simp: eroded_def frame_def box_near_def)
      with a show False by (simp split: if_splits)
    qed
    then show ?thesis by auto
  qed
  ultimately show ?thesis by (simp add: cleaned_def dilated_def)
qed

section \<open>Class masks and the stop line\<close>

definition score_of :: "real list \<Rightarrow> nat \<Rightarrow> nat \<Rightarrow> nat \<Rightarrow> real" where
  "score_of logits HW i c = logits ! (c * HW + i)"

definition best_upto :: "real list \<Rightarrow> nat \<Rightarrow> nat \<Rightarrow> nat \<Rightarrow> nat \<times> real" where
  \<comment> \<open>the loop's variables after the classes up to \<open>n\<close>\<close>
  "best_upto logits HW i n =
    fold (\<lambda>c (best, bv). let v = logits ! (c * HW + i) in if v > bv then (c, v) else (best, bv)) [1..<Suc n] (0, logits ! i)"

lemma best_upto_0: "best_upto logits HW i 0 = (0, score_of logits HW i 0)"
  by (simp add: best_upto_def score_of_def)

lemma best_upto_Suc: "best_upto logits HW i (Suc n) = (case best_upto logits HW i n of (best, bv) \<Rightarrow>
    if score_of logits HW i (Suc n) > bv then (Suc n, score_of logits HW i (Suc n)) else (best, bv))"
proof -
  have "[1..<Suc (Suc n)] = [1..<Suc n] @ [Suc n]" by simp
  then show ?thesis unfolding best_upto_def fold_append comp_def by (simp add: score_of_def Let_def split: prod.splits)
qed

lemma best_upto_best:
  "\<exists>b. best_upto logits HW i n = (b, score_of logits HW i b) \<and> b \<le> n \<and>
    (\<forall>c \<le> n. score_of logits HW i c \<le> score_of logits HW i b) \<and> (\<forall>c < b. score_of logits HW i c < score_of logits HW i b)"
proof (induction n)
  case 0
  show ?case by (simp add: best_upto_0)
next
  case (Suc n)
  then obtain b where b: "best_upto logits HW i n = (b, score_of logits HW i b)" "b \<le> n"
    "\<And>c. c \<le> n \<Longrightarrow> score_of logits HW i c \<le> score_of logits HW i b" "\<And>c. c < b \<Longrightarrow> score_of logits HW i c < score_of logits HW i b"
    by blast
  show ?case
  proof (cases "score_of logits HW i (Suc n) > score_of logits HW i b")
    case True
    with b show ?thesis
      by (intro exI [of _ "Suc n"]) (auto simp: best_upto_Suc le_Suc_eq less_Suc_eq_le intro: order.trans le_less_trans less_imp_le)
  next
    case False
    with b show ?thesis by (intro exI [of _ b]) (auto simp: best_upto_Suc le_Suc_eq)
  qed
qed

lemma best_class_is_first_best:
  assumes "0 < C"
  shows "best_class logits C HW i < C \<and> (\<forall>c < C. score_of logits HW i c \<le> score_of logits HW i (best_class logits C HW i)) \<and>
    (\<forall>c < best_class logits C HW i. score_of logits HW i c < score_of logits HW i (best_class logits C HW i))"
proof -
  obtain n where C: "C = Suc n" using assms by (cases C) auto
  have "best_class logits C HW i = fst (best_upto logits HW i n)" by (simp only: best_class_def best_upto_def C)
  with best_upto_best [of logits HW i n] show ?thesis by (auto simp: C less_Suc_eq_le)
qed

lemma seg_planes_01: "bytes01 W H 3 (k_seg_planes logits C (W * H))"
  by (auto simp: bytes01_def k_seg_planes_def)

text \<open>A pixel belongs to at most one of the three masks.\<close>

lemma seg_planes_disjoint:
  assumes "a < 3" "b < 3" "p \<in> set_of W H (k_seg_planes logits C (W * H)) a" "p \<in> set_of W H (k_seg_planes logits C (W * H)) b"
  shows "a = b"
proof -
  obtain x y where p: "p = (x, y)" by (cases p)
  have F: "(x, y) \<in> frame W H" using set_of_frame assms(3) p by blast
  then have xy: "nat x < W" "nat y < H" "int (nat x) = x" "int (nat y) = y" by (auto simp: frame_def)
  have "best_class logits C (W * H) (nat y * W + nat x) = z + 1" if z: "z < 3" and m: "(x, y) \<in> set_of W H (k_seg_planes logits C (W * H)) z" for z
  proof -
    let ?j = "z * (W * H) + nat y * W + nat x"
    note c = cell_coords [OF xy(1,2), of ?j z, OF refl] and j = over_planes_nth(2) [OF z xy(1,2) refl]
    have "?j mod (W * H) = nat y * W + nat x" using c(4) by (simp add: add.assoc)
    moreover have "k_seg_planes logits C (W * H) ! ?j \<noteq> 0"
      using m plane_nat [OF xy(1,2), of "k_seg_planes logits C (W * H)" z] xy(3,4) by (simp add: set_of_def)
    ultimately show ?thesis using j c(1) by (simp add: k_seg_planes_def split: if_splits)
  qed
  from this [OF assms(1)] this [OF assms(2)] assms(3,4) p show ?thesis by simp
qed

lemma find_rev_upt:
  "find P (rev [0..<n]) = (if \<exists>v < n. P v then Some (GREATEST v. v < n \<and> P v) else None)"
proof (induction n)
  case (Suc n)
  show ?case
  proof (cases "P n")
    case True
    then have "(GREATEST v. v < Suc n \<and> P v) = n" by (intro Greatest_equality) auto
    with True show ?thesis by auto
  next
    case False
    then have "(\<exists>v < Suc n. P v) = (\<exists>v < n. P v)" "\<And>v. v < Suc n \<and> P v \<longleftrightarrow> v < n \<and> P v" by (auto simp: less_Suc_eq)
    with False Suc show ?thesis by simp
  qed
qed simp

lemma int16_id: "- 32768 \<le> v \<Longrightarrow> v < 32768 \<Longrightarrow> int16 v = v"
  by (simp add: int16_def signed_of_int signed_take_bit_int_eq_self)

text \<open>The entry of a column is its lowest set row, or -1 when it has none.\<close>

lemma leading_edge_is_lowest_row:
  assumes "H \<le> 32768" "0 < step"
  shows "k_leading_edge m W H step u =
    (if \<exists>v < cdiv H step. m ! (v * step * W + u * step) \<noteq> 0 then int (GREATEST v. v < cdiv H step \<and> m ! (v * step * W + u * step) \<noteq> 0) else -1)"
proof -
  have "H * 1 \<le> H * step" using assms(2) by (intro mult_le_mono2) simp
  then have "H + step - 1 < Suc H * step" unfolding mult_1_right mult_Suc using assms(2) by linarith
  then have "cdiv H step < Suc H" unfolding cdiv_def by (rule less_mult_imp_div_less)
  with assms(1) have small: "v < cdiv H step \<Longrightarrow> int16 (int v) = int v" for v by (intro int16_id) simp_all
  let ?P = "\<lambda>v. m ! (v * step * W + u * step) \<noteq> 0"
  have g: "(GREATEST v. v < cdiv H step \<and> ?P v) < cdiv H step" if "\<exists>v < cdiv H step. ?P v"
  proof -
    from that obtain v where "v < cdiv H step \<and> ?P v" by blast
    from GreatestI_nat [of "\<lambda>v. v < cdiv H step \<and> ?P v", OF this, of "cdiv H step"] show ?thesis by auto
  qed
  show ?thesis
    unfolding k_leading_edge_def Let_def cdiv_def [symmetric] find_rev_upt using small [OF g] by simp
qed

end
