(* ===== verification/Skeleton_Order.thy ===== *)
theory Skeleton_Order
  imports Messages "HOL-Library.Multiset" "HOL-Library.Product_Lexorder"
begin

text \<open>
  \<open>src/vision_cpp/src/thinning.cpp\<close>: the ordering of the skeleton pixels of a lane mask. Component labels get dense
  numbers from an open-addressing table whose slots are invalidated by a stamp; components are ranked by their mean
  column; a counting sort over (rank, row) and a sort of each bucket then put out the pixels. The vectors of
  \<open>SkelScratch\<close> that a call resizes without clearing are part of the state. The probing loop is a partial
  function, and the lemmas show that it returns as long as there are fewer labels than slots, and that the result
  is the sort of the pixels by (mean column, label, row from the bottom, column) whatever the scratch held before.
\<close>

unbundle bit_operations_syntax

section \<open>Data\<close>

record skel_pix =
  px_label :: int
  px_v :: int
  px_u :: int

record label_slot =
  sl_stamp :: u32
  sl_label :: int
  sl_idx :: nat

record skel_scratch =
  sc_table :: "label_slot list"
  sc_stamp :: u32
  sc_cid :: "nat list"
  sc_rank :: "nat list"
  sc_su :: "int list"

definition new_skel_scratch :: skel_scratch where
  "new_skel_scratch = \<lparr>sc_table = [], sc_stamp = 0, sc_cid = [], sc_rank = [], sc_su = []\<rparr>"

definition kSlots :: u32 where
  "kSlots = push_bit 15 1"

definition resized :: "nat \<Rightarrow> 'a \<Rightarrow> 'a list \<Rightarrow> 'a list" where
  \<comment> \<open>\<open>std::vector::resize\<close> keeps the elements it can\<close>
  "resized n x xs = take n xs @ replicate (n - length xs) x"

definition next_stamp :: "skel_scratch \<Rightarrow> skel_scratch" where
  "next_stamp sc =
    (let sc = (if sc_table sc = [] then sc\<lparr>sc_table := replicate (unat kSlots) \<lparr>sl_stamp = 0, sl_label = 0, sl_idx = 0\<rparr>\<rparr> else sc);
         sc = sc\<lparr>sc_stamp := sc_stamp sc + 1\<rparr> in
     if sc_stamp sc = 0 then sc\<lparr>sc_table := map (\<lambda>s. s\<lparr>sl_stamp := 0\<rparr>) (sc_table sc), sc_stamp := 1\<rparr> else sc)"

section \<open>Dense component numbers\<close>

definition slot_hash :: "int \<Rightarrow> u32" where
  "slot_hash l = drop_bit 17 (word_of_int l * 2654435761)"

definition next_slot :: "u32 \<Rightarrow> u32" where
  "next_slot h = (h + 1) AND (kSlots - 1)"

partial_function (option) probe :: "label_slot list \<Rightarrow> u32 \<Rightarrow> int \<Rightarrow> u32 \<Rightarrow> u32 option" where
  \<comment> \<open>the slot the loop ends at: a stale one, which it takes, or the one of the label\<close>
  "probe t st l h =
    (if sl_stamp (t ! unat h) \<noteq> st \<or> sl_label (t ! unat h) = l then Some h else probe t st l (next_slot h))"

record dense =
  dn_table :: "label_slot list"
  dn_cid :: "nat list"
  dn_labels :: "int list"
  dn_cnt :: "nat list"
  dn_sumu :: "real list"

definition take_slot :: "u32 \<Rightarrow> int \<Rightarrow> u32 \<Rightarrow> dense \<Rightarrow> dense" where
  "take_slot st l h d =
    (if sl_stamp (dn_table d ! unat h) \<noteq> st
     then d\<lparr>dn_table := (dn_table d)[unat h := \<lparr>sl_stamp = st, sl_label = l, sl_idx = length (dn_labels d)\<rparr>],
            dn_labels := dn_labels d @ [l], dn_cnt := dn_cnt d @ [0], dn_sumu := dn_sumu d @ [0]\<rparr>
     else d)"

definition see_pixel :: "u32 \<Rightarrow> nat \<Rightarrow> skel_pix \<Rightarrow> dense \<Rightarrow> dense option" where
  "see_pixel st i q d =
    (case probe (dn_table d) st (px_label q) (slot_hash (px_label q)) of
       None \<Rightarrow> None
     | Some h \<Rightarrow>
        (let d = take_slot st (px_label q) h d; k = sl_idx (dn_table d ! unat h) in
         Some (d\<lparr>dn_cid := (dn_cid d)[i := k], dn_cnt := (dn_cnt d)[k := dn_cnt d ! k + 1],
                 dn_sumu := (dn_sumu d)[k := dn_sumu d ! k + of_int (px_u q)]\<rparr>)))"

primrec see_pixels :: "u32 \<Rightarrow> nat \<Rightarrow> skel_pix list \<Rightarrow> dense \<Rightarrow> dense option" where
  "see_pixels st i [] d = Some d"
| "see_pixels st i (q # qs) d = (case see_pixel st i q d of None \<Rightarrow> None | Some d' \<Rightarrow> see_pixels st (Suc i) qs d')"

section \<open>Ranks and buckets\<close>

definition component_order :: "dense \<Rightarrow> nat list" where
  "component_order d = sort_key (\<lambda>a. (dn_sumu d ! a / of_nat (dn_cnt d ! a), dn_labels d ! a)) [0..<length (dn_labels d)]"

definition component_ranks :: "nat list \<Rightarrow> nat list \<Rightarrow> nat list" where
  "component_ranks order old = fold (\<lambda>k r. r[order ! k := k]) [0..<length order] old"

definition bucket_of :: "skel_pix list \<Rightarrow> int \<Rightarrow> int \<Rightarrow> nat list \<Rightarrow> nat list \<Rightarrow> nat \<Rightarrow> nat option" where
  "bucket_of pix v_min rows rank cid i =
    (let v = px_v (pix ! i) - v_min in
     if v < 0 \<or> v \<ge> rows then None
     else Some (rank ! (cid ! i) * nat rows + nat (rows - 1 - v)))"

definition count_buckets :: "(nat \<Rightarrow> nat option) \<Rightarrow> nat \<Rightarrow> nat \<Rightarrow> nat list" where
  "count_buckets bf n nb =
    fold (\<lambda>i c. case bf i of None \<Rightarrow> c | Some b \<Rightarrow> c[b + 1 := c ! (b + 1) + 1]) [0..<n] (replicate (nb + 1) 0)"

definition prefix_sums :: "nat \<Rightarrow> nat list \<Rightarrow> nat list" where
  "prefix_sums nb c = fold (\<lambda>b c. c[b + 1 := c ! (b + 1) + c ! b]) [0..<nb] c"

definition scatter :: "(nat \<Rightarrow> nat option) \<Rightarrow> (nat \<Rightarrow> int) \<Rightarrow> nat \<Rightarrow> nat list \<times> int list \<Rightarrow> nat list \<times> int list" where
  "scatter bf uf n s =
    fold (\<lambda>i (cur, su). case bf i of
        None \<Rightarrow> (cur, su)
      | Some b \<Rightarrow> (cur[b := cur ! b + 1], su[cur ! b := uf i])) [0..<n] s"

definition sort_range :: "nat \<Rightarrow> nat \<Rightarrow> int list \<Rightarrow> int list" where
  "sort_range s e su = take s su @ sort (take (e - s) (drop s su)) @ drop e su"

definition emit_bucket ::
  "nat list \<Rightarrow> int \<Rightarrow> int \<Rightarrow> nat \<Rightarrow> int list \<times> int list \<times> int list \<Rightarrow> int list \<times> int list \<times> int list" where
  "emit_bucket bucket v_min rows b st =
    (case st of (su, ov, ou) \<Rightarrow>
      (let s = bucket ! b; e = bucket ! (b + 1) in
       if s = e then st
       else
        (let su = (if e - s > 1 then sort_range s e su else su); v = v_min + rows - 1 - int (b mod nat rows) in
         (su, ov @ map (\<lambda>j. v) [s..<e], ou @ map (\<lambda>j. su ! j) [s..<e]))))"

definition order_skeleton_pixels ::
  "skel_pix list \<Rightarrow> int \<Rightarrow> int \<Rightarrow> skel_scratch \<Rightarrow> (int list \<times> int list \<times> skel_scratch) option" where
  "order_skeleton_pixels pix v_min rows sc =
    (if pix = [] \<or> rows \<le> 0 then Some ([], [], sc)
     else
      (let sc = next_stamp sc; n = length pix in
       case see_pixels (sc_stamp sc) 0 pix
           \<lparr>dn_table = sc_table sc, dn_cid = resized n 0 (sc_cid sc), dn_labels = [], dn_cnt = [], dn_sumu = []\<rparr> of
         None \<Rightarrow> None
       | Some d \<Rightarrow>
          (let nc = length (dn_labels d);
               rank = component_ranks (component_order d) (resized nc 0 (sc_rank sc));
               nb = nc * nat rows;
               bf = bucket_of pix v_min rows rank (dn_cid d);
               bucket = prefix_sums nb (count_buckets bf n nb);
               (cur, su) = scatter bf (\<lambda>i. px_u (pix ! i)) n (butlast bucket, resized (bucket ! nb) 0 (sc_su sc));
               (su, ov, ou) = fold (emit_bucket bucket v_min rows) [0..<nb] (su, [], []) in
           Some (ov, ou, sc\<lparr>sc_table := dn_table d, sc_cid := dn_cid d, sc_rank := rank, sc_su := su\<rparr>))))"

section \<open>The counting sort\<close>

text \<open>The pixels of a bucket, and how many lie in the buckets before it.\<close>

definition members :: "(nat \<Rightarrow> nat option) \<Rightarrow> nat \<Rightarrow> nat \<Rightarrow> nat list" where
  "members bf n b = filter (\<lambda>i. bf i = Some b) [0..<n]"

definition bucket_start :: "(nat \<Rightarrow> nat option) \<Rightarrow> nat \<Rightarrow> nat \<Rightarrow> nat" where
  "bucket_start bf n b = (\<Sum>c<b. length (members bf n c))"

lemma members_0 [simp]: "members bf 0 b = []"
  by (simp add: members_def)

lemma members_Suc: "members bf (Suc n) b = members bf n b @ (if bf n = Some b then [n] else [])"
  by (simp add: members_def)

lemma bucket_start_Suc: "bucket_start bf n (Suc b) = bucket_start bf n b + length (members bf n b)"
  by (simp add: bucket_start_def)

lemma bucket_start_mono: "a \<le> b \<Longrightarrow> bucket_start bf n a \<le> bucket_start bf n b"
  unfolding bucket_start_def by (rule sum_mono2) auto

definition fits :: "(nat \<Rightarrow> nat option) \<Rightarrow> nat \<Rightarrow> nat \<Rightarrow> bool" where
  "fits bf n nb \<longleftrightarrow> (\<forall>i < n. \<forall>b. bf i = Some b \<longrightarrow> b < nb)"

lemma fitsD: "fits bf n nb \<Longrightarrow> i < n \<Longrightarrow> bf i = Some b \<Longrightarrow> b < nb"
  by (simp add: fits_def)

lemma fits_Suc: "fits bf (Suc n) nb \<longleftrightarrow> fits bf n nb \<and> (\<forall>b. bf n = Some b \<longrightarrow> b < nb)"
  by (auto simp: fits_def less_Suc_eq)

lemma count_buckets_facts:
  assumes "fits bf n nb"
  shows "length (count_buckets bf n nb) = nb + 1 \<and> count_buckets bf n nb ! 0 = 0 \<and>
    (\<forall>b < nb. count_buckets bf n nb ! Suc b = length (members bf n b))"
  using assms
proof (induction n)
  case 0
  show ?case by (simp add: count_buckets_def)
next
  case (Suc n)
  have "count_buckets bf (Suc n) nb = (case bf n of None \<Rightarrow> count_buckets bf n nb
      | Some b \<Rightarrow> (count_buckets bf n nb)[b + 1 := count_buckets bf n nb ! (b + 1) + 1])"
    by (simp add: count_buckets_def split: option.split)
  with Suc show ?case by (auto simp: fits_Suc members_Suc nth_list_update split: option.splits)
qed

lemma prefix_sums_facts:
  assumes "length c = nb + 1" "k \<le> nb"
  shows "length (prefix_sums k c) = nb + 1 \<and>
    (\<forall>j \<le> nb. prefix_sums k c ! j = (if j \<le> k then \<Sum>i\<le>j. c ! i else c ! j))"
  using assms(2)
proof (induction k)
  case 0
  show ?case by (simp add: prefix_sums_def assms(1))
next
  case (Suc k)
  have "prefix_sums (Suc k) c = (prefix_sums k c)[k + 1 := prefix_sums k c ! (k + 1) + prefix_sums k c ! k]"
    by (simp add: prefix_sums_def)
  with Suc show ?case by (auto simp: nth_list_update le_Suc_eq)
qed

lemma bucket_bounds:
  assumes "fits bf n nb" "b \<le> nb"
  shows "prefix_sums nb (count_buckets bf n nb) ! b = bucket_start bf n b"
proof -
  note c = count_buckets_facts [OF assms(1)]
  have "prefix_sums nb (count_buckets bf n nb) ! b = (\<Sum>i\<le>b. count_buckets bf n nb ! i)"
    using prefix_sums_facts [of "count_buckets bf n nb" nb nb] c assms(2) by simp
  also have "\<dots> = (\<Sum>i<b. count_buckets bf n nb ! Suc i)"
    using c by (subst sum.atMost_shift) (simp add: lessThan_atLeast0)
  also have "\<dots> = bucket_start bf n b"
    unfolding bucket_start_def using c assms(2) by (intro sum.cong) auto
  finally show ?thesis .
qed

lemma members_mono: "m \<le> n \<Longrightarrow> length (members bf m b) \<le> length (members bf n b)"
  by (induction n) (auto simp: members_Suc le_Suc_eq)

lemma members_room: "m < n \<Longrightarrow> bf m = Some b \<Longrightarrow> length (members bf m b) < length (members bf n b)"
  using members_mono [of "Suc m" n bf b] by (simp add: members_Suc)

lemma bucket_apart:
  assumes "j < length (members bf n b)" "k < length (members bf n c)" "bucket_start bf n b + j = bucket_start bf n c + k"
  shows "b = c \<and> j = k"
proof -
  have "\<not> b < c" using bucket_start_mono [of "Suc b" c bf n] assms by (auto simp: bucket_start_Suc)
  moreover have "\<not> c < b" using bucket_start_mono [of "Suc c" b bf n] assms by (auto simp: bucket_start_Suc)
  ultimately show ?thesis using assms(3) by (cases "b = c") auto
qed

lemma bucket_below_total:
  assumes "b < nb" "j < length (members bf n b)"
  shows "bucket_start bf n b + j < bucket_start bf n nb"
  using bucket_start_mono [of "Suc b" nb bf n] assms by (simp add: bucket_start_Suc)

lemma scatter_facts:
  assumes bound: "fits bf n nb"
    and cur: "length cur = nb" "\<And>b. b < nb \<Longrightarrow> cur ! b = bucket_start bf n b"
    and su: "length su = bucket_start bf n nb"
    and m: "m \<le> n" "scatter bf uf m (cur, su) = (cur', su')"
  shows "length cur' = nb \<and> length su' = length su \<and>
    (\<forall>b < nb. cur' ! b = bucket_start bf n b + length (members bf m b) \<and>
      (\<forall>j < length (members bf m b). su' ! (bucket_start bf n b + j) = uf (members bf m b ! j)))"
  using m
proof (induction m arbitrary: cur' su')
  case 0
  then show ?case using cur by (simp add: scatter_def)
next
  case (Suc m)
  obtain c1 s1 where one: "scatter bf uf m (cur, su) = (c1, s1)" by fastforce
  note ih = Suc.IH [OF _ one]
  have step: "(cur', su') = (case bf m of None \<Rightarrow> (c1, s1) | Some b \<Rightarrow> (c1[b := c1 ! b + 1], s1[c1 ! b := uf m]))"
    using Suc.prems(2) one by (simp add: scatter_def)
  show ?case
  proof (cases "bf m")
    case None
    with ih step Suc.prems(1) show ?thesis by (simp add: members_Suc)
  next
    case (Some b)
    have m_lt: "m < n" using Suc.prems(1) by simp
    have b: "b < nb" using fitsD [OF bound m_lt Some] .
    have room: "length (members bf m b) < length (members bf n b)" using m_lt Some by (rule members_room)
    let ?pos = "bucket_start bf n b + length (members bf m b)"
    have c1b: "c1 ! b = ?pos" using ih b m_lt by simp
    have pos: "?pos < length s1" using bucket_below_total [OF b room] ih su m_lt by simp
    have new: "cur' = c1[b := ?pos + 1]" "su' = s1[?pos := uf m]" using step Some c1b by simp_all
    have "su' ! (bucket_start bf n c + j) = uf (members bf (Suc m) c ! j)"
      if c: "c < nb" and j: "j < length (members bf (Suc m) c)" for c j
    proof (cases "c = b \<and> j = length (members bf m b)")
      case True
      then show ?thesis using new pos Some by (simp add: members_Suc)
    next
      case False
      then have j': "j < length (members bf m c)" using j Some by (auto simp: members_Suc split: if_splits)
      have "j < length (members bf n c)" using j' members_mono [of m n bf c] m_lt by simp
      then have "bucket_start bf n c + j \<noteq> ?pos"
        using bucket_apart [OF _ room, of j c] False by auto
      then have "su' ! (bucket_start bf n c + j) = s1 ! (bucket_start bf n c + j)" using new by simp
      then show ?thesis using ih c j' m_lt by (simp add: members_Suc nth_append)
    qed
    moreover have "cur' ! c = bucket_start bf n c + length (members bf (Suc m) c)" if "c < nb" for c
      using ih that m_lt new Some by (auto simp: members_Suc nth_list_update)
    ultimately show ?thesis using new ih m_lt by simp
  qed
qed

lemma scatter_segment:
  assumes "fits bf n nb"
    and "length cur = nb" "\<And>b. b < nb \<Longrightarrow> cur ! b = bucket_start bf n b" "length su = bucket_start bf n nb"
    and "scatter bf uf n (cur, su) = (cur', su')" and "b < nb"
  shows "take (length (members bf n b)) (drop (bucket_start bf n b) su') = map uf (members bf n b)"
proof -
  note f = scatter_facts [OF assms(1-4) le_refl assms(5)]
  have "bucket_start bf n b + length (members bf n b) \<le> length su'"
    using bucket_start_mono [of "Suc b" nb bf n] assms(4,6) f by (simp add: bucket_start_Suc)
  then show ?thesis using f assms(6) by (intro nth_equalityI) auto
qed

text \<open>Putting out the buckets: sorting one leaves those behind it as they were.\<close>

lemma nth_sort_range_later:
  "s \<le> e \<Longrightarrow> e \<le> length su \<Longrightarrow> drop e (sort_range s e su) = drop e su \<and> length (sort_range s e su) = length su \<and>
   take (e - s) (drop s (sort_range s e su)) = sort (take (e - s) (drop s su))"
  by (simp add: sort_range_def)

lemma segment_map: "s \<le> e \<Longrightarrow> e \<le> length su \<Longrightarrow> map (\<lambda>j. su ! j) [s..<e] = take (e - s) (drop s su)"
  by (intro nth_equalityI) auto

lemma sort_short: "length (xs :: int list) \<le> 1 \<Longrightarrow> sort xs = xs"
  by (cases xs; cases "tl xs") auto

lemma drop_beyond: "drop e xs = drop e ys \<Longrightarrow> e \<le> e' \<Longrightarrow> drop e' xs = drop e' ys"
  by (metis drop_drop le_add_diff_inverse2)

definition segment :: "(nat \<Rightarrow> nat option) \<Rightarrow> nat \<Rightarrow> int list \<Rightarrow> nat \<Rightarrow> int list" where
  "segment bf n su b = take (length (members bf n b)) (drop (bucket_start bf n b) su)"

lemma emit_bucket_facts:
  assumes bucket: "bucket ! b = bucket_start bf n b" "bucket ! (b + 1) = bucket_start bf n (Suc b)"
    and len: "bucket_start bf n (Suc b) \<le> length su"
    and out: "emit_bucket bucket v_min rows b (su, ov, ou) = (su', ov', ou')"
  shows "length su' = length su \<and> drop (bucket_start bf n (Suc b)) su' = drop (bucket_start bf n (Suc b)) su \<and>
    ou' = ou @ sort (segment bf n su b) \<and>
    ov' = ov @ replicate (length (members bf n b)) (v_min + rows - 1 - int (b mod nat rows))"
proof -
  let ?s = "bucket_start bf n b" and ?e = "bucket_start bf n (Suc b)"
  have e: "?e = ?s + length (members bf n b)" by (rule bucket_start_Suc)
  show ?thesis
  proof (cases "?s = ?e")
    case True
    then have "members bf n b = []" using e by (cases "members bf n b") auto
    moreover have "su' = su \<and> ov' = ov \<and> ou' = ou" using out bucket True by (simp add: emit_bucket_def)
    ultimately show ?thesis by (simp add: segment_def)
  next
    case False
    let ?su = "if ?e - ?s > 1 then sort_range ?s ?e su else su"
    have r: "su' = ?su" "ov' = ov @ map (\<lambda>j. v_min + rows - 1 - int (b mod nat rows)) [?s..<?e]"
      "ou' = ou @ map (\<lambda>j. ?su ! j) [?s..<?e]"
      using out False bucket by (auto simp: emit_bucket_def Let_def)
    note srt = nth_sort_range_later [of ?s ?e su]
    have "take (?e - ?s) (drop ?s ?su) = sort (take (?e - ?s) (drop ?s su))"
      using srt e len by (auto simp: sort_short)
    then have "map (\<lambda>j. ?su ! j) [?s..<?e] = sort (segment bf n su b)"
      using segment_map [of ?s ?e ?su] srt e len by (auto simp: segment_def)
    moreover have "map (\<lambda>j. c) [?s..<?e] = replicate (length (members bf n b)) c" for c :: int
      using e by (simp add: map_replicate_const)
    moreover have "length ?su = length su \<and> drop ?e ?su = drop ?e su" using srt e len by simp
    ultimately show ?thesis using r by simp
  qed
qed

lemma segment_cong: "drop (bucket_start bf n b) su' = drop (bucket_start bf n b) su \<Longrightarrow> segment bf n su' b = segment bf n su b"
  by (simp add: segment_def)

definition bucket_row :: "int \<Rightarrow> int \<Rightarrow> nat \<Rightarrow> int" where
  "bucket_row v_min rows b = v_min + rows - 1 - int (b mod nat rows)"

lemma emit_all:
  assumes bucket: "\<And>b. b \<le> nb \<Longrightarrow> bucket ! b = bucket_start bf n b" and len: "length su = bucket_start bf n nb"
    and k: "k \<le> nb" and run: "fold (emit_bucket bucket v_min rows) [0..<k] (su, [], []) = (su', ov, ou)"
  shows "length su' = length su \<and> drop (bucket_start bf n k) su' = drop (bucket_start bf n k) su \<and>
    ou = concat (map (\<lambda>b. sort (segment bf n su b)) [0..<k]) \<and>
    ov = concat (map (\<lambda>b. replicate (length (members bf n b)) (bucket_row v_min rows b)) [0..<k])"
  using k run
proof (induction k arbitrary: su' ov ou)
  case 0
  then show ?case by simp
next
  case (Suc k)
  obtain s1 v1 u1 where one: "fold (emit_bucket bucket v_min rows) [0..<k] (su, [], []) = (s1, v1, u1)"
    by (metis prod_cases3)
  have k: "k < nb" using Suc.prems(1) by simp
  note ih = Suc.IH [OF less_imp_le [OF k] one]
  have last_step: "emit_bucket bucket v_min rows k (s1, v1, u1) = (su', ov, ou)" using Suc.prems(2) one by simp
  have "bucket_start bf n (Suc k) \<le> length s1" using ih len bucket_start_mono [of "Suc k" nb bf n] k by simp
  note f = emit_bucket_facts [OF _ _ this last_step]
  have b: "bucket ! k = bucket_start bf n k" "bucket ! (k + 1) = bucket_start bf n (Suc k)"
    using bucket [of k] bucket [of "Suc k"] k by simp_all
  have "segment bf n s1 k = segment bf n su k" using ih segment_cong by blast
  moreover have "drop (bucket_start bf n (Suc k)) s1 = drop (bucket_start bf n (Suc k)) su"
    using ih drop_beyond [of "bucket_start bf n k" s1 su] bucket_start_mono [of k "Suc k" bf n] by simp
  ultimately show ?case using f [OF b] ih by (simp add: bucket_row_def)
qed

lemma zip_concat:
  "(\<And>x. x \<in> set xs \<Longrightarrow> length (f x) = length (g x)) \<Longrightarrow>
   zip (concat (map f xs)) (concat (map g xs)) = concat (map (\<lambda>x. zip (f x) (g x)) xs)"
  by (induction xs) auto

text \<open>The buckets with their sorted columns are the sort of the (bucket, column) pairs.\<close>

lemma mset_filter_split:
  "(\<And>x. x \<in> set xs \<Longrightarrow> \<not> (P x \<and> Q x)) \<Longrightarrow>
   mset (filter (\<lambda>x. P x \<or> Q x) xs) = mset (filter P xs) + mset (filter Q xs)"
  by (induction xs) auto

lemma mset_members:
  "mset (concat (map (\<lambda>b. members bf n b) [0..<nb])) = mset (filter (\<lambda>i. \<exists>b < nb. bf i = Some b) [0..<n])"
proof (induction nb)
  case 0
  show ?case by simp
next
  case (Suc nb)
  have "filter (\<lambda>i. \<exists>b < Suc nb. bf i = Some b) [0..<n] = filter (\<lambda>i. (\<exists>b < nb. bf i = Some b) \<or> bf i = Some nb) [0..<n]"
    by (rule filter_cong) (auto simp: less_Suc_eq)
  also have "mset \<dots> = mset (filter (\<lambda>i. \<exists>b < nb. bf i = Some b) [0..<n]) + mset (members bf n nb)"
    unfolding members_def by (rule mset_filter_split) auto
  finally show ?case using Suc by simp
qed

lemma sorted_buckets:
  fixes us :: "nat \<Rightarrow> int list"
  shows "sorted (concat (map (\<lambda>b. map (Pair b) (sort (us b))) [0..<nb]))"
proof (induction nb)
  case (Suc nb)
  have "sorted (map (Pair nb) (sort (us nb)))" by (rule sorted_wrt_map_mono [of "(\<le>)"]) auto
  with Suc show ?case by (auto simp: sorted_append)
qed simp

lemma mset_concat_cong:
  "(\<And>x. mset (f x) = mset (map h (g x))) \<Longrightarrow> mset (concat (map f xs)) = mset (map h (concat (map g xs)))"
  by (induction xs) simp_all

lemma buckets_sort:
  fixes uf :: "nat \<Rightarrow> int"
  assumes "fits bf n nb"
  shows "concat (map (\<lambda>b. map (Pair b) (sort (map uf (members bf n b)))) [0..<nb]) =
    sort (map (\<lambda>i. (the (bf i), uf i)) (filter (\<lambda>i. bf i \<noteq> None) [0..<n]))"
proof (rule properties_for_sort [symmetric])
  show "sorted (concat (map (\<lambda>b. map (Pair b) (sort (map uf (members bf n b)))) [0..<nb]))"
    by (rule sorted_buckets)
  have bucket: "mset (map (Pair b) (sort (map uf (members bf n b)))) = mset (map (\<lambda>i. (the (bf i), uf i)) (members bf n b))" for b
  proof -
    have "map (\<lambda>i. (the (bf i), uf i)) (members bf n b) = map (Pair b) (map uf (members bf n b))"
      unfolding map_map by (rule map_cong) (auto simp: members_def)
    then show ?thesis by (simp only: mset_map mset_sort)
  qed
  have "mset (concat (map (\<lambda>b. map (Pair b) (sort (map uf (members bf n b)))) [0..<nb])) =
      mset (map (\<lambda>i. (the (bf i), uf i)) (concat (map (\<lambda>b. members bf n b) [0..<nb])))"
    by (rule mset_concat_cong) (rule bucket)
  also have "\<dots> = image_mset (\<lambda>i. (the (bf i), uf i)) (mset (filter (\<lambda>i. \<exists>b < nb. bf i = Some b) [0..<n]))"
    by (simp only: mset_map mset_members)
  also have "filter (\<lambda>i. \<exists>b < nb. bf i = Some b) [0..<n] = filter (\<lambda>i. bf i \<noteq> None) [0..<n]"
    using assms by (intro filter_cong) (auto dest: fitsD)
  finally show "mset (concat (map (\<lambda>b. map (Pair b) (sort (map uf (members bf n b)))) [0..<nb])) =
      mset (map (\<lambda>i. (the (bf i), uf i)) (filter (\<lambda>i. bf i \<noteq> None) [0..<n]))"
    by simp
qed

lemma length_resized [simp]: "length (resized n x xs) = n"
  by (simp add: resized_def)

lemma counting_sort_result:
  assumes fit: "fits bf n nb" and bucket: "bucket = prefix_sums nb (count_buckets bf n nb)"
    and scat: "scatter bf uf n (butlast bucket, resized (bucket ! nb) 0 old) = (cur, su)"
    and emit: "fold (emit_bucket bucket v_min rows) [0..<nb] (su, [], []) = (su', ov, ou)"
  shows "length ov = length ou \<and>
    zip ov ou = map (\<lambda>(b, u). (bucket_row v_min rows b, u))
      (sort (map (\<lambda>i. (the (bf i), uf i)) (filter (\<lambda>i. bf i \<noteq> None) [0..<n])))"
proof -
  have len: "length bucket = nb + 1"
    using bucket prefix_sums_facts [of "count_buckets bf n nb" nb nb] count_buckets_facts [OF fit] by simp
  have at: "bucket ! b = bucket_start bf n b" if "b \<le> nb" for b
    unfolding bucket by (rule bucket_bounds [OF fit that])
  have cur0: "length (butlast bucket) = nb" "butlast bucket ! b = bucket_start bf n b" if "b < nb" for b
    using len at that by (simp_all add: nth_butlast)
  have "length (butlast bucket) = nb" "length (resized (bucket ! nb) 0 old) = bucket_start bf n nb"
    using len at by simp_all
  note pre = fit this(1) cur0(2) this(2) scat
  have su: "length su = bucket_start bf n nb" using scatter_facts [OF pre(1-4) le_refl scat] at by simp
  have seg: "segment bf n su b = map uf (members bf n b)" if "b < nb" for b
    unfolding segment_def by (rule scatter_segment [OF pre that])
  note e = emit_all [OF at su le_refl emit]
  have ou: "ou = concat (map (\<lambda>b. sort (map uf (members bf n b))) [0..<nb])"
  proof -
    have "map (\<lambda>b. sort (segment bf n su b)) [0..<nb] = map (\<lambda>b. sort (map uf (members bf n b))) [0..<nb]"
      using seg by (intro map_cong) simp_all
    with e show ?thesis by simp
  qed
  have ov: "ov = concat (map (\<lambda>b. replicate (length (members bf n b)) (bucket_row v_min rows b)) [0..<nb])"
    using e by simp
  have rep: "zip (replicate (length us) c) us = map (Pair c) us" for c :: int and us :: "int list"
    by (induction us) auto
  have "zip ov ou = concat (map (\<lambda>b. map (Pair (bucket_row v_min rows b)) (sort (map uf (members bf n b)))) [0..<nb])"
    unfolding ou ov by (subst zip_concat) (simp_all add: rep [of "sort (map uf (members bf n b))" for b, simplified])
  also have "\<dots> = map (\<lambda>(b, u). (bucket_row v_min rows b, u))
      (concat (map (\<lambda>b. map (Pair b) (sort (map uf (members bf n b)))) [0..<nb]))"
    by (simp add: map_concat comp_def)
  finally have "zip ov ou = map (\<lambda>(b, u). (bucket_row v_min rows b, u))
      (sort (map (\<lambda>i. (the (bf i), uf i)) (filter (\<lambda>i. bf i \<noteq> None) [0..<n])))"
    unfolding buckets_sort [OF fit] .
  moreover have "length ov = length ou" unfolding ou ov by (simp add: length_concat comp_def)
  ultimately show ?thesis by blast
qed

section \<open>The table\<close>

definition slots :: nat where
  "slots = 2 ^ 15"

lemma kSlots_unat: "unat kSlots = slots"
  by (simp add: kSlots_def slots_def)

lemma slot_hash_less: "unat (slot_hash l) < slots"
proof -
  have eq: "unat (slot_hash l) = unat (word_of_int l * 2654435761 :: u32) div 2 ^ 17"
    by (simp only: slot_hash_def unat_drop_bit_eq) (simp only: drop_bit_eq_div)
  have "unat (word_of_int l * 2654435761 :: u32) < 2 ^ LENGTH(32)" by (rule unsigned_less)
  then have "unat (word_of_int l * 2654435761 :: u32) div 2 ^ 17 < slots" by (intro less_mult_imp_div_less) (simp add: slots_def)
  with eq show ?thesis by simp
qed

lemma next_slot_unat: "unat h < slots \<Longrightarrow> unat (next_slot h) = (unat h + 1) mod slots"
proof -
  assume h: "unat h < slots"
  have "kSlots - 1 = (mask 15 :: u32)" by (simp add: kSlots_def mask_eq_exp_minus_1)
  then have "next_slot h = take_bit 15 (h + 1)" by (simp add: next_slot_def take_bit_eq_mask)
  moreover have "unat (h + 1) = unat h + 1" using h by (simp add: unat_word_ariths slots_def)
  ultimately show ?thesis by (simp only: unsigned_take_bit_eq) (simp add: take_bit_eq_mod slots_def)
qed

definition pos :: "u32 \<Rightarrow> nat \<Rightarrow> nat" where
  \<comment> \<open>the \<open>k\<close>-th slot the probe looks at\<close>
  "pos h k = (unat h + k) mod slots"

lemma next_slot_funpow: "unat h < slots \<Longrightarrow> unat ((next_slot ^^ k) h) = pos h k"
proof (induction k)
  case 0
  then show ?case by (simp add: pos_def)
next
  case (Suc k)
  then have "unat ((next_slot ^^ k) h) < slots" by (simp add: pos_def slots_def)
  with Suc next_slot_unat [OF this] show ?case by (simp add: pos_def mod_Suc_eq)
qed

lemma pos_next: "unat h < slots \<Longrightarrow> pos (next_slot h) k = pos h (Suc k)"
  by (simp add: pos_def next_slot_unat mod_add_left_eq)

lemma pos_hits: "unat h < slots \<Longrightarrow> i < slots \<Longrightarrow> \<exists>k < slots. pos h k = i"
  by (rule exI [of _ "(i + slots - unat h) mod slots"]) (simp add: pos_def mod_add_right_eq)

text \<open>The slots from a hash on up to some distance are taken by other labels.\<close>

definition passed :: "label_slot list \<Rightarrow> u32 \<Rightarrow> int \<Rightarrow> nat \<Rightarrow> bool" where
  "passed t st l k \<longleftrightarrow> (\<forall>i < k. sl_stamp (t ! pos (slot_hash l) i) = st \<and> sl_label (t ! pos (slot_hash l) i) \<noteq> l)"

lemma probe_stops_from:
  "unat h < slots \<Longrightarrow> (\<And>i. i < k \<Longrightarrow> sl_stamp (t ! pos h i) = st \<and> sl_label (t ! pos h i) \<noteq> l) \<Longrightarrow>
   sl_stamp (t ! pos h k) \<noteq> st \<or> sl_label (t ! pos h k) = l \<Longrightarrow>
   probe t st l h = Some ((next_slot ^^ k) h)"
proof (induction k arbitrary: h)
  case 0
  then show ?case by (subst probe.simps) (simp add: pos_def)
next
  case (Suc k)
  have h': "unat (next_slot h) < slots" using Suc.prems(1) by (simp add: next_slot_unat)
  have "probe t st l (next_slot h) = Some ((next_slot ^^ k) (next_slot h))"
  proof (rule Suc.IH [OF h'])
    show "sl_stamp (t ! pos (next_slot h) i) = st \<and> sl_label (t ! pos (next_slot h) i) \<noteq> l" if "i < k" for i
      using Suc.prems(2) [of "Suc i"] that Suc.prems(1) by (simp add: pos_next)
    show "sl_stamp (t ! pos (next_slot h) k) \<noteq> st \<or> sl_label (t ! pos (next_slot h) k) = l"
      using Suc.prems(1,3) by (simp add: pos_next)
  qed
  moreover have "probe t st l h = probe t st l (next_slot h)"
    using Suc.prems(2) [of 0] Suc.prems(1) by (subst probe.simps) (simp add: pos_def)
  ultimately show ?case by (simp add: funpow_swap1)
qed

lemma probe_stops:
  assumes "passed t st l k" "sl_stamp (t ! pos (slot_hash l) k) \<noteq> st \<or> sl_label (t ! pos (slot_hash l) k) = l"
  shows "\<exists>h. probe t st l (slot_hash l) = Some h \<and> unat h = pos (slot_hash l) k"
  using probe_stops_from [OF slot_hash_less, of k t l st] assms next_slot_funpow [OF slot_hash_less]
  by (auto simp: passed_def)

definition held :: "label_slot list \<Rightarrow> u32 \<Rightarrow> int \<Rightarrow> nat \<Rightarrow> bool" where
  \<comment> \<open>probing for a label ends at its slot, which carries its number\<close>
  "held t st l j \<longleftrightarrow> (\<exists>k. passed t st l k \<and> t ! pos (slot_hash l) k = \<lparr>sl_stamp = st, sl_label = l, sl_idx = j\<rparr>)"

definition used_slots :: "label_slot list \<Rightarrow> u32 \<Rightarrow> nat set" where
  "used_slots t st = {i. i < slots \<and> sl_stamp (t ! i) = st}"

definition table_ok :: "u32 \<Rightarrow> int list \<Rightarrow> label_slot list \<Rightarrow> bool" where
  "table_ok st ls t \<longleftrightarrow> length t = slots \<and> distinct ls \<and> (\<forall>j < length ls. held t st (ls ! j) j) \<and>
     (\<forall>i \<in> used_slots t st. sl_label (t ! i) \<in> set ls) \<and> card (used_slots t st) = length ls"

lemma pos_less [simp]: "pos h k < slots"
  by (simp add: pos_def slots_def)

lemma passed_update:
  assumes "passed t st l k" "\<And>m. m < k \<Longrightarrow> pos (slot_hash l) m \<noteq> i"
  shows "passed (t[i := s]) st l k"
  using assms(1) not_sym [OF assms(2)] by (simp add: passed_def)

lemma held_probe:
  assumes "held t st l j"
  shows "\<exists>h. probe t st l (slot_hash l) = Some h \<and> t ! unat h = \<lparr>sl_stamp = st, sl_label = l, sl_idx = j\<rparr>"
proof -
  obtain k where k: "passed t st l k" "t ! pos (slot_hash l) k = \<lparr>sl_stamp = st, sl_label = l, sl_idx = j\<rparr>"
    using assms by (auto simp: held_def)
  from probe_stops [OF this(1)] k(2) show ?thesis by auto
qed

lemma held_update:
  assumes "held t st l j" "sl_stamp (t ! i) \<noteq> st" "sl_label s \<noteq> l" "sl_stamp s = st"
  shows "held (t[i := s]) st l j"
proof -
  obtain k where k: "passed t st l k" "t ! pos (slot_hash l) k = \<lparr>sl_stamp = st, sl_label = l, sl_idx = j\<rparr>"
    using assms(1) by (auto simp: held_def)
  then have "pos (slot_hash l) k \<noteq> i" "\<And>m. m < k \<Longrightarrow> pos (slot_hash l) m \<noteq> i"
    using assms(2) by (auto simp: passed_def)
  with k show ?thesis unfolding held_def by (intro exI [of _ k]) (simp add: passed_update)
qed

lemma new_label_probe:
  assumes ok: "table_ok st ls t" and new: "l \<notin> set ls" and room: "length ls < slots"
  shows "\<exists>h k. probe t st l (slot_hash l) = Some h \<and> unat h = pos (slot_hash l) k \<and> passed t st l k \<and> sl_stamp (t ! unat h) \<noteq> st"
proof -
  have "card (used_slots t st) < slots" using ok room by (simp add: table_ok_def)
  then have "\<not> {..<slots} \<subseteq> used_slots t st"
    using card_mono [of "used_slots t st" "{..<slots}"] by (auto simp: used_slots_def)
  then obtain i where "i < slots" "i \<notin> used_slots t st" by blast
  then have i: "i < slots" "sl_stamp (t ! i) \<noteq> st" by (simp_all add: used_slots_def)
  obtain k0 where "pos (slot_hash l) k0 = i" using pos_hits [OF slot_hash_less i(1)] by blast
  with i(2) have ex: "\<exists>k. sl_stamp (t ! pos (slot_hash l) k) \<noteq> st" by blast
  define k where "k = (LEAST k. sl_stamp (t ! pos (slot_hash l) k) \<noteq> st)"
  have stale: "sl_stamp (t ! pos (slot_hash l) k) \<noteq> st" unfolding k_def by (rule LeastI_ex [OF ex])
  have "sl_stamp (t ! pos (slot_hash l) m) = st \<and> sl_label (t ! pos (slot_hash l) m) \<noteq> l" if "m < k" for m
  proof -
    have st: "sl_stamp (t ! pos (slot_hash l) m) = st" using that not_less_Least unfolding k_def by blast
    then have "pos (slot_hash l) m \<in> used_slots t st" by (simp add: used_slots_def)
    with ok new st show ?thesis unfolding table_ok_def by metis
  qed
  then have "passed t st l k" by (simp add: passed_def)
  moreover from probe_stops [OF this disjI1 [OF stale]] obtain h where
    "probe t st l (slot_hash l) = Some h" "unat h = pos (slot_hash l) k" by blast
  ultimately show ?thesis using stale by (intro exI [of _ h] exI [of _ k]) simp
qed

lemma table_ok_insert:
  assumes ok: "table_ok st ls t" and new: "l \<notin> set ls" and h: "i = pos (slot_hash l) k" "passed t st l k" "sl_stamp (t ! i) \<noteq> st"
  shows "table_ok st (ls @ [l]) (t[i := \<lparr>sl_stamp = st, sl_label = l, sl_idx = length ls\<rparr>])"
proof -
  let ?s = "\<lparr>sl_stamp = st, sl_label = l, sl_idx = length ls\<rparr>"
  have i: "i < length t" "length t = slots" using ok h(1) by (simp_all add: table_ok_def)
  have "\<And>m. m < k \<Longrightarrow> pos (slot_hash l) m \<noteq> i" using h(2,3) by (auto simp: passed_def)
  then have "passed (t[i := ?s]) st l k" using h(2) passed_update by blast
  then have "held (t[i := ?s]) st l (length ls)" using i h(1) by (auto simp: held_def)
  moreover have "held (t[i := ?s]) st (ls ! j) j" if "j < length ls" for j
    using ok that new h(3) by (intro held_update) (auto simp: table_ok_def)
  ultimately have held: "\<forall>j < length (ls @ [l]). held (t[i := ?s]) st ((ls @ [l]) ! j) j"
    by (auto simp: nth_append less_Suc_eq)
  have used: "used_slots (t[i := ?s]) st = insert i (used_slots t st)"
    using i by (auto simp: used_slots_def nth_list_update)
  moreover have "i \<notin> used_slots t st" "finite (used_slots t st)" using h(3) by (simp_all add: used_slots_def)
  ultimately have "card (used_slots (t[i := ?s]) st) = length (ls @ [l])"
    using ok by (simp add: table_ok_def)
  moreover have "\<forall>m \<in> used_slots (t[i := ?s]) st. sl_label (t[i := ?s] ! m) \<in> set (ls @ [l])"
    unfolding used using ok i by (auto simp: table_ok_def nth_list_update)
  ultimately show ?thesis using held i new ok by (simp add: table_ok_def)
qed

section \<open>Numbering the components\<close>

definition labelled_as :: "skel_pix list \<Rightarrow> int \<Rightarrow> skel_pix list" where
  "labelled_as qs l = filter (\<lambda>q. px_label q = l) qs"

definition column_sum :: "skel_pix list \<Rightarrow> int \<Rightarrow> real" where
  "column_sum qs l = (\<Sum>q\<leftarrow>labelled_as qs l. of_int (px_u q))"

text \<open>What the first loop knows after the pixels \<open>qs\<close>.\<close>

definition dense_inv :: "u32 \<Rightarrow> nat \<Rightarrow> skel_pix list \<Rightarrow> dense \<Rightarrow> bool" where
  "dense_inv st n qs d \<longleftrightarrow> table_ok st (dn_labels d) (dn_table d) \<and> set (dn_labels d) = px_label ` set qs \<and>
     dn_cnt d = map (\<lambda>l. length (labelled_as qs l)) (dn_labels d) \<and> dn_sumu d = map (column_sum qs) (dn_labels d) \<and>
     length (dn_cid d) = n \<and>
     (\<forall>i < length qs. dn_cid d ! i < length (dn_labels d) \<and> dn_labels d ! (dn_cid d ! i) = px_label (qs ! i))"

lemma labelled_as_snoc: "labelled_as (qs @ [q]) l = labelled_as qs l @ (if px_label q = l then [q] else [])"
  by (simp add: labelled_as_def)

lemma column_sum_snoc: "column_sum (qs @ [q]) l = column_sum qs l + (if px_label q = l then of_int (px_u q) else 0)"
  by (simp add: column_sum_def labelled_as_snoc)

lemma distinct_position: "distinct ls \<Longrightarrow> l \<in> set ls \<Longrightarrow> \<exists>j < length ls. ls ! j = l"
  by (simp add: in_set_conv_nth)

text \<open>Counting a pixel whose label has the number \<open>j\<close>.\<close>

lemma count_pixel:
  assumes "distinct ls" "j < length ls" "ls ! j = px_label q"
  shows "(map (\<lambda>l. length (labelled_as qs l)) ls)[j := map (\<lambda>l. length (labelled_as qs l)) ls ! j + 1] =
      map (\<lambda>l. length (labelled_as (qs @ [q]) l)) ls"
    and "(map (column_sum qs) ls)[j := map (column_sum qs) ls ! j + of_int (px_u q)] = map (column_sum (qs @ [q])) ls"
proof -
  have other: "px_label q = ls ! i \<longleftrightarrow> i = j" if "i < length ls" for i
    using assms that by (metis nth_eq_iff_index_eq)
  show "(map (\<lambda>l. length (labelled_as qs l)) ls)[j := map (\<lambda>l. length (labelled_as qs l)) ls ! j + 1] =
      map (\<lambda>l. length (labelled_as (qs @ [q]) l)) ls"
    by (intro nth_equalityI) (use assms(2) other in \<open>simp_all add: nth_list_update labelled_as_snoc\<close>)
  show "(map (column_sum qs) ls)[j := map (column_sum qs) ls ! j + of_int (px_u q)] = map (column_sum (qs @ [q])) ls"
    by (intro nth_equalityI) (use assms(2) other in \<open>simp_all add: nth_list_update column_sum_snoc\<close>)
qed

lemma unseen_label: "l \<notin> px_label ` set qs \<Longrightarrow> labelled_as qs l = [] \<and> column_sum qs l = 0"
proof -
  assume "l \<notin> px_label ` set qs"
  then have "labelled_as qs l = []" by (auto simp: labelled_as_def filter_empty_conv)
  then show ?thesis by (simp add: column_sum_def)
qed

text \<open>After the slot of the pixel's label has been found or taken.\<close>

lemma slot_for_pixel:
  assumes inv: "dense_inv st n qs d" and room: "card (insert (px_label q) (px_label ` set qs)) \<le> slots"
  shows "\<exists>h j. probe (dn_table d) st (px_label q) (slot_hash (px_label q)) = Some h \<and>
    sl_idx (dn_table (take_slot st (px_label q) h d) ! unat h) = j \<and>
    dn_cid (take_slot st (px_label q) h d) = dn_cid d \<and>
    (\<exists>ls. dn_labels (take_slot st (px_label q) h d) = ls \<and> table_ok st ls (dn_table (take_slot st (px_label q) h d)) \<and>
      set ls = insert (px_label q) (px_label ` set qs) \<and> j < length ls \<and> ls ! j = px_label q \<and>
      (\<exists>more. ls = dn_labels d @ more) \<and>
      dn_cnt (take_slot st (px_label q) h d) = map (\<lambda>l. length (labelled_as qs l)) ls \<and>
      dn_sumu (take_slot st (px_label q) h d) = map (column_sum qs) ls)"
proof (cases "px_label q \<in> set (dn_labels d)")
  case True
  let ?l = "px_label q"
  have tab: "table_ok st (dn_labels d) (dn_table d)" using inv by (simp add: dense_inv_def)
  then obtain j where j: "j < length (dn_labels d)" "dn_labels d ! j = ?l"
    using distinct_position [of "dn_labels d" ?l] True by (auto simp: table_ok_def)
  then have "held (dn_table d) st ?l j" using tab by (auto simp: table_ok_def)
  from held_probe [OF this] obtain h where
    h: "probe (dn_table d) st ?l (slot_hash ?l) = Some h" "dn_table d ! unat h = \<lparr>sl_stamp = st, sl_label = ?l, sl_idx = j\<rparr>"
    by blast
  have "take_slot st ?l h d = d" using h(2) by (simp add: take_slot_def)
  moreover have "set (dn_labels d) = insert ?l (px_label ` set qs)" using inv True by (auto simp: dense_inv_def)
  moreover have "dn_cnt d = map (\<lambda>l. length (labelled_as qs l)) (dn_labels d)" "dn_sumu d = map (column_sum qs) (dn_labels d)"
    using inv by (simp_all add: dense_inv_def)
  ultimately show ?thesis
    using h j tab by (intro exI [of _ h] exI [of _ j]) simp
next
  case False
  let ?l = "px_label q" and ?ls = "dn_labels d @ [px_label q]"
  have tab: "table_ok st (dn_labels d) (dn_table d)" and ls: "set (dn_labels d) = px_label ` set qs"
    using inv by (simp_all add: dense_inv_def)
  then have "length (dn_labels d) = card (px_label ` set qs)"
    by (metis distinct_card table_ok_def)
  then have "length (dn_labels d) < slots" using room False ls by simp
  from new_label_probe [OF tab False this] obtain h k where
    h: "probe (dn_table d) st ?l (slot_hash ?l) = Some h" "unat h = pos (slot_hash ?l) k" "passed (dn_table d) st ?l k"
      "sl_stamp (dn_table d ! unat h) \<noteq> st"
    by blast
  have t: "take_slot st ?l h d = d\<lparr>dn_table := (dn_table d)[unat h := \<lparr>sl_stamp = st, sl_label = ?l, sl_idx = length (dn_labels d)\<rparr>],
            dn_labels := ?ls, dn_cnt := dn_cnt d @ [0], dn_sumu := dn_sumu d @ [0]\<rparr>"
    using h(4) by (simp add: take_slot_def)
  have len: "unat h < length (dn_table d)" using h(2) tab by (simp add: table_ok_def)
  have zero: "labelled_as qs ?l = []" "column_sum qs ?l = 0" using unseen_label [of ?l qs] False ls by auto
  note ins = table_ok_insert [OF tab False h(2-4)]
  have "dn_cnt d = map (\<lambda>l. length (labelled_as qs l)) (dn_labels d)" "dn_sumu d = map (column_sum qs) (dn_labels d)"
    using inv by (simp_all add: dense_inv_def)
  then show ?thesis
    using h(1) ins len zero ls by (intro exI [of _ h] exI [of _ "length (dn_labels d)"]) (simp add: t)
qed

lemma see_pixel_inv:
  assumes inv: "dense_inv st n qs d" and i: "length qs < n" and room: "card (insert (px_label q) (px_label ` set qs)) \<le> slots"
  shows "\<exists>d'. see_pixel st (length qs) q d = Some d' \<and> dense_inv st n (qs @ [q]) d'"
proof -
  obtain h j ls where p: "probe (dn_table d) st (px_label q) (slot_hash (px_label q)) = Some h"
    "sl_idx (dn_table (take_slot st (px_label q) h d) ! unat h) = j" "dn_cid (take_slot st (px_label q) h d) = dn_cid d"
    "dn_labels (take_slot st (px_label q) h d) = ls" "table_ok st ls (dn_table (take_slot st (px_label q) h d))"
    "set ls = insert (px_label q) (px_label ` set qs)" "j < length ls" "ls ! j = px_label q" "\<exists>more. ls = dn_labels d @ more"
    "dn_cnt (take_slot st (px_label q) h d) = map (\<lambda>l. length (labelled_as qs l)) ls"
    "dn_sumu (take_slot st (px_label q) h d) = map (column_sum qs) ls"
    using slot_for_pixel [OF inv room] by blast
  define d1 where "d1 = take_slot st (px_label q) h d"
  define d' where "d' = d1\<lparr>dn_cid := (dn_cid d1)[length qs := j], dn_cnt := (dn_cnt d1)[j := dn_cnt d1 ! j + 1],
      dn_sumu := (dn_sumu d1)[j := dn_sumu d1 ! j + of_int (px_u q)]\<rparr>"
  have "see_pixel st (length qs) q d = Some d'"
    using p(1,2) by (simp add: see_pixel_def Let_def d1_def d'_def)
  moreover have "dense_inv st n (qs @ [q]) d'"
  proof -
    have dist: "distinct ls" using p(5) by (simp add: table_ok_def)
    have cid: "\<forall>i < length (qs @ [q]). dn_cid d' ! i < length ls \<and> ls ! (dn_cid d' ! i) = px_label ((qs @ [q]) ! i)"
    proof (intro allI impI)
      fix m assume m: "m < length (qs @ [q])"
      show "dn_cid d' ! m < length ls \<and> ls ! (dn_cid d' ! m) = px_label ((qs @ [q]) ! m)"
      proof (cases "m = length qs")
        case True
        with inv i p(3,7,8) show ?thesis by (simp add: d'_def d1_def dense_inv_def)
      next
        case False
        with m have "m < length qs" by simp
        with inv p(3,9) show ?thesis by (auto simp: d'_def d1_def dense_inv_def nth_append)
      qed
    qed
    note c = count_pixel [OF dist p(7,8), of qs]
    have "dn_labels d' = ls" "dn_table d' = dn_table d1" "length (dn_cid d') = n"
      "dn_cnt d' = map (\<lambda>l. length (labelled_as (qs @ [q]) l)) ls" "dn_sumu d' = map (column_sum (qs @ [q])) ls"
      using p(3,4,10,11) inv c by (simp_all add: d'_def d1_def dense_inv_def)
    with p(5,6) cid show ?thesis by (simp add: dense_inv_def d1_def)
  qed
  ultimately show ?thesis by blast
qed

lemma see_pixels_inv:
  "dense_inv st n qs d \<Longrightarrow> length qs + length rs \<le> n \<Longrightarrow> card (px_label ` set (qs @ rs)) \<le> slots \<Longrightarrow>
   \<exists>d'. see_pixels st (length qs) rs d = Some d' \<and> dense_inv st n (qs @ rs) d'"
proof (induction rs arbitrary: qs d)
  case Nil
  then show ?case by simp
next
  case (Cons r rs)
  have "insert (px_label r) (px_label ` set qs) \<subseteq> px_label ` set (qs @ r # rs)" by auto
  from card_mono [OF _ this] have "card (insert (px_label r) (px_label ` set qs)) \<le> slots"
    using Cons.prems(3) by simp
  with see_pixel_inv [OF Cons.prems(1)] Cons.prems(2) obtain d1 where
    d1: "see_pixel st (length qs) r d = Some d1" "dense_inv st n (qs @ [r]) d1" by fastforce
  from Cons.IH [OF d1(2)] Cons.prems(2,3) show ?case by (simp add: d1(1))
qed

text \<open>No slot carries the stamp of a new call, also when the stamp wraps around.\<close>

definition scratch_ok :: "skel_scratch \<Rightarrow> bool" where
  "scratch_ok sc \<longleftrightarrow> sc_table sc = [] \<or> length (sc_table sc) = slots \<and> (\<forall>s \<in> set (sc_table sc). sl_stamp s \<le> sc_stamp sc)"

lemma next_stamp_fresh:
  assumes "scratch_ok sc"
  shows "length (sc_table (next_stamp sc)) = slots \<and>
    (\<forall>s \<in> set (sc_table (next_stamp sc)). sl_stamp s < sc_stamp (next_stamp sc))"
proof -
  define t where "t = (if sc_table sc = [] then replicate (unat kSlots) \<lparr>sl_stamp = 0, sl_label = 0, sl_idx = 0\<rparr> else sc_table sc)"
  have t: "length t = slots" "\<forall>s \<in> set t. sl_stamp s \<le> sc_stamp sc"
    using assms by (auto simp: t_def scratch_ok_def kSlots_unat)
  show ?thesis
  proof (cases "sc_stamp sc + 1 = 0")
    case True
    then have "next_stamp sc = sc\<lparr>sc_table := map (\<lambda>s. s\<lparr>sl_stamp := 0\<rparr>) t, sc_stamp := 1\<rparr>"
      by (simp add: next_stamp_def t_def Let_def)
    with t show ?thesis by simp
  next
    case False
    then have n: "next_stamp sc = sc\<lparr>sc_table := t, sc_stamp := sc_stamp sc + 1\<rparr>"
      by (simp add: next_stamp_def t_def Let_def)
    have "unat (sc_stamp sc + 1) = Suc (unat (sc_stamp sc))"
      using False unatSuc [of "sc_stamp sc"] by (simp add: add.commute)
    then have "sc_stamp sc < sc_stamp sc + 1" by (simp add: word_less_nat_alt)
    with n t show ?thesis by auto
  qed
qed

lemma dense_inv_start:
  assumes "scratch_ok sc" "length cid = n"
  shows "dense_inv (sc_stamp (next_stamp sc)) n []
    \<lparr>dn_table = sc_table (next_stamp sc), dn_cid = cid, dn_labels = [], dn_cnt = [], dn_sumu = []\<rparr>"
proof -
  note f = next_stamp_fresh [OF assms(1)]
  then have "sl_stamp (sc_table (next_stamp sc) ! i) \<noteq> sc_stamp (next_stamp sc)" if "i < slots" for i
    using that by (metis less_irrefl nth_mem)
  then have "used_slots (sc_table (next_stamp sc)) (sc_stamp (next_stamp sc)) = {}"
    by (auto simp: used_slots_def)
  with f assms(2) show ?thesis by (simp add: dense_inv_def table_ok_def)
qed

lemma see_pixel_stamps:
  assumes "see_pixel st i q d = Some d'" "\<forall>s \<in> set (dn_table d). sl_stamp s \<le> st"
  shows "\<forall>s \<in> set (dn_table d'). sl_stamp s \<le> st"
proof -
  obtain h where "dn_table d' = dn_table (take_slot st (px_label q) h d)"
    using assms(1) by (auto simp: see_pixel_def Let_def split: option.splits)
  with assms(2) show ?thesis by (auto simp: take_slot_def dest!: set_update_subset_insert [THEN subsetD])
qed

lemma see_pixels_stamps:
  "see_pixels st i qs d = Some d' \<Longrightarrow> \<forall>s \<in> set (dn_table d). sl_stamp s \<le> st \<Longrightarrow> \<forall>s \<in> set (dn_table d'). sl_stamp s \<le> st"
proof (induction qs arbitrary: i d)
  case (Cons q qs)
  from Cons.prems(1) obtain d1 where d1: "see_pixel st i q d = Some d1" "see_pixels st (Suc i) qs d1 = Some d'"
    by (auto split: option.splits)
  show ?case by (rule Cons.IH [OF d1(2) see_pixel_stamps [OF d1(1) Cons.prems(2)]])
qed simp

section \<open>Ranks follow the order of the components\<close>

lemma component_ranks_facts:
  assumes "distinct order" "\<And>k. k < length order \<Longrightarrow> order ! k < length old" "m \<le> length order"
  shows "length (fold (\<lambda>k r. r[order ! k := k]) [0..<m] old) = length old \<and>
    (\<forall>k < m. fold (\<lambda>k r. r[order ! k := k]) [0..<m] old ! (order ! k) = k)"
  using assms(3)
proof (induction m)
  case (Suc m)
  have apart: "order ! k \<noteq> order ! m" if "k < m" for k
    using assms(1) that Suc.prems by (simp add: nth_eq_iff_index_eq)
  let ?r = "fold (\<lambda>k r. r[order ! k := k]) [0..<m] old"
  have ih: "length ?r = length old" "\<forall>k < m. ?r ! (order ! k) = k" using Suc by simp_all
  have "?r[order ! m := m] ! (order ! k) = k" if "k < Suc m" for k
    using that ih assms(2) [of m] Suc.prems apart [of k] by (cases "k = m") simp_all
  with ih(1) show ?case by simp
qed simp

lemma sorted_positions:
  fixes f :: "nat \<Rightarrow> 'a::linorder"
  assumes "inj_on f {..<nc}" "order = sort_key f [0..<nc]" "i < nc" "j < nc"
  shows "f (order ! i) \<le> f (order ! j) \<longleftrightarrow> i \<le> j"
proof -
  have len: "length order = nc" and dist: "distinct order" and elems: "set order = {..<nc}"
    using assms(2) by auto
  have srt: "sorted (map f order)" using assms(2) by simp
  have up: "f (order ! a) \<le> f (order ! b)" if "a \<le> b" "b < nc" for a b
    using sorted_nth_mono [OF srt that(1)] that len by simp
  have "i \<le> j" if "f (order ! i) \<le> f (order ! j)"
  proof (rule ccontr)
    assume "\<not> i \<le> j"
    then have "f (order ! i) = f (order ! j)" using that up [of j i] assms(3) by simp
    moreover have "order ! i < nc" "order ! j < nc" using len elems assms(3,4) nth_mem by blast+
    ultimately have "order ! i = order ! j" using assms(1) by (simp add: inj_on_def)
    with dist len assms(3,4) \<open>\<not> i \<le> j\<close> show False by (simp add: nth_eq_iff_index_eq)
  qed
  with up assms(4) show ?thesis by blast
qed

lemma ranks_ordered:
  fixes f :: "nat \<Rightarrow> 'a::linorder"
  assumes "inj_on f {..<nc}" "order = sort_key f [0..<nc]" "length old = nc" "a < nc" "b < nc"
  shows "component_ranks order old ! a \<le> component_ranks order old ! b \<longleftrightarrow> f a \<le> f b"
    and "component_ranks order old ! a < nc"
proof -
  have len: "length order = nc" and dist: "distinct order" and elems: "set order = {..<nc}"
    using assms(2) by auto
  have "order ! k < length old" if "k < length order" for k using that elems assms(3) nth_mem [OF that] by simp
  from component_ranks_facts [OF dist this order_refl]
  have r: "component_ranks order old ! (order ! k) = k" if "k < nc" for k
    using that len by (simp add: component_ranks_def)
  have "a \<in> set order" "b \<in> set order" using assms(4,5) elems by simp_all
  then obtain i j where ij: "i < nc" "order ! i = a" "j < nc" "order ! j = b"
    using len by (auto simp: in_set_conv_nth)
  show "component_ranks order old ! a \<le> component_ranks order old ! b \<longleftrightarrow> f a \<le> f b"
    using sorted_positions [OF assms(1,2) ij(1,3)] r ij by auto
  show "component_ranks order old ! a < nc" using r ij by auto
qed

section \<open>The reference order\<close>

definition mean_column :: "skel_pix list \<Rightarrow> int \<Rightarrow> real" where
  "mean_column pix l = column_sum pix l / of_nat (length (labelled_as pix l))"

definition pixel_key :: "skel_pix list \<Rightarrow> skel_pix \<Rightarrow> (real \<times> int) \<times> int \<times> int" where
  "pixel_key pix q = ((mean_column pix (px_label q), px_label q), - px_v q, px_u q)"

definition in_rows :: "int \<Rightarrow> int \<Rightarrow> skel_pix \<Rightarrow> bool" where
  "in_rows v_min rows q \<longleftrightarrow> v_min \<le> px_v q \<and> px_v q < v_min + rows"

lemma sort_key_order_cong:
  assumes "\<And>x y. x \<in> set xs \<Longrightarrow> y \<in> set xs \<Longrightarrow> f x \<le> f y \<longleftrightarrow> g x \<le> g y"
  shows "sort_key f xs = sort_key g xs"
proof -
  have ins: "insort_key f x ys = insort_key g x ys" if "x \<in> set xs" "set ys \<subseteq> set xs" for x ys
    using that(2) by (induction ys) (auto simp: assms [OF that(1)])
  have "set ys \<subseteq> set xs \<Longrightarrow> sort_key f ys = sort_key g ys" for ys
    by (induction ys) (simp_all add: ins)
  then show ?thesis by simp
qed

lemma sort_map: "sort (map f xs) = map f (sort_key f xs)"
  by (rule properties_for_sort) simp_all

lemma order_iso:
  fixes a b :: "'a::linorder" and c d :: "'b::linorder"
  assumes "a \<le> b \<longleftrightarrow> c \<le> d" "b \<le> a \<longleftrightarrow> d \<le> c"
  shows "a < b \<longleftrightarrow> c < d" "a = b \<longleftrightarrow> c = d"
  using assms by (metis not_le) (metis assms order.antisym order_refl)

lemma row_major_less:
  fixes k k' r r' w :: nat
  assumes "r < w" "r' < w"
  shows "k * w + r < k' * w + r' \<longleftrightarrow> k < k' \<or> k = k' \<and> r < r'"
proof -
  have "a * w + s < b * w + t" if "a < b" "s < w" for a b s t :: nat
  proof -
    have "a * w + s < Suc a * w" using that(2) by simp
    also have "\<dots> \<le> b * w" using that(1) by (intro mult_right_mono) auto
    finally show ?thesis by simp
  qed
  then show ?thesis using assms by (metis add_less_cancel_left linorder_neqE_nat not_less_iff_gr_or_eq)
qed

lemma row_major_eq:
  fixes k k' r r' w :: nat
  assumes "r < w" "r' < w"
  shows "k * w + r = k' * w + r' \<longleftrightarrow> k = k' \<and> r = r'"
proof
  assume "k * w + r = k' * w + r'"
  then have "\<not> k < k'" "\<not> k' < k"
    using row_major_less [OF assms, of k k'] row_major_less [OF assms(2,1), of k' k] by linarith+
  with \<open>k * w + r = k' * w + r'\<close> show "k = k' \<and> r = r'" by simp
qed simp

lemma filter_map_nth: "map (\<lambda>i. h (xs ! i)) (filter (\<lambda>i. P (xs ! i)) [0..<length xs]) = map h (filter P xs)"
proof -
  have "filter P xs = filter P (map ((!) xs) [0..<length xs])" by (simp add: map_nth)
  then show ?thesis by (simp add: filter_map comp_def)
qed

text \<open>One bucket per component and row, in the order of the reference.\<close>

lemma bucket_order:
  fixes rk :: "int \<Rightarrow> nat" and m :: "int \<Rightarrow> real"
  assumes rank: "\<And>l l'. l \<in> px_label ` set pix \<Longrightarrow> l' \<in> px_label ` set pix \<Longrightarrow> rk l \<le> rk l' \<longleftrightarrow> (m l, l) \<le> (m l', l')"
    and q: "q \<in> set pix" "in_rows v_min rows q" "q' \<in> set pix" "in_rows v_min rows q'"
  shows "(rk (px_label q) * nat rows + nat (rows - 1 - (px_v q - v_min)), px_u q)
       \<le> (rk (px_label q') * nat rows + nat (rows - 1 - (px_v q' - v_min)), px_u q')
    \<longleftrightarrow> ((m (px_label q), px_label q), - px_v q, px_u q) \<le> ((m (px_label q'), px_label q'), - px_v q', px_u q')"
proof -
  define r r' where "r = nat (rows - 1 - (px_v q - v_min))" and "r' = nat (rows - 1 - (px_v q' - v_min))"
  have rows: "r < nat rows" "r' < nat rows" "r < r' \<longleftrightarrow> - px_v q < - px_v q'" "r = r' \<longleftrightarrow> px_v q = px_v q'"
    using q(2,4) by (auto simp: r_def r'_def in_rows_def)
  have le: "rk (px_label q) \<le> rk (px_label q') \<longleftrightarrow> (m (px_label q), px_label q) \<le> (m (px_label q'), px_label q')"
    "rk (px_label q') \<le> rk (px_label q) \<longleftrightarrow> (m (px_label q'), px_label q') \<le> (m (px_label q), px_label q)"
    using rank q(1,3) by blast+
  have k: "rk (px_label q) < rk (px_label q') \<longleftrightarrow> (m (px_label q), px_label q) < (m (px_label q'), px_label q')"
    "rk (px_label q) = rk (px_label q') \<longleftrightarrow> (m (px_label q), px_label q) = (m (px_label q'), px_label q')"
    by (fact order_iso [OF le])+
  have b: "rk (px_label q) * nat rows + r < rk (px_label q') * nat rows + r' \<longleftrightarrow>
      rk (px_label q) < rk (px_label q') \<or> rk (px_label q) = rk (px_label q') \<and> r < r'"
    "rk (px_label q) * nat rows + r = rk (px_label q') * nat rows + r' \<longleftrightarrow> rk (px_label q) = rk (px_label q') \<and> r = r'"
    by (rule row_major_less [OF rows(1,2)], rule row_major_eq [OF rows(1,2)])
  have lex: "(a, b) \<le> (c, d) \<longleftrightarrow> a < c \<or> a = c \<and> b \<le> d" for a c :: "'x::linorder" and b d :: "'y::linorder"
    by auto
  show ?thesis unfolding r_def [symmetric] r'_def [symmetric] lex b k rows(3,4) by auto
qed

lemma bucket_row_of:
  assumes "in_rows v_min rows q"
  shows "bucket_row v_min rows (k * nat rows + nat (rows - 1 - (px_v q - v_min))) = px_v q"
proof -
  have r: "nat (rows - 1 - (px_v q - v_min)) < nat rows" "0 \<le> rows - 1 - (px_v q - v_min)"
    using assms by (auto simp: in_rows_def)
  then have "(k * nat rows + nat (rows - 1 - (px_v q - v_min))) mod nat rows = nat (rows - 1 - (px_v q - v_min))"
    by simp
  with r(2) show ?thesis by (simp add: bucket_row_def)
qed

text \<open>What the ranks and numbers of the first two steps make of a pixel.\<close>

lemma pixel_buckets:
  assumes inv: "dense_inv st n pix d" and n: "n = length pix" and rows: "0 < rows"
    and rank: "rank = component_ranks (component_order d) old" "length old = length (dn_labels d)"
  obtains rk where
    "\<And>i. i < n \<Longrightarrow> bucket_of pix v_min rows rank (dn_cid d) i =
      (if in_rows v_min rows (pix ! i) then Some (rk (px_label (pix ! i)) * nat rows + nat (rows - 1 - (px_v (pix ! i) - v_min))) else None)"
    and "\<And>l. l \<in> px_label ` set pix \<Longrightarrow> rk l < length (dn_labels d)"
    and "\<And>l l'. l \<in> px_label ` set pix \<Longrightarrow> l' \<in> px_label ` set pix \<Longrightarrow>
      rk l \<le> rk l' \<longleftrightarrow> (mean_column pix l, l) \<le> (mean_column pix l', l')"
proof -
  let ?ls = "dn_labels d"
  define nc where "nc = length ?ls"
  define f where "f = (\<lambda>a. (dn_sumu d ! a / of_nat (dn_cnt d ! a), ?ls ! a))"
  have dist: "distinct ?ls" and ls: "set ?ls = px_label ` set pix" using inv by (simp_all add: dense_inv_def table_ok_def)
  have f: "f a = (mean_column pix (?ls ! a), ?ls ! a)" if "a < nc" for a
    using inv that by (simp add: f_def dense_inv_def mean_column_def nc_def)
  have inj: "inj_on f {..<nc}"
    using dist by (auto simp: inj_on_def f nc_def nth_eq_iff_index_eq)
  have order: "component_order d = sort_key f [0..<nc]" by (simp add: component_order_def f_def nc_def)
  note ro = ranks_ordered [OF inj order, of old, folded rank(1)]
  define num where "num l = (SOME j. j < nc \<and> ?ls ! j = l)" for l
  have num: "num l < nc \<and> ?ls ! num l = l" if "l \<in> px_label ` set pix" for l
  proof -
    have "\<exists>j. j < nc \<and> ?ls ! j = l" using that ls by (metis in_set_conv_nth nc_def)
    then show ?thesis unfolding num_def by (rule someI_ex)
  qed
  define rk where "rk l = rank ! num l" for l
  have le: "rk l \<le> rk l' \<longleftrightarrow> (mean_column pix l, l) \<le> (mean_column pix l', l')"
    if "l \<in> px_label ` set pix" "l' \<in> px_label ` set pix" for l l'
    using ro(1) [of "num l" "num l'"] num [OF that(1)] num [OF that(2)] rank(2) by (simp add: rk_def f nc_def)
  have less: "rk l < length ?ls" if "l \<in> px_label ` set pix" for l
    using ro(2) [of "num l" "num l"] num [OF that] rank(2) by (simp add: rk_def nc_def)
  have at: "rank ! (dn_cid d ! i) = rk (px_label (pix ! i))" if "i < n" for i
  proof -
    have c: "dn_cid d ! i < nc" "?ls ! (dn_cid d ! i) = px_label (pix ! i)"
      using inv that n by (simp_all add: dense_inv_def nc_def)
    moreover have "num (px_label (pix ! i)) < nc \<and> ?ls ! num (px_label (pix ! i)) = px_label (pix ! i)"
      using num that n by simp
    ultimately have "dn_cid d ! i = num (px_label (pix ! i))" using dist by (metis nc_def nth_eq_iff_index_eq)
    then show ?thesis by (simp add: rk_def)
  qed
  have "bucket_of pix v_min rows rank (dn_cid d) i =
      (if in_rows v_min rows (pix ! i) then Some (rk (px_label (pix ! i)) * nat rows + nat (rows - 1 - (px_v (pix ! i) - v_min))) else None)"
    if "i < n" for i
    using at [OF that] by (auto simp: bucket_of_def Let_def in_rows_def)
  from this less le show ?thesis by (rule that)
qed

lemma order_skeleton_pixels_sorted:
  assumes "scratch_ok sc" and "card (px_label ` set pix) \<le> 2 ^ 15"
  shows "\<exists>ov ou sc'. order_skeleton_pixels pix v_min rows sc = Some (ov, ou, sc') \<and> scratch_ok sc' \<and>
    length ov = length ou \<and>
    zip ov ou = map (\<lambda>q. (px_v q, px_u q)) (sort_key (pixel_key pix) (filter (in_rows v_min rows) pix))"
proof (cases "pix = [] \<or> rows \<le> 0")
  case True
  then have "filter (in_rows v_min rows) pix = []" by (auto simp: in_rows_def filter_empty_conv)
  with True assms(1) show ?thesis by (simp add: order_skeleton_pixels_def)
next
  case False
  define n where "n = length pix"
  define st where "st = sc_stamp (next_stamp sc)"
  define d0 where "d0 = \<lparr>dn_table = sc_table (next_stamp sc), dn_cid = resized n 0 (sc_cid sc), dn_labels = [],
      dn_cnt = [], dn_sumu = []\<rparr>"
  have "dense_inv st n [] d0" unfolding st_def d0_def by (rule dense_inv_start) (simp_all add: assms(1))
  from see_pixels_inv [OF this, of pix] assms(2) obtain d where
    d: "see_pixels st 0 pix d0 = Some d" "dense_inv st n pix d" by (auto simp: n_def slots_def)
  define rank where "rank = component_ranks (component_order d) (resized (length (dn_labels d)) 0 (sc_rank sc))"
  define nb where "nb = length (dn_labels d) * nat rows"
  define bf where "bf = bucket_of pix v_min rows rank (dn_cid d)"
  define bucket where "bucket = prefix_sums nb (count_buckets bf n nb)"
  obtain cur su where scat: "scatter bf (\<lambda>i. px_u (pix ! i)) n (butlast bucket, resized (bucket ! nb) 0 (sc_su sc)) = (cur, su)"
    by fastforce
  obtain su' ov ou where emit: "fold (emit_bucket bucket v_min rows) [0..<nb] (su, [], []) = (su', ov, ou)"
    by (metis prod_cases3)
  have same: "sc_cid (next_stamp sc) = sc_cid sc" "sc_rank (next_stamp sc) = sc_rank sc" "sc_su (next_stamp sc) = sc_su sc"
    by (simp_all add: next_stamp_def Let_def)
  have out: "order_skeleton_pixels pix v_min rows sc = Some (ov, ou, (next_stamp sc)\<lparr>sc_table := dn_table d,
      sc_cid := dn_cid d, sc_rank := rank, sc_su := su'\<rparr>)"
    using False d(1) scat emit unfolding order_skeleton_pixels_def Let_def
    by (simp add: same flip: n_def st_def d0_def rank_def nb_def bf_def bucket_def)
  have "0 < rows" using False by simp
  from pixel_buckets [OF d(2) n_def this rank_def length_resized] obtain rk where
    bf_eq: "\<And>i. i < n \<Longrightarrow> bf i = (if in_rows v_min rows (pix ! i)
        then Some (rk (px_label (pix ! i)) * nat rows + nat (rows - 1 - (px_v (pix ! i) - v_min))) else None)"
    and rk: "\<And>l. l \<in> px_label ` set pix \<Longrightarrow> rk l < length (dn_labels d)"
      "\<And>l l'. l \<in> px_label ` set pix \<Longrightarrow> l' \<in> px_label ` set pix \<Longrightarrow>
        rk l \<le> rk l' \<longleftrightarrow> (mean_column pix l, l) \<le> (mean_column pix l', l')"
    unfolding bf_def by blast
  define bk where "bk = (\<lambda>q::skel_pix. rk (px_label q) * nat rows + nat (rows - 1 - (px_v q - v_min)))"
  have "fits bf n nb" unfolding fits_def
  proof (intro allI impI)
    fix i b assume i: "i < n" "bf i = Some b"
    then have b: "b = bk (pix ! i)" "in_rows v_min rows (pix ! i)" by (simp_all add: bf_eq bk_def split: if_splits)
    have "rk (px_label (pix ! i)) < length (dn_labels d)" using rk(1) i(1) n_def by simp
    moreover have "nat (rows - 1 - (px_v (pix ! i) - v_min)) < nat rows" using b(2) by (auto simp: in_rows_def)
    ultimately show "b < nb"
      using row_major_less [of "nat (rows - 1 - (px_v (pix ! i) - v_min))" "nat rows" 0 "rk (px_label (pix ! i))" "length (dn_labels d)"]
      unfolding b(1) bk_def nb_def by simp
  qed
  note cs = counting_sort_result [OF this bucket_def scat emit]
  let ?good = "filter (in_rows v_min rows) pix"
  have "filter (\<lambda>i. bf i \<noteq> None) [0..<n] = filter (\<lambda>i. in_rows v_min rows (pix ! i)) [0..<n]"
    by (rule filter_cong) (auto simp: bf_eq)
  then have "map (\<lambda>i. (the (bf i), px_u (pix ! i))) (filter (\<lambda>i. bf i \<noteq> None) [0..<n]) =
      map (\<lambda>i. (bk (pix ! i), px_u (pix ! i))) (filter (\<lambda>i. in_rows v_min rows (pix ! i)) [0..<n])"
    by (simp add: bf_eq bk_def)
  also have "\<dots> = map (\<lambda>q. (bk q, px_u q)) ?good"
    using filter_map_nth [of "\<lambda>q. (bk q, px_u q)" pix "in_rows v_min rows"] by (simp add: n_def)
  also have "sort \<dots> = map (\<lambda>q. (bk q, px_u q)) (sort_key (\<lambda>q. (bk q, px_u q)) ?good)" by (rule sort_map)
  also have "sort_key (\<lambda>q. (bk q, px_u q)) ?good = sort_key (pixel_key pix) ?good"
  proof (rule sort_key_order_cong)
    fix q q' assume "q \<in> set ?good" "q' \<in> set ?good"
    then show "(bk q, px_u q) \<le> (bk q', px_u q') \<longleftrightarrow> pixel_key pix q \<le> pixel_key pix q'"
      unfolding bk_def pixel_key_def by (intro bucket_order [OF rk(2)]) auto
  qed
  finally have "zip ov ou = map (\<lambda>(b, u). (bucket_row v_min rows b, u))
      (map (\<lambda>q. (bk q, px_u q)) (sort_key (pixel_key pix) ?good))"
    using cs by simp
  also have "\<dots> = map (\<lambda>q. (px_v q, px_u q)) (sort_key (pixel_key pix) ?good)"
    by (simp add: bk_def bucket_row_of)
  finally have "zip ov ou = map (\<lambda>q. (px_v q, px_u q)) (sort_key (pixel_key pix) ?good)" .
  moreover have "scratch_ok ((next_stamp sc)\<lparr>sc_table := dn_table d, sc_cid := dn_cid d, sc_rank := rank, sc_su := su'\<rparr>)"
  proof -
    have "\<forall>s \<in> set (dn_table d0). sl_stamp s \<le> st"
      using next_stamp_fresh [OF assms(1)] by (auto simp: d0_def st_def intro: less_imp_le)
    from see_pixels_stamps [OF d(1) this] d(2) show ?thesis
      by (simp add: scratch_ok_def st_def dense_inv_def table_ok_def)
  qed
  ultimately show ?thesis using out cs by blast
qed

text \<open>
  C27: The counting sort gives the reference order. Whatever an earlier call left in the scratch vectors, and with at most as
  many components as the table has slots, the probing loop returns, and the pixels put out are those of the rows
  of the mask, sorted by the mean column of their component, its label, the row from the bottom and the column; the
  scratch is left fit for the next call, also when the stamp wraps around.
\<close>

theorem skeleton_pixels_are_sorted:
  assumes "scratch_ok sc" and "card (px_label ` set pix) \<le> 2 ^ 15"
  shows "\<exists>ov ou sc'. order_skeleton_pixels pix v_min rows sc = Some (ov, ou, sc') \<and> scratch_ok sc' \<and>
    length ov = length ou \<and>
    zip ov ou = map (\<lambda>q. (px_v q, px_u q)) (sort_key (pixel_key pix) (filter (in_rows v_min rows) pix))"
  using assms by (rule order_skeleton_pixels_sorted)

definition two_lines :: "skel_pix list" where
  "two_lines = [\<lparr>px_label = 7, px_v = 6, px_u = 9\<rparr>, \<lparr>px_label = 2, px_v = 4, px_u = 2\<rparr>, \<lparr>px_label = 2, px_v = 5, px_u = 1\<rparr>,
     \<lparr>px_label = 2, px_v = 12, px_u = 3\<rparr>]"

theorem skeleton_pixels_are_sorted_witness:
  "\<exists>ov ou sc'. order_skeleton_pixels two_lines 0 10 new_skel_scratch = Some (ov, ou, sc') \<and>
     zip ov ou = [(5, 1), (4, 2), (6, 9)]"
proof -
  have s: "scratch_ok new_skel_scratch" by (simp add: scratch_ok_def new_skel_scratch_def)
  have c: "card (px_label ` set two_lines) \<le> 2 ^ 15" by (simp add: two_lines_def)
  have "sort_key (pixel_key two_lines) (filter (in_rows 0 10) two_lines) =
      [\<lparr>px_label = 2, px_v = 5, px_u = 1\<rparr>, \<lparr>px_label = 2, px_v = 4, px_u = 2\<rparr>, \<lparr>px_label = 7, px_v = 6, px_u = 9\<rparr>]"
    by (simp add: two_lines_def in_rows_def pixel_key_def mean_column_def column_sum_def labelled_as_def)
  with skeleton_pixels_are_sorted [OF s c, of 0 10] show ?thesis by auto
qed

end
