(* ===== verification/Detection_Select.thy ===== *)
theory Detection_Select
  imports Messages "HOL-Library.Sublist" "HOL-Library.Product_Lexorder"
begin

text \<open>
  \<open>src/vision_cpp/src/model_helpers.cpp\<close>: the choice of detections from the candidates the GPU delivers: the thousand best,
  class-wise greedy suppression of overlapping boxes, the limit on their number, scaling, clamping and the filter of
  tiny boxes. Candidates that agree in score and in \<open>flat\<close> keep their order (\<open>flat\<close> is their index in the network's output,
  so there are none); the limit must not be negative, since \<open>resize\<close> would throw then.
\<close>

section \<open>Data\<close>

record det_candidate =
  dc_x1 :: real
  dc_y1 :: real
  dc_x2 :: real
  dc_y2 :: real
  dc_score :: real
  dc_label :: int
  dc_flat :: int

record found_box =
  fb_x1 :: real
  fb_y1 :: real
  fb_x2 :: real
  fb_y2 :: real
  fb_score :: real
  fb_label :: int

definition kMaxCand :: int where
  "kMaxCand = 2048"

section \<open>Operations\<close>

definition iou :: "det_candidate \<Rightarrow> det_candidate \<Rightarrow> real" where
  "iou a b =
    (let iw = min (dc_x2 a) (dc_x2 b) - max (dc_x1 a) (dc_x1 b); ih = min (dc_y2 a) (dc_y2 b) - max (dc_y1 a) (dc_y1 b) in
     if iw \<le> 0 \<or> ih \<le> 0 then 0
     else
      (let common = iw * ih;
           uni = (dc_x2 a - dc_x1 a) * (dc_y2 a - dc_y1 a) + (dc_x2 b - dc_x1 b) * (dc_y2 b - dc_y1 b) - common in
       if uni > 0 then common / uni else 0))"

definition clampf :: "real \<Rightarrow> real \<Rightarrow> real \<Rightarrow> real" where
  "clampf v lo hi = min (max v lo) hi"

definition better_key :: "det_candidate list \<Rightarrow> nat \<Rightarrow> real \<times> int" where
  \<comment> \<open>\<open>better(a, b)\<close> is that the key of \<open>a\<close> is less\<close>
  "better_key cs i = (- dc_score (cs ! i), dc_flat (cs ! i))"

definition best_first :: "det_candidate list \<Rightarrow> nat list \<Rightarrow> nat list" where
  \<comment> \<open>\<open>nth_element\<close> leaves the thousand best in front, then the sort\<close>
  "best_first cs ixs =
    (let ixs = (if length ixs > 1000 then take 1000 (sort_key (better_key cs) ixs) else ixs) in sort_key (better_key cs) ixs)"

definition overlaps :: "det_candidate list \<Rightarrow> real \<Rightarrow> nat \<Rightarrow> nat \<Rightarrow> bool" where
  "overlaps cs nms_iou i j \<longleftrightarrow> dc_label (cs ! j) = dc_label (cs ! i) \<and> iou (cs ! i) (cs ! j) > nms_iou"

definition nms_step :: "det_candidate list \<Rightarrow> real \<Rightarrow> nat \<Rightarrow> nat list \<Rightarrow> nat list" where
  "nms_step cs nms_iou i keep = (if list_ex (overlaps cs nms_iou i) keep then keep else keep @ [i])"

definition greedy_nms :: "det_candidate list \<Rightarrow> real \<Rightarrow> nat list \<Rightarrow> nat list" where
  "greedy_nms cs nms_iou ixs = fold (nms_step cs nms_iou) ixs []"

definition scaled_box :: "real \<Rightarrow> real \<Rightarrow> int \<Rightarrow> int \<Rightarrow> det_candidate \<Rightarrow> found_box" where
  "scaled_box sx sy fw fh c =
    \<lparr>fb_x1 = clampf (dc_x1 c * sx) 0 (of_int (fw - 1)), fb_y1 = clampf (dc_y1 c * sy) 0 (of_int (fh - 1)),
     fb_x2 = clampf (dc_x2 c * sx) 0 (of_int (fw - 1)), fb_y2 = clampf (dc_y2 c * sy) 0 (of_int (fh - 1)),
     fb_score = dc_score c, fb_label = dc_label c\<rparr>"

definition big_enough :: "real \<Rightarrow> found_box \<Rightarrow> bool" where
  "big_enough min_box d \<longleftrightarrow> fb_x2 d - fb_x1 d > min_box \<and> fb_y2 d - fb_y1 d > min_box"

definition select_detections ::
  "int \<Rightarrow> det_candidate list \<Rightarrow> real \<Rightarrow> int \<Rightarrow> real \<Rightarrow> real \<Rightarrow> int \<Rightarrow> int \<Rightarrow> real \<Rightarrow> found_box list option" where
  \<comment> \<open>\<open>None\<close> is the exception of a negative \<open>resize\<close>\<close>
  "select_detections cand_count cs nms_iou max_dets sx sy fw fh min_box =
    (let n = min cand_count kMaxCand in
     if n \<le> 0 then Some []
     else
      (let keep = greedy_nms cs nms_iou (best_first cs [0..<nat n]) in
       if int (length keep) > max_dets \<and> max_dets < 0 then None
       else
        (let keep = (if int (length keep) > max_dets then take (nat max_dets) keep else keep) in
         Some (filter (big_enough min_box) (map (\<lambda>i. scaled_box sx sy fw fh (cs ! i)) keep)))))"

section \<open>Overlap\<close>

lemma iou_sym: "iou a b = iou b a"
  by (simp add: iou_def Let_def min.commute max.commute add.commute mult.commute)

lemma ratio_between: "0 \<le> c \<Longrightarrow> c \<le> a \<Longrightarrow> c \<le> b \<Longrightarrow> 0 < a + b - c \<Longrightarrow> 0 \<le> c / (a + b - c) \<and> c / (a + b - c) \<le> (1::real)"
  by (simp add: divide_le_eq)

lemma iou_between:
  assumes "dc_x1 a \<le> dc_x2 a" "dc_y1 a \<le> dc_y2 a" "dc_x1 b \<le> dc_x2 b" "dc_y1 b \<le> dc_y2 b"
  shows "0 \<le> iou a b \<and> iou a b \<le> 1"
proof -
  define iw ih where "iw = min (dc_x2 a) (dc_x2 b) - max (dc_x1 a) (dc_x1 b)"
    and "ih = min (dc_y2 a) (dc_y2 b) - max (dc_y1 a) (dc_y1 b)"
  define A B where "A = (dc_x2 a - dc_x1 a) * (dc_y2 a - dc_y1 a)" and "B = (dc_x2 b - dc_x1 b) * (dc_y2 b - dc_y1 b)"
  have i: "iou a b = (if iw \<le> 0 \<or> ih \<le> 0 then 0 else if A + B - iw * ih > 0 then iw * ih / (A + B - iw * ih) else 0)"
    by (simp add: iou_def Let_def iw_def ih_def A_def B_def)
  show ?thesis
  proof (cases "0 < iw \<and> 0 < ih \<and> 0 < A + B - iw * ih")
    case True
    then have "iw * ih \<le> A" "iw * ih \<le> B"
      unfolding A_def B_def using assms by (intro mult_mono; simp add: iw_def ih_def)+
    with True have "0 \<le> iw * ih / (A + B - iw * ih) \<and> iw * ih / (A + B - iw * ih) \<le> 1"
      by (intro ratio_between) simp_all
    with True show ?thesis by (simp add: i)
  next
    case False
    then show ?thesis by (simp add: i)
  qed
qed

section \<open>Greedy suppression\<close>

lemma subseq_set: "subseq xs ys \<Longrightarrow> set xs \<subseteq> set ys"
  by (induction rule: list_emb.induct) auto

lemma subseq_sorted: "subseq xs ys \<Longrightarrow> sorted_wrt P ys \<Longrightarrow> sorted_wrt P xs"
  by (induction rule: list_emb.induct) (auto dest: subseq_set)

lemma greedy_nms_snoc: "greedy_nms cs t (xs @ [x]) = nms_step cs t x (greedy_nms cs t xs)"
  by (simp add: greedy_nms_def)

lemma greedy_subseq: "subseq (greedy_nms cs t xs) xs"
  by (induction xs rule: rev_induct)
    (auto simp: greedy_nms_snoc nms_step_def greedy_nms_def [of _ _ "[]"] intro: subseq_order.trans list_emb_append2 subseq_rev_drop_many)

lemma greedy_pairwise: "sorted_wrt (\<lambda>j i. \<not> overlaps cs t i j) (greedy_nms cs t xs)"
proof (induction xs rule: rev_induct)
  case Nil
  show ?case by (simp add: greedy_nms_def)
next
  case (snoc x xs)
  then show ?case by (auto simp: greedy_nms_snoc nms_step_def sorted_wrt_append list_ex_iff)
qed

lemma greedy_keeps: "set (greedy_nms cs t xs) \<subseteq> set (greedy_nms cs t (xs @ [x]))"
  by (auto simp: greedy_nms_snoc nms_step_def)

lemma greedy_covers:
  "sorted (map key xs) \<Longrightarrow> x \<in> set xs \<Longrightarrow> x \<notin> set (greedy_nms cs t xs) \<Longrightarrow>
   \<exists>j \<in> set (greedy_nms cs t xs). overlaps cs t x j \<and> key j \<le> key x"
proof (induction xs rule: rev_induct)
  case (snoc y xs)
  show ?case
  proof (cases "x \<in> set xs")
    case True
    moreover have "x \<notin> set (greedy_nms cs t xs)" using snoc.prems(3) greedy_keeps by blast
    ultimately obtain j where "j \<in> set (greedy_nms cs t xs)" "overlaps cs t x j" "key j \<le> key x"
      using snoc by (auto simp: sorted_append)
    then show ?thesis using greedy_keeps by blast
  next
    case False
    with snoc.prems(2) have x: "x = y" by simp
    with snoc.prems(3) obtain j where j: "j \<in> set (greedy_nms cs t xs)" "overlaps cs t x j"
      by (auto simp: greedy_nms_snoc nms_step_def list_ex_iff split: if_splits)
    then have "j \<in> set xs" using subseq_set [OF greedy_subseq] by blast
    then have "key j \<le> key x" using snoc.prems(1) x by (auto simp: sorted_append)
    with j show ?thesis using greedy_keeps by blast
  qed
qed simp

section \<open>The candidates that take part\<close>

lemma best_first_sorted: "sorted (map (better_key cs) (best_first cs xs))"
  by (simp add: best_first_def Let_def)

lemma best_first_distinct: "distinct xs \<Longrightarrow> distinct (best_first cs xs)"
  by (simp add: best_first_def Let_def)

lemma best_first_best:
  assumes "i \<in> set (best_first cs xs)" "j \<in> set xs" "j \<notin> set (best_first cs xs)"
  shows "better_key cs i \<le> better_key cs j"
proof (cases "length xs > 1000")
  case True
  let ?s = "sort_key (better_key cs) xs"
  have i: "i \<in> set (take 1000 ?s)" and j: "j \<notin> set (take 1000 ?s)" using assms(1,3) True by (simp_all add: best_first_def)
  have "j \<in> set (take 1000 ?s @ drop 1000 ?s)" using assms(2) by (simp only: append_take_drop_id set_sort)
  with j have "j \<in> set (drop 1000 ?s)" by (simp only: set_append) blast
  moreover have "sorted (map (better_key cs) (take 1000 ?s @ drop 1000 ?s))"
    by (simp only: append_take_drop_id sorted_sort_key)
  ultimately show ?thesis using i by (auto simp only: map_append sorted_append set_map imageI)
next
  case False
  with assms show ?thesis by (simp add: best_first_def)
qed

lemma best_first_count: "length (best_first cs xs) = min 1000 (length xs)" "set (best_first cs xs) \<subseteq> set xs"
  using set_take_subset [of 1000 "sort_key (better_key cs) xs"] by (auto simp: best_first_def Let_def)

lemma limit_le: "0 \<le> k \<Longrightarrow> (if k < int l then nat k else l) \<le> nat k"
  by auto

section \<open>Properties\<close>

text \<open>
  C28: The detections kept are the greedy choice. Of the candidates that take part - all of them up to a thousand, else a thousand
  of which none is worse than one left out - no two kept ones of a class overlap by more than the threshold, and every
  one that was dropped overlaps a kept one of its class that is at least as good.
\<close>

theorem kept_boxes_are_greedy_choice:
  assumes "part = best_first cs [0..<n]" and "keep = greedy_nms cs t part"
  shows "(\<forall>i \<in> set keep. \<forall>j \<in> set keep. i \<noteq> j \<and> dc_label (cs ! i) = dc_label (cs ! j) \<longrightarrow> iou (cs ! i) (cs ! j) \<le> t) \<and>
    (\<forall>i \<in> set part - set keep. \<exists>j \<in> set keep. dc_label (cs ! j) = dc_label (cs ! i) \<and> t < iou (cs ! i) (cs ! j) \<and>
       (dc_score (cs ! i) < dc_score (cs ! j) \<or> dc_score (cs ! i) = dc_score (cs ! j) \<and> dc_flat (cs ! j) \<le> dc_flat (cs ! i))) \<and>
    length part = min 1000 n \<and> distinct part \<and> set keep \<subseteq> set part \<and>
    (\<forall>i \<in> set part. \<forall>j \<in> {..<n} - set part. dc_score (cs ! j) \<le> dc_score (cs ! i))"
proof -
  have sub: "set keep \<subseteq> set part"
    unfolding assms(2) by (rule subseq_set [OF greedy_subseq])
  have dist: "distinct part" unfolding assms(1) by (rule best_first_distinct) simp
  have "iou (cs ! i) (cs ! j) \<le> t" if "i \<in> set keep" "j \<in> set keep" "i \<noteq> j" "dc_label (cs ! i) = dc_label (cs ! j)" for i j
  proof -
    have pw: "sorted_wrt (\<lambda>j i. \<not> overlaps cs t i j) keep" unfolding assms(2) by (rule greedy_pairwise)
    obtain a b where ab: "a < length keep" "keep ! a = i" "b < length keep" "keep ! b = j"
      using \<open>i \<in> set keep\<close> \<open>j \<in> set keep\<close> by (auto simp: in_set_conv_nth)
    with \<open>i \<noteq> j\<close> have "a < b \<or> b < a" by (metis linorder_neqE_nat)
    then have "\<not> overlaps cs t i j \<or> \<not> overlaps cs t j i" using pw ab by (auto simp: sorted_wrt_iff_nth_less)
    with that(4) show ?thesis by (auto simp: overlaps_def iou_sym)
  qed
  moreover have "\<exists>j \<in> set keep. dc_label (cs ! j) = dc_label (cs ! i) \<and> t < iou (cs ! i) (cs ! j) \<and>
       (dc_score (cs ! i) < dc_score (cs ! j) \<or> dc_score (cs ! i) = dc_score (cs ! j) \<and> dc_flat (cs ! j) \<le> dc_flat (cs ! i))"
    if "i \<in> set part - set keep" for i
    using greedy_covers [of "better_key cs" part i cs t] that best_first_sorted [of cs "[0..<n]"]
    unfolding assms(1) [symmetric] assms(2) [symmetric] by (auto simp: overlaps_def better_key_def)
  moreover have "dc_score (cs ! j) \<le> dc_score (cs ! i)" if "i \<in> set part" "j \<in> {..<n} - set part" for i j
    using best_first_best [of i cs "[0..<n]" j] that unfolding assms(1) [symmetric] by (auto simp: better_key_def)
  ultimately show ?thesis using sub dist best_first_count(1) [of cs "[0..<n]"] assms(1) by auto
qed

text \<open>
  The published boxes are usable. The selection only fails when the limit is negative and a box was kept; otherwise there are
  at most the limit of boxes, best score first, every one lies in the image, is larger than the minimum in
  both directions and carries the score and class of a candidate.
\<close>

theorem selected_boxes_are_usable:
  assumes "1 \<le> fw" "1 \<le> fh"
  shows "case select_detections cand_count cs t max_dets sx sy fw fh min_box of
      None \<Rightarrow> max_dets < 0
    | Some ds \<Rightarrow> (0 \<le> max_dets \<longrightarrow> length ds \<le> nat max_dets) \<and>
        sorted_wrt (\<lambda>a b. fb_score b \<le> fb_score a) ds \<and>
        (\<forall>d \<in> set ds. 0 \<le> fb_x1 d \<and> fb_x2 d \<le> of_int (fw - 1) \<and> 0 \<le> fb_y1 d \<and> fb_y2 d \<le> of_int (fh - 1) \<and>
           min_box < fb_x2 d - fb_x1 d \<and> min_box < fb_y2 d - fb_y1 d \<and>
           (\<exists>i < nat (min cand_count 2048). fb_score d = dc_score (cs ! i) \<and> fb_label d = dc_label (cs ! i)))"
proof -
  let ?n = "nat (min cand_count kMaxCand)" and ?box = "\<lambda>i. scaled_box sx sy fw fh (cs ! i)"
  let ?keep = "greedy_nms cs t (best_first cs [0..<?n])"
  have cl: "0 \<le> clampf v 0 (of_int (k - 1)) \<and> clampf v 0 (of_int (k - 1)) \<le> of_int (k - 1)" if "1 \<le> k" for v k
    using that by (simp add: clampf_def)
  have keep: "subseq ?keep (best_first cs [0..<?n])" by (rule greedy_subseq)
  have srt: "sorted_wrt (\<lambda>a b. better_key cs a \<le> better_key cs b) (best_first cs [0..<?n])"
    using best_first_sorted [of cs "[0..<?n]"] by (simp add: sorted_map)
  have good: "sorted_wrt (\<lambda>a b. fb_score b \<le> fb_score a) (filter (big_enough min_box) (map ?box (take m ?keep)))" for m
  proof -
    have "subseq (take m ?keep) (best_first cs [0..<?n])"
      using keep by (metis prefix_imp_subseq subseq_order.trans take_is_prefix)
    from subseq_sorted [OF this srt] have "sorted_wrt (\<lambda>a b. fb_score b \<le> fb_score a) (map ?box (take m ?keep))"
      by (auto simp: sorted_wrt_map scaled_box_def better_key_def elim: sorted_wrt_mono_rel [rotated])
    then show ?thesis by (rule sorted_wrt_filter)
  qed
  have elem: "i < nat (min cand_count 2048)" if "i \<in> set (take m ?keep)" for i m
    using that in_set_takeD [of i m ?keep] keep best_first_count(2) [of cs "[0..<?n]"]
    by (auto simp: kMaxCand_def dest!: subseq_set)
  have box: "0 \<le> fb_x1 (?box i) \<and> fb_x2 (?box i) \<le> of_int (fw - 1) \<and> 0 \<le> fb_y1 (?box i) \<and> fb_y2 (?box i) \<le> of_int (fh - 1) \<and>
      fb_score (?box i) = dc_score (cs ! i) \<and> fb_label (?box i) = dc_label (cs ! i)" for i
    using cl assms by (simp add: scaled_box_def)
  show ?thesis
  proof (cases "min cand_count kMaxCand \<le> 0 \<or> int (length ?keep) > max_dets \<and> max_dets < 0")
    case True
    then show ?thesis by (auto simp: select_detections_def Let_def)
  next
    case False
    define m where "m = (if int (length ?keep) > max_dets then nat max_dets else length ?keep)"
    have sel: "select_detections cand_count cs t max_dets sx sy fw fh min_box =
        Some (filter (big_enough min_box) (map ?box (take m ?keep)))"
      using False by (auto simp: select_detections_def Let_def m_def)
    have "length (filter (big_enough min_box) (map ?box (take m ?keep))) \<le> m"
      by (rule order.trans [OF length_filter_le]) simp
    moreover have "0 \<le> max_dets \<longrightarrow> m \<le> nat max_dets" unfolding m_def using limit_le by blast
    ultimately have "0 \<le> max_dets \<longrightarrow> length (filter (big_enough min_box) (map ?box (take m ?keep))) \<le> nat max_dets"
      using order.trans by blast
    moreover have "0 \<le> fb_x1 d \<and> fb_x2 d \<le> of_int (fw - 1) \<and> 0 \<le> fb_y1 d \<and> fb_y2 d \<le> of_int (fh - 1) \<and>
        min_box < fb_x2 d - fb_x1 d \<and> min_box < fb_y2 d - fb_y1 d \<and>
        (\<exists>i < nat (min cand_count 2048). fb_score d = dc_score (cs ! i) \<and> fb_label d = dc_label (cs ! i))"
      if "d \<in> set (filter (big_enough min_box) (map ?box (take m ?keep)))" for d
    proof -
      from that have "d \<in> ?box ` set (take m ?keep)" "big_enough min_box d" by (simp_all only: set_filter set_map mem_Collect_eq)
      then obtain i where i: "i \<in> set (take m ?keep)" "d = ?box i" "big_enough min_box d" by blast
      from elem [OF i(1)] box [of i] i(3) show ?thesis unfolding i(2) big_enough_def by blast
    qed
    ultimately show ?thesis
      unfolding sel option.case using good [of m] by blast
  qed
qed

section \<open>Witnesses\<close>

definition three_boxes :: "det_candidate list" where
  "three_boxes = [\<lparr>dc_x1 = 0, dc_y1 = 0, dc_x2 = 10, dc_y2 = 10, dc_score = 0.5, dc_label = 1, dc_flat = 0\<rparr>,
     \<lparr>dc_x1 = 1, dc_y1 = 0, dc_x2 = 10, dc_y2 = 10, dc_score = 0.8, dc_label = 1, dc_flat = 1\<rparr>,
     \<lparr>dc_x1 = 0, dc_y1 = 0, dc_x2 = 10, dc_y2 = 10, dc_score = 0.6, dc_label = 2, dc_flat = 2\<rparr>]"

lemma three_boxes_part: "best_first three_boxes [0..<3] = [1, 2, 0]"
  by (simp add: best_first_def better_key_def three_boxes_def upt_rec)

lemma three_boxes_keep: "greedy_nms three_boxes 0.5 [1, 2, 0] = [1, 2]"
  by (simp add: greedy_nms_def nms_step_def overlaps_def iou_def three_boxes_def Let_def)

theorem kept_boxes_are_greedy_choice_witness:
  "1 \<in> set (greedy_nms three_boxes 0.5 (best_first three_boxes [0..<3])) \<and>
   iou (three_boxes ! 0) (three_boxes ! 1) > 0.5"
proof -
  have "0 \<in> set [1, 2, 0] - set [1, 2 :: nat]" by simp
  with kept_boxes_are_greedy_choice [OF three_boxes_part [symmetric] three_boxes_keep [symmetric]]
  have "\<exists>j \<in> set [1, 2]. dc_label (three_boxes ! j) = dc_label (three_boxes ! 0) \<and> 0.5 < iou (three_boxes ! 0) (three_boxes ! j)"
    by blast
  then show ?thesis
    unfolding three_boxes_part three_boxes_keep by (auto simp: three_boxes_def)
qed

theorem selected_boxes_are_usable_witness:
  "\<exists>ds. select_detections 3 three_boxes 0.5 1 1 1 20 20 2 = Some ds \<and> length ds \<le> 1"
proof -
  have "(1::int) \<le> 20" by simp
  from selected_boxes_are_usable [OF this this, where cand_count = 3 and cs = three_boxes and t = "0.5" and max_dets = 1 and sx = 1 and sy = 1 and min_box = 2]
  show ?thesis by (cases "select_detections 3 three_boxes 0.5 1 1 1 20 20 2") auto
qed

end
