(* ===== verification/Ground_Projection.thy ===== *)
theory Ground_Projection
  imports Messages
begin

text \<open>
  \<open>src/vision_cpp/src/ipm.cpp\<close>, class \<open>Ipm\<close>: the projection of mask pixels onto the ground plane. The angles of the image rows are
  tabulated once; a frame only needs the sine and cosine of the pitch, by the addition theorems. The lemmas show
  that the tabulated computation is the plain one, \<open>height / tan\<close>, and that the pinhole image of a projected
  point is the pixel it came from.
\<close>

section \<open>State\<close>

record ipm_params =
  ip_cx :: real
  ip_cy :: real
  ip_fx :: real
  ip_fy :: real
  ip_cam_pitch :: real
  ip_cam_height :: real
  ip_min_angle :: real
  ip_max_range :: real
  ip_cam_x :: real
  ip_step :: int
  ip_full_h :: int

definition default_ipm_params :: ipm_params where
  "default_ipm_params = \<lparr>ip_cx = 0, ip_cy = 0, ip_fx = 1, ip_fy = 1, ip_cam_pitch = 0.4, ip_cam_height = 1.606,
     ip_min_angle = 0.01, ip_max_range = 8, ip_cam_x = 0.02, ip_step = 1, ip_full_h = 544\<rparr>"

record ipm =
  im_params :: ipm_params
  im_alpha :: "real list"
  im_sin :: "real list"
  im_cos :: "real list"
  im_ready :: bool

definition new_ipm :: ipm where
  "new_ipm = \<lparr>im_params = default_ipm_params, im_alpha = [], im_sin = [], im_cos = [], im_ready = False\<rparr>"

section \<open>Operations\<close>

definition ipm_init :: "ipm_params \<Rightarrow> ipm" where
  "ipm_init p =
    (let alphas = map (\<lambda>v. arctan ((of_int v - ip_cy p) / ip_fy p)) [0..ip_full_h p - 1] in
     \<lparr>im_params = p, im_alpha = alphas, im_sin = map sin alphas, im_cos = map cos alphas, im_ready = True\<rparr>)"

definition project_pixel :: "ipm \<Rightarrow> real \<Rightarrow> int \<times> int \<Rightarrow> point3 option" where
  \<comment> \<open>the loop body; \<open>None\<close> where it continues without a point\<close>
  "project_pixel m beta px =
    (let p = im_params m; sb = sin beta; cb = cos beta; inv_fx = 1 / ip_fx p; vf = fst px * ip_step p in
     if vf < 0 \<or> vf \<ge> ip_full_h p then None
     else if im_alpha m ! nat vf + beta < ip_min_angle p then None
     else
      (let sa = im_sin m ! nat vf; ca = im_cos m ! nat vf; st = sa * cb + ca * sb; ct = ca * cb - sa * sb in
       if st = 0 then None
       else
        (let fwd = ip_cam_height p * ct / st in
         if \<not> (fwd > 0 \<and> fwd \<le> ip_max_range p) then None
         else Some (fwd + ip_cam_x p, (ip_cx p - of_int (snd px) * of_int (ip_step p)) * inv_fx * fwd * ca / ct, 0))))"

definition project :: "ipm \<Rightarrow> (int \<times> int) list \<Rightarrow> real \<Rightarrow> point3 list" where
  "project m pxs bot_pitch =
    (let beta = ip_cam_pitch (im_params m) + bot_pitch in
     map the (filter (\<lambda>q. q \<noteq> None) (map (project_pixel m beta) pxs)))"

section \<open>The plain computation\<close>

definition row_angle :: "ipm_params \<Rightarrow> int \<Rightarrow> real" where
  "row_angle p v = arctan ((of_int (v * ip_step p) - ip_cy p) / ip_fy p)"

text \<open>The ground point seen at a pixel, without the table.\<close>

definition ground_point :: "ipm_params \<Rightarrow> real \<Rightarrow> int \<times> int \<Rightarrow> point3 option" where
  "ground_point p beta px =
    (let theta = row_angle p (fst px) + beta; fwd = ip_cam_height p / tan theta in
     if 0 \<le> fst px * ip_step p \<and> fst px * ip_step p < ip_full_h p \<and> ip_min_angle p \<le> theta \<and> sin theta \<noteq> 0 \<and>
        0 < fwd \<and> fwd \<le> ip_max_range p
     then Some (fwd + ip_cam_x p,
       (ip_cx p - of_int (snd px * ip_step p)) / ip_fx p * fwd * cos (row_angle p (fst px)) / cos theta, 0)
     else None)"

lemma table_at:
  assumes "0 \<le> k" "k < ip_full_h p"
  shows "im_alpha (ipm_init p) ! nat k = arctan ((of_int k - ip_cy p) / ip_fy p)"
    and "im_sin (ipm_init p) ! nat k = sin (arctan ((of_int k - ip_cy p) / ip_fy p))"
    and "im_cos (ipm_init p) ! nat k = cos (arctan ((of_int k - ip_cy p) / ip_fy p))"
  using assms by (simp_all add: ipm_init_def Let_def)

lemma project_pixel_is_ground_point: "project_pixel (ipm_init p) beta px = ground_point p beta px"
proof (cases "0 \<le> fst px * ip_step p \<and> fst px * ip_step p < ip_full_h p")
  case True
  let ?a = "row_angle p (fst px)"
  have t: "im_alpha (ipm_init p) ! nat (fst px * ip_step p) = ?a" "im_sin (ipm_init p) ! nat (fst px * ip_step p) = sin ?a"
    "im_cos (ipm_init p) ! nat (fst px * ip_step p) = cos ?a"
    using table_at True by (simp_all add: row_angle_def)
  have par: "im_params (ipm_init p) = p" by (simp add: ipm_init_def Let_def)
  have "ip_cam_height p * cos (?a + beta) / sin (?a + beta) = ip_cam_height p / tan (?a + beta)"
    by (simp add: tan_def)
  moreover have "sin ?a * cos beta + cos ?a * sin beta = sin (?a + beta)" "cos ?a * cos beta - sin ?a * sin beta = cos (?a + beta)"
    by (simp_all add: sin_add cos_add)
  ultimately show ?thesis
    using True unfolding project_pixel_def ground_point_def Let_def par t by (simp only:) (auto simp: not_le not_less)
next
  case False
  then show ?thesis by (auto simp: project_pixel_def ground_point_def Let_def ipm_init_def)
qed

section \<open>Back into the image\<close>

text \<open>The pinhole image of a point of the ground in a camera at the given height that looks down by \<open>beta\<close>.\<close>

definition pixel_of :: "ipm_params \<Rightarrow> real \<Rightarrow> point3 \<Rightarrow> real \<times> real" where
  "pixel_of p beta q =
    (case q of (x, y, z) \<Rightarrow>
      (let d = x - ip_cam_x p; h = ip_cam_height p - z;
           depth = d * cos beta + h * sin beta; down = h * cos beta - d * sin beta in
       (ip_cy p + ip_fy p * (down / depth), ip_cx p - ip_fx p * (y / depth))))"

lemma ground_point_seen_back:
  assumes "ground_point p beta px = Some q" "ip_fx p \<noteq> 0" "ip_fy p \<noteq> 0"
  shows "pixel_of p beta q = (of_int (fst px * ip_step p), of_int (snd px * ip_step p))"
proof -
  define a where "a = row_angle p (fst px)"
  define th where "th = a + beta"
  define h where "h = ip_cam_height p"
  define fwd where "fwd = h / tan th"
  have st: "sin th \<noteq> 0" and pos: "0 < fwd"
    and q: "q = (fwd + ip_cam_x p, (ip_cx p - of_int (snd px * ip_step p)) / ip_fx p * fwd * cos a / cos th, 0)"
    using assms(1) by (simp_all add: ground_point_def Let_def a_def th_def h_def fwd_def split: if_splits)
  have ct: "cos th \<noteq> 0" and h0: "h \<noteq> 0" using pos by (auto simp: fwd_def tan_def)
  have ca: "0 < cos a" unfolding a_def row_angle_def by (intro cos_gt_zero_pi arctan_lbound arctan_ubound)
  have f: "fwd = h * cos th / sin th" by (simp add: fwd_def tan_def)
  have "cos a = cos (th - beta)" "sin a = sin (th - beta)" by (simp_all add: th_def)
  then have rot: "cos a = cos th * cos beta + sin th * sin beta" "sin a = sin th * cos beta - cos th * sin beta"
    by (simp_all add: cos_diff sin_diff)
  have depth: "fwd * cos beta + h * sin beta = h * cos a / sin th"
    using st by (simp add: f rot field_simps)
  have down: "h * cos beta - fwd * sin beta = h * sin a / sin th"
    using st by (simp add: f rot field_simps)
  have "(h * sin a / sin th) / (h * cos a / sin th) = tan a"
    using st h0 ca by (simp add: tan_def)
  also have "tan a = (of_int (fst px * ip_step p) - ip_cy p) / ip_fy p"
    by (simp add: a_def row_angle_def tan_arctan)
  finally have row: "ip_cy p + ip_fy p * ((h * sin a / sin th) / (h * cos a / sin th)) = of_int (fst px * ip_step p)"
    using assms(3) by simp
  have d: "fwd * cos a / cos th = h * cos a / sin th" using ct by (simp add: f)
  have d0: "h * cos a / sin th \<noteq> 0" using h0 ca st by simp
  have scale: "k / ip_fx p * fwd * cos a / cos th / (h * cos a / sin th) = k / ip_fx p" for k
  proof -
    have "k / ip_fx p * fwd * cos a / cos th = k / ip_fx p * (fwd * cos a / cos th)" by simp
    with d0 show ?thesis unfolding d by (metis nonzero_mult_div_cancel_right)
  qed
  have col: "ip_cx p - ip_fx p * ((ip_cx p - of_int (snd px * ip_step p)) / ip_fx p * fwd * cos a / cos th / (h * cos a / sin th)) =
      of_int (snd px * ip_step p)"
    unfolding scale using assms(2) by simp
  show ?thesis
    unfolding q pixel_of_def prod.case Let_def
    using row col by (simp add: h_def [symmetric] depth down)
qed

lemma ground_point_on_ground:
  "ground_point p beta px = Some q \<Longrightarrow>
   0 < fst q - ip_cam_x p \<and> fst q - ip_cam_x p \<le> ip_max_range p \<and> snd (snd q) = 0"
  by (auto simp: ground_point_def Let_def split: if_splits)

lemma project_ipm_init:
  "project (ipm_init p) pxs pitch = map the (filter (\<lambda>q. q \<noteq> None) (map (ground_point p (ip_cam_pitch p + pitch)) pxs))"
proof -
  have "im_params (ipm_init p) = p" by (simp add: ipm_init_def Let_def)
  moreover have "project_pixel (ipm_init p) b = ground_point p b" for b by (rule ext) (rule project_pixel_is_ground_point)
  ultimately show ?thesis by (simp only: project_def Let_def)
qed

section \<open>Property\<close>

text \<open>
  C29: The tabulated projection is the plain one, and it is inverted by the camera. The points put out are, in the order of the
  pixels, the points of the ground plane at \<open>height / tan\<close> of the angle of the ray for the pixels inside the image,
  below the minimum angle and in range; each lies on the ground, in front of the camera and within the range, and
  its pinhole image is exactly the pixel it came from.
\<close>

theorem ground_points_are_seen_at_their_pixels:
  assumes "ip_fx p \<noteq> 0" "ip_fy p \<noteq> 0" and "beta = ip_cam_pitch p + pitch"
  shows "project (ipm_init p) pxs pitch = map the (filter (\<lambda>q. q \<noteq> None) (map (ground_point p beta) pxs)) \<and>
    (\<forall>px \<in> set pxs. \<forall>q. ground_point p beta px = Some q \<longrightarrow>
       0 < fst q - ip_cam_x p \<and> fst q - ip_cam_x p \<le> ip_max_range p \<and> snd (snd q) = 0 \<and>
       pixel_of p beta q = (of_int (fst px * ip_step p), of_int (snd px * ip_step p)))"
  unfolding assms(3) using project_ipm_init ground_point_on_ground ground_point_seen_back [OF _ assms(1,2)] by blast

definition looking_down :: ipm_params where
  \<comment> \<open>a camera two metres up that looks down by an eighth of a turn\<close>
  "looking_down = default_ipm_params\<lparr>ip_cam_pitch := pi / 4, ip_cam_height := 2, ip_cx := 5, ip_fx := 100, ip_fy := 100\<rparr>"

theorem ground_points_are_seen_at_their_pixels_witness:
  "\<exists>q. project (ipm_init looking_down) [(0, 3)] 0 = [q] \<and> fst q = 2.02 \<and> pixel_of looking_down (pi / 4) q = (0, 3)"
proof -
  have f: "ip_fx looking_down \<noteq> 0" "ip_fy looking_down \<noteq> 0" "pi / 4 = ip_cam_pitch looking_down + 0"
    by (simp_all add: looking_down_def)
  have "sin (pi / 4) \<noteq> 0" by (simp add: sin_45)
  moreover have "tan (pi / 4) = 1" by (rule tan_45)
  moreover have "1 / 100 \<le> pi / 4" using pi_ge_two by simp
  ultimately obtain q where q: "ground_point looking_down (pi / 4) (0, 3) = Some q" "fst q = 2.02"
    by (simp add: ground_point_def Let_def row_angle_def looking_down_def default_ipm_params_def)
  note t = ground_points_are_seen_at_their_pixels [OF f, of "[(0, 3)]"]
  have "project (ipm_init looking_down) [(0, 3)] 0 = [q]"
    using conjunct1 [OF t] q(1) by (simp del: split_paired_Ex not_None_eq)
  moreover have "pixel_of looking_down (pi / 4) q = (of_int (0 * ip_step looking_down), of_int (3 * ip_step looking_down))"
    using conjunct2 [OF t] q(1) by (simp del: split_paired_All)
  moreover have "ip_step looking_down = 1" by (simp add: looking_down_def default_ipm_params_def)
  ultimately show ?thesis using q(2) by auto
qed

end
