(* ===== verification/Vision_Node.thy ===== *)
theory Vision_Node
  imports Skeleton_Order Detection_Select Ground_Projection
begin

text \<open>
  \<open>src/vision_cpp/src/vision_node.cpp\<close>, class \<open>VisionNode\<close>, and the geometry the constructor of \<open>GpuPipeline\<close> fixes: what a camera
  image becomes once the GPU has delivered the candidates, the skeleton pixels and the stop-line edge. The GPU's
  answer to an image is a parameter, so are the clock readings of a frame; the messages' constant fields, log
  lines and thread priorities are left out. Image sizes are below \<open>2 ^ 31\<close>, so the casts to \<open>int\<close> keep them. A result
  \<open>None\<close> is an exception or a loop that does not end.
\<close>

section \<open>Geometry of the pipeline\<close>

record pipeline_config =
  pc_in_w :: int
  pc_in_h :: int
  pc_step :: int
  pc_thin_row_start :: int
  pc_open_k :: int
  pc_close_k :: int
  pc_min_area :: int
  pc_min_perimeter :: int
  pc_skel_min_len :: int
  pc_thin_max_iter :: int
  pc_score_thresh :: real
  pc_mean :: "real list"
  pc_stdv :: "real list"
  pc_use_graph :: bool

definition default_pipeline :: pipeline_config where
  "default_pipeline = \<lparr>pc_in_w = 960, pc_in_h = 544, pc_step = 1, pc_thin_row_start = 160, pc_open_k = 3, pc_close_k = 5, pc_min_area = 150,
     pc_min_perimeter = 50, pc_skel_min_len = 15, pc_thin_max_iter = 64, pc_score_thresh = 0.35, pc_mean = [0.485, 0.456, 0.406],
     pc_stdv = [0.229, 0.224, 0.225], pc_use_graph = True\<rparr>"

record thin_geom =
  tg_w :: int
  tg_h :: int
  tg_step :: int
  tg_r0 :: int
  tg_wt :: int
  tg_ht :: int

definition kMaxCols :: int where
  "kMaxCols = 2048"

definition kMaxSkel :: int where
  "kMaxSkel = 8192"

definition kThinMaxIter :: int where
  "kThinMaxIter = 64"

definition odd_kernel :: "int \<Rightarrow> int" where
  \<comment> \<open>\<open>k |= (k > 1)\<close>\<close>
  "odd_kernel k = (if k > 1 \<and> even k then k + 1 else k)"

definition checked_config :: "pipeline_config \<Rightarrow> pipeline_config" where
  "checked_config c = c\<lparr>pc_step := max 1 (pc_step c), pc_open_k := odd_kernel (pc_open_k c), pc_close_k := odd_kernel (pc_close_k c),
     pc_thin_max_iter := min (max 2 (pc_thin_max_iter c)) kThinMaxIter\<rparr>"

definition pipeline_geometry :: "pipeline_config \<Rightarrow> int \<Rightarrow> int \<Rightarrow> int \<Rightarrow> string + thin_geom" where
  "pipeline_geometry c lane_w lane_h lane_c =
    (if lane_w \<noteq> pc_in_w c \<or> lane_h \<noteq> pc_in_h c then Inl ''lane_logits resolution must equal the model input resolution''
     else if lane_c < 4 then Inl ''need >= 4 segmentation classes (bg + 3 lane classes)''
     else
      (let c = checked_config c; s = pc_step c; hs = (pc_in_h c + s - 1) sdiv s; ws = (pc_in_w c + s - 1) sdiv s in
       if ws > kMaxCols then Inl ''image too wide for kMaxCols''
       else
        (let r0 = min (max 0 ((pc_thin_row_start c + s - 1) sdiv s)) (hs - 1) in
         Inr \<lparr>tg_w = pc_in_w c, tg_h = pc_in_h c, tg_step = s, tg_r0 = r0, tg_wt = ws, tg_ht = hs - r0\<rparr>)))"

section \<open>Data of the node\<close>

record vision_config =
  vc_in_w :: int
  vc_in_h :: int
  vc_step :: int
  vc_cam_pitch :: real
  vc_cam_height :: real
  vc_max_range :: real
  vc_nms_iou :: real
  vc_max_dets :: int
  vc_class_names :: "string list"
  vc_ground_frame :: string
  vc_profile :: bool
  vc_profile_period :: int

record camera_image =
  ci_header :: header
  ci_encoding :: string
  ci_width :: int
  ci_height :: int
  ci_step :: int
  ci_data :: "8 word list"

record camera_calibration =
  cc_width :: int
  cc_height :: int
  cc_k :: "real list"

record gpu_frame =
  gf_cand_count :: int
  gf_cands :: "det_candidate list"
  gf_count_white :: int
  gf_count_yellow :: int
  gf_white :: "skel_pix list"
  gf_yellow :: "skel_pix list"
  gf_stop_v :: "int list"

record frame_times =
  vt_t0 :: real
  vt_t1 :: real
  vt_t2 :: real
  vt_t3 :: real
  vt_t4 :: real
  vt_gpu_ms :: real
  vt_latency_ms :: real
  vt_report :: real

record vision_profile =
  pf_copy :: real
  pf_gpu :: real
  pf_wait :: real
  pf_cpu :: real
  pf_pub :: real
  pf_total :: real
  pf_lat :: real
  pf_max :: real
  pf_frames :: int
  pf_last :: real

record vision_state =
  vs_ipm :: ipm
  vs_ready :: bool
  vs_pitch :: real
  vs_skel_white :: skel_scratch
  vs_skel_yellow :: skel_scratch
  vs_profile :: vision_profile

record ground_cloud =
  gc_header :: header
  gc_width :: u32
  gc_row_step :: u32
  gc_points :: "point3 list"

record vision_out =
  vo_white :: ground_cloud
  vo_yellow :: ground_cloud
  vo_stop :: ground_cloud
  vo_detections :: "header \<times> detection2d list"
  vo_profile :: "real list option"

definition new_vision :: "real \<Rightarrow> vision_state" where
  "new_vision t = \<lparr>vs_ipm = new_ipm, vs_ready = False, vs_pitch = 0, vs_skel_white = new_skel_scratch,
     vs_skel_yellow = new_skel_scratch,
     vs_profile = \<lparr>pf_copy = 0, pf_gpu = 0, pf_wait = 0, pf_cpu = 0, pf_pub = 0, pf_total = 0, pf_lat = 0, pf_max = 0,
       pf_frames = 0, pf_last = t\<rparr>\<rparr>"

section \<open>Callbacks\<close>

definition parse_encoding :: "string \<Rightarrow> (int \<times> bool) option" where
  "parse_encoding enc =
    (if enc = ''bgr8'' then Some (3, True)
     else if enc = ''rgb8'' then Some (3, False)
     else if enc = ''bgra8'' then Some (4, True)
     else if enc = ''rgba8'' then Some (4, False)
     else None)"

definition fill_cloud :: "header \<Rightarrow> point3 list \<Rightarrow> ground_cloud" where
  "fill_cloud h pts = (let n = length pts in
     \<lparr>gc_header = h, gc_width = word_of_nat n, gc_row_step = word_of_nat (12 * n), gc_points = pts\<rparr>)"

definition stop_pixels :: "int \<Rightarrow> int list \<Rightarrow> (int \<times> int) list" where
  "stop_pixels cols stop_v = map (\<lambda>u. (stop_v ! nat u, u)) (filter (\<lambda>u. stop_v ! nat u \<ge> 0) [0..cols - 1])"

definition detection_msg :: "string list \<Rightarrow> found_box \<Rightarrow> detection2d" where
  "detection_msg names d = \<lparr>class_id = fb_label d, class_name = names ! nat (fb_label d), score = Fin (fb_score d),
     x1 = fb_x1 d, y1 = fb_y1 d, x2 = fb_x2 d, y2 = fb_y2 d, is_in_lane = False, is_stop_sign = False,
     sign_real_prob = Fin 0, distance = Fin 0, n_pts = 0, depth_valid = False, position = (0, 0, 0)\<rparr>"

definition report_profile :: "real \<Rightarrow> vision_profile \<Rightarrow> real list \<times> vision_profile" where
  "report_profile now_t f =
    (let secs = now_t - pf_last f; k = 1 / of_int (pf_frames f) in
     ([of_int (pf_frames f), of_int (pf_frames f) / secs, pf_copy f * k, pf_gpu f * k, pf_wait f * k, pf_cpu f * k, pf_pub f * k,
       pf_total f * k, pf_max f, pf_lat f * k],
      \<lparr>pf_copy = 0, pf_gpu = 0, pf_wait = 0, pf_cpu = 0, pf_pub = 0, pf_total = 0, pf_lat = 0, pf_max = 0, pf_frames = 0,
        pf_last = now_t\<rparr>))"

definition profile_frame :: "vision_config \<Rightarrow> frame_times \<Rightarrow> vision_profile \<Rightarrow> real list option \<times> vision_profile" where
  "profile_frame c t f =
    (if \<not> vc_profile c then (None, f)
     else
      (let total = vt_t4 t - vt_t0 t;
           f = \<lparr>pf_copy = pf_copy f + (vt_t1 t - vt_t0 t), pf_gpu = pf_gpu f + vt_gpu_ms t, pf_wait = pf_wait f + (vt_t2 t - vt_t1 t),
             pf_cpu = pf_cpu f + (vt_t3 t - vt_t2 t), pf_pub = pf_pub f + (vt_t4 t - vt_t3 t), pf_total = pf_total f + total,
             pf_lat = pf_lat f + vt_latency_ms t, pf_max = max (pf_max f) total, pf_frames = pf_frames f + 1, pf_last = pf_last f\<rparr> in
       if pf_frames f \<ge> vc_profile_period c then (case report_profile (vt_report t) f of (r, f) \<Rightarrow> (Some r, f))
       else (None, f)))"

definition img_cb ::
  "vision_config \<Rightarrow> thin_geom \<Rightarrow> (camera_image \<Rightarrow> gpu_frame) \<Rightarrow> frame_times \<Rightarrow> camera_image \<Rightarrow> vision_state
    \<Rightarrow> (vision_out option \<times> vision_state) option" where
  "img_cb c g gpu t img s =
    (if \<not> vs_ready s then Some (None, s)
     else case parse_encoding (ci_encoding img) of
       None \<Rightarrow> Some (None, s)
     | Some (ch, bgr) \<Rightarrow>
        if ci_step img < ci_width img * ch \<or> int (length (ci_data img)) < ci_step img * ci_height img then Some (None, s)
        else
         (let h = \<lparr>stamp = stamp (ci_header img), frame_id = vc_ground_frame c\<rparr>; r = gpu img in
          case select_detections (gf_cand_count r) (gf_cands r) (vc_nms_iou c) (vc_max_dets c) 1 1 (vc_in_w c) (vc_in_h c) 2 of
            None \<Rightarrow> None
          | Some dets \<Rightarrow>
             (case order_skeleton_pixels (take (nat (min (gf_count_white r) kMaxSkel)) (gf_white r)) (tg_r0 g) (tg_ht g) (vs_skel_white s) of
                None \<Rightarrow> None
              | Some (vw, uw, scw) \<Rightarrow>
                 (case order_skeleton_pixels (take (nat (min (gf_count_yellow r) kMaxSkel)) (gf_yellow r)) (tg_r0 g) (tg_ht g) (vs_skel_yellow s) of
                    None \<Rightarrow> None
                  | Some (vy, uy, scy) \<Rightarrow>
                     (let (report, f) = profile_frame c t (vs_profile s) in
                      Some (Some \<lparr>vo_white = fill_cloud h (project (vs_ipm s) (zip vw uw) (vs_pitch s)),
                          vo_yellow = fill_cloud h (project (vs_ipm s) (zip vy uy) (vs_pitch s)),
                          vo_stop = fill_cloud h (project (vs_ipm s) (stop_pixels (tg_wt g) (gf_stop_v r)) (vs_pitch s)),
                          vo_detections = (h, map (detection_msg (vc_class_names c)) dets), vo_profile = report\<rparr>,
                        s\<lparr>vs_skel_white := scw, vs_skel_yellow := scy, vs_profile := f\<rparr>))))))"

definition imu_pitch :: "real \<times> real \<times> real \<times> real \<Rightarrow> real" where
  "imu_pitch q = (case q of (x, y, z, w) \<Rightarrow>
     (let sinp = 2 * (w * y - z * x) in if \<bar>sinp\<bar> \<ge> 1 then (if sinp < 0 then - (pi / 2) else pi / 2) else arcsin sinp))"

definition imu_cb :: "real \<times> real \<times> real \<times> real \<Rightarrow> vision_state \<Rightarrow> vision_state" where
  "imu_cb q s = s\<lparr>vs_pitch := imu_pitch q\<rparr>"

definition calibration :: "vision_config \<Rightarrow> camera_calibration \<Rightarrow> ipm_params" where
  "calibration c m =
    (let sx = (if cc_width m > 0 then of_int (vc_in_w c) / of_int (cc_width m) else 1);
         sy = (if cc_height m > 0 then of_int (vc_in_h c) / of_int (cc_height m) else 1) in
     default_ipm_params\<lparr>ip_fx := cc_k m ! 0 * sx, ip_cx := cc_k m ! 2 * sx, ip_fy := cc_k m ! 4 * sy, ip_cy := cc_k m ! 5 * sy,
       ip_cam_pitch := vc_cam_pitch c, ip_cam_height := vc_cam_height c, ip_max_range := vc_max_range c,
       ip_step := vc_step c, ip_full_h := vc_in_h c\<rparr>)"

definition cam_info_cb :: "vision_config \<Rightarrow> camera_calibration \<Rightarrow> vision_state \<Rightarrow> vision_state" where
  "cam_info_cb c m s = (if vs_ready s then s else s\<lparr>vs_ipm := ipm_init (calibration c m), vs_ready := True\<rparr>)"

section \<open>Runs\<close>

datatype vision_event =
    Frame frame_times camera_image
  | Imu_Reading "real \<times> real \<times> real \<times> real"
  | Camera_Info camera_calibration

primrec vision_step ::
  "vision_config \<Rightarrow> thin_geom \<Rightarrow> (camera_image \<Rightarrow> gpu_frame) \<Rightarrow> vision_event \<Rightarrow> vision_state \<Rightarrow> (vision_out option \<times> vision_state) option" where
  "vision_step c g gpu (Frame t img) s = img_cb c g gpu t img s"
| "vision_step c g gpu (Imu_Reading q) s = Some (None, imu_cb q s)"
| "vision_step c g gpu (Camera_Info m) s = Some (None, cam_info_cb c m s)"

primrec vision_run ::
  "vision_config \<Rightarrow> thin_geom \<Rightarrow> (camera_image \<Rightarrow> gpu_frame) \<Rightarrow> vision_event list \<Rightarrow> vision_state \<Rightarrow> (vision_out list \<times> vision_state) option" where
  "vision_run c g gpu [] s = Some ([], s)"
| "vision_run c g gpu (e # es) s =
    (case vision_step c g gpu e s of
       None \<Rightarrow> None
     | Some (out, s1) \<Rightarrow>
        (case vision_run c g gpu es s1 of
           None \<Rightarrow> None
         | Some (outs, s2) \<Rightarrow> Some ((case out of None \<Rightarrow> outs | Some v \<Rightarrow> v # outs), s2)))"

definition readable :: "camera_image \<Rightarrow> bool" where
  \<comment> \<open>a known encoding, and as much data as the sizes say\<close>
  "readable img \<longleftrightarrow> (case parse_encoding (ci_encoding img) of
     None \<Rightarrow> False
   | Some (ch, bgr) \<Rightarrow> ci_width img * ch \<le> ci_step img \<and> ci_step img * ci_height img \<le> int (length (ci_data img)))"

text \<open>The ground points of the skeleton of a lane, by the reference order and the plain projection.\<close>

definition lane_points_of :: "thin_geom \<Rightarrow> ipm_params \<Rightarrow> real \<Rightarrow> int \<Rightarrow> skel_pix list \<Rightarrow> point3 list" where
  "lane_points_of g p pitch cnt pixels =
    (let pix = take (nat (min cnt kMaxSkel)) pixels;
         ordered = sort_key (pixel_key pix) (filter (in_rows (tg_r0 g) (tg_ht g)) pix) in
     map the (filter (\<lambda>q. q \<noteq> None)
       (map (\<lambda>q. ground_point p (ip_cam_pitch p + pitch) (px_v q, px_u q)) ordered)))"

lemma select_detections_total: "0 \<le> max_dets \<Longrightarrow> \<exists>ds. select_detections n cs t max_dets sx sy fw fh mb = Some ds"
  by (simp add: select_detections_def Let_def)

lemma skeleton_to_ground:
  assumes "scratch_ok sc" "pix = take (nat (min cnt kMaxSkel)) pixels"
  shows "\<exists>ov ou sc'. order_skeleton_pixels pix (tg_r0 g) (tg_ht g) sc = Some (ov, ou, sc') \<and> scratch_ok sc' \<and>
    project (ipm_init p) (zip ov ou) pitch = lane_points_of g p pitch cnt pixels"
proof -
  have "length pix \<le> 8192" unfolding assms(2) by (simp add: kMaxSkel_def)
  then have "card (px_label ` set pix) \<le> 8192"
    using card_image_le [of "set pix" px_label] card_length [of pix] by simp
  then have "card (px_label ` set pix) \<le> 2 ^ 15" by simp
  from order_skeleton_pixels_sorted [OF assms(1) this] obtain ov ou sc' where
    o: "order_skeleton_pixels pix (tg_r0 g) (tg_ht g) sc = Some (ov, ou, sc')" "scratch_ok sc'"
      "zip ov ou = map (\<lambda>q. (px_v q, px_u q)) (sort_key (pixel_key pix) (filter (in_rows (tg_r0 g) (tg_ht g)) pix))"
    by blast
  have "project (ipm_init p) (zip ov ou) pitch = lane_points_of g p pitch cnt pixels"
    unfolding project_ipm_init o(3) lane_points_of_def Let_def assms(2) [symmetric] by (simp add: comp_def)
  with o show ?thesis by blast
qed

text \<open>
  What the node promises, with a state of its own: the first calibration and the pitch of the latest inertial reading. A frame
  gives four messages when a calibration is known and the image can be read, and nothing else publishes.
\<close>

type_synonym vision_msgs = "ground_cloud \<times> ground_cloud \<times> ground_cloud \<times> (header \<times> detection2d list)"

definition messages_of :: "vision_out \<Rightarrow> vision_msgs" where
  "messages_of v = (vo_white v, vo_yellow v, vo_stop v, vo_detections v)"

definition frame_msgs ::
  "vision_config \<Rightarrow> thin_geom \<Rightarrow> (camera_image \<Rightarrow> gpu_frame) \<Rightarrow> camera_calibration \<Rightarrow> real \<Rightarrow> camera_image \<Rightarrow> vision_msgs" where
  "frame_msgs c g gpu m pitch img =
    (let r = gpu img; p = calibration c m; h = \<lparr>stamp = stamp (ci_header img), frame_id = vc_ground_frame c\<rparr>;
         found = the (select_detections (gf_cand_count r) (gf_cands r) (vc_nms_iou c) (vc_max_dets c) 1 1 (vc_in_w c) (vc_in_h c) 2) in
     (fill_cloud h (lane_points_of g p pitch (gf_count_white r) (gf_white r)),
      fill_cloud h (lane_points_of g p pitch (gf_count_yellow r) (gf_yellow r)),
      fill_cloud h (map the (filter (\<lambda>q. q \<noteq> None)
        (map (ground_point p (ip_cam_pitch p + pitch)) (stop_pixels (tg_wt g) (gf_stop_v r))))),
      (h, map (detection_msg (vc_class_names c)) found)))"

primrec promised_msgs ::
  "vision_config \<Rightarrow> thin_geom \<Rightarrow> (camera_image \<Rightarrow> gpu_frame) \<Rightarrow> camera_calibration option \<Rightarrow> real \<Rightarrow> vision_event list \<Rightarrow> vision_msgs list" where
  "promised_msgs c g gpu cal pitch [] = []"
| "promised_msgs c g gpu cal pitch (e # es) =
    (case e of
       Camera_Info m \<Rightarrow> promised_msgs c g gpu (Some (case cal of None \<Rightarrow> m | Some m0 \<Rightarrow> m0)) pitch es
     | Imu_Reading q \<Rightarrow> promised_msgs c g gpu cal (imu_pitch q) es
     | Frame t img \<Rightarrow>
        (case cal of
           Some m \<Rightarrow> (if readable img then [frame_msgs c g gpu m pitch img] else [])
         | None \<Rightarrow> []) @ promised_msgs c g gpu cal pitch es)"

definition vision_rel :: "vision_config \<Rightarrow> camera_calibration option \<Rightarrow> real \<Rightarrow> vision_state \<Rightarrow> bool" where
  \<comment> \<open>the node's state stands for a calibration and a pitch\<close>
  "vision_rel c cal pitch s \<longleftrightarrow> (vs_ready s \<longleftrightarrow> cal \<noteq> None) \<and> (\<forall>m. cal = Some m \<longrightarrow> vs_ipm s = ipm_init (calibration c m)) \<and>
     vs_pitch s = pitch \<and> scratch_ok (vs_skel_white s) \<and> scratch_ok (vs_skel_yellow s)"

lemma img_cb_ignores:
  assumes rel: "vision_rel c cal pitch s" and no: "cal = None \<or> \<not> readable img"
  shows "img_cb c g gpu t img s = Some (None, s)"
  using assms by (auto simp: img_cb_def vision_rel_def readable_def split: option.splits)

lemma img_cb_publishes:
  assumes rel: "vision_rel c (Some m) pitch s" and img: "readable img" and lim: "0 \<le> vc_max_dets c"
  shows "\<exists>v s'. img_cb c g gpu t img s = Some (Some v, s') \<and> vision_rel c (Some m) pitch s' \<and>
    messages_of v = frame_msgs c g gpu m pitch img"
proof -
  let ?r = "gpu img" and ?p = "calibration c m"
  let ?h = "\<lparr>stamp = stamp (ci_header img), frame_id = vc_ground_frame c\<rparr>"
  have st: "vs_ready s" "vs_ipm s = ipm_init ?p" "vs_pitch s = pitch"
    and sc: "scratch_ok (vs_skel_white s)" "scratch_ok (vs_skel_yellow s)"
    using rel by (auto simp: vision_rel_def)
  obtain ch bgr where enc: "parse_encoding (ci_encoding img) = Some (ch, bgr)"
      "\<not> (ci_step img < ci_width img * ch \<or> int (length (ci_data img)) < ci_step img * ci_height img)"
    using img by (auto simp: readable_def split: option.splits)
  obtain dets where dets: "select_detections (gf_cand_count ?r) (gf_cands ?r) (vc_nms_iou c) (vc_max_dets c) 1 1 (vc_in_w c) (vc_in_h c) 2 = Some dets"
    using select_detections_total [OF lim] by blast
  obtain vw uw scw where w: "order_skeleton_pixels (take (nat (min (gf_count_white ?r) kMaxSkel)) (gf_white ?r)) (tg_r0 g) (tg_ht g) (vs_skel_white s) = Some (vw, uw, scw)"
    "scratch_ok scw" "project (ipm_init ?p) (zip vw uw) pitch = lane_points_of g ?p pitch (gf_count_white ?r) (gf_white ?r)"
    using skeleton_to_ground [OF sc(1) refl] by blast
  obtain vy uy scy where y: "order_skeleton_pixels (take (nat (min (gf_count_yellow ?r) kMaxSkel)) (gf_yellow ?r)) (tg_r0 g) (tg_ht g) (vs_skel_yellow s) = Some (vy, uy, scy)"
    "scratch_ok scy" "project (ipm_init ?p) (zip vy uy) pitch = lane_points_of g ?p pitch (gf_count_yellow ?r) (gf_yellow ?r)"
    using skeleton_to_ground [OF sc(2) refl] by blast
  have stop: "project (ipm_init ?p) (stop_pixels (tg_wt g) (gf_stop_v ?r)) pitch =
      map the (filter (\<lambda>q. q \<noteq> None) (map (ground_point ?p (ip_cam_pitch ?p + pitch)) (stop_pixels (tg_wt g) (gf_stop_v ?r))))"
    by (rule project_ipm_init)
  obtain rep f where pr: "profile_frame c t (vs_profile s) = (rep, f)" by fastforce
  let ?s = "s\<lparr>vs_skel_white := scw, vs_skel_yellow := scy, vs_profile := f\<rparr>"
  define v where "v = \<lparr>vo_white = fill_cloud ?h (project (vs_ipm s) (zip vw uw) (vs_pitch s)),
      vo_yellow = fill_cloud ?h (project (vs_ipm s) (zip vy uy) (vs_pitch s)),
      vo_stop = fill_cloud ?h (project (vs_ipm s) (stop_pixels (tg_wt g) (gf_stop_v ?r)) (vs_pitch s)),
      vo_detections = (?h, map (detection_msg (vc_class_names c)) dets), vo_profile = rep\<rparr>"
  have "img_cb c g gpu t img s = Some (Some v, ?s)"
    unfolding img_cb_def Let_def dets w(1) y(1) pr enc(1) option.case prod.case v_def
    using st(1) enc(2) by (simp only: if_False not_True_eq_False)
  moreover have "vision_rel c (Some m) pitch ?s" using rel w(2) y(2) by (simp add: vision_rel_def)
  moreover have "messages_of v = frame_msgs c g gpu m pitch img"
    unfolding messages_of_def v_def vision_out.select_convs st(2,3) w(3) y(3) stop frame_msgs_def Let_def dets option.sel ..
  ultimately show ?thesis by blast
qed

lemma vision_run_refines:
  "vision_rel c cal pitch s \<Longrightarrow> 0 \<le> vc_max_dets c \<Longrightarrow>
    \<exists>outs s'. vision_run c g gpu es s = Some (outs, s') \<and> map messages_of outs = promised_msgs c g gpu cal pitch es"
proof (induction es arbitrary: cal pitch s)
  case (Cons e es)
  show ?case
  proof (cases e)
    case (Frame t img)
    show ?thesis
    proof (cases "cal = None \<or> \<not> readable img")
      case True
      then show ?thesis
        using Cons.IH [OF Cons.prems] img_cb_ignores [OF Cons.prems(1) True, of g gpu t] Frame by (auto split: option.splits)
    next
      case False
      then obtain m where m: "cal = Some m" "readable img" by auto
      from img_cb_publishes [OF Cons.prems(1) [unfolded m(1)] m(2) Cons.prems(2)] obtain v s1 where
        v: "img_cb c g gpu t img s = Some (Some v, s1)" "vision_rel c (Some m) pitch s1" "messages_of v = frame_msgs c g gpu m pitch img"
        by blast
      with Cons.IH [OF v(2) Cons.prems(2)] Frame m show ?thesis by auto
    qed
  next
    case (Imu_Reading q)
    have "vision_rel c cal (imu_pitch q) (imu_cb q s)" using Cons.prems(1) by (simp add: vision_rel_def imu_cb_def)
    from Cons.IH [OF this Cons.prems(2)] Imu_Reading show ?thesis by auto
  next
    case (Camera_Info m)
    have "vision_rel c (Some (case cal of None \<Rightarrow> m | Some m0 \<Rightarrow> m0)) pitch (cam_info_cb c m s)"
      using Cons.prems(1) by (auto simp: vision_rel_def cam_info_cb_def split: option.splits)
    from Cons.IH [OF this Cons.prems(2)] Camera_Info show ?thesis by auto
  qed
qed simp

text \<open>C30: From its start, over any sequence of camera images, inertial readings and camera calibrations, the vision node returns
  from every callback and publishes exactly the promised messages: four for every readable image after
  the first calibration, and none otherwise. The clouds are the ground points of the GPU's pixels under the first calibration and
  the latest pitch, the lane pixels in the order of their components, stamped like the image in the ground frame.\<close>

theorem vision_publishes_promised_messages:
  assumes "0 \<le> vc_max_dets c"
  shows "\<exists>outs s. vision_run c g gpu es (new_vision t0) = Some (outs, s) \<and>
    map messages_of outs = promised_msgs c g gpu None 0 es"
proof -
  have "vision_rel c None 0 (new_vision t0)" by (simp add: vision_rel_def new_vision_def scratch_ok_def new_skel_scratch_def)
  from vision_run_refines [OF this assms] show ?thesis .
qed

text \<open>A grey pixel seen before and after the calibration: only the second image is published.\<close>

definition sample_config :: vision_config where
  "sample_config = \<lparr>vc_in_w = 960, vc_in_h = 544, vc_step = 1, vc_cam_pitch = 0, vc_cam_height = 1, vc_max_range = 20,
     vc_nms_iou = 1 / 2, vc_max_dets = 10, vc_class_names = [''car''], vc_ground_frame = ''base'', vc_profile = False, vc_profile_period = 30\<rparr>"

definition sample_geom :: thin_geom where
  "sample_geom = \<lparr>tg_w = 960, tg_h = 544, tg_step = 1, tg_r0 = 160, tg_wt = 960, tg_ht = 384\<rparr>"

definition sample_events :: "string \<Rightarrow> vision_event list" where
  "sample_events enc =
    (let t = \<lparr>vt_t0 = 0, vt_t1 = 0, vt_t2 = 0, vt_t3 = 0, vt_t4 = 0, vt_gpu_ms = 0, vt_latency_ms = 0, vt_report = 0\<rparr>;
         img = \<lparr>ci_header = \<lparr>stamp = 7, frame_id = ''cam''\<rparr>, ci_encoding = enc, ci_width = 1, ci_height = 1, ci_step = 3,
           ci_data = [128, 128, 128]\<rparr> in
     [Frame t img, Camera_Info \<lparr>cc_width = 960, cc_height = 544, cc_k = [500, 0, 480, 0, 500, 272, 0, 0, 1]\<rparr>, Frame t img])"

definition sample_gpu :: "camera_image \<Rightarrow> gpu_frame" where
  "sample_gpu img = \<lparr>gf_cand_count = 0, gf_cands = [], gf_count_white = 1, gf_count_yellow = 0,
     gf_white = [\<lparr>px_label = 5, px_v = 300, px_u = 480\<rparr>], gf_yellow = [], gf_stop_v = []\<rparr>"

lemma vision_publishes_promised_messages_witness:
  "(\<exists>outs s. vision_run sample_config sample_geom sample_gpu (sample_events ''bgr8'') (new_vision 0) = Some (outs, s) \<and> length outs = 1) \<and>
   (\<exists>outs s. vision_run sample_config sample_geom sample_gpu (sample_events ''mono8'') (new_vision 0) = Some (outs, s) \<and> length outs = 0)"
proof -
  have lim: "0 \<le> vc_max_dets sample_config" by (simp add: sample_config_def)
  have n: "length (promised_msgs sample_config sample_geom sample_gpu None 0 (sample_events ''bgr8'')) = 1"
    "length (promised_msgs sample_config sample_geom sample_gpu None 0 (sample_events ''mono8'')) = 0"
    by (simp_all add: sample_events_def Let_def readable_def parse_encoding_def)
  show ?thesis
    using vision_publishes_promised_messages [OF lim, of sample_geom sample_gpu "sample_events ''bgr8''" 0]
      vision_publishes_promised_messages [OF lim, of sample_geom sample_gpu "sample_events ''mono8''" 0] n
    by (metis length_map)
qed

end
