(* ===== verification/Gpu_Results.thy ===== *)
theory Gpu_Results
  imports Mask_Kernel Vision_Node
begin

text \<open>
  The kernels of \<open>src/vision_cpp/src/gpu_kernels.cu\<close> that fill \<open>FrameResults\<close>, and why the order in which their threads run does not
  show in what the node publishes. A thread reserves a cell with an atomic increment; the order of these increments is a parameter.
  The tensors are lists of real numbers.
\<close>

section \<open>The code\<close>

definition reserve :: "nat \<Rightarrow> 'a \<Rightarrow> nat \<times> 'a list \<Rightarrow> nat \<times> 'a list" where
  \<comment> \<open>\<open>k = atomicAdd(&count, 1); if (k < cap) cells[k] = e\<close>\<close>
  "reserve cap e st = (case st of (k, cells) \<Rightarrow> (k + 1, if k < cap then cells[k := e] else cells))"

definition sigmoidf :: "real \<Rightarrow> real" where
  "sigmoidf x = 1 / (1 + exp (- x))"

record det_tensors =
  dt_cls :: "real list"
  dt_ctr :: "real list"
  dt_boxes :: "real list"

definition det_score :: "det_tensors \<Rightarrow> nat \<Rightarrow> nat \<times> nat \<Rightarrow> real" where
  "det_score t C ac = (case ac of (a, c) \<Rightarrow>
     (let cv = sigmoidf (dt_ctr t ! a); p = sigmoidf (dt_cls t ! (a * C + c)) in sqrt (p * cv)))"

definition det_entry :: "det_tensors \<Rightarrow> nat \<Rightarrow> nat \<times> nat \<Rightarrow> det_candidate" where
  "det_entry t C ac = (case ac of (a, c) \<Rightarrow>
     \<lparr>dc_x1 = dt_boxes t ! (a * 4 + 0), dc_y1 = dt_boxes t ! (a * 4 + 1), dc_x2 = dt_boxes t ! (a * 4 + 2), dc_y2 = dt_boxes t ! (a * 4 + 3),
      dc_score = det_score t C ac, dc_label = int c, dc_flat = int (a * C + c)\<rparr>)"

definition k_det :: "det_tensors \<Rightarrow> nat \<Rightarrow> real \<Rightarrow> nat \<times> nat \<Rightarrow> nat \<times> det_candidate list \<Rightarrow> nat \<times> det_candidate list" where
  "k_det t C thr ac st = (if det_score t C ac > thr then reserve (nat kMaxCand) (det_entry t C ac) st else st)"

definition skel_entry :: "nat list \<Rightarrow> nat \<Rightarrow> nat \<Rightarrow> nat \<Rightarrow> skel_pix" where
  "skel_entry parent Wt r0 i = \<lparr>px_label = int (parent ! i), px_v = int16 (int (i div Wt + r0)), px_u = int16 (int (i mod Wt))\<rparr>"

definition k_skel_compact ::
  "int list \<Rightarrow> cc_memory \<Rightarrow> nat \<Rightarrow> nat \<Rightarrow> nat \<Rightarrow> nat \<Rightarrow> nat \<times> skel_pix list \<Rightarrow> nat \<times> skel_pix list" where
  "k_skel_compact skel mem Wt r0 min_len i st =
    (if skel ! i = 0 then st
     else if fst (snd mem ! (fst mem ! i)) < min_len then st
     else reserve (nat kMaxSkel) (skel_entry (fst mem) Wt r0 i) st)"

text \<open>The results of a frame: the counters start at 0, the cells keep what they held.\<close>

record lane_input =
  li_skel :: "int list"
  li_mem :: cc_memory
  li_order :: "nat list"
  li_cells :: "skel_pix list"

definition lane_results :: "nat \<Rightarrow> nat \<Rightarrow> nat \<Rightarrow> lane_input \<Rightarrow> nat \<times> skel_pix list" where
  "lane_results Wt r0 min_len l = fold (k_skel_compact (li_skel l) (li_mem l) Wt r0 min_len) (li_order l) (0, li_cells l)"

definition gpu_results ::
  "det_tensors \<Rightarrow> nat \<Rightarrow> real \<Rightarrow> (nat \<times> nat) list \<Rightarrow> det_candidate list \<Rightarrow> nat \<Rightarrow> nat \<Rightarrow> nat \<Rightarrow> lane_input \<Rightarrow> lane_input \<Rightarrow> int list \<Rightarrow> gpu_frame" where
  "gpu_results t C thr det_order det_cells Wt r0 min_len white yellow stop_v =
    (let (nd, cands) = fold (k_det t C thr) det_order (0, det_cells);
         (nw, ws) = lane_results Wt r0 min_len white; (ny, ys) = lane_results Wt r0 min_len yellow in
     \<lparr>gf_cand_count = int nd, gf_cands = cands, gf_count_white = int nw, gf_count_yellow = int ny, gf_white = ws, gf_yellow = ys,
      gf_stop_v = stop_v\<rparr>)"

section \<open>Reserving cells\<close>

lemma fold_guarded_reserve:
  fixes f :: "'b \<Rightarrow> 'a"
  assumes "length cells = cap" "k \<le> cap \<Longrightarrow> take k cells = pre" "k \<le> cap \<Longrightarrow> length pre = k"
  shows "\<exists>cells'. fold (\<lambda>x st. if P x then reserve cap (f x) st else st) xs (k, cells) = (k + length (filter P xs), cells') \<and>
    length cells' = cap \<and> (k + length (filter P xs) \<le> cap \<longrightarrow> take (k + length (filter P xs)) cells' = pre @ map f (filter P xs))"
  using assms
proof (induction xs arbitrary: k cells pre)
  case (Cons x xs)
  show ?case
  proof (cases "P x")
    case True
    define cells1 where "cells1 = (if k < cap then cells[k := f x] else cells)"
    have l: "length cells1 = cap" using Cons.prems(1) by (simp add: cells1_def)
    have t: "Suc k \<le> cap \<Longrightarrow> take (Suc k) cells1 = pre @ [f x]"
      using Cons.prems by (simp add: cells1_def take_Suc_conv_app_nth)
    have p: "Suc k \<le> cap \<Longrightarrow> length (pre @ [f x]) = Suc k" using Cons.prems(3) by simp
    from Cons.IH [OF l t p] True show ?thesis by (auto simp: reserve_def cells1_def)
  next
    case False
    with Cons.IH [OF Cons.prems] show ?thesis by simp
  qed
qed simp

lemma reserve_all:
  assumes "length cells = cap" "length (filter P xs) \<le> cap"
  shows "\<exists>cells'. fold (\<lambda>x st. if P x then reserve cap (f x) st else st) xs (0, cells) = (length (filter P xs), cells') \<and>
    take (length (filter P xs)) cells' = map f (filter P xs)"
  using fold_guarded_reserve [of cells cap 0 "[]" P f xs] assms by auto

section \<open>Detections\<close>

text \<open>The selection as a function of the candidates themselves, not of their cells.\<close>

definition cand_key :: "det_candidate \<Rightarrow> real \<times> int" where
  "cand_key c = (- dc_score c, dc_flat c)"

definition cand_nms :: "real \<Rightarrow> det_candidate list \<Rightarrow> det_candidate list" where
  "cand_nms t cs = fold (\<lambda>c keep. if list_ex (\<lambda>k. dc_label k = dc_label c \<and> iou c k > t) keep then keep else keep @ [c]) cs []"

lemma sort_key_map: "sort_key g (map f xs) = map f (sort_key (\<lambda>x. g (f x)) xs)"
proof -
  have "insort_key g (f x) (map f ys) = map f (insort_key (\<lambda>x. g (f x)) x ys)" for x ys by (induction ys) auto
  then show ?thesis by (induction xs) simp_all
qed

lemma sort_key_take_sorted: "sort_key k (take n (sort_key k xs)) = take n (sort_key k xs)"
  by (rule sort_key_id_if_sorted) (simp add: take_map [symmetric] sorted_wrt_take del: take_map)

lemma best_first_cands:
  "map ((!) cs) (best_first cs ixs) = (let ds = sort_key cand_key (map ((!) cs) ixs) in if length ixs > 1000 then take 1000 ds else ds)"
proof -
  have k: "better_key cs = (\<lambda>i. cand_key (cs ! i))" by (simp add: better_key_def cand_key_def fun_eq_iff)
  show ?thesis
    by (simp add: best_first_def Let_def k sort_key_take_sorted sort_key_map take_map)
qed

lemma greedy_cands: "map ((!) cs) (greedy_nms cs t ixs) = cand_nms t (map ((!) cs) ixs)"
proof -
  have "map ((!) cs) (fold (nms_step cs t) ixs keep) =
    fold (\<lambda>c keep. if list_ex (\<lambda>k. dc_label k = dc_label c \<and> iou c k > t) keep then keep else keep @ [c]) (map ((!) cs) ixs) (map ((!) cs) keep)"
    for keep
    by (induction ixs arbitrary: keep) (auto simp: nms_step_def overlaps_def list_ex_iff)
  from this [of "[]"] show ?thesis by (simp add: greedy_nms_def cand_nms_def)
qed

lemma select_detections_cands:
  assumes "n = nat (min cand_count kMaxCand)" "n \<le> length cs"
  shows "select_detections cand_count cs t max_dets sx sy fw fh mb =
    (let ds = sort_key cand_key (take n cs); keep = cand_nms t (if n > 1000 then take 1000 ds else ds) in
     if n = 0 then Some []
     else if int (length keep) > max_dets \<and> max_dets < 0 then None
     else Some (filter (big_enough mb) (map (scaled_box sx sy fw fh) (if int (length keep) > max_dets then take (nat max_dets) keep else keep))))"
proof -
  have m: "map ((!) cs) [0..<n] = take n cs" using assms(2) by (intro nth_equalityI) simp_all
  let ?keep = "greedy_nms cs t (best_first cs [0..<n])"
  let ?ds = "sort_key cand_key (take n cs)"
  have k: "map ((!) cs) ?keep = cand_nms t (if n > 1000 then take 1000 ?ds else ?ds)"
    unfolding greedy_cands best_first_cands m by (simp add: Let_def)
  then have l: "length ?keep = length (cand_nms t (if n > 1000 then take 1000 ?ds else ?ds))" by (metis length_map)
  have s: "map (\<lambda>i. scaled_box sx sy fw fh (cs ! i)) ks = map (scaled_box sx sy fw fh) (map ((!) cs) ks)" for ks by simp
  show ?thesis
  proof (cases "n = 0")
    case True
    with assms(1) show ?thesis by (auto simp: select_detections_def Let_def)
  next
    case False
    then have "\<not> min cand_count kMaxCand \<le> 0" using assms(1) by simp
    then show ?thesis
      unfolding select_detections_def Let_def s assms(1) [symmetric] l using False
      by (simp add: k [symmetric] take_map del: map_map)
  qed
qed

lemma sort_key_same: "mset xs = mset ys \<Longrightarrow> inj_on k (set xs) \<Longrightarrow> sort_key k xs = sort_key k ys"
  by (rule sort_key_inj_key_eq) simp_all

lemma select_detections_same:
  assumes n: "n = nat (min cand_count kMaxCand)" "n \<le> length cs" "n \<le> length cs'"
    and same: "mset (take n cs) = mset (take n cs')" and inj: "inj_on dc_flat (set (take n cs))"
  shows "select_detections cand_count cs t max_dets sx sy fw fh mb = select_detections cand_count cs' t max_dets sx sy fw fh mb"
proof -
  have "inj_on cand_key (set (take n cs))" using inj by (auto simp: inj_on_def cand_key_def)
  from sort_key_same [OF same this] show ?thesis
    unfolding select_detections_cands [OF n(1,2)] select_detections_cands [OF n(1,3)] by simp
qed

section \<open>Lane pixels\<close>

lemma labelled_as_mset: "mset xs = mset ys \<Longrightarrow> mset (labelled_as xs l) = mset (labelled_as ys l)"
  by (simp add: labelled_as_def)

lemma sum_list_same: "mset xs = mset ys \<Longrightarrow> (\<Sum>x\<leftarrow>xs. f x :: real) = (\<Sum>y\<leftarrow>ys. f y)"
  by (metis mset_map sum_mset_sum_list)

lemma pixel_key_same:
  assumes "mset xs = mset ys"
  shows "pixel_key xs = pixel_key ys"
proof -
  have "mean_column xs l = mean_column ys l" for l
    using sum_list_same [OF labelled_as_mset [OF assms], of "\<lambda>q. of_int (px_u q)" l]
      mset_eq_length [OF labelled_as_mset [OF assms], of l] by (simp add: mean_column_def column_sum_def)
  then show ?thesis by (simp add: pixel_key_def fun_eq_iff)
qed

lemma inj_pixel_key: "inj (pixel_key pix)"
proof (rule injI)
  fix a b :: skel_pix
  assume "pixel_key pix a = pixel_key pix b"
  then show "a = b" by (cases a; cases b) (simp add: pixel_key_def)
qed

lemma lane_points_same:
  assumes "n = nat (min cnt kMaxSkel)" "mset (take n xs) = mset (take n ys)"
  shows "lane_points_of g p pitch cnt xs = lane_points_of g p pitch cnt ys"
proof -
  let ?xs = "take n xs" and ?ys = "take n ys"
  have "sort_key (pixel_key ?xs) (filter (in_rows (tg_r0 g) (tg_ht g)) ?xs) = sort_key (pixel_key ?xs) (filter (in_rows (tg_r0 g) (tg_ht g)) ?ys)"
    using assms(2) by (intro sort_key_same inj_on_subset [OF inj_pixel_key]) simp_all
  then show ?thesis unfolding lane_points_of_def Let_def assms(1) [symmetric] pixel_key_same [OF assms(2), symmetric] by simp
qed

definition skel_kept :: "lane_input \<Rightarrow> nat \<Rightarrow> nat \<Rightarrow> bool" where
  "skel_kept l min_len i \<longleftrightarrow> li_skel l ! i \<noteq> 0 \<and> min_len \<le> fst (snd (li_mem l) ! (fst (li_mem l) ! i))"

lemma lane_results_eq:
  assumes "length (li_cells l) = nat kMaxSkel" "length (filter (skel_kept l min_len) (li_order l)) \<le> nat kMaxSkel"
  shows "\<exists>cells. lane_results Wt r0 min_len l = (length (filter (skel_kept l min_len) (li_order l)), cells) \<and>
    take (length (filter (skel_kept l min_len) (li_order l))) cells =
      map (skel_entry (fst (li_mem l)) Wt r0) (filter (skel_kept l min_len) (li_order l))"
proof -
  have k: "k_skel_compact (li_skel l) (li_mem l) Wt r0 min_len =
      (\<lambda>i st. if skel_kept l min_len i then reserve (nat kMaxSkel) (skel_entry (fst (li_mem l)) Wt r0 i) st else st)"
    by (auto simp: k_skel_compact_def skel_kept_def fun_eq_iff)
  show ?thesis unfolding lane_results_def k by (rule reserve_all [OF assms])
qed

definition same_lane :: "lane_input \<Rightarrow> lane_input \<Rightarrow> nat \<Rightarrow> bool" where
  \<comment> \<open>the same pixels, labelled alike, in any two orders, over any two contents of the cells, and no overflow\<close>
  "same_lane l l' min_len \<longleftrightarrow> li_skel l = li_skel l' \<and> mset (li_order l) = mset (li_order l') \<and>
     list_all (\<lambda>i. li_skel l ! i \<noteq> 0 \<longrightarrow> fst (li_mem l) ! i = fst (li_mem l') ! i \<and>
       snd (li_mem l) ! (fst (li_mem l) ! i) = snd (li_mem l') ! (fst (li_mem l) ! i)) (li_order l) \<and>
     length (li_cells l) = nat kMaxSkel \<and> length (li_cells l') = nat kMaxSkel \<and>
     length (filter (skel_kept l min_len) (li_order l)) \<le> nat kMaxSkel"

lemma same_lane_results:
  assumes "same_lane l l' min_len"
  shows "fst (lane_results Wt r0 min_len l) = fst (lane_results Wt r0 min_len l') \<and>
    lane_points_of g p pitch (int (fst (lane_results Wt r0 min_len l))) (snd (lane_results Wt r0 min_len l)) =
    lane_points_of g p pitch (int (fst (lane_results Wt r0 min_len l'))) (snd (lane_results Wt r0 min_len l'))"
proof -
  let ?P = "skel_kept l min_len"
  let ?e = "skel_entry (fst (li_mem l)) Wt r0" and ?e' = "skel_entry (fst (li_mem l')) Wt r0"
  have mo: "mset (li_order l) = mset (li_order l')" and so: "set (li_order l) = set (li_order l')"
    using assms by (auto simp: same_lane_def dest: mset_eq_setD)
  have same: "skel_kept l' min_len i = ?P i \<and> (?P i \<longrightarrow> ?e' i = ?e i)" if "i \<in> set (li_order l)" for i
    using assms that by (auto simp: same_lane_def list_all_iff skel_kept_def skel_entry_def)
  have kept: "filter (skel_kept l' min_len) (li_order l') = filter ?P (li_order l')"
    by (rule filter_cong) (use same so in auto)
  have m: "mset (filter ?P (li_order l)) = mset (filter ?P (li_order l'))" using mo by simp
  then have len: "length (filter ?P (li_order l)) = length (filter ?P (li_order l'))" by (rule mset_eq_length)
  have caps: "length (li_cells l) = nat kMaxSkel" "length (filter ?P (li_order l)) \<le> nat kMaxSkel"
    and caps': "length (li_cells l') = nat kMaxSkel" "length (filter (skel_kept l' min_len) (li_order l')) \<le> nat kMaxSkel"
    using assms len kept by (simp_all add: same_lane_def)
  obtain cs where r: "lane_results Wt r0 min_len l = (length (filter ?P (li_order l)), cs)"
    "take (length (filter ?P (li_order l))) cs = map (skel_entry (fst (li_mem l)) Wt r0) (filter ?P (li_order l))"
    using lane_results_eq [OF caps] by blast
  obtain cs' where r': "lane_results Wt r0 min_len l' = (length (filter ?P (li_order l)), cs')"
    "take (length (filter ?P (li_order l))) cs' = map ?e' (filter ?P (li_order l'))"
    using lane_results_eq [OF caps'] unfolding kept len by blast
  have "map ?e' (filter ?P (li_order l')) = map ?e (filter ?P (li_order l'))" using same so by auto
  then have "mset (take (length (filter ?P (li_order l))) cs) = mset (take (length (filter ?P (li_order l))) cs')"
    unfolding r(2) r'(2) using m by (simp only: mset_map)
  moreover have "length (filter ?P (li_order l)) = nat (min (int (length (filter ?P (li_order l)))) kMaxSkel)"
    using caps(2) by simp
  ultimately show ?thesis unfolding r(1) r'(1) using lane_points_same [of _ "int (length (filter ?P (li_order l)))" cs cs' g p pitch] by simp
qed


section \<open>Detected candidates\<close>

definition det_kept :: "det_tensors \<Rightarrow> nat \<Rightarrow> real \<Rightarrow> nat \<times> nat \<Rightarrow> bool" where
  "det_kept t C thr ac \<longleftrightarrow> det_score t C ac > thr"

definition det_threads :: "det_tensors \<Rightarrow> nat \<Rightarrow> real \<Rightarrow> (nat \<times> nat) list \<Rightarrow> det_candidate list \<Rightarrow> bool" where
  \<comment> \<open>each pair of an anchor and a class at most once, and no overflow\<close>
  "det_threads t C thr order cells \<longleftrightarrow> distinct order \<and> list_all (\<lambda>ac. snd ac < C) order \<and> length cells = nat kMaxCand \<and>
     length (filter (det_kept t C thr) order) \<le> nat kMaxCand"

lemma flat_inj: "c < C \<Longrightarrow> c' < C \<Longrightarrow> a * C + c = a' * C + c' \<Longrightarrow> a = a' \<and> c = (c'::nat)"
  by (metis add.commute div_mult_self3 div_less mod_mult_self3 mod_less add_0 gr_implies_not0 mult.commute)

lemma det_results_eq:
  assumes "det_threads t C thr order cells"
  shows "\<exists>cs. fold (k_det t C thr) order (0, cells) = (length (filter (det_kept t C thr) order), cs) \<and>
    take (length (filter (det_kept t C thr) order)) cs = map (det_entry t C) (filter (det_kept t C thr) order)"
proof -
  have k: "k_det t C thr = (\<lambda>ac st. if det_kept t C thr ac then reserve (nat kMaxCand) (det_entry t C ac) st else st)"
    by (simp add: k_det_def det_kept_def fun_eq_iff)
  show ?thesis unfolding k by (rule reserve_all) (use assms in \<open>simp_all add: det_threads_def\<close>)
qed

lemma same_detections:
  assumes ok: "det_threads t C thr order cells" "det_threads t C thr order' cells'" and m: "mset order = mset order'"
  shows "\<exists>k cs cs'. fold (k_det t C thr) order (0, cells) = (k, cs) \<and> fold (k_det t C thr) order' (0, cells') = (k, cs') \<and>
    select_detections (int k) cs nt max_dets sx sy fw fh mb = select_detections (int k) cs' nt max_dets sx sy fw fh mb"
proof -
  let ?P = "det_kept t C thr"
  let ?k = "length (filter ?P order)"
  have mf: "mset (filter ?P order) = mset (filter ?P order')" using m by simp
  then have len: "length (filter ?P order') = ?k" by (metis mset_eq_length)
  obtain cs where r: "fold (k_det t C thr) order (0, cells) = (?k, cs)" "take ?k cs = map (det_entry t C) (filter ?P order)"
    using det_results_eq [OF ok(1)] by blast
  obtain cs' where r': "fold (k_det t C thr) order' (0, cells') = (?k, cs')" "take ?k cs' = map (det_entry t C) (filter ?P order')"
    using det_results_eq [OF ok(2)] unfolding len by blast
  have l: "?k \<le> length cs" "?k \<le> length cs'"
    using arg_cong [OF r(2), of length] arg_cong [OF r'(2), of length] len by simp_all
  have n: "?k = nat (min (int ?k) kMaxCand)" using ok(1) by (simp add: det_threads_def kMaxCand_def)
  have same: "mset (take ?k cs) = mset (take ?k cs')" unfolding r(2) r'(2) using mf by (simp only: mset_map)
  have "inj_on dc_flat (set (take ?k cs))"
    unfolding r(2) using ok(1)
    by (auto simp: inj_on_def det_threads_def det_entry_def list_all_iff dest!: flat_inj [rotated 2] simp flip: of_nat_mult of_nat_add)
  from select_detections_same [OF n l same this] r(1) r'(1) show ?thesis by blast
qed


section \<open>The published frame\<close>

lemma same_frame_msgs:
  assumes det: "det_threads t C thr order cells" "det_threads t C thr order' cells'" "mset order = mset order'"
    and lanes: "same_lane white white' min_len" "same_lane yellow yellow' min_len"
    and stop: "stop_pixels (tg_wt g) sv = stop_pixels (tg_wt g) sv'"
  shows "frame_msgs c g (\<lambda>_. gpu_results t C thr order cells Wt r0 min_len white yellow sv) m pitch img =
    frame_msgs c g (\<lambda>_. gpu_results t C thr order' cells' Wt r0 min_len white' yellow' sv') m pitch img"
proof -
  obtain k cs cs' where d: "fold (k_det t C thr) order (0, cells) = (k, cs)" "fold (k_det t C thr) order' (0, cells') = (k, cs')"
    "select_detections (int k) cs (vc_nms_iou c) (vc_max_dets c) 1 1 (vc_in_w c) (vc_in_h c) 2 =
     select_detections (int k) cs' (vc_nms_iou c) (vc_max_dets c) 1 1 (vc_in_w c) (vc_in_h c) 2"
    using same_detections [OF det] by blast
  show ?thesis
    unfolding frame_msgs_def gpu_results_def Let_def d
    by (simp add: d(3) split_beta same_lane_results [OF lanes(1), THEN conjunct2] same_lane_results [OF lanes(2), THEN conjunct2] stop)
qed

text \<open>
  The order in which the threads of a frame reserve their cells does not show: for any two orders of the same threads of \<open>k_det\<close> and of
  \<open>k_skel_compact\<close> on both lanes, over any two contents the cells had before, the node's callback publishes the same four
  messages, as long as no more candidates and pixels are kept than there are cells.
\<close>

theorem published_frame_ignores_thread_order:
  assumes "vision_rel c (Some m) pitch s" "readable img" "0 \<le> vc_max_dets c"
    and "det_threads t C thr order cells" "det_threads t C thr order' cells'" "mset order = mset order'"
    and "same_lane white white' min_len" "same_lane yellow yellow' min_len"
  shows "\<exists>v s1 v' s1'.
    img_cb c g (\<lambda>_. gpu_results t C thr order cells Wt r0 min_len white yellow sv) tm img s = Some (Some v, s1) \<and>
    img_cb c g (\<lambda>_. gpu_results t C thr order' cells' Wt r0 min_len white' yellow' sv) tm img s = Some (Some v', s1') \<and>
    messages_of v = messages_of v'"
proof -
  let ?r = "\<lambda>_. gpu_results t C thr order cells Wt r0 min_len white yellow sv"
  let ?r' = "\<lambda>_. gpu_results t C thr order' cells' Wt r0 min_len white' yellow' sv"
  obtain v s1 where v: "img_cb c g ?r tm img s = Some (Some v, s1)" "messages_of v = frame_msgs c g ?r m pitch img"
    using img_cb_publishes [OF assms(1-3)] by blast
  obtain v' s1' where v': "img_cb c g ?r' tm img s = Some (Some v', s1')" "messages_of v' = frame_msgs c g ?r' m pitch img"
    using img_cb_publishes [OF assms(1-3)] by blast
  have "messages_of v = messages_of v'" unfolding v(2) v'(2) by (rule same_frame_msgs [OF assms(4-8) refl])
  with v(1) v'(1) show ?thesis by blast
qed

text \<open>Two detections and three lane pixels, written in one order and in the other.\<close>

definition two_tensors :: det_tensors where
  "two_tensors = \<lparr>dt_cls = [1, 2], dt_ctr = [0, 0], dt_boxes = [0, 0, 10, 10, 100, 100, 120, 130]\<rparr>"

definition short_line :: "nat list \<Rightarrow> skel_pix \<Rightarrow> lane_input" where
  "short_line order garbage = \<lparr>li_skel = [0, 1, 1, 1], li_mem = ([0, 1, 1, 1], [(0, 0), (3, 3), (0, 0), (0, 0)]), li_order = order,
     li_cells = replicate (nat kMaxSkel) garbage\<rparr>"

lemma two_threads: "distinct xs \<Longrightarrow> set xs \<subseteq> {(0, 0), (1, 0)} \<Longrightarrow> det_threads two_tensors 1 (1 / 2) xs (replicate (nat kMaxCand) x)"
proof -
  assume "distinct xs" and sub: "set xs \<subseteq> {(0, 0), (1, 0)}"
  moreover have "length xs \<le> 2"
    using \<open>distinct xs\<close> card_mono [OF _ sub] distinct_card [of xs] by simp
  then have "length (filter (det_kept two_tensors 1 (1 / 2)) xs) \<le> 2048"
    using length_filter_le [of "det_kept two_tensors 1 (1 / 2)" xs] by linarith
  ultimately show ?thesis by (auto simp: det_threads_def kMaxCand_def list_all_iff)
qed

theorem published_frame_ignores_thread_order_witness:
  "\<exists>v s1 v' s1'.
    (let s = snd (the (vision_step sample_config sample_geom sample_gpu
           (Camera_Info \<lparr>cc_width = 960, cc_height = 544, cc_k = [500, 0, 480, 0, 500, 272, 0, 0, 1]\<rparr>) (new_vision 0)));
         tm = \<lparr>vt_t0 = 0, vt_t1 = 0, vt_t2 = 0, vt_t3 = 0, vt_t4 = 0, vt_gpu_ms = 0, vt_latency_ms = 0, vt_report = 0\<rparr>;
         img = \<lparr>ci_header = \<lparr>stamp = 7, frame_id = ''cam''\<rparr>, ci_encoding = ''bgr8'', ci_width = 1, ci_height = 1, ci_step = 3,
           ci_data = [128, 128, 128]\<rparr>;
         run = (\<lambda>o1 o2 cell pix. img_cb sample_config sample_geom
           (\<lambda>_. gpu_results two_tensors 1 (1 / 2) o1 (replicate (nat kMaxCand) cell) 2 160 3 (short_line o2 pix) (short_line [] pix) []) tm img s);
         cell = det_entry two_tensors 1 (0, 0) in
     run [(0, 0), (1, 0)] [1, 2, 3] cell \<lparr>px_label = 0, px_v = 0, px_u = 0\<rparr> = Some (Some v, s1) \<and>
     run [(1, 0), (0, 0)] [3, 1, 2] (cell\<lparr>dc_x1 := 4\<rparr>) \<lparr>px_label = 9, px_v = 1, px_u = 1\<rparr> = Some (Some v', s1') \<and>
     messages_of v = messages_of v')"
proof -
  let ?m = "\<lparr>cc_width = 960, cc_height = 544, cc_k = [500, 0, 480, 0, 500, 272, 0, 0, 1]\<rparr>"
  let ?s = "snd (the (vision_step sample_config sample_geom sample_gpu (Camera_Info ?m) (new_vision 0)))"
  have rel: "vision_rel sample_config (Some ?m) 0 ?s"
    by (simp add: vision_rel_def cam_info_cb_def new_vision_def scratch_ok_def new_skel_scratch_def)
  have m: "mset [(0, 0), (1, 0 :: nat)] = mset [(1, 0), (0 :: nat, 0)]" "mset [1, 2, 3] = mset [3, 1, 2 :: nat]" by simp_all
  have lane: "same_lane (short_line [1, 2, 3] a) (short_line [3, 1, 2] b) 3" "same_lane (short_line [] a) (short_line [] b) 3" for a b
    by (simp_all add: same_lane_def short_line_def skel_kept_def kMaxSkel_def)
  show ?thesis
    unfolding Let_def
    by (rule published_frame_ignores_thread_order [OF rel _ _ two_threads two_threads m(1) lane])
      (simp_all add: readable_def parse_encoding_def sample_config_def)
qed

end
