(* ===== verification/Image_Kernel.thy ===== *)
theory Image_Kernel
  imports Mask_Kernel
begin

text \<open>
  The kernels of \<open>src/vision_cpp/src/gpu_kernels.cu\<close> that read the camera image: the resizing and normalisation in front of the network
  and the overlay of the recorder. A read outside the source buffer is \<open>None\<close>; floats, also the half ones, are real numbers, and \<open>dbl\<close>
  values where the code divides by a parameter that may be zero.
\<close>

section \<open>The code\<close>

text \<open>The layout of the camera frame, as \<open>GpuPipeline::set_source\<close> declares it.\<close>

record src_layout =
  sl_w :: int
  sl_h :: int
  sl_stride :: int
  sl_channels :: int
  sl_bgr :: bool

definition read_byte :: "8 word list \<Rightarrow> src_layout \<Rightarrow> int \<Rightarrow> int \<Rightarrow> int \<Rightarrow> real option" where
  \<comment> \<open>\<open>src[y * stride + x * sc + c]\<close>\<close>
  "read_byte src l x y c =
    (let i = y * sl_stride l + x * sl_channels l + c in
     if 0 \<le> i \<and> i < int (length src) then Some (real (unat (src ! nat i))) else None)"

definition resample :: "8 word list \<Rightarrow> src_layout \<Rightarrow> int \<Rightarrow> int \<Rightarrow> int \<Rightarrow> int \<Rightarrow> int \<Rightarrow> real option" where
  "resample src l dw dh x y c =
    (if sl_w l = dw \<and> sl_h l = dh then read_byte src l x y c
     else
      (let fx = (of_int x + 1 / 2) * of_int (sl_w l) / of_int dw - 1 / 2; fy = (of_int y + 1 / 2) * of_int (sl_h l) / of_int dh - 1 / 2;
           x0 = \<lfloor>fx\<rfloor>; y0 = \<lfloor>fy\<rfloor>; ax = fx - of_int x0; ay = fy - of_int y0;
           x1 = min (max (x0 + 1) 0) (sl_w l - 1); y1 = min (max (y0 + 1) 0) (sl_h l - 1);
           x0 = min (max x0 0) (sl_w l - 1); y0 = min (max y0 0) (sl_h l - 1) in
       case (read_byte src l x0 y0 c, read_byte src l x1 y0 c, read_byte src l x0 y1 c, read_byte src l x1 y1 c) of
         (Some p00, Some p01, Some p10, Some p11) \<Rightarrow>
           Some ((1 - ay) * ((1 - ax) * p00 + ax * p01) + ay * ((1 - ax) * p10 + ax * p11))
       | _ \<Rightarrow> None))"

definition over :: "real \<Rightarrow> real \<Rightarrow> dbl" where
  \<comment> \<open>the division of floats, by a zero too\<close>
  "over a b = (if b \<noteq> 0 then Fin (a / b) else if a > 0 then PInf else if a < 0 then NInf else NaN)"

definition k_preprocess ::
  "8 word list \<Rightarrow> src_layout \<Rightarrow> int list \<Rightarrow> int \<Rightarrow> int \<Rightarrow> dbl list \<Rightarrow> dbl list \<Rightarrow> nat \<Rightarrow> int \<Rightarrow> int \<Rightarrow> dbl option" where
  \<comment> \<open>what the thread of pixel \<open>(x, y)\<close> writes to plane \<open>k\<close>\<close>
  "k_preprocess src l idx dw dh scale bias k x y = map_option (\<lambda>v. Fin v * scale ! k - bias ! k) (resample src l dw dh x y (idx ! k))"

definition launch_preprocess ::
  "8 word list \<Rightarrow> src_layout \<Rightarrow> nat \<Rightarrow> nat \<Rightarrow> real list \<Rightarrow> real list \<Rightarrow> dbl list option" where
  "launch_preprocess src l dw dh mean stdv =
    (let idx = [if sl_bgr l then 2 else 0, 1, if sl_bgr l then 0 else 2];
         scale = map (\<lambda>s. over 1 (255 * s)) stdv; bias = map2 over mean stdv in
     those (map (\<lambda>j. k_preprocess src l idx (int dw) (int dh) scale bias (j div (dw * dh))
       (int (j mod (dw * dh) mod dw)) (int (j mod (dw * dh) div dw))) [0..<3 * (dw * dh)]))"

definition rintf :: "real \<Rightarrow> int" where
  \<comment> \<open>to the nearest integer, a tie to the even one\<close>
  "rintf v = (let f = \<lfloor>v\<rfloor>; d = v - of_int f in if d < 1 / 2 then f else if d > 1 / 2 then f + 1 else if even f then f else f + 1)"

definition tint :: "nat \<Rightarrow> nat \<Rightarrow> real" where
  \<comment> \<open>blue, green and red of a class: stop line, yellow lane, white lane\<close>
  "tint best k = (if best = 3 - k then 255 else 0)"

definition k_overlay ::
  "8 word list \<Rightarrow> src_layout \<Rightarrow> int list \<Rightarrow> real list \<Rightarrow> nat \<Rightarrow> nat \<Rightarrow> nat \<Rightarrow> real \<Rightarrow> nat \<Rightarrow> nat \<Rightarrow> nat \<Rightarrow> 8 word option" where
  \<comment> \<open>what the thread of pixel \<open>(x, y)\<close> writes to channel \<open>k\<close>\<close>
  "k_overlay src l idx logits C lh lw alpha k x y =
    (let lx = min (x * lw div nat (sl_w l)) (lw - 1); ly = min (y * lh div nat (sl_h l)) (lh - 1);
         best = best_class logits C (lh * lw) (ly * lw + lx) in
     map_option (\<lambda>v. let v = (if best > 0 then v * (1 - alpha) + tint best k * alpha else v) in word_of_int (min 255 (rintf v)))
       (read_byte src l (int x) (int y) (idx ! k)))"

definition launch_overlay ::
  "8 word list \<Rightarrow> src_layout \<Rightarrow> real list \<Rightarrow> nat \<Rightarrow> nat \<Rightarrow> nat \<Rightarrow> real \<Rightarrow> 8 word list option" where
  "launch_overlay src l logits C lh lw alpha =
    (let fw = nat (sl_w l); fh = nat (sl_h l); idx = [if sl_bgr l then 0 else 2, 1, if sl_bgr l then 2 else 0] in
     those (map (\<lambda>j. k_overlay src l idx logits C lh lw alpha (j mod 3) (j div 3 mod fw) (j div 3 div fw)) [0..<3 * (fw * fh)]))"

section \<open>Reading the frame\<close>

definition frame_fits :: "8 word list \<Rightarrow> src_layout \<Rightarrow> bool" where
  \<comment> \<open>an image that the node accepts (below) and that has a pixel\<close>
  "frame_fits src l \<longleftrightarrow> 0 < sl_w l \<and> 0 < sl_h l \<and> 3 \<le> sl_channels l \<and> sl_w l * sl_channels l \<le> sl_stride l \<and>
     sl_stride l * sl_h l \<le> int (length src)"

definition accepted :: "8 word list \<Rightarrow> src_layout \<Rightarrow> bool" where
  \<comment> \<open>what the node checks of an image: its rows hold their pixels and its data hold the rows. The sizes are
    unsigned in the message, and nothing asks for a pixel\<close>
  "accepted src l \<longleftrightarrow> 3 \<le> sl_channels l \<and> 0 \<le> sl_w l \<and> 0 \<le> sl_h l \<and> sl_w l * sl_channels l \<le> sl_stride l \<and>
     sl_stride l * sl_h l \<le> int (length src)"

lemma frame_fits_iff: "frame_fits src l \<longleftrightarrow> accepted src l \<and> 0 < sl_w l \<and> 0 < sl_h l"
  by (auto simp: frame_fits_def accepted_def)

definition byte_of :: "8 word list \<Rightarrow> src_layout \<Rightarrow> int \<Rightarrow> int \<Rightarrow> int \<Rightarrow> real" where
  "byte_of src l x y c = real (unat (src ! nat (y * sl_stride l + x * sl_channels l + c)))"

lemma byte_index:
  assumes "3 \<le> sl_channels l" "sl_w l * sl_channels l \<le> sl_stride l" "0 \<le> x" "x < sl_w l" "0 \<le> y" "y < sl_h l" "0 \<le> c" "c < 3"
  shows "0 \<le> y * sl_stride l + x * sl_channels l + c \<and> y * sl_stride l + x * sl_channels l + c < sl_stride l * sl_h l"
proof -
  have "x * sl_channels l + sl_channels l \<le> sl_w l * sl_channels l"
    using mult_right_mono [of "x + 1" "sl_w l" "sl_channels l"] assms(1,4) by (simp add: distrib_right)
  then have a: "x * sl_channels l + c < sl_stride l" using assms(1,2,8) by linarith
  have nn: "0 \<le> x * sl_channels l" using assms(1,3) by simp
  then have s: "0 \<le> sl_stride l" using a assms(7) by linarith
  have "y * sl_stride l + sl_stride l \<le> sl_h l * sl_stride l"
    using mult_right_mono [of "y + 1" "sl_h l" "sl_stride l"] assms(6) s by (simp add: distrib_right)
  then have "y * sl_stride l + x * sl_channels l + c < sl_stride l * sl_h l" using a by (simp add: mult.commute)
  moreover have "0 \<le> y * sl_stride l" using assms(5) s by simp
  ultimately show ?thesis using nn assms(7) by simp
qed

lemma read_byte_inside:
  assumes "frame_fits src l" "0 \<le> x" "x < sl_w l" "0 \<le> y" "y < sl_h l" "0 \<le> c" "c < 3"
  shows "read_byte src l x y c = Some (byte_of src l x y c)"
  using byte_index [of l x y c] assms by (simp add: frame_fits_def read_byte_def byte_of_def)

lemma unat_bound: "unat (b :: 8 word) \<le> 255"
  using unsigned_less [of b, where ?'a = nat] by simp

lemma byte_of_range: "0 \<le> byte_of src l x y c \<and> byte_of src l x y c \<le> 255"
proof -
  have "unat (src ! nat (y * sl_stride l + x * sl_channels l + c)) \<le> 255"
    using unat_bound [of "src ! nat (y * sl_stride l + x * sl_channels l + c)"] by simp
  then have "real (unat (src ! nat (y * sl_stride l + x * sl_channels l + c))) \<le> real 255" by (simp only: of_nat_le_iff)
  moreover have "0 \<le> real (unat (src ! nat (y * sl_stride l + x * sl_channels l + c)))" by (rule of_nat_0_le_iff)
  ultimately show ?thesis unfolding byte_of_def by (simp only: of_nat_numeral)
qed


section \<open>Resizing and normalising\<close>

text \<open>The reference: the image continued beyond its border, interpolated at the point that the centre of the pixel falls on.\<close>

definition beyond :: "8 word list \<Rightarrow> src_layout \<Rightarrow> int \<Rightarrow> int \<Rightarrow> int \<Rightarrow> real" where
  "beyond src l c x y = byte_of src l (min (max x 0) (sl_w l - 1)) (min (max y 0) (sl_h l - 1)) c"

definition between :: "(int \<Rightarrow> real) \<Rightarrow> real \<Rightarrow> real" where
  "between f t = (1 - frac t) * f \<lfloor>t\<rfloor> + frac t * f (\<lfloor>t\<rfloor> + 1)"

definition interpolated :: "8 word list \<Rightarrow> src_layout \<Rightarrow> nat \<Rightarrow> nat \<Rightarrow> nat \<Rightarrow> nat \<Rightarrow> int \<Rightarrow> real" where
  "interpolated src l dw dh x y c =
    between (\<lambda>v. between (\<lambda>u. beyond src l c u v) ((real x + 1 / 2) * of_int (sl_w l) / real dw - 1 / 2))
      ((real y + 1 / 2) * of_int (sl_h l) / real dh - 1 / 2)"

lemma between_range: "(\<And>i. a \<le> f i \<and> f i \<le> b) \<Longrightarrow> a \<le> between f t \<and> between f t \<le> b"
proof -
  assume f: "\<And>i. a \<le> f i \<and> f i \<le> b"
  have t: "0 \<le> frac t" "0 \<le> 1 - frac t" using frac_lt_1 [of t] by simp_all
  have "(1 - frac t) * a + frac t * a \<le> between f t" "between f t \<le> (1 - frac t) * b + frac t * b"
    unfolding between_def using f t by (intro add_mono mult_left_mono; simp)+
  then show ?thesis by (simp add: algebra_simps)
qed

lemma between_whole: "between f (of_int i) = f i" "between f (real n) = f (int n)"
  by (simp_all add: between_def frac_def)

lemma interpolated_range: "0 \<le> interpolated src l dw dh x y c \<and> interpolated src l dw dh x y c \<le> 255"
  unfolding interpolated_def by (intro between_range) (simp add: beyond_def byte_of_range)

lemma interpolated_same_size:
  "sl_w l = int dw \<Longrightarrow> sl_h l = int dh \<Longrightarrow> x < dw \<Longrightarrow> y < dh \<Longrightarrow> interpolated src l dw dh x y c = byte_of src l (int x) (int y) c"
  by (simp add: interpolated_def beyond_def between_whole)

lemma resample_interpolates:
  assumes fits: "frame_fits src l" and d: "x < dw" "y < dh" and c: "0 \<le> c" "c < 3"
  shows "resample src l (int dw) (int dh) (int x) (int y) c = Some (interpolated src l dw dh x y c)"
proof (cases "sl_w l = int dw \<and> sl_h l = int dh")
  case True
  with d c fits interpolated_same_size [of l dw dh x y src c] show ?thesis by (simp add: resample_def read_byte_inside)
next
  case False
  have wh: "0 < sl_w l" "0 < sl_h l" using fits by (simp_all add: frame_fits_def)
  then have rd: "read_byte src l (min (max u 0) (sl_w l - 1)) (min (max v 0) (sl_h l - 1)) c = Some (beyond src l c u v)" for u v
    unfolding beyond_def using c by (intro read_byte_inside [OF fits]) auto
  show ?thesis
    unfolding resample_def if_not_P [OF False] Let_def rd by (simp add: interpolated_def between_def frac_def)
qed

lemma those_map: "(\<And>x. x \<in> set xs \<Longrightarrow> f x = Some (g x)) \<Longrightarrow> those (map f xs) = Some (map g xs)"
  by (induction xs) auto

lemma three: "k < 3 \<Longrightarrow> k = 0 \<or> k = 1 \<or> k = (2 :: nat)"
  by auto

definition input_value :: "8 word list \<Rightarrow> src_layout \<Rightarrow> nat \<Rightarrow> nat \<Rightarrow> real list \<Rightarrow> real list \<Rightarrow> nat \<Rightarrow> nat \<Rightarrow> nat \<Rightarrow> dbl" where
  "input_value src l dw dh mean stdv k x y =
    Fin (interpolated src l dw dh x y (if sl_bgr l then 2 - int k else int k)) * over 1 (255 * stdv ! k) - over (mean ! k) (stdv ! k)"

lemma input_value_normalised:
  assumes "stdv ! k \<noteq> 0"
  shows "input_value src l dw dh mean stdv k x y =
    Fin ((interpolated src l dw dh x y (if sl_bgr l then 2 - int k else int k) / 255 - mean ! k) / stdv ! k)"
proof -
  have "v * (1 / (255 * s)) - m / s = (v / 255 - m) / s" if "s \<noteq> 0" for v m s :: real
    using that by (simp add: field_simps)
  with assms show ?thesis by (simp add: input_value_def over_def minus_dbl_def)
qed

lemma input_value_divided_by_zero:
  assumes "stdv ! k = 0"
  shows "\<not> isfinite (input_value src l dw dh mean stdv k x y)"
  using assms by (simp add: input_value_def over_def minus_dbl_def)

lemma launch_preprocess_values:
  assumes "frame_fits src l" "0 < dw" "0 < dh" "length mean = 3" "length stdv = 3"
  shows "launch_preprocess src l dw dh mean stdv = Some (map (\<lambda>j.
    input_value src l dw dh mean stdv (j div (dw * dh)) (j mod (dw * dh) mod dw) (j mod (dw * dh) div dw)) [0..<3 * (dw * dh)])"
proof -
  let ?idx = "[if sl_bgr l then 2 else 0, 1, if sl_bgr l then 0 else 2 :: int]"
  have cell: "k_preprocess src l ?idx (int dw) (int dh) (map (\<lambda>s. over 1 (255 * s)) stdv) (map2 over mean stdv) (j div (dw * dh))
      (int (j mod (dw * dh) mod dw)) (int (j mod (dw * dh) div dw)) =
    Some (input_value src l dw dh mean stdv (j div (dw * dh)) (j mod (dw * dh) mod dw) (j mod (dw * dh) div dw))"
    if "j \<in> set [0..<3 * (dw * dh)]" for j
  proof -
    have k: "j div (dw * dh) < 3" using that by (simp add: less_mult_imp_div_less)
    have xy: "j mod (dw * dh) mod dw < dw" "j mod (dw * dh) div dw < dh"
      using assms(2,3) by (simp_all add: less_mult_imp_div_less mult.commute [of dw])
    have i: "?idx ! (j div (dw * dh)) = (if sl_bgr l then 2 - int (j div (dw * dh)) else int (j div (dw * dh)))"
      using three [OF k] by auto
    with k have "0 \<le> ?idx ! (j div (dw * dh)) \<and> ?idx ! (j div (dw * dh)) < 3" by simp
    with resample_interpolates [OF assms(1) xy] show ?thesis
      using k assms(4,5) by (simp add: k_preprocess_def input_value_def i)
  qed
  show ?thesis unfolding launch_preprocess_def Let_def by (rule those_map) (rule cell)
qed

lemma interpolated_cong:
  assumes "0 < sl_w l" "0 < sl_h l" "3 \<le> sl_channels l" "sl_w l * sl_channels l \<le> sl_stride l" "0 \<le> c" "c < 3"
    and "\<And>i. i < nat (sl_stride l * sl_h l) \<Longrightarrow> src ! i = src' ! i"
  shows "interpolated src l dw dh x y c = interpolated src' l dw dh x y c"
proof -
  have "byte_of src l (min (max u 0) (sl_w l - 1)) (min (max v 0) (sl_h l - 1)) c =
    byte_of src' l (min (max u 0) (sl_w l - 1)) (min (max v 0) (sl_h l - 1)) c" for u v
  proof -
    let ?i = "min (max v 0) (sl_h l - 1) * sl_stride l + min (max u 0) (sl_w l - 1) * sl_channels l + c"
    have "0 \<le> ?i \<and> ?i < sl_stride l * sl_h l" using assms(1-6) by (intro byte_index) auto
    then have "nat ?i < nat (sl_stride l * sl_h l)" by (intro nat_mono_iff [THEN iffD2]) linarith+
    then show ?thesis unfolding byte_of_def by (simp only: assms(7))
  qed
  then show ?thesis by (simp add: interpolated_def beyond_def)
qed

text \<open>An image without rows, or without bytes, is accepted all the same; the clamped coordinates are then \<open>- 1\<close>.\<close>

lemma empty_image_read:
  assumes "accepted src l" "sl_h l = 0 \<or> sl_stride l = 0" "c < 3"
  shows "read_byte src l (min u (sl_w l - 1)) (min (max v 0) (sl_h l - 1)) c = None"
proof -
  let ?x = "min u (sl_w l - 1)" and ?y = "min (max v 0) (sl_h l - 1)"
  have ch: "3 \<le> sl_channels l" and row: "sl_w l * sl_channels l \<le> sl_stride l" and w: "0 \<le> sl_w l"
    using assms(1) by (simp_all add: accepted_def)
  have "?x * sl_channels l \<le> (sl_w l - 1) * sl_channels l" using ch by (intro mult_right_mono) auto
  also have "(sl_w l - 1) * sl_channels l \<le> sl_stride l - sl_channels l" using row by (simp add: left_diff_distrib)
  finally have x: "?x * sl_channels l + c < sl_stride l" using ch assms(3) by linarith
  have "?y * sl_stride l \<le> - sl_stride l"
  proof (cases "sl_h l = 0")
    case True
    then have "?y = - 1" by simp
    then show ?thesis by simp
  qed (use assms(2) in simp)
  with x have "?y * sl_stride l + ?x * sl_channels l + c < 0" by linarith
  then show ?thesis by (simp add: read_byte_def Let_def)
qed

lemma empty_image_fails:
  assumes "accepted src l" "sl_h l = 0 \<or> sl_stride l = 0" "0 < dw" "0 < dh"
  shows "launch_preprocess src l dw dh mean stdv = None"
proof -
  have row: "3 \<le> sl_channels l" "0 \<le> sl_w l" "sl_w l * sl_channels l \<le> sl_stride l"
    using assms(1) by (simp_all add: accepted_def)
  have "sl_w l = 0" if "sl_stride l = 0"
  proof (rule ccontr)
    assume "sl_w l \<noteq> 0"
    with row have "0 < sl_w l * sl_channels l" by simp
    with row that show False by simp
  qed
  with assms have other: "\<not> (sl_w l = int dw \<and> sl_h l = int dh)" by auto
  have "resample src l (int dw) (int dh) x y c = None" if "c < 3" for x y c
    unfolding resample_def if_not_P [OF other] Let_def empty_image_read [OF assms(1,2) that] by simp
  then have "k_preprocess src l [if sl_bgr l then 2 else 0, 1, if sl_bgr l then 0 else 2] (int dw) (int dh) scale bias 0 x y = None"
    for scale bias x y by (simp add: k_preprocess_def)
  moreover have "[0..<3 * (dw * dh)] = 0 # [1..<3 * (dw * dh)]" using assms(3,4) by (simp add: upt_conv_Cons)
  ultimately show ?thesis by (simp add: launch_preprocess_def Let_def)
qed

text \<open>
  C36: The network input is the camera image, resized and normalised. For every image with pixels that the node accepts, of any
  size, row stride and channel order, no thread reads outside the frame, and the value of each plane at each pixel is that of the
  bilinear interpolation of the red, green or blue channel at the pixel's centre, scaled to the unit interval, less the mean,
  over the deviation; when the sizes agree, so that the kernel takes its short cut, this is the pixel's own value. A
  deviation of zero, which nothing excludes, makes every value of its plane an infinity or a NaN. An image without rows or
  without bytes, which the node accepts too, makes the kernel read before the buffer.
\<close>

theorem network_input_is_interpolated_image:
  assumes "accepted src l" "0 < dw" "0 < dh" "length mean = 3" "length stdv = 3"
  shows "(0 < sl_w l \<and> 0 < sl_h l \<longrightarrow>
     (\<exists>dst. launch_preprocess src l dw dh mean stdv = Some dst \<and> length dst = 3 * (dw * dh) \<and>
      (\<forall>k < 3. \<forall>x < dw. \<forall>y < dh.
         let c = if sl_bgr l then 2 - int k else int k; v = interpolated src l dw dh x y c; d = dst ! (k * (dw * dh) + y * dw + x) in
         (if stdv ! k = 0 then \<not> isfinite d else d = Fin ((v / 255 - mean ! k) / stdv ! k)) \<and> 0 \<le> v \<and> v \<le> 255 \<and>
         (sl_w l = int dw \<and> sl_h l = int dh \<longrightarrow> v = byte_of src l (int x) (int y) c)))) \<and>
    (sl_h l = 0 \<or> sl_stride l = 0 \<longrightarrow> launch_preprocess src l dw dh mean stdv = None)"
proof (intro conjI impI)
  assume "sl_h l = 0 \<or> sl_stride l = 0"
  with assms(1-3) show "launch_preprocess src l dw dh mean stdv = None" by (intro empty_image_fails)
next
  assume "0 < sl_w l \<and> 0 < sl_h l"
  with assms(1) have fits: "frame_fits src l" by (simp add: frame_fits_iff)
  let ?g = "\<lambda>j. input_value src l dw dh mean stdv (j div (dw * dh)) (j mod (dw * dh) mod dw) (j mod (dw * dh) div dw)"
  have "map ?g [0..<3 * (dw * dh)] ! (k * (dw * dh) + y * dw + x) = input_value src l dw dh mean stdv k x y"
    if kxy: "k < 3" "x < dw" "y < dh" for k x y
  proof -
    let ?j = "k * (dw * dh) + y * dw + x"
    have j: "?j div (dw * dh) = k" "?j mod (dw * dh) mod dw = x" "?j mod (dw * dh) div dw = y" "y * dw + x < dw * dh"
      using cell_coords [OF kxy(2,3), of ?j k] by simp_all
    have "Suc k * (dw * dh) \<le> 3 * (dw * dh)" using kxy(1) by (intro mult_le_mono1) simp
    then have "k * (dw * dh) + dw * dh \<le> 3 * (dw * dh)" by (simp only: mult_Suc add.commute)
    then have "?j < 3 * (dw * dh)" using j(4) by linarith
    then show ?thesis by (simp add: j(1-3))
  qed
  with launch_preprocess_values [OF fits assms(2-5)]
  show "\<exists>dst. launch_preprocess src l dw dh mean stdv = Some dst \<and> length dst = 3 * (dw * dh) \<and>
      (\<forall>k < 3. \<forall>x < dw. \<forall>y < dh.
         let c = if sl_bgr l then 2 - int k else int k; v = interpolated src l dw dh x y c; d = dst ! (k * (dw * dh) + y * dw + x) in
         (if stdv ! k = 0 then \<not> isfinite d else d = Fin ((v / 255 - mean ! k) / stdv ! k)) \<and> 0 \<le> v \<and> v \<le> 255 \<and>
         (sl_w l = int dw \<and> sl_h l = int dh \<longrightarrow> v = byte_of src l (int x) (int y) c))"
    by (auto simp: Let_def input_value_normalised input_value_divided_by_zero interpolated_range interpolated_same_size
        simp del: nth_map_upt)
qed

text \<open>A frame of one RGBA pixel, enlarged to two by one.\<close>

definition one_pixel :: src_layout where
  "one_pixel = \<lparr>sl_w = 1, sl_h = 1, sl_stride = 5, sl_channels = 4, sl_bgr = False\<rparr>"

theorem network_input_is_interpolated_image_witness:
  "(\<exists>dst. launch_preprocess [255, 0, 51, 9, 9] one_pixel 2 1 [0, 0, 0] [1, 1, 0] = Some dst \<and> length dst = 6 \<and>
     dst ! 3 = Fin (interpolated [255, 0, 51, 9, 9] one_pixel 2 1 1 0 1 / 255) \<and> \<not> isfinite (dst ! 5)) \<and>
   launch_preprocess [255, 0, 51, 9, 9] (one_pixel\<lparr>sl_h := 0\<rparr>) 2 1 [0, 0, 0] [1, 1, 0] = None"
proof
  have "accepted [255, 0, 51, 9, 9] one_pixel" by (simp add: accepted_def one_pixel_def)
  from network_input_is_interpolated_image [OF this, of 2 1 "[0, 0, 0]" "[1, 1, 0]"] obtain dst where
    d: "launch_preprocess [255, 0, 51, 9, 9] one_pixel 2 1 [0, 0, 0] [1, 1, 0] = Some dst" "length dst = 6"
    "\<forall>k < 3. \<forall>x < 2. \<forall>y < 1. let c = if sl_bgr one_pixel then 2 - int k else int k;
        v = interpolated [255, 0, 51, 9, 9] one_pixel 2 1 x y c; d = dst ! (k * 2 + y * 2 + x) in
      (if [1, 1, 0] ! k = (0 :: real) then \<not> isfinite d else d = Fin ((v / 255 - [0, 0, 0] ! k) / [1, 1, 0] ! k)) \<and> 0 \<le> v \<and> v \<le> 255 \<and>
      (sl_w one_pixel = 2 \<and> sl_h one_pixel = 1 \<longrightarrow> v = byte_of [255, 0, 51, 9, 9] one_pixel (int x) (int y) c)"
    by (auto simp: one_pixel_def)
  from d(3) [rule_format, of 1 1 0] d(3) [rule_format, of 2 1 0]
  have "dst ! 3 = Fin (interpolated [255, 0, 51, 9, 9] one_pixel 2 1 1 0 1 / 255)" "\<not> isfinite (dst ! 5)"
    by (simp_all add: Let_def one_pixel_def)
  with d(1,2) show "\<exists>dst. launch_preprocess [255, 0, 51, 9, 9] one_pixel 2 1 [0, 0, 0] [1, 1, 0] = Some dst \<and> length dst = 6 \<and>
     dst ! 3 = Fin (interpolated [255, 0, 51, 9, 9] one_pixel 2 1 1 0 1 / 255) \<and> \<not> isfinite (dst ! 5)" by blast
next
  have "accepted [255, 0, 51, 9, 9] (one_pixel\<lparr>sl_h := 0\<rparr>)" by (simp add: accepted_def one_pixel_def)
  from network_input_is_interpolated_image [OF this, of 2 1 "[0, 0, 0]" "[1, 1, 0]"]
  show "launch_preprocess [255, 0, 51, 9, 9] (one_pixel\<lparr>sl_h := 0\<rparr>) 2 1 [0, 0, 0] [1, 1, 0] = None" by simp
qed

section \<open>The overlay\<close>

lemma rintf_whole: "rintf (real n) = int n"
  by (simp add: rintf_def Let_def)

lemma rintf_near: "\<lfloor>v\<rfloor> \<le> rintf v" "rintf v \<le> \<lceil>v\<rceil>"
proof -
  show "\<lfloor>v\<rfloor> \<le> rintf v" by (simp add: rintf_def Let_def)
  show "rintf v \<le> \<lceil>v\<rceil>"
  proof (cases "of_int \<lfloor>v\<rfloor> = v")
    case True
    then have d: "v - of_int \<lfloor>v\<rfloor> = 0" by (simp only: diff_self)
    have "rintf v = \<lfloor>v\<rfloor>" unfolding rintf_def Let_def d by simp
    then show ?thesis by (simp add: floor_le_ceiling)
  next
    case False
    then have "\<lceil>v\<rceil> = \<lfloor>v\<rfloor> + 1" by (simp add: ceiling_altdef)
    then show ?thesis by (simp add: rintf_def Let_def)
  qed
qed

lemma rintf_byte: "0 \<le> v \<Longrightarrow> v \<le> 255 \<Longrightarrow> 0 \<le> rintf v \<and> rintf v \<le> 255"
proof -
  assume "0 \<le> v" "v \<le> 255"
  then have "0 \<le> \<lfloor>v\<rfloor>" "\<lceil>v\<rceil> \<le> 255" by (simp_all add: ceiling_le_iff)
  then show ?thesis using rintf_near [of v] by linarith
qed

lemma if_positive: "(if 0 < (n :: nat) then a else b) = (if n = 0 then b else a)"
  by simp

lemma overlay_pixel:
  assumes "frame_fits src l" "x < nat (sl_w l)" "y < nat (sl_h l)" "0 \<le> idx ! k" "idx ! k < 3" "0 \<le> alpha" "alpha \<le> 1"
  shows "\<exists>v b. k_overlay src l idx logits C lh lw alpha k x y = Some b \<and> 0 \<le> v \<and> v \<le> 255 \<and> int (unat b) = rintf v \<and>
    v = (let f = best_class logits C (lh * lw) (min (y * lh div nat (sl_h l)) (lh - 1) * lw + min (x * lw div nat (sl_w l)) (lw - 1));
             p = byte_of src l (int x) (int y) (idx ! k) in if f = 0 then p else p * (1 - alpha) + tint f k * alpha)"
proof -
  let ?f = "best_class logits C (lh * lw) (min (y * lh div nat (sl_h l)) (lh - 1) * lw + min (x * lw div nat (sl_w l)) (lw - 1))"
  let ?p = "byte_of src l (int x) (int y) (idx ! k)"
  define v where "v = (if ?f = 0 then ?p else ?p * (1 - alpha) + tint ?f k * alpha)"
  have p: "read_byte src l (int x) (int y) (idx ! k) = Some ?p" using assms by (intro read_byte_inside) simp_all
  note pr = byte_of_range [of src l "int x" "int y" "idx ! k"]
  have "?p * (1 - alpha) + tint ?f k * alpha \<le> 255 * (1 - alpha) + 255 * alpha"
    using pr assms(6,7) by (intro add_mono mult_right_mono) (auto simp: tint_def)
  moreover have "0 \<le> ?p * (1 - alpha) + tint ?f k * alpha" using pr assms(6,7) by (simp add: tint_def)
  moreover have "255 * (1 - alpha) + 255 * alpha = 255" by (simp add: algebra_simps)
  ultimately have v: "0 \<le> v" "v \<le> 255" using pr by (simp_all only: v_def split: if_split) simp_all
  note r = rintf_byte [OF v, THEN conjunct1] rintf_byte [OF v, THEN conjunct2]
  have vv: "(if ?f > 0 then ?p * (1 - alpha) + tint ?f k * alpha else ?p) = v" unfolding v_def by (rule if_positive)
  have "k_overlay src l idx logits C lh lw alpha k x y = Some (word_of_int (min 255 (rintf v)))"
    unfolding k_overlay_def Let_def p option.map vv ..
  then have "k_overlay src l idx logits C lh lw alpha k x y = Some (word_of_int (rintf v))" using r by (simp only: min.absorb2)
  moreover have "int (unat (word_of_int (rintf v) :: 8 word)) = rintf v" using r by (simp add: uint_word_of_int unat_eq_nat_uint)
  ultimately show ?thesis using v by (intro exI [of _ v] exI [of _ "word_of_int (rintf v)"]) (simp only: v_def Let_def simp_thms)
qed

end
