(* ===== verification/Stale_Memory.thy ===== *)
theory Stale_Memory
  imports Component_Kernel
begin

text \<open>
  The labelling kernels only clear the cells of set pixels, so the cells of the other pixels keep what an earlier frame left there. The
  lemmas of this theory show that no thread ever reads such a cell: two runs with the same schedule over memories that agree on the
  set pixels make the same accesses and agree there again.
\<close>

definition closed_in :: "nat set \<Rightarrow> nat list \<Rightarrow> bool" where
  "closed_in S p \<longleftrightarrow> (\<forall>x \<in> S. x < length p \<and> p ! x \<in> S)"

definition agree :: "nat set \<Rightarrow> 'a list \<Rightarrow> 'a list \<Rightarrow> bool" where
  "agree S p p' \<longleftrightarrow> length p = length p' \<and> (\<forall>x \<in> S. p ! x = p' ! x)"

lemma agree_at: "agree S p p' \<Longrightarrow> x \<in> S \<Longrightarrow> p' ! x = p ! x"
  by (simp add: agree_def)

lemma nth_updated: "xs[i := v] ! j = (if i = j \<and> i < length xs then v else xs ! j)"
  by (cases "i < length xs") (auto simp: nth_list_update list_update_beyond)

lemma agree_update: "agree S p p' \<Longrightarrow> agree S (p[x := v]) (p'[x := v])"
  by (auto simp: agree_def nth_updated)

lemma closed_update: "closed_in S p \<Longrightarrow> v \<in> S \<Longrightarrow> closed_in S (p[x := v])"
  by (auto simp: closed_in_def nth_updated)

lemma closed_at: "closed_in S p \<Longrightarrow> x \<in> S \<Longrightarrow> p ! x \<in> S"
  by (simp add: closed_in_def)

fun find_in :: "nat set \<Rightarrow> find_pc \<Rightarrow> bool" where
  "find_in S (Load x) = (x \<in> S)"
| "find_in S (Load2 x px) = (x \<in> S \<and> px \<in> S)"
| "find_in S (Store x v) = (x \<in> S \<and> v \<in> S)"

lemma uf_find_agree:
  assumes "agree S p p'" "closed_in S p" "find_in S f"
  shows "\<exists>q q' r. uf_find p f = (q, r) \<and> uf_find p' f = (q', r) \<and> agree S q q' \<and> closed_in S q \<and>
    (case r of Inl f \<Rightarrow> find_in S f | Inr x \<Rightarrow> x \<in> S)"
  using assms by (cases f) (auto simp: agree_at closed_at agree_update closed_update)

fun union_in :: "nat set \<Rightarrow> union_pc \<Rightarrow> bool" where
  "union_in S (Find_A f b) = (find_in S f \<and> b \<in> S)"
| "union_in S (Find_B a f) = (a \<in> S \<and> find_in S f)"
| "union_in S (Cas a b) = (a \<in> S \<and> b \<in> S)"

lemma uf_union_agree:
  assumes "agree S p p'" "closed_in S p" "union_in S c"
  shows "\<exists>q q' r. uf_union p c = (q, r) \<and> uf_union p' c = (q', r) \<and> agree S q q' \<and> closed_in S q \<and>
    (case r of Some c \<Rightarrow> union_in S c | None \<Rightarrow> True)"
proof (cases c)
  case (Find_A f b)
  then have "find_in S f" using assms(3) by simp
  from uf_find_agree [OF assms(1,2) this] obtain q q' r where "uf_find p f = (q, r)" "uf_find p' f = (q', r)" "agree S q q'" "closed_in S q"
    "case r of Inl f \<Rightarrow> find_in S f | Inr x \<Rightarrow> x \<in> S" by blast
  with Find_A assms(3) show ?thesis by (cases r) auto
next
  case (Find_B a f)
  then have "find_in S f" using assms(3) by simp
  from uf_find_agree [OF assms(1,2) this] obtain q q' r where "uf_find p f = (q, r)" "uf_find p' f = (q', r)" "agree S q q'" "closed_in S q"
    "case r of Inl f \<Rightarrow> find_in S f | Inr x \<Rightarrow> x \<in> S" by blast
  with Find_B assms(3) show ?thesis by (cases r) auto
next
  case (Cas a b)
  then show ?thesis using assms by (auto simp: agree_at agree_update closed_update)
qed

definition merge_in :: "nat set \<Rightarrow> merge_thread \<Rightarrow> bool" where
  "merge_in S th \<longleftrightarrow> (case fst th of Some c \<Rightarrow> union_in S c | None \<Rightarrow> True) \<and> (\<forall>(a, b) \<in> set (snd th). a \<in> S \<and> b \<in> S)"

lemma merge_access_agree:
  assumes "agree S p p'" "closed_in S p" "merge_in S th"
  shows "\<exists>q q' r. merge_access p th = (q, r) \<and> merge_access p' th = (q', r) \<and> agree S q q' \<and> closed_in S q \<and> merge_in S r"
proof (cases th)
  case (Pair c ps)
  show ?thesis
  proof (cases c)
    case None
    then show ?thesis using assms by (cases ps) (auto simp: Pair merge_in_def)
  next
    case (Some u)
    then show ?thesis using uf_union_agree [OF assms(1,2), of u] assms(3) by (auto simp: Pair merge_in_def)
  qed
qed

fun stats_in :: "nat set \<Rightarrow> stats_pc \<Rightarrow> bool" where
  "stats_in S (S_Find f) = find_in S f"
| "stats_in S (S_Flat r) = (r \<in> S)"
| "stats_in S (S_Area r) = (r \<in> S)"
| "stats_in S (S_Edge r) = (r \<in> S)"
| "stats_in S S_Done = True"

lemma stats_access_agree:
  assumes "agree S (fst mem) (fst mem')" "agree S (snd mem) (snd mem')" "closed_in S (fst mem)" "stats_in S th"
  shows "\<exists>q q' r. stats_access edge i mem th = (q, r) \<and> stats_access edge i mem' th = (q', r) \<and>
    agree S (fst q) (fst q') \<and> agree S (snd q) (snd q') \<and> closed_in S (fst q) \<and> stats_in S r"
proof (cases mem; cases mem')
  fix p st p' st'
  assume m: "mem = (p, st)" "mem' = (p', st')"
  show ?thesis
  proof (cases th)
    case (S_Find f)
    then have "find_in S f" using assms(4) by simp
    with assms(1,3) obtain q q' r where "uf_find p f = (q, r)" "uf_find p' f = (q', r)" "agree S q q'" "closed_in S q"
      "case r of Inl f \<Rightarrow> find_in S f | Inr x \<Rightarrow> x \<in> S" using uf_find_agree [of S p p' f] by (auto simp: m)
    with S_Find assms(2) show ?thesis by (cases r) (auto simp: m)
  qed (use assms in \<open>auto simp: m agree_at agree_update closed_update\<close>)
qed

section \<open>Schedules\<close>

text \<open>The two kernels are folds of a thread's access over the schedule, so one lemma serves both.\<close>

lemma schedule_agree:
  assumes step: "\<And>t m m' th. R m m' \<Longrightarrow> C th \<Longrightarrow> \<exists>q q' r. f t m th = (q, r) \<and> f t m' th = (q', r) \<and> R q q' \<and> C r"
    and "R m m'" "list_all C ths"
  shows "\<exists>q q' ths'. fold (\<lambda>t (m, ths). if t < length ths then (case f t m (ths ! t) of (m, th) \<Rightarrow> (m, ths[t := th])) else (m, ths)) sched (m, ths) =
      (q, ths') \<and>
    fold (\<lambda>t (m, ths). if t < length ths then (case f t m (ths ! t) of (m, th) \<Rightarrow> (m, ths[t := th])) else (m, ths)) sched (m', ths) =
      (q', ths') \<and> R q q'"
  using assms(2,3)
proof (induction sched arbitrary: m m' ths)
  case (Cons t sched)
  show ?case
  proof (cases "t < length ths")
    case True
    then have "C (ths ! t)" using Cons.prems(2) by (simp add: list_all_length)
    from step [OF Cons.prems(1) this] obtain q q' r where
      s: "f t m (ths ! t) = (q, r)" "f t m' (ths ! t) = (q', r)" "R q q'" "C r" by blast
    have "list_all C (ths[t := r])" using Cons.prems(2) s(4) by (auto simp: list_all_length nth_updated)
    from Cons.IH [OF s(3) this] True show ?thesis by (simp add: s(1,2))
  next
    case False
    with Cons.IH [OF Cons.prems] show ?thesis by simp
  qed
qed simp

lemma merge_pairs_fg:
  assumes "i < length m" "(a, b) \<in> set (merge_pairs W m i)"
  shows "a \<in> fg m \<and> b \<in> fg m"
  using assms by (auto simp: merge_pairs_def Let_def fg_def div_greater_zero_iff split: if_splits)

lemma launch_cc_agree:
  assumes "launch_cc W H perimeter merge_sched stats_sched m st = (p, s)"
    and "launch_cc W H perimeter merge_sched stats_sched m st' = (p', s')" and "x \<in> fg m"
  shows "p ! x = p' ! x \<and> p ! x \<in> fg m \<and> s ! x = s' ! x"
proof -
  let ?S = "fg m"
  obtain p0 s0 p0' s0' where i: "k_cc_init m st = (p0, s0)" "k_cc_init m st' = (p0', s0')" by fastforce
  have a0: "agree ?S p0 p0'" "agree ?S s0 s0'" "closed_in ?S p0"
    using i by (auto simp: k_cc_init_def agree_def closed_in_def fg_def)
  have "list_all (merge_in ?S) (merge_start W m)"
    using merge_pairs_fg by (fastforce simp: list_all_iff merge_start_def merge_in_def)
  with a0 obtain p1 p1' ths where merged: "k_cc_merge merge_sched (p0, merge_start W m) = (p1, ths)"
    "k_cc_merge merge_sched (p0', merge_start W m) = (p1', ths)" "agree ?S p1 p1'" "closed_in ?S p1"
    using schedule_agree [of "\<lambda>p p'. agree ?S p p' \<and> closed_in ?S p" "merge_in ?S" "\<lambda>t. merge_access" p0 p0' "merge_start W m" merge_sched]
      merge_access_agree [of ?S] unfolding k_cc_merge_def by blast
  define R :: "cc_memory \<Rightarrow> cc_memory \<Rightarrow> bool" where "R mem mem' \<longleftrightarrow> agree ?S (fst mem) (fst mem') \<and> agree ?S (snd mem) (snd mem') \<and> closed_in ?S (fst mem)" for mem mem'
  have "list_all (stats_in ?S) (stats_start m)" by (auto simp: list_all_iff stats_start_def fg_def)
  moreover have "R (p1, s0) (p1', s0')" using merged(3,4) a0(2) by (simp add: R_def)
  moreover have "\<exists>q q' r. stats_access e t mem th = (q, r) \<and> stats_access e t mem' th = (q', r) \<and> R q q' \<and> stats_in ?S r"
    if "R mem mem'" "stats_in ?S th" for e t mem mem' th
    using stats_access_agree that unfolding R_def by blast
  ultimately obtain q q' ths' where "k_cc_stats W H m perimeter stats_sched ((p1, s0), stats_start m) = (q, ths')"
    "k_cc_stats W H m perimeter stats_sched ((p1', s0'), stats_start m) = (q', ths')" "R q q'"
    using schedule_agree [of R "stats_in ?S" "\<lambda>t. stats_access (perimeter \<and> edge_pixel W H m t) t" "(p1, s0)" "(p1', s0')" "stats_start m" stats_sched]
    unfolding k_cc_stats_def by blast
  then show ?thesis
    using assms i merged(1,2) by (auto simp: launch_cc_def R_def agree_def closed_in_def)
qed

end
