(* ===== verification/Gpu_Pipeline.thy ===== *)
theory Gpu_Pipeline
  imports Gpu_Results Image_Kernel Stale_Memory
begin

text \<open>
  The class \<open>GpuPipeline\<close> of \<open>src/vision_cpp/src/gpu_pipeline.cpp\<close>: the launches of a frame over the device buffers, which are never
  cleared between frames, and the object's life: the source layout, the captured graph, launching and waiting. The network is
  the parameter \<open>engine\<close>; the interleavings of a frame's threads are its schedule. CUDA's own failures are not modelled, except that
  a capture may fail.
\<close>

section \<open>The launches of a frame\<close>

record engine =
  en_anchors :: nat
  en_classes :: nat
  en_lane_c :: nat
  en_lane_h :: nat
  en_lane_w :: nat
  en_run :: "dbl list \<Rightarrow> (det_tensors \<times> real list) option"

record gpu_schedule =
  gs_det :: "(nat \<times> nat) list"
  gs_merge :: "nat \<Rightarrow> nat list"
  gs_stats :: "nat \<Rightarrow> nat list"
  gs_thin :: "nat \<Rightarrow> grid"
  gs_skel_merge :: "nat \<Rightarrow> nat list"
  gs_skel_stats :: "nat \<Rightarrow> nat list"
  gs_compact :: "nat \<Rightarrow> nat list"

record device_buffers =
  db_src :: "8 word list"
  db_planes_a :: "int list"
  db_planes_b :: "int list"
  db_cc :: "cc_memory list"
  db_thin0 :: "int list"
  db_thin1 :: "int list"
  db_thin_counters :: "int list"
  db_skel :: "cc_memory list"
  db_results :: gpu_frame

datatype gpu_error = Enqueue_Failed | Bad_Read | Dangling_Source

definition plane_cells :: "nat \<Rightarrow> nat \<Rightarrow> int list \<Rightarrow> int list" where
  "plane_cells n z buf = take n (drop (z * n) buf)"

definition label_planes ::
  "nat \<Rightarrow> nat \<Rightarrow> nat \<Rightarrow> bool \<Rightarrow> (nat \<Rightarrow> nat list) \<Rightarrow> (nat \<Rightarrow> nat list) \<Rightarrow> int list \<Rightarrow> cc_memory list \<Rightarrow> cc_memory list" where
  \<comment> \<open>\<open>launch_cc\<close> on all planes, which share no cell\<close>
  "label_planes W H planes perimeter merge stats m mem =
    map (\<lambda>z. launch_cc W H perimeter (merge z) (stats z) (plane_cells (W * H) z m) (mem ! z)) [0..<planes]"

definition launch_cc_filter :: "nat \<Rightarrow> nat \<Rightarrow> nat \<Rightarrow> int \<Rightarrow> int \<Rightarrow> int list \<Rightarrow> cc_memory list \<Rightarrow> int list" where
  "launch_cc_filter W H planes min_area min_perimeter m mem =
    concat (map (\<lambda>z. k_cc_filter (plane_cells (W * H) z m) (mem ! z) (nat min_area) (nat min_perimeter)) [0..<planes])"

definition clean_masks ::
  "pipeline_config \<Rightarrow> gpu_schedule \<Rightarrow> int list \<Rightarrow> int list \<Rightarrow> cc_memory list \<Rightarrow> int list \<times> int list \<times> cc_memory list" where
  \<comment> \<open>opening, closing and the filter of the components, from planes a and b\<close>
  "clean_masks c sched a b mem =
    (let W = nat (pc_in_w c); H = nat (pc_in_h c);
         (a, b) = launch_clean_morph W H 3 (pc_open_k c) (pc_close_k c) (a, b);
         mem = label_planes W H 3 True (gs_merge sched) (gs_stats sched) a mem in
     (a, launch_cc_filter W H 3 (pc_min_area c) (pc_min_perimeter c) a mem, mem))"

definition thin_lanes ::
  "pipeline_config \<Rightarrow> thin_geom \<Rightarrow> gpu_schedule \<Rightarrow> int list \<Rightarrow> int list \<Rightarrow> int list \<Rightarrow> int list \<times> int list \<times> int list" where
  "thin_lanes c g sched masks buf1 counters =
    (let Wt = nat (tg_wt g); Ht = nat (tg_ht g);
         buf0 = launch_thin_init masks (nat (tg_w g)) (nat (tg_h g)) (nat (tg_step g)) (nat (tg_r0 g)) Wt Ht;
         (buf0, buf1, counters) = launch_thin_iterations Wt Ht (gs_thin sched) (pc_thin_max_iter c) (buf0, buf1, counters);
         (buf0, buf1) = launch_thin_corners Wt Ht (buf0, buf1) in
     (buf0, buf1, counters))"

definition enqueue_all ::
  "pipeline_config \<Rightarrow> thin_geom \<Rightarrow> engine \<Rightarrow> gpu_schedule \<Rightarrow> 8 word list \<Rightarrow> src_layout \<Rightarrow> device_buffers \<Rightarrow> gpu_error + device_buffers" where
  "enqueue_all c g en sched host l db =
    (let W = nat (pc_in_w c); H = nat (pc_in_h c); Wt = nat (tg_wt g); Ht = nat (tg_ht g); cols = Wt;
         counters = replicate (nat kThinMaxIter) 0;
         bytes = nat (sl_stride l * sl_h l); src = take bytes host @ drop bytes (db_src db) in
     case launch_preprocess src l W H (pc_mean c) (pc_stdv c) of
       None \<Rightarrow> Inl Bad_Read
     | Some input \<Rightarrow>
        (case en_run en input of
           None \<Rightarrow> Inl Enqueue_Failed
         | Some (det, lane) \<Rightarrow>
            (let (a, b, cc) = clean_masks c sched (k_seg_planes lane (en_lane_c en) (W * H)) (db_planes_b db) (db_cc db);
                 r = db_results db;
                 stop = launch_leading_edge (drop (2 * (W * H)) b) W H (nat (pc_step c)) cols @ drop cols (gf_stop_v r);
                 (buf0, buf1, counters) = thin_lanes c g sched b (db_thin1 db) counters;
                 skel = label_planes Wt Ht 2 False (gs_skel_merge sched) (gs_skel_stats sched) buf0 (db_skel db);
                 lane_of = (\<lambda>z cells. \<lparr>li_skel = plane_cells (Wt * Ht) z buf0, li_mem = skel ! z, li_order = gs_compact sched z,
                   li_cells = cells\<rparr>) in
             Inr \<lparr>db_src = src, db_planes_a = a, db_planes_b = b, db_cc = cc, db_thin0 = buf0, db_thin1 = buf1, db_thin_counters = counters,
               db_skel = skel,
               db_results = gpu_results det (en_classes en) (pc_score_thresh c) (gs_det sched) (gf_cands r) Wt (nat (tg_r0 g))
                 (nat (pc_skel_min_len c)) (lane_of 0 (gf_white r)) (lane_of 1 (gf_yellow r)) stop\<rparr>)))"

section \<open>The pipeline\<close>

text \<open>
  A graph holds the arguments of the launches as they were when it was captured: the layout and the source buffer. The buffer is
  known by the number of its allocation.
\<close>

record gpu_pipeline =
  gp_cfg :: pipeline_config
  gp_geom :: thin_geom
  gp_layout :: src_layout
  gp_staging :: "8 word list"
  gp_block :: nat
  gp_configured :: bool
  gp_graph :: "(src_layout \<times> nat) option"
  gp_mem :: device_buffers
  gp_pending :: "gpu_frame option"
  gp_results :: gpu_frame

definition new_pipeline :: "pipeline_config \<Rightarrow> int \<Rightarrow> int \<Rightarrow> int \<Rightarrow> device_buffers \<Rightarrow> gpu_frame \<Rightarrow> string + gpu_pipeline" where
  \<comment> \<open>the memory is what the allocations return\<close>
  "new_pipeline c lane_w lane_h lane_c mem host =
    (case pipeline_geometry c lane_w lane_h lane_c of
       Inl e \<Rightarrow> Inl e
     | Inr g \<Rightarrow> Inr \<lparr>gp_cfg = checked_config c, gp_geom = g,
         gp_layout = \<lparr>sl_w = 0, sl_h = 0, sl_stride = 0, sl_channels = 3, sl_bgr = True\<rparr>, gp_staging = [], gp_block = 0,
         gp_configured = False, gp_graph = None, gp_mem = mem\<lparr>db_src := []\<rparr>, gp_pending = None, gp_results = host\<rparr>)"

definition run_with :: "engine \<Rightarrow> gpu_schedule \<Rightarrow> src_layout \<Rightarrow> nat \<Rightarrow> gpu_pipeline \<Rightarrow> gpu_error option \<times> gpu_pipeline" where
  \<comment> \<open>the launches with the given layout and source buffer\<close>
  "run_with en sched l block p =
    (if block \<noteq> gp_block p then (Some Dangling_Source, p)
     else case enqueue_all (gp_cfg p) (gp_geom p) en sched (gp_staging p) l (gp_mem p) of
       Inl e \<Rightarrow> (Some e, p)
     | Inr mem \<Rightarrow> (None, p\<lparr>gp_mem := mem, gp_pending := Some (db_results mem)\<rparr>))"

definition arrived :: "gpu_pipeline \<Rightarrow> gpu_pipeline" where
  \<comment> \<open>the stream has run dry: the results of the last launch are in the host's memory\<close>
  "arrived p = (case gp_pending p of Some r \<Rightarrow> p\<lparr>gp_results := r, gp_pending := None\<rparr> | None \<Rightarrow> p)"

definition capture :: "engine \<Rightarrow> gpu_schedule \<Rightarrow> bool \<Rightarrow> gpu_pipeline \<Rightarrow> gpu_pipeline" where
  \<comment> \<open>an error of the recording or of the warm replay leaves the pipeline without a graph\<close>
  "capture en sched works p =
    (if \<not> works then p\<lparr>gp_graph := None\<rparr>
     else case run_with en sched (gp_layout p) (gp_block p) p of
       (Some e, p) \<Rightarrow> p\<lparr>gp_graph := None\<rparr>
     | (None, p) \<Rightarrow> (arrived p)\<lparr>gp_graph := Some (gp_layout p, gp_block p)\<rparr>)"

definition set_source ::
  "engine \<Rightarrow> gpu_schedule \<Rightarrow> gpu_schedule \<Rightarrow> bool \<Rightarrow> (nat \<Rightarrow> 8 word list) \<Rightarrow> src_layout \<Rightarrow> gpu_pipeline \<Rightarrow> gpu_error option \<times> gpu_pipeline" where
  \<comment> \<open>\<open>fresh n\<close> is the content of a new buffer of \<open>n\<close> bytes\<close>
  "set_source en warm replay works fresh l p =
    (if gp_configured p \<and> l = gp_layout p then (None, p)
     else
      (let p = p\<lparr>gp_graph := None, gp_layout := l\<rparr>; bytes = nat (sl_stride l * sl_h l);
           p = (if bytes > length (gp_staging p)
             then p\<lparr>gp_staging := fresh bytes, gp_block := gp_block p + 1, gp_mem := (gp_mem p)\<lparr>db_src := fresh bytes\<rparr>\<rparr> else p) in
       case run_with en warm l (gp_block p) p of
         (Some e, p) \<Rightarrow> (Some e, p)
       | (None, p) \<Rightarrow>
          (let p = (arrived p)\<lparr>gp_configured := True\<rparr> in (None, if pc_use_graph (gp_cfg p) then capture en replay works p else p))))"

definition fill_staging :: "8 word list \<Rightarrow> gpu_pipeline \<Rightarrow> gpu_pipeline" where
  \<comment> \<open>the node's \<open>memcpy\<close> of a frame into \<open>staging()\<close>\<close>
  "fill_staging data p = (let n = nat (sl_stride (gp_layout p) * sl_h (gp_layout p)) in
     p\<lparr>gp_staging := take n data @ drop n (gp_staging p)\<rparr>)"

definition launch :: "engine \<Rightarrow> gpu_schedule \<Rightarrow> gpu_pipeline \<Rightarrow> gpu_error option \<times> gpu_pipeline" where
  "launch en sched p =
    (case gp_graph p of
       Some (l, block) \<Rightarrow> run_with en sched l block p
     | None \<Rightarrow> run_with en sched (gp_layout p) (gp_block p) p)"

definition wait :: "gpu_pipeline \<Rightarrow> gpu_pipeline" where
  "wait p = arrived p"

text \<open>What the node does with one image.\<close>

record frame_run =
  fr_warm :: gpu_schedule
  fr_replay :: gpu_schedule
  fr_works :: bool
  fr_fresh :: "nat \<Rightarrow> 8 word list"
  fr_sched :: gpu_schedule

definition pipeline_frame :: "engine \<Rightarrow> frame_run \<Rightarrow> src_layout \<Rightarrow> 8 word list \<Rightarrow> gpu_pipeline \<Rightarrow> gpu_error option \<times> gpu_pipeline" where
  "pipeline_frame en f l data p =
    (case set_source en (fr_warm f) (fr_replay f) (fr_works f) (fr_fresh f) l p of
       (Some e, p) \<Rightarrow> (Some e, p)
     | (None, p) \<Rightarrow>
        (case launch en (fr_sched f) (fill_staging data p) of
           (Some e, p) \<Rightarrow> (Some e, p)
         | (None, p) \<Rightarrow> (None, wait p)))"


section \<open>The shape of the buffers\<close>

definition buffers_ok :: "thin_geom \<Rightarrow> nat \<Rightarrow> device_buffers \<Rightarrow> bool" where
  \<comment> \<open>the sizes the allocations gave; the contents may be anything\<close>
  "buffers_ok g n db \<longleftrightarrow> length (db_src db) = n \<and> length (db_thin1 db) = 2 * (nat (tg_wt g) * nat (tg_ht g)) \<and>
     length (gf_cands (db_results db)) = nat kMaxCand \<and> length (gf_white (db_results db)) = nat kMaxSkel \<and>
     length (gf_yellow (db_results db)) = nat kMaxSkel"

lemma length_reserve [simp]: "length (snd (reserve cap e st)) = length (snd st)"
  by (simp add: reserve_def split_beta)

lemma length_det_cells: "length (snd (fold (k_det t C thr) order st)) = length (snd st)"
  by (induction order arbitrary: st) (simp_all add: k_det_def)

lemma length_lane_cells: "length (snd (lane_results Wt r0 min_len l)) = length (li_cells l)"
proof -
  have "length (snd (fold (k_skel_compact (li_skel l) (li_mem l) Wt r0 min_len) order st)) = length (snd st)" for order st
    by (induction order arbitrary: st) (simp_all add: k_skel_compact_def)
  then show ?thesis by (simp add: lane_results_def)
qed

lemma length_gpu_cells:
  "length (gf_cands (gpu_results t C thr order cells Wt r0 min_len white yellow sv)) = length cells"
  "length (gf_white (gpu_results t C thr order cells Wt r0 min_len white yellow sv)) = length (li_cells white)"
  "length (gf_yellow (gpu_results t C thr order cells Wt r0 min_len white yellow sv)) = length (li_cells yellow)"
  using length_det_cells [of t C thr order "(0, cells)"] length_lane_cells [of Wt r0 min_len white] length_lane_cells [of Wt r0 min_len yellow]
  by (simp_all add: gpu_results_def split_beta Let_def)

lemma length_thin1: "thin_lanes c g sched masks buf1 counters = (b0, b1, cs) \<Longrightarrow> length b1 = 2 * (nat (tg_wt g) * nat (tg_ht g))"
  by (auto simp: thin_lanes_def Let_def launch_thin_corners_def corner_pairs_def length_corner_pass split: prod.splits)

definition frame_bytes :: "src_layout \<Rightarrow> nat" where
  "frame_bytes l = nat (sl_stride l * sl_h l)"

definition config_ok :: "pipeline_config \<Rightarrow> bool" where
  "config_ok c \<longleftrightarrow> 0 < pc_in_w c \<and> 0 < pc_in_h c \<and> length (pc_mean c) = 3 \<and> length (pc_stdv c) = 3 \<and>
     thin_rounds (pc_thin_max_iter c) \<le> nat kThinMaxIter"

text \<open>What the node knows of a frame's layout: it has pixels, and rows that hold them.\<close>

definition layout_ok :: "src_layout \<Rightarrow> bool" where
  "layout_ok l \<longleftrightarrow> 0 < sl_w l \<and> 0 < sl_h l \<and> 3 \<le> sl_channels l \<and> sl_w l * sl_channels l \<le> sl_stride l"

lemma stride_positive: "layout_ok l \<Longrightarrow> 0 < sl_stride l"
proof -
  assume "layout_ok l"
  then have "0 < sl_w l * sl_channels l" "sl_w l * sl_channels l \<le> sl_stride l" by (simp_all add: layout_ok_def)
  then show ?thesis by linarith
qed

lemma fits_layout: "frame_fits src l \<longleftrightarrow> layout_ok l \<and> frame_bytes l \<le> length src"
  using stride_positive [of l] by (auto simp: frame_fits_def layout_ok_def frame_bytes_def nat_le_iff)

definition device_frame :: "8 word list \<Rightarrow> src_layout \<Rightarrow> device_buffers \<Rightarrow> 8 word list" where
  "device_frame host l db = take (frame_bytes l) host @ drop (frame_bytes l) (db_src db)"

lemma network_input:
  assumes "config_ok c" "layout_ok l" "frame_bytes l \<le> length host" "frame_bytes l \<le> length host'"
    and "take (frame_bytes l) host = take (frame_bytes l) host'"
  shows "\<exists>input. launch_preprocess (device_frame host l db) l (nat (pc_in_w c)) (nat (pc_in_h c)) (pc_mean c) (pc_stdv c) = Some input \<and>
    launch_preprocess (device_frame host' l db') l (nat (pc_in_w c)) (nat (pc_in_h c)) (pc_mean c) (pc_stdv c) = Some input"
proof -
  let ?W = "nat (pc_in_w c)" and ?H = "nat (pc_in_h c)"
  have "frame_fits (device_frame host l db) l" "frame_fits (device_frame host' l db') l"
    using assms(2-4) by (simp_all add: fits_layout device_frame_def)
  moreover have "0 < ?W" "0 < ?H" "length (pc_mean c) = 3" "length (pc_stdv c) = 3" using assms(1) by (simp_all add: config_ok_def)
  moreover have "device_frame host l db ! i = device_frame host' l db' ! i" if "i < nat (sl_stride l * sl_h l)" for i
    using that assms(3-5) by (simp add: device_frame_def nth_append frame_bytes_def)
  then have "interpolated (device_frame host l db) l ?W ?H x y (if sl_bgr l then 2 - int k else int k) =
    interpolated (device_frame host' l db') l ?W ?H x y (if sl_bgr l then 2 - int k else int k)" if "k < 3" for k x y
    using that assms(2) by (intro interpolated_cong) (simp_all add: layout_ok_def)
  then have "input_value (device_frame host l db) l ?W ?H (pc_mean c) (pc_stdv c) k x y =
    input_value (device_frame host' l db') l ?W ?H (pc_mean c) (pc_stdv c) k x y" if "k < 3" for k x y
    using that by (simp add: input_value_def)
  then have "map (\<lambda>j. input_value (device_frame host l db) l ?W ?H (pc_mean c) (pc_stdv c) (j div (?W * ?H)) (j mod (?W * ?H) mod ?W)
      (j mod (?W * ?H) div ?W)) [0..<3 * (?W * ?H)] =
    map (\<lambda>j. input_value (device_frame host' l db') l ?W ?H (pc_mean c) (pc_stdv c) (j div (?W * ?H)) (j mod (?W * ?H) mod ?W)
      (j mod (?W * ?H) div ?W)) [0..<3 * (?W * ?H)]"
    by (intro map_cong refl) (simp add: less_mult_imp_div_less)
  ultimately show ?thesis by (simp only: launch_preprocess_values) blast
qed

lemma enqueue_all_works:
  assumes "config_ok c" "layout_ok l" "frame_bytes l \<le> length host" "\<And>x. en_run en x \<noteq> None"
    and "buffers_ok g n db" "frame_bytes l \<le> n"
  shows "\<exists>mem. enqueue_all c g en sched host l db = Inr mem \<and> buffers_ok g n mem"
proof -
  obtain input where i: "launch_preprocess (device_frame host l db) l (nat (pc_in_w c)) (nat (pc_in_h c)) (pc_mean c) (pc_stdv c) = Some input"
    using network_input [OF assms(1-3) assms(3) refl] by blast
  obtain det lane where e: "en_run en input = Some (det, lane)" using assms(4) [of input] by fastforce
  have len: "length (device_frame host l db) = n"
    using assms(3,5,6) by (simp add: device_frame_def buffers_ok_def)
  show ?thesis
    unfolding enqueue_all_def Let_def i [unfolded device_frame_def frame_bytes_def] option.case e prod.case
    using assms(5) len length_thin1
    by (auto simp: buffers_ok_def length_gpu_cells device_frame_def frame_bytes_def split: prod.splits)
qed

section \<open>What earlier frames left does not matter\<close>

definition complete_schedule :: "engine \<Rightarrow> thin_geom \<Rightarrow> nat \<Rightarrow> gpu_schedule \<Rightarrow> bool" where
  \<comment> \<open>every thread reserves once, and every launch of the thinning runs all its blocks\<close>
  "complete_schedule en g rounds s \<longleftrightarrow>
     mset (gs_det s) = mset (List.product [0..<en_anchors en] [0..<en_classes en]) \<and>
     (\<forall>z < 2. mset (gs_compact s z) = mset [0..<nat (tg_wt g) * nat (tg_ht g)]) \<and>
     (\<forall>it < rounds. set (gs_thin s it) = set (blocks_of (nat (tg_wt g)) (nat (tg_ht g)) TW TH))"

definition same_labels :: "gpu_schedule \<Rightarrow> gpu_schedule \<Rightarrow> bool" where
  "same_labels s s' \<longleftrightarrow> gs_merge s = gs_merge s' \<and> gs_stats s = gs_stats s' \<and> gs_skel_merge s = gs_skel_merge s' \<and>
     gs_skel_stats s = gs_skel_stats s'"

lemma filter_agrees:
  assumes "launch_cc W H e ms ss m st = mem" "launch_cc W H e ms ss m st' = mem'"
  shows "k_cc_filter m mem a p = k_cc_filter m mem' a p"
proof -
  have e: "fst mem ! x = fst mem' ! x \<and> snd mem ! (fst mem ! x) = snd mem' ! (fst mem ! x)" if "x \<in> fg m" for x
  proof -
    have l: "launch_cc W H e ms ss m st = (fst mem, snd mem)" "launch_cc W H e ms ss m st' = (fst mem', snd mem')" using assms by simp_all
    note q = launch_cc_agree [OF l that]
    with launch_cc_agree [OF l, of "fst mem ! x"] show ?thesis by blast
  qed
  have "(if m ! i \<noteq> 0 then (let q = snd mem ! (fst mem ! i) in if fst q \<ge> a \<and> snd q \<ge> p then 1 else 0) else 0 :: int) =
      (if m ! i \<noteq> 0 then (let q = snd mem' ! (fst mem' ! i) in if fst q \<ge> a \<and> snd q \<ge> p then 1 else 0) else 0)" if "i < length m" for i
    using that e [of i] by (cases "m ! i = 0") (auto simp: fg_def)
  then show ?thesis unfolding k_cc_filter_def by (intro map_cong refl) simp
qed

lemma clean_morph_scratch: "fst (launch_clean_morph W H n ok ck (a, b)) = fst (launch_clean_morph W H n ok ck (a, b'))"
  by (simp add: launch_clean_morph_def morph_pass_def Let_def)

lemma clean_masks_same:
  assumes "clean_masks c s a0 b0 mem0 = (a, b, mem)" "clean_masks c s' a0 b0' mem0' = (a', b', mem')" "same_labels s s'"
  shows "b = b'"
proof -
  let ?W = "nat (pc_in_w c)" and ?H = "nat (pc_in_h c)"
  let ?a = "fst (launch_clean_morph ?W ?H 3 (pc_open_k c) (pc_close_k c) (a0, b0))"
  have a': "fst (launch_clean_morph ?W ?H 3 (pc_open_k c) (pc_close_k c) (a0, b0')) = ?a" by (rule clean_morph_scratch)
  have lab: "gs_merge s' = gs_merge s" "gs_stats s' = gs_stats s" using assms(3) by (simp_all add: same_labels_def)
  have "k_cc_filter (plane_cells (?W * ?H) z ?a) (label_planes ?W ?H 3 True (gs_merge s) (gs_stats s) ?a mem0 ! z) u v =
    k_cc_filter (plane_cells (?W * ?H) z ?a) (label_planes ?W ?H 3 True (gs_merge s) (gs_stats s) ?a mem0' ! z) u v" if "z < 3" for z u v
    using that by (intro filter_agrees) (simp_all add: label_planes_def)
  then have "launch_cc_filter ?W ?H 3 (pc_min_area c) (pc_min_perimeter c) ?a (label_planes ?W ?H 3 True (gs_merge s) (gs_stats s) ?a mem0) =
    launch_cc_filter ?W ?H 3 (pc_min_area c) (pc_min_perimeter c) ?a (label_planes ?W ?H 3 True (gs_merge s) (gs_stats s) ?a mem0')"
    unfolding launch_cc_filter_def by (intro arg_cong [where f = concat] map_cong refl) simp
  moreover have "b = launch_cc_filter ?W ?H 3 (pc_min_area c) (pc_min_perimeter c) ?a
      (label_planes ?W ?H 3 True (gs_merge s) (gs_stats s) ?a mem0)"
    using arg_cong [OF assms(1), of "fst \<circ> snd"] by (simp add: clean_masks_def Let_def split_beta)
  moreover have "b' = launch_cc_filter ?W ?H 3 (pc_min_area c) (pc_min_perimeter c) ?a
      (label_planes ?W ?H 3 True (gs_merge s) (gs_stats s) ?a mem0')"
    using arg_cong [OF assms(2), of "fst \<circ> snd"] by (simp add: clean_masks_def Let_def split_beta a' lab)
  ultimately show ?thesis by (simp only:)
qed

lemma thin_lanes_result:
  assumes "length buf1 = 2 * (nat (tg_wt g) * nat (tg_ht g))" "thin_rounds (pc_thin_max_iter c) \<le> n"
    and "\<And>it. it < thin_rounds (pc_thin_max_iter c) \<Longrightarrow> set (gs_thin s it) = set (blocks_of (nat (tg_wt g)) (nat (tg_ht g)) TW TH)"
  shows "\<exists>b1 cs. thin_lanes c g s masks buf1 (replicate n 0) =
    (fold (corner_pass (nat (tg_wt g)) (nat (tg_ht g))) (corner_pairs @ corner_pairs)
       ((zs_buffer (nat (tg_wt g)) (nat (tg_ht g)) ^^ thin_rounds (pc_thin_max_iter c))
         (launch_thin_init masks (nat (tg_w g)) (nat (tg_h g)) (nat (tg_step g)) (nat (tg_r0 g)) (nat (tg_wt g)) (nat (tg_ht g)))), b1, cs)"
proof -
  let ?W = "nat (tg_wt g)" and ?H = "nat (tg_ht g)"
  let ?b = "launch_thin_init masks (nat (tg_w g)) (nat (tg_h g)) (nat (tg_step g)) (nat (tg_r0 g)) ?W ?H"
  have l: "length ?b = 2 * (?W * ?H)" by (simp add: launch_thin_init_def)
  have z: "set (replicate n (0 :: int)) \<subseteq> {0}" by auto
  from launch_thin_iterations_result [where m = "pc_thin_max_iter c" and sched = "gs_thin s" and counters = "replicate n 0", OF l assms(1) _ z assms(3)]
    assms(2) obtain b1 cs where
    t: "launch_thin_iterations ?W ?H (gs_thin s) (pc_thin_max_iter c) (?b, buf1, replicate n 0) =
      ((zs_buffer ?W ?H ^^ thin_rounds (pc_thin_max_iter c)) ?b, b1, cs)" by auto
  show ?thesis
    unfolding thin_lanes_def Let_def t
    using launch_thin_corners_result [of ?W ?H "(zs_buffer ?W ?H ^^ thin_rounds (pc_thin_max_iter c)) ?b" b1] by (auto split: prod.splits)
qed

lemma thinned_length: "length (fold (corner_pass W H) (corner_pairs @ corner_pairs) buf) = 2 * (W * H)"
  by (simp add: corner_pairs_def)

lemma lane_count: "fst (lane_results Wt r0 min_len l) = length (filter (skel_kept l min_len) (li_order l))"
proof -
  have "fst (fold (k_skel_compact (li_skel l) (li_mem l) Wt r0 min_len) xs (k, cs)) = k + length (filter (skel_kept l min_len) xs)" for xs k cs
    by (induction xs arbitrary: k cs) (auto simp: k_skel_compact_def skel_kept_def reserve_def)
  then show ?thesis by (simp add: lane_results_def)
qed

lemma det_count: "fst (fold (k_det t C thr) xs (k, cs)) = k + length (filter (det_kept t C thr) xs)"
  by (induction xs arbitrary: k cs) (auto simp: k_det_def det_kept_def reserve_def)

lemma same_lane_labels:
  assumes buf: "length buf = 2 * n" and z: "z < 2" and n: "n = Wt * Ht"
    and ord: "mset (gs_compact s z) = mset [0..<n]" "mset (gs_compact s' z) = mset [0..<n]"
    and cells: "length cells = nat kMaxSkel" "length cells' = nat kMaxSkel"
    and lab: "same_labels s s'"
    and cap: "fst (lane_results Wt r0 min_len \<lparr>li_skel = plane_cells n z buf,
      li_mem = label_planes Wt Ht 2 False (gs_skel_merge s) (gs_skel_stats s) buf mem ! z, li_order = gs_compact s z, li_cells = cells\<rparr>)
        \<le> nat kMaxSkel"
  shows "same_lane \<lparr>li_skel = plane_cells n z buf, li_mem = label_planes Wt Ht 2 False (gs_skel_merge s) (gs_skel_stats s) buf mem ! z,
      li_order = gs_compact s z, li_cells = cells\<rparr>
    \<lparr>li_skel = plane_cells n z buf, li_mem = label_planes Wt Ht 2 False (gs_skel_merge s') (gs_skel_stats s') buf mem' ! z,
      li_order = gs_compact s' z, li_cells = cells'\<rparr> min_len"
proof -
  let ?m = "plane_cells n z buf"
  let ?l = "launch_cc Wt Ht False (gs_skel_merge s z) (gs_skel_stats s z) ?m (mem ! z)"
  let ?l' = "launch_cc Wt Ht False (gs_skel_merge s z) (gs_skel_stats s z) ?m (mem' ! z)"
  have sk: "gs_skel_merge s' = gs_skel_merge s" "gs_skel_stats s' = gs_skel_stats s" using lab by (simp_all add: same_labels_def)
  have mem: "label_planes Wt Ht 2 False (gs_skel_merge s) (gs_skel_stats s) buf mem ! z = ?l"
    "label_planes Wt Ht 2 False (gs_skel_merge s) (gs_skel_stats s) buf mem' ! z = ?l'"
    using z by (simp_all add: label_planes_def n)
  have "z * n \<le> 1 * n" using z by (intro mult_le_mono1) simp
  then have "n \<le> 2 * n - z * n" by linarith
  then have "length ?m = n" using buf by (simp only: plane_cells_def length_take length_drop min.absorb2)
  have "fst ?l ! i = fst ?l' ! i \<and> snd ?l ! (fst ?l ! i) = snd ?l' ! (fst ?l ! i)" if "i \<in> set (gs_compact s z)" "?m ! i \<noteq> 0" for i
  proof -
    have "i < n" using that(1) mset_eq_setD [OF ord(1)] by simp
    then have i: "i \<in> fg ?m" using that(2) \<open>length ?m = n\<close> by (simp add: fg_def)
    have l: "?l = (fst ?l, snd ?l)" "?l' = (fst ?l', snd ?l')" by simp_all
    note q = launch_cc_agree [OF l i]
    with launch_cc_agree [OF l, of "fst ?l ! i"] show ?thesis by blast
  qed
  then have "list_all (\<lambda>i. ?m ! i \<noteq> 0 \<longrightarrow> fst ?l ! i = fst ?l' ! i \<and> snd ?l ! (fst ?l ! i) = snd ?l' ! (fst ?l ! i)) (gs_compact s z)"
    unfolding list_all_iff by blast
  then show ?thesis using cells cap ord unfolding same_lane_def sk mem lane_count by simp
qed

lemma stop_pixels_prefix: "length xs = n \<Longrightarrow> stop_pixels (int n) (xs @ ys) = stop_pixels (int n) (xs @ ys')"
  unfolding stop_pixels_def by (intro map_cong filter_cong) (auto simp: nth_append)

lemma det_order_threads:
  assumes "mset order = mset (List.product [0..<n] [0..<C])" "length cells = nat kMaxCand"
    and "fst (fold (k_det t C thr) order (0, cells)) \<le> nat kMaxCand"
  shows "det_threads t C thr order cells"
proof -
  have "distinct order" using mset_eq_imp_distinct_iff [OF assms(1)] by (simp add: distinct_product)
  moreover have "set order = {0..<n} \<times> {0..<C}" using mset_eq_setD [OF assms(1)] by simp
  ultimately show ?thesis using assms(2,3) by (auto simp: det_threads_def list_all_iff det_count)
qed

lemma det_count_same: "mset order = mset order' \<Longrightarrow> fst (fold (k_det t C thr) order (0, cs)) = fst (fold (k_det t C thr) order' (0, cs'))"
  unfolding det_count by (metis mset_eq_length mset_filter)

definition in_caps :: "gpu_frame \<Rightarrow> bool" where
  "in_caps r \<longleftrightarrow> gf_cand_count r \<le> kMaxCand \<and> gf_count_white r \<le> kMaxSkel \<and> gf_count_yellow r \<le> kMaxSkel"

lemma gpu_counts:
  "gf_cand_count (gpu_results t C thr order cells Wt r0 min_len white yellow sv) = int (fst (fold (k_det t C thr) order (0, cells)))"
  "gf_count_white (gpu_results t C thr order cells Wt r0 min_len white yellow sv) = int (fst (lane_results Wt r0 min_len white))"
  "gf_count_yellow (gpu_results t C thr order cells Wt r0 min_len white yellow sv) = int (fst (lane_results Wt r0 min_len yellow))"
  by (simp_all add: gpu_results_def split_beta Let_def)

lemma enqueue_all_same:
  assumes c: "config_ok c" and l: "layout_ok l"
    and host: "frame_bytes l \<le> length host" "frame_bytes l \<le> length host'" "take (frame_bytes l) host = take (frame_bytes l) host'"
    and shape: "buffers_ok g n db" "buffers_ok g n' db'"
    and sched: "complete_schedule en g (thin_rounds (pc_thin_max_iter c)) s" "complete_schedule en g (thin_rounds (pc_thin_max_iter c)) s'"
      "same_labels s s'"
    and runs: "enqueue_all c g en s host l db = Inr mem" "enqueue_all c g en s' host' l db' = Inr mem'"
    and cap: "in_caps (db_results mem)" and wt: "0 \<le> tg_wt g"
  shows "frame_msgs v g (\<lambda>_. db_results mem) m pitch img = frame_msgs v g (\<lambda>_. db_results mem') m pitch img"
proof -
  let ?W = "nat (pc_in_w c)" and ?H = "nat (pc_in_h c)" and ?Wt = "nat (tg_wt g)" and ?Ht = "nat (tg_ht g)"
  obtain input where i: "launch_preprocess (device_frame host l db) l ?W ?H (pc_mean c) (pc_stdv c) = Some input"
    "launch_preprocess (device_frame host' l db') l ?W ?H (pc_mean c) (pc_stdv c) = Some input"
    using network_input [OF c l host] by blast
  obtain det lane where e: "en_run en input = Some (det, lane)"
    using runs(1) unfolding enqueue_all_def Let_def i(1) [unfolded device_frame_def frame_bytes_def] by (auto split: option.splits)
  obtain a b cc where cm: "clean_masks c s (k_seg_planes lane (en_lane_c en) (?W * ?H)) (db_planes_b db) (db_cc db) = (a, b, cc)"
    by (metis prod_cases3)
  obtain a' cc' where cm': "clean_masks c s' (k_seg_planes lane (en_lane_c en) (?W * ?H)) (db_planes_b db') (db_cc db') = (a', b, cc')"
    using clean_masks_same [OF cm _ sched(3)] by (metis prod_cases3)
  define buf where "buf = fold (corner_pass ?Wt ?Ht) (corner_pairs @ corner_pairs) ((zs_buffer ?Wt ?Ht ^^ thin_rounds (pc_thin_max_iter c))
    (launch_thin_init b (nat (tg_w g)) (nat (tg_h g)) (nat (tg_step g)) (nat (tg_r0 g)) ?Wt ?Ht))"
  have rounds: "thin_rounds (pc_thin_max_iter c) \<le> nat kThinMaxIter" using c by (simp add: config_ok_def)
  obtain b1 cs where t: "thin_lanes c g s b (db_thin1 db) (replicate (nat kThinMaxIter) 0) = (buf, b1, cs)"
    using thin_lanes_result [OF _ rounds, of "db_thin1 db" g s b] shape(1) sched(1) unfolding buf_def buffers_ok_def complete_schedule_def by blast
  obtain b1' cs' where t': "thin_lanes c g s' b (db_thin1 db') (replicate (nat kThinMaxIter) 0) = (buf, b1', cs')"
    using thin_lanes_result [OF _ rounds, of "db_thin1 db'" g s' b] shape(2) sched(2) unfolding buf_def buffers_ok_def complete_schedule_def by blast
  let ?stop = "launch_leading_edge (drop (2 * (?W * ?H)) b) ?W ?H (nat (pc_step c)) ?Wt"
  define lane_of where "lane_of q d z cells = \<lparr>li_skel = plane_cells (?Wt * ?Ht) z buf,
    li_mem = label_planes ?Wt ?Ht 2 False (gs_skel_merge q) (gs_skel_stats q) buf (db_skel d) ! z, li_order = gs_compact q z, li_cells = cells\<rparr>"
    for q :: gpu_schedule and d :: device_buffers and z cells
  let ?res = "\<lambda>q d. gpu_results det (en_classes en) (pc_score_thresh c) (gs_det q) (gf_cands (db_results d)) ?Wt (nat (tg_r0 g))
    (nat (pc_skel_min_len c)) (lane_of q d 0 (gf_white (db_results d))) (lane_of q d 1 (gf_yellow (db_results d)))
    (?stop @ drop ?Wt (gf_stop_v (db_results d)))"
  have r: "db_results mem = ?res s db"
    using runs(1) unfolding enqueue_all_def Let_def i(1) [unfolded device_frame_def frame_bytes_def] option.case e prod.case cm t lane_of_def
    by auto
  have r': "db_results mem' = ?res s' db'"
    using runs(2) unfolding enqueue_all_def Let_def i(2) [unfolded device_frame_def frame_bytes_def] option.case e prod.case cm' t' lane_of_def
    by auto
  have caps: "fst (fold (k_det det (en_classes en) (pc_score_thresh c)) (gs_det s) (0, gf_cands (db_results db))) \<le> nat kMaxCand"
    "fst (lane_results ?Wt (nat (tg_r0 g)) (nat (pc_skel_min_len c)) (lane_of s db 0 (gf_white (db_results db)))) \<le> nat kMaxSkel"
    "fst (lane_results ?Wt (nat (tg_r0 g)) (nat (pc_skel_min_len c)) (lane_of s db 1 (gf_yellow (db_results db)))) \<le> nat kMaxSkel"
    using cap unfolding r in_caps_def gpu_counts by (simp_all add: kMaxCand_def kMaxSkel_def)
  have order: "mset (gs_det s) = mset (gs_det s')" using sched(1,2) by (simp add: complete_schedule_def)
  have d: "det_threads det (en_classes en) (pc_score_thresh c) (gs_det s) (gf_cands (db_results db))"
    using det_order_threads [OF _ _ caps(1)] sched(1) shape(1) by (simp add: complete_schedule_def buffers_ok_def)
  have cap': "fst (fold (k_det det (en_classes en) (pc_score_thresh c)) (gs_det s') (0, gf_cands (db_results db'))) \<le> nat kMaxCand"
    using caps(1) det_count_same [OF order, of det "en_classes en" "pc_score_thresh c" "gf_cands (db_results db)" "gf_cands (db_results db')"]
    by linarith
  have d': "det_threads det (en_classes en) (pc_score_thresh c) (gs_det s') (gf_cands (db_results db'))"
    using det_order_threads [OF _ _ cap'] sched(2) shape(2) by (simp add: complete_schedule_def buffers_ok_def)
  have len: "length buf = 2 * (?Wt * ?Ht)" unfolding buf_def by (rule thinned_length)
  have ord: "mset (gs_compact s z) = mset [0..<?Wt * ?Ht]" "mset (gs_compact s' z) = mset [0..<?Wt * ?Ht]" if "z < 2" for z
    using sched(1,2) that by (simp_all add: complete_schedule_def)
  have cells: "length (gf_white (db_results db)) = nat kMaxSkel" "length (gf_white (db_results db')) = nat kMaxSkel"
    "length (gf_yellow (db_results db)) = nat kMaxSkel" "length (gf_yellow (db_results db')) = nat kMaxSkel"
    using shape by (simp_all add: buffers_ok_def)
  have z: "(0 :: nat) < 2" "(1 :: nat) < 2" by simp_all
  have lanes: "same_lane (lane_of s db 0 (gf_white (db_results db))) (lane_of s' db' 0 (gf_white (db_results db'))) (nat (pc_skel_min_len c))"
    "same_lane (lane_of s db 1 (gf_yellow (db_results db))) (lane_of s' db' 1 (gf_yellow (db_results db'))) (nat (pc_skel_min_len c))"
    unfolding lane_of_def
    by (rule same_lane_labels [OF len z(1) refl ord [OF z(1)] cells(1,2) sched(3) caps(2) [unfolded lane_of_def]],
        rule same_lane_labels [OF len z(2) refl ord [OF z(2)] cells(3,4) sched(3) caps(3) [unfolded lane_of_def]])
  have "length ?stop = ?Wt" by (simp add: launch_leading_edge_def)
  from stop_pixels_prefix [OF this] wt have "stop_pixels (tg_wt g) (?stop @ drop ?Wt (gf_stop_v (db_results db))) =
    stop_pixels (tg_wt g) (?stop @ drop ?Wt (gf_stop_v (db_results db')))" by simp
  from same_frame_msgs [OF d d' order lanes this] show ?thesis unfolding r r' .
qed

section \<open>The life of the pipeline\<close>

text \<open>The frames a node hands over one after the other, up to the first error.\<close>

primrec pipeline_run :: "engine \<Rightarrow> (frame_run \<times> src_layout \<times> 8 word list) list \<Rightarrow> gpu_pipeline \<Rightarrow> gpu_error option \<times> gpu_pipeline" where
  "pipeline_run en [] p = (None, p)"
| "pipeline_run en (e # es) p =
    (case e of (f, l, data) \<Rightarrow> (case pipeline_frame en f l data p of (Some e, p) \<Rightarrow> (Some e, p) | (None, p) \<Rightarrow> pipeline_run en es p))"

text \<open>An image the node hands over, and allocations that have the size they are asked for.\<close>

definition image_ok :: "frame_run \<times> src_layout \<times> 8 word list \<Rightarrow> bool" where
  "image_ok e \<longleftrightarrow> (case e of (f, l, data) \<Rightarrow> frame_fits data l \<and> (\<forall>n. length (fr_fresh f n) = n))"

definition pipeline_ok :: "gpu_pipeline \<Rightarrow> bool" where
  "pipeline_ok p \<longleftrightarrow> config_ok (gp_cfg p) \<and> 0 \<le> tg_wt (gp_geom p) \<and>
     buffers_ok (gp_geom p) (length (gp_staging p)) (gp_mem p) \<and>
     (gp_configured p \<longrightarrow> layout_ok (gp_layout p) \<and> frame_bytes (gp_layout p) \<le> length (gp_staging p)) \<and>
     (gp_graph p = None \<or> gp_graph p = Some (gp_layout p, gp_block p) \<and> gp_configured p)"

lemma arrived_fields [simp]:
  "gp_cfg (arrived p) = gp_cfg p" "gp_geom (arrived p) = gp_geom p" "gp_layout (arrived p) = gp_layout p"
  "gp_staging (arrived p) = gp_staging p" "gp_block (arrived p) = gp_block p" "gp_configured (arrived p) = gp_configured p"
  "gp_graph (arrived p) = gp_graph p" "gp_mem (arrived p) = gp_mem p"
  by (simp_all add: arrived_def split: option.split)

lemma run_with_works:
  assumes "config_ok (gp_cfg p)" "layout_ok l" "frame_bytes l \<le> length (gp_staging p)" "\<And>x. en_run en x \<noteq> None"
    and "buffers_ok (gp_geom p) (length (gp_staging p)) (gp_mem p)"
  shows "\<exists>mem. run_with en s l (gp_block p) p = (None, p\<lparr>gp_mem := mem, gp_pending := Some (db_results mem)\<rparr>) \<and>
    enqueue_all (gp_cfg p) (gp_geom p) en s (gp_staging p) l (gp_mem p) = Inr mem \<and> buffers_ok (gp_geom p) (length (gp_staging p)) mem"
proof -
  obtain mem where "enqueue_all (gp_cfg p) (gp_geom p) en s (gp_staging p) l (gp_mem p) = Inr mem"
    "buffers_ok (gp_geom p) (length (gp_staging p)) mem"
    using enqueue_all_works [OF assms(1-5,3)] by blast
  then show ?thesis by (simp add: run_with_def)
qed

lemma capture_works:
  assumes "pipeline_ok p" "gp_configured p" "\<And>x. en_run en x \<noteq> None"
  shows "pipeline_ok (capture en s works p) \<and> gp_layout (capture en s works p) = gp_layout p \<and> gp_configured (capture en s works p) \<and>
    gp_cfg (capture en s works p) = gp_cfg p \<and> gp_geom (capture en s works p) = gp_geom p"
proof (cases works)
  case True
  obtain mem where r: "run_with en s (gp_layout p) (gp_block p) p = (None, p\<lparr>gp_mem := mem, gp_pending := Some (db_results mem)\<rparr>)"
    "buffers_ok (gp_geom p) (length (gp_staging p)) mem"
    using run_with_works [of p "gp_layout p" en s] assms by (auto simp: pipeline_ok_def)
  with True assms(1,2) show ?thesis by (simp add: capture_def pipeline_ok_def)
next
  case False
  with assms(1,2) show ?thesis by (simp add: capture_def pipeline_ok_def)
qed

lemma set_source_works:
  assumes ok: "pipeline_ok p" and l: "layout_ok l" and en: "\<And>x. en_run en x \<noteq> None" and fresh: "\<And>n. length (fresh n) = n"
  shows "\<exists>q. set_source en warm replay works fresh l p = (None, q) \<and> pipeline_ok q \<and> gp_layout q = l \<and> gp_configured q \<and>
    gp_cfg q = gp_cfg p \<and> gp_geom q = gp_geom p"
proof (cases "gp_configured p \<and> l = gp_layout p")
  case True
  with ok show ?thesis by (simp add: set_source_def)
next
  case False
  define p1 where "p1 = (let p = p\<lparr>gp_graph := None, gp_layout := l\<rparr>; bytes = nat (sl_stride l * sl_h l) in
    if bytes > length (gp_staging p)
    then p\<lparr>gp_staging := fresh bytes, gp_block := gp_block p + 1, gp_mem := (gp_mem p)\<lparr>db_src := fresh bytes\<rparr>\<rparr> else p)"
  have p1: "config_ok (gp_cfg p1)" "0 \<le> tg_wt (gp_geom p1)" "buffers_ok (gp_geom p1) (length (gp_staging p1)) (gp_mem p1)"
    "frame_bytes l \<le> length (gp_staging p1)" "gp_graph p1 = None" "gp_layout p1 = l" "gp_cfg p1 = gp_cfg p" "gp_geom p1 = gp_geom p"
    using ok fresh by (auto simp: p1_def Let_def pipeline_ok_def buffers_ok_def frame_bytes_def)
  obtain mem where r: "run_with en warm l (gp_block p1) p1 = (None, p1\<lparr>gp_mem := mem, gp_pending := Some (db_results mem)\<rparr>)"
    "buffers_ok (gp_geom p1) (length (gp_staging p1)) mem"
    using run_with_works [OF p1(1) l p1(4) en p1(3)] by blast
  define p2 where "p2 = (arrived (p1\<lparr>gp_mem := mem, gp_pending := Some (db_results mem)\<rparr>))\<lparr>gp_configured := True\<rparr>"
  have p2: "pipeline_ok p2" "gp_configured p2" "gp_layout p2 = l" "gp_cfg p2 = gp_cfg p" "gp_geom p2 = gp_geom p"
    using p1 r(2) l by (simp_all add: p2_def pipeline_ok_def)
  have "set_source en warm replay works fresh l p = (None, if pc_use_graph (gp_cfg p2) then capture en replay works p2 else p2)"
    using r(1) unfolding set_source_def if_not_P [OF False] Let_def p1_def p2_def by simp
  then show ?thesis using p2 capture_works [OF p2(1,2) en, of replay works] by simp
qed

lemma pipeline_frame_works:
  assumes ok: "pipeline_ok p" and img: "image_ok (f, l, data)" and en: "\<And>x. en_run en x \<noteq> None"
  shows "\<exists>q mem host db. pipeline_frame en f l data p = (None, q) \<and> pipeline_ok q \<and> gp_cfg q = gp_cfg p \<and> gp_geom q = gp_geom p \<and>
    gp_layout q = l \<and> gp_results q = db_results mem \<and>
    enqueue_all (gp_cfg p) (gp_geom p) en (fr_sched f) host l db = Inr mem \<and> buffers_ok (gp_geom p) (length host) db \<and>
    frame_bytes l \<le> length host \<and> take (frame_bytes l) host = take (frame_bytes l) data"
proof -
  have l: "layout_ok l" and fit: "frame_bytes l \<le> length data" and fresh: "\<And>n. length (fr_fresh f n) = n"
    using img by (simp_all add: image_ok_def fits_layout)
  obtain q where q: "set_source en (fr_warm f) (fr_replay f) (fr_works f) (fr_fresh f) l p = (None, q)" "pipeline_ok q" "gp_layout q = l"
    "gp_configured q" "gp_cfg q = gp_cfg p" "gp_geom q = gp_geom p"
    using set_source_works [OF ok l en fresh] by blast
  define r where "r = fill_staging data q"
  have bytes: "frame_bytes l \<le> length (gp_staging q)" using q(2-4) by (simp add: pipeline_ok_def)
  have st: "gp_staging r = take (frame_bytes l) data @ drop (frame_bytes l) (gp_staging q)"
    using q(3) by (simp add: r_def fill_staging_def frame_bytes_def Let_def)
  have len: "length (gp_staging r) = length (gp_staging q)" using fit bytes by (simp add: st)
  have fields: "gp_cfg r = gp_cfg q" "gp_geom r = gp_geom q" "gp_layout r = l" "gp_block r = gp_block q" "gp_graph r = gp_graph q"
    "gp_mem r = gp_mem q" "gp_configured r"
    using q(3,4) by (simp_all add: r_def fill_staging_def Let_def)
  have rok: "pipeline_ok r" using q(2-4) len fields by (simp add: pipeline_ok_def)
  obtain mem where m: "run_with en (fr_sched f) l (gp_block r) r = (None, r\<lparr>gp_mem := mem, gp_pending := Some (db_results mem)\<rparr>)"
    "enqueue_all (gp_cfg r) (gp_geom r) en (fr_sched f) (gp_staging r) l (gp_mem r) = Inr mem"
    "buffers_ok (gp_geom r) (length (gp_staging r)) mem"
    using run_with_works [of r l en "fr_sched f"] rok l en bytes len by (auto simp: pipeline_ok_def)
  have "launch en (fr_sched f) r = run_with en (fr_sched f) l (gp_block r) r"
    using rok fields by (auto simp: launch_def pipeline_ok_def)
  then have "pipeline_frame en f l data p = (None, arrived (r\<lparr>gp_mem := mem, gp_pending := Some (db_results mem)\<rparr>))"
    using q(1) m(1) by (simp add: pipeline_frame_def r_def [symmetric] wait_def)
  moreover have "pipeline_ok (arrived (r\<lparr>gp_mem := mem, gp_pending := Some (db_results mem)\<rparr>))"
    using rok m(3) by (simp add: pipeline_ok_def)
  moreover have "gp_results (arrived (r\<lparr>gp_mem := mem, gp_pending := Some (db_results mem)\<rparr>)) = db_results mem"
    by (simp add: arrived_def)
  moreover have "buffers_ok (gp_geom p) (length (gp_staging r)) (gp_mem r)" using rok fields q(6) by (simp add: pipeline_ok_def)
  moreover have "frame_bytes l \<le> length (gp_staging r)" using bytes len by simp
  moreover have "take (frame_bytes l) (gp_staging r) = take (frame_bytes l) data" using fit by (simp add: st)
  ultimately show ?thesis using m(2) fields q(5,6) by simp blast
qed

lemma pipeline_run_works:
  assumes "pipeline_ok p" "list_all image_ok es" "\<And>x. en_run en x \<noteq> None"
  shows "\<exists>q. pipeline_run en es p = (None, q) \<and> pipeline_ok q \<and> gp_cfg q = gp_cfg p \<and> gp_geom q = gp_geom p \<and>
    (es = [] \<or> gp_layout q = fst (snd (last es)))"
  using assms(1,2)
proof (induction es arbitrary: p)
  case (Cons e es)
  obtain f l data where e: "e = (f, l, data)" by (cases e)
  obtain r where r: "pipeline_frame en f l data p = (None, r)" "pipeline_ok r" "gp_cfg r = gp_cfg p" "gp_geom r = gp_geom p" "gp_layout r = l"
    using pipeline_frame_works [of p f l data en] Cons.prems assms(3) by (auto simp: e)
  obtain q where "pipeline_run en es r = (None, q)" "pipeline_ok q" "gp_cfg q = gp_cfg r" "gp_geom q = gp_geom r"
    "es = [] \<or> gp_layout q = fst (snd (last es))"
    using Cons.IH [OF r(2)] Cons.prems(2) by auto
  then show ?case using r by (cases "es = []") (auto simp: e)
qed simp

lemma pipeline_run_append:
  "pipeline_run en (es @ es') p = (case pipeline_run en es p of (Some e, q) \<Rightarrow> (Some e, q) | (None, q) \<Rightarrow> pipeline_run en es' q)"
  by (induction es arbitrary: p) (auto split: prod.splits option.splits)

lemma capped_rounds: "thin_rounds (min (max 2 n) kThinMaxIter) \<le> nat kThinMaxIter"
proof -
  let ?m = "min (max 2 n) kThinMaxIter"
  have "?m AND NOT 1 \<le> ?m" by (rule AND_upper1) (simp add: kThinMaxIter_def)
  also have "\<dots> \<le> kThinMaxIter" by simp
  finally have "max 2 (?m AND NOT 1) \<le> kThinMaxIter" by (intro max.boundedI) (simp_all only: kThinMaxIter_def numeral_le_iff semiring_norm)
  then show ?thesis unfolding thin_rounds_def by (rule nat_mono)
qed

definition usable_config :: "pipeline_config \<Rightarrow> bool" where
  "usable_config c \<longleftrightarrow> 0 < pc_in_w c \<and> 0 < pc_in_h c \<and> length (pc_mean c) = 3 \<and> length (pc_stdv c) = 3"

lemma new_pipeline_ok:
  assumes "new_pipeline c lw lh lc mem host = Inr p" "usable_config c" "buffers_ok (gp_geom p) (length (db_src mem)) mem"
  shows "pipeline_ok p \<and> gp_cfg p = checked_config c \<and> pipeline_geometry c lw lh lc = Inr (gp_geom p)"
proof -
  obtain g where g: "pipeline_geometry c lw lh lc = Inr g" "gp_geom p = g" "gp_cfg p = checked_config c" "gp_staging p = []"
    "gp_mem p = mem\<lparr>db_src := []\<rparr>" "\<not> gp_configured p" "gp_graph p = None"
    using assms(1) by (auto simp: new_pipeline_def split: sum.splits)
  have "tg_wt g = (pc_in_w c + max 1 (pc_step c) - 1) sdiv max 1 (pc_step c)"
    using g(1) by (auto simp: pipeline_geometry_def Let_def checked_config_def split: if_splits)
  moreover have "\<dots> = (pc_in_w c + max 1 (pc_step c) - 1) div max 1 (pc_step c)"
    using assms(2) by (simp add: usable_config_def signed_divide_int_def sgn_if)
  moreover have "0 \<le> (pc_in_w c + max 1 (pc_step c) - 1) div max 1 (pc_step c)"
  proof (rule pos_imp_zdiv_nonneg_iff [THEN iffD2])
    have "1 \<le> max 1 (pc_step c)" "0 < pc_in_w c" using assms(2) by (simp_all add: usable_config_def)
    then show "0 < max 1 (pc_step c)" "0 \<le> pc_in_w c + max 1 (pc_step c) - 1" by linarith+
  qed
  ultimately have "0 \<le> tg_wt g" by (simp only:)
  moreover have "config_ok (checked_config c)"
    using assms(2) capped_rounds by (simp add: config_ok_def usable_config_def checked_config_def)
  ultimately show ?thesis using g assms(3) by (simp add: pipeline_ok_def buffers_ok_def)
qed

text \<open>A pipeline for one pixel, a network that answers every input, and a schedule with all its threads.\<close>

definition tiny_config :: pipeline_config where
  "tiny_config = default_pipeline\<lparr>pc_in_w := 1, pc_in_h := 1\<rparr>"

definition tiny_engine :: engine where
  "tiny_engine = \<lparr>en_anchors = 0, en_classes = 1, en_lane_c = 4, en_lane_h = 1, en_lane_w = 1, en_run = \<lambda>_. Some (\<lparr>dt_cls = [], dt_ctr = [], dt_boxes = []\<rparr>, [0, 1, 0, 0])\<rparr>"

definition tiny_results :: "int \<Rightarrow> gpu_frame" where
  "tiny_results b = \<lparr>gf_cand_count = b, gf_cands = replicate (nat kMaxCand) (det_entry \<lparr>dt_cls = [0], dt_ctr = [0], dt_boxes = [0, 0, 0, 0]\<rparr> 1 (0, 0)),
     gf_count_white = b, gf_count_yellow = b, gf_white = replicate (nat kMaxSkel) \<lparr>px_label = b, px_v = b, px_u = b\<rparr>,
     gf_yellow = replicate (nat kMaxSkel) \<lparr>px_label = b, px_v = b, px_u = b\<rparr>, gf_stop_v = replicate (nat kMaxCols) b\<rparr>"

definition tiny_memory :: "int \<Rightarrow> device_buffers" where
  "tiny_memory b = \<lparr>db_src = [], db_planes_a = [b, b, b], db_planes_b = [b, b, b], db_cc = replicate 3 ([nat b], [(nat b, 0)]), db_thin0 = [b, b],
     db_thin1 = [b, b], db_thin_counters = [b], db_skel = replicate 2 ([nat b], [(0, nat b)]), db_results = tiny_results b\<rparr>"

definition tiny_geom :: thin_geom where
  "tiny_geom = \<lparr>tg_w = 1, tg_h = 1, tg_step = 1, tg_r0 = 0, tg_wt = 1, tg_ht = 1\<rparr>"

definition tiny_pipeline :: "int \<Rightarrow> gpu_pipeline" where
  "tiny_pipeline b = \<lparr>gp_cfg = checked_config tiny_config, gp_geom = tiny_geom,
     gp_layout = \<lparr>sl_w = 0, sl_h = 0, sl_stride = 0, sl_channels = 3, sl_bgr = True\<rparr>, gp_staging = [], gp_block = 0,
     gp_configured = False, gp_graph = None, gp_mem = tiny_memory b, gp_pending = None, gp_results = tiny_results b\<rparr>"

definition tiny_run :: "bool \<Rightarrow> frame_run" where
  "tiny_run works = (let s = \<lparr>gs_det = [], gs_merge = \<lambda>_. replicate 50 0, gs_stats = \<lambda>_. replicate 50 0, gs_thin = \<lambda>_. blocks_of 1 1 TW TH,
       gs_skel_merge = \<lambda>_. replicate 50 0, gs_skel_stats = \<lambda>_. replicate 50 0, gs_compact = \<lambda>_. [0]\<rparr> in
     \<lparr>fr_warm = s, fr_replay = s, fr_works = works, fr_fresh = \<lambda>n. replicate n 9, fr_sched = s\<rparr>)"

lemma tiny_new: "new_pipeline tiny_config 1 1 4 (tiny_memory b) (tiny_results b) = Inr (tiny_pipeline b)"
  by (simp add: new_pipeline_def pipeline_geometry_def Let_def tiny_config_def default_pipeline_def checked_config_def kMaxCols_def
      tiny_pipeline_def tiny_geom_def tiny_memory_def signed_divide_int_def)

lemma tiny_ok: "usable_config tiny_config" "buffers_ok tiny_geom 0 (tiny_memory b)" "en_run tiny_engine x \<noteq> None"
  "gp_geom (tiny_pipeline b) = tiny_geom" "db_src (tiny_memory b) = []"
  by (simp_all add: usable_config_def tiny_config_def default_pipeline_def buffers_ok_def tiny_memory_def tiny_geom_def tiny_results_def
      tiny_engine_def tiny_pipeline_def)

text \<open>
  C37: The pipeline never replays a graph for another camera. Over any sequence of readable frames with pixels, of any layouts and with any captures
  failing, no error occurs as long as the network accepts its input, and afterwards launching, with or without a graph, runs the
  launches with the layout of the latest frame and the source buffer in use.
\<close>

theorem launch_uses_current_source:
  assumes "new_pipeline c lw lh lc mem host = Inr p" "usable_config c" "buffers_ok (gp_geom p) (length (db_src mem)) mem"
    and "list_all image_ok es" "\<And>x. en_run en x \<noteq> None"
  shows "\<exists>q. pipeline_run en es p = (None, q) \<and> (es = [] \<or> gp_layout q = fst (snd (last es))) \<and>
    launch en s q = run_with en s (gp_layout q) (gp_block q) q"
proof -
  obtain q where "pipeline_run en es p = (None, q)" "pipeline_ok q" "es = [] \<or> gp_layout q = fst (snd (last es))"
    using pipeline_run_works [OF _ assms(4,5)] new_pipeline_ok [OF assms(1-3)] by blast
  moreover from this(2) have "launch en s q = run_with en s (gp_layout q) (gp_block q) q"
    by (auto simp: launch_def pipeline_ok_def)
  ultimately show ?thesis by blast
qed

theorem launch_uses_current_source_witness:
  "\<exists>q. pipeline_run tiny_engine
      [(tiny_run True, one_pixel, [255, 0, 51, 9, 9]), (tiny_run False, one_pixel\<lparr>sl_bgr := True\<rparr>, [255, 0, 51, 9, 9])] (tiny_pipeline 3) = (None, q) \<and>
    gp_layout q = one_pixel\<lparr>sl_bgr := True\<rparr> \<and>
    launch tiny_engine (fr_sched (tiny_run True)) q = run_with tiny_engine (fr_sched (tiny_run True)) (gp_layout q) (gp_block q) q"
proof -
  have "list_all image_ok [(tiny_run True, one_pixel, [255, 0, 51, 9, 9]), (tiny_run False, one_pixel\<lparr>sl_bgr := True\<rparr>, [255, 0, 51, 9, 9])]"
    by (simp add: image_ok_def frame_fits_def one_pixel_def tiny_run_def Let_def)
  from launch_uses_current_source [OF tiny_new tiny_ok(1) _ this tiny_ok(3), of 3] tiny_ok(2,4,5) show ?thesis by auto
qed

section \<open>From the image to the messages\<close>

definition image_layout :: "camera_image \<Rightarrow> src_layout" where
  \<comment> \<open>the arguments of the node's call of \<open>set_source\<close>\<close>
  "image_layout img = (case parse_encoding (ci_encoding img) of
     Some (ch, bgr) \<Rightarrow> \<lparr>sl_w = ci_width img, sl_h = ci_height img, sl_stride = ci_step img, sl_channels = ch, sl_bgr = bgr\<rparr>
   | None \<Rightarrow> \<lparr>sl_w = 0, sl_h = 0, sl_stride = 0, sl_channels = 3, sl_bgr = True\<rparr>)"

lemma parse_encoding_channels: "parse_encoding e = Some (ch, bgr) \<Longrightarrow> 3 \<le> ch"
  by (auto simp: parse_encoding_def split: if_splits)

lemma readable_image_ok:
  assumes "readable img" "0 < ci_width img" "0 < ci_height img"
  shows "frame_fits (ci_data img) (image_layout img)"
  using assms parse_encoding_channels by (auto simp: readable_def image_layout_def frame_fits_def split: option.splits)

lemma readable_accepted:
  assumes "readable img" "0 \<le> ci_width img" "0 \<le> ci_height img"
  shows "accepted (ci_data img) (image_layout img)"
  using assms parse_encoding_channels by (auto simp: readable_def image_layout_def accepted_def split: option.splits)

text \<open>
  C38: What the node publishes for an image depends on the image alone. Take two pipelines made with the same configuration over memories
  of any content, with any history of earlier frames, other layouts and failed captures; when both then process the same readable
  image with pixels, with the same interleaving of the labelling threads but any order of the blocks of the thinning and of the threads
  that reserve result cells, and the results fit into their cells, the node's callback publishes the same four messages. So
  nothing of an earlier frame shows, although no buffer is cleared.
\<close>

theorem published_frame_depends_on_image_only:
  assumes "new_pipeline c lw lh lc mem host = Inr p" "new_pipeline c lw lh lc mem' host' = Inr p'" "usable_config c"
    and "buffers_ok (gp_geom p) (length (db_src mem)) mem" "buffers_ok (gp_geom p') (length (db_src mem')) mem'"
    and "list_all image_ok es" "list_all image_ok es'" "\<And>x. en_run en x \<noteq> None"
    and "readable img" "0 < ci_width img" "0 < ci_height img" "\<And>n. length (fr_fresh f n) = n" "\<And>n. length (fr_fresh f' n) = n"
    and "complete_schedule en (gp_geom p) (thin_rounds (pc_thin_max_iter (checked_config c))) (fr_sched f)"
    and "complete_schedule en (gp_geom p) (thin_rounds (pc_thin_max_iter (checked_config c))) (fr_sched f')"
    and "same_labels (fr_sched f) (fr_sched f')"
    and "pipeline_run en (es @ [(f, image_layout img, ci_data img)]) p = (None, q)"
    and "pipeline_run en (es' @ [(f', image_layout img, ci_data img)]) p' = (None, q')"
    and "in_caps (gp_results q)" "vision_rel vc (Some m) pitch s" "0 \<le> vc_max_dets vc"
  shows "\<exists>v s1 v' s1'. img_cb vc (gp_geom p) (\<lambda>_. gp_results q) tm img s = Some (Some v, s1) \<and>
    img_cb vc (gp_geom p) (\<lambda>_. gp_results q') tm img s = Some (Some v', s1') \<and> messages_of v = messages_of v'"
proof -
  let ?l = "image_layout img"
  have new: "pipeline_ok p" "gp_cfg p = checked_config c" "pipeline_geometry c lw lh lc = Inr (gp_geom p)"
    using new_pipeline_ok [OF assms(1,3,4)] by simp_all
  have new': "pipeline_ok p'" "gp_cfg p' = checked_config c" "gp_geom p' = gp_geom p"
    using new_pipeline_ok [OF assms(2,3,5)] new(3) by simp_all
  have fits: "frame_fits (ci_data img) ?l" by (rule readable_image_ok [OF assms(9-11)])
  have img: "image_ok (f, ?l, ci_data img)" "image_ok (f', ?l, ci_data img)"
    using fits assms(12,13) by (simp_all add: image_ok_def)
  obtain r where r: "pipeline_run en es p = (None, r)" "pipeline_ok r" "gp_cfg r = checked_config c" "gp_geom r = gp_geom p"
    using pipeline_run_works [OF new(1) assms(6,8)] new(2) by auto
  obtain r' where r': "pipeline_run en es' p' = (None, r')" "pipeline_ok r'" "gp_cfg r' = checked_config c" "gp_geom r' = gp_geom p"
    using pipeline_run_works [OF new'(1) assms(7,8)] new'(2,3) by auto
  obtain mem1 h1 db1 where m: "gp_results q = db_results mem1"
    "enqueue_all (checked_config c) (gp_geom p) en (fr_sched f) h1 ?l db1 = Inr mem1" "buffers_ok (gp_geom p) (length h1) db1"
    "frame_bytes ?l \<le> length h1" "take (frame_bytes ?l) h1 = take (frame_bytes ?l) (ci_data img)"
    using pipeline_frame_works [OF r(2) img(1) assms(8)] assms(17) r by (auto simp: pipeline_run_append)
  obtain mem2 h2 db2 where m': "gp_results q' = db_results mem2"
    "enqueue_all (checked_config c) (gp_geom p) en (fr_sched f') h2 ?l db2 = Inr mem2" "buffers_ok (gp_geom p) (length h2) db2"
    "frame_bytes ?l \<le> length h2" "take (frame_bytes ?l) h2 = take (frame_bytes ?l) (ci_data img)"
    using pipeline_frame_works [OF r'(2) img(2) assms(8)] assms(18) r' by (auto simp: pipeline_run_append)
  have ok: "config_ok (checked_config c)" "0 \<le> tg_wt (gp_geom p)" "layout_ok ?l"
    using r(2,3) r(4) fits by (simp_all add: pipeline_ok_def fits_layout)
  have "frame_msgs vc (gp_geom p) (\<lambda>_. gp_results q) m pitch img = frame_msgs vc (gp_geom p) (\<lambda>_. gp_results q') m pitch img"
    unfolding m(1) m'(1)
    by (rule enqueue_all_same [OF ok(1,3) m(4) m'(4) _ m(3) m'(3) assms(14-16) m(2) m'(2) _ ok(2)]) (use m(1,5) m'(5) assms(19) in simp_all)
  with img_cb_publishes [OF assms(20) assms(9) assms(21), of "gp_geom p" "\<lambda>_. gp_results q" tm]
    img_cb_publishes [OF assms(20) assms(9) assms(21), of "gp_geom p" "\<lambda>_. gp_results q'" tm]
  show ?thesis by (metis (no_types))
qed


lemma enqueue_all_counts:
  assumes "enqueue_all c g en s host l db = Inr mem"
  shows "gf_cand_count (db_results mem) \<le> int (length (gs_det s)) \<and> gf_count_white (db_results mem) \<le> int (length (gs_compact s 0)) \<and>
    gf_count_yellow (db_results mem) \<le> int (length (gs_compact s 1))"
  using assms unfolding enqueue_all_def Let_def
  by (auto simp: gpu_counts det_count lane_count split: option.splits prod.splits)

text \<open>A pixel seen by a new pipeline, and by one over other memory that has seen another image before and could not capture a graph.\<close>

theorem published_frame_depends_on_image_only_witness:
  "\<exists>q q' v s1 v' s1'.
    (let img = \<lparr>ci_header = \<lparr>stamp = 7, frame_id = ''cam''\<rparr>, ci_encoding = ''bgr8'', ci_width = 1, ci_height = 1, ci_step = 3,
           ci_data = [128, 128, 128]\<rparr>;
         s = snd (the (vision_step sample_config sample_geom sample_gpu
           (Camera_Info \<lparr>cc_width = 960, cc_height = 544, cc_k = [500, 0, 480, 0, 500, 272, 0, 0, 1]\<rparr>) (new_vision 0)));
         tm = \<lparr>vt_t0 = 0, vt_t1 = 0, vt_t2 = 0, vt_t3 = 0, vt_t4 = 0, vt_gpu_ms = 0, vt_latency_ms = 0, vt_report = 0\<rparr> in
     pipeline_run tiny_engine ([] @ [(tiny_run True, image_layout img, ci_data img)]) (tiny_pipeline 0) = (None, q) \<and>
     pipeline_run tiny_engine ([(tiny_run False, one_pixel, [255, 0, 51, 9, 9])] @ [(tiny_run True, image_layout img, ci_data img)]) (tiny_pipeline 7) =
       (None, q') \<and>
     img_cb sample_config tiny_geom (\<lambda>_. gp_results q) tm img s = Some (Some v, s1) \<and>
     img_cb sample_config tiny_geom (\<lambda>_. gp_results q') tm img s = Some (Some v', s1') \<and> messages_of v = messages_of v')"
proof -
  let ?m = "\<lparr>cc_width = 960, cc_height = 544, cc_k = [500, 0, 480, 0, 500, 272, 0, 0, 1]\<rparr>"
  let ?s = "snd (the (vision_step sample_config sample_geom sample_gpu (Camera_Info ?m) (new_vision 0)))"
  let ?img = "\<lparr>ci_header = \<lparr>stamp = 7, frame_id = ''cam''\<rparr>, ci_encoding = ''bgr8'', ci_width = 1, ci_height = 1, ci_step = 3,
    ci_data = [128, 128, 128]\<rparr>"
  let ?e = "(tiny_run True, image_layout ?img, ci_data ?img)" and ?old = "(tiny_run False, one_pixel, [255, 0, 51, 9, 9 :: 8 word])"
  have rel: "vision_rel sample_config (Some ?m) 0 ?s"
    by (simp add: vision_rel_def cam_info_cb_def new_vision_def scratch_ok_def new_skel_scratch_def)
  have read: "readable ?img" by (simp add: readable_def parse_encoding_def)
  have fresh: "length (fr_fresh (tiny_run w) n) = n" for w n by (simp add: tiny_run_def Let_def)
  have imgs: "list_all image_ok [?e]" "list_all image_ok [?old]" "list_all image_ok []"
    using readable_image_ok [OF read] fresh by (simp_all add: image_ok_def frame_fits_def one_pixel_def)
  have ok: "pipeline_ok (tiny_pipeline b)" for b using new_pipeline_ok [OF tiny_new tiny_ok(1), of b] tiny_ok(2,4,5) by simp
  obtain q where q: "pipeline_run tiny_engine ([] @ [?e]) (tiny_pipeline 0) = (None, q)"
    using pipeline_run_works [OF ok imgs(1) tiny_ok(3)] by auto
  obtain q' where q': "pipeline_run tiny_engine ([?old] @ [?e]) (tiny_pipeline 7) = (None, q')"
    using pipeline_run_works [OF ok _ tiny_ok(3), of "[?old] @ [?e]" 7] imgs by (simp only: list_all_append) blast
  obtain mem host db where m: "gp_results q = db_results mem"
    "enqueue_all (gp_cfg (tiny_pipeline 0)) tiny_geom tiny_engine (fr_sched (tiny_run True)) host (image_layout ?img) db = Inr mem"
    using pipeline_frame_works [OF ok _ tiny_ok(3), of "tiny_run True" "image_layout ?img" "ci_data ?img" 0] imgs(1) q tiny_ok(4)
    by (auto split: prod.splits option.splits)
  have cap: "in_caps (gp_results q)"
    using enqueue_all_counts [OF m(2)] unfolding m(1) in_caps_def by (simp add: tiny_run_def Let_def kMaxCand_def kMaxSkel_def)
  have sched: "complete_schedule tiny_engine (gp_geom (tiny_pipeline b)) k (fr_sched (tiny_run w))" for b k w
    unfolding tiny_ok(4) by (simp add: complete_schedule_def tiny_engine_def tiny_geom_def tiny_run_def Let_def)
  have bufs: "buffers_ok (gp_geom (tiny_pipeline b)) (length (db_src (tiny_memory b))) (tiny_memory b)" for b
    using tiny_ok(2,4,5) by simp
  have pos: "0 < ci_width ?img" "0 < ci_height ?img" "0 \<le> vc_max_dets sample_config" by (simp_all add: sample_config_def)
  have same: "same_labels (fr_sched (tiny_run True)) (fr_sched (tiny_run True))" by (simp add: same_labels_def)
  from published_frame_depends_on_image_only [OF tiny_new tiny_new tiny_ok(1) bufs bufs imgs(3) imgs(2) tiny_ok(3) read pos(1,2) fresh fresh
      sched sched same q q' cap rel pos(3), of "\<lparr>vt_t0 = 0, vt_t1 = 0, vt_t2 = 0, vt_t3 = 0, vt_t4 = 0, vt_gpu_ms = 0, vt_latency_ms = 0, vt_report = 0\<rparr>"]
  obtain v s1 v' s1' where "img_cb sample_config tiny_geom (\<lambda>_. gp_results q)
      \<lparr>vt_t0 = 0, vt_t1 = 0, vt_t2 = 0, vt_t3 = 0, vt_t4 = 0, vt_gpu_ms = 0, vt_latency_ms = 0, vt_report = 0\<rparr> ?img ?s = Some (Some v, s1)"
    "img_cb sample_config tiny_geom (\<lambda>_. gp_results q')
      \<lparr>vt_t0 = 0, vt_t1 = 0, vt_t2 = 0, vt_t3 = 0, vt_t4 = 0, vt_gpu_ms = 0, vt_latency_ms = 0, vt_report = 0\<rparr> ?img ?s = Some (Some v', s1')"
    "messages_of v = messages_of v'"
    unfolding tiny_ok(4) by blast
  with q q' show ?thesis unfolding Let_def by blast
qed

section \<open>The window\<close>

lemma ceiling_div:
  fixes a s :: int
  assumes "0 < a" "1 \<le> s"
  shows "(a + s - 1) sdiv s = (a + s - 1) div s" "0 < (a + s - 1) div s" "x < (a + s - 1) div s \<Longrightarrow> x * s < a" "a \<le> (a + s - 1) div s * s"
proof -
  let ?q = "(a + s - 1) div s"
  show "(a + s - 1) sdiv s = ?q" using assms by (simp add: signed_divide_int_def sgn_if)
  have e: "?q * s + (a + s - 1) mod s = a + s - 1" by (rule div_mult_mod_eq)
  have m: "0 \<le> (a + s - 1) mod s" "(a + s - 1) mod s < s" using assms(2) by simp_all
  show le: "a \<le> ?q * s" using e m by linarith
  show "0 < ?q"
  proof (rule ccontr)
    assume "\<not> 0 < ?q"
    then have "?q * s \<le> 0 * s" using assms(2) by (intro mult_right_mono) simp_all
    with le assms(1) show False by simp
  qed
  assume "x < ?q"
  then have "(x + 1) * s \<le> ?q * s" using assms(2) by (intro mult_right_mono) simp_all
  then have "x * s + s \<le> ?q * s" by (simp add: distrib_right)
  with e m show "x * s < a" by linarith
qed

text \<open>
  The kernels that sample the masks stay inside them. For every configuration the constructor accepts, the sub-sampled window has at
  least one row and one column and at most as many columns as there are result cells; the pixel of the mask that stands for a
  pixel of the window, and for a column and any row of the stop-line search, exists; and the window reaches down to the last
  sampled row.
\<close>

theorem window_stays_inside_the_mask:
  assumes "pipeline_geometry c lw lh lc = Inr g" "0 < pc_in_w c" "0 < pc_in_h c"
  shows "0 < tg_wt g \<and> tg_wt g \<le> kMaxCols \<and> 0 < tg_ht g \<and> 0 \<le> tg_r0 g \<and> tg_w g = pc_in_w c \<and> tg_h g = pc_in_h c \<and> 1 \<le> tg_step g \<and>
    (\<forall>x y. x < tg_wt g \<and> y < tg_ht g \<longrightarrow> x * tg_step g < pc_in_w c \<and> (y + tg_r0 g) * tg_step g < pc_in_h c) \<and>
    (\<forall>v. v < (pc_in_h c + tg_step g - 1) div tg_step g \<longrightarrow> v * tg_step g < pc_in_h c) \<and>
    pc_in_h c \<le> (tg_r0 g + tg_ht g) * tg_step g"
proof -
  let ?s = "max 1 (pc_step c)"
  let ?hs = "(pc_in_h c + ?s - 1) div ?s" and ?ws = "(pc_in_w c + ?s - 1) div ?s"
  have s: "1 \<le> ?s" by simp
  note h = ceiling_div [OF assms(3) s] and w = ceiling_div [OF assms(2) s]
  have g: "tg_step g = ?s" "tg_wt g = ?ws" "?ws \<le> kMaxCols" "tg_w g = pc_in_w c" "tg_h g = pc_in_h c" "tg_ht g = ?hs - tg_r0 g"
    "tg_r0 g = min (max 0 ((pc_thin_row_start c + ?s - 1) sdiv ?s)) (?hs - 1)"
    using assms(1) unfolding pipeline_geometry_def Let_def checked_config_def by (auto simp: h(1) w(1) split: if_splits)
  have r0: "0 \<le> tg_r0 g" unfolding g(7) using h(2) by (intro min.boundedI max.cobounded1) linarith
  have "tg_r0 g \<le> ?hs - 1" unfolding g(7) by (rule min.cobounded2)
  then have ht: "0 < tg_ht g" "tg_r0 g + tg_ht g = ?hs" unfolding g(6) by linarith+
  have px: "x * tg_step g < pc_in_w c \<and> (y + tg_r0 g) * tg_step g < pc_in_h c" if "x < tg_wt g \<and> y < tg_ht g" for x y
  proof
    show "x * tg_step g < pc_in_w c" unfolding g(1) using that g(2) by (intro w(3)) linarith
    show "(y + tg_r0 g) * tg_step g < pc_in_h c" unfolding g(1) using that ht by (intro h(3)) linarith
  qed
  have row: "v * tg_step g < pc_in_h c" if "v < (pc_in_h c + tg_step g - 1) div tg_step g" for v
    unfolding g(1) using that unfolding g(1) by (rule h(3))
  have "pc_in_h c \<le> (tg_r0 g + tg_ht g) * tg_step g" unfolding ht(2) g(1) by (rule h(4))
  moreover have "0 < tg_wt g" "tg_wt g \<le> kMaxCols" "1 \<le> tg_step g" unfolding g(1,2) by (rule w(2), rule g(3), rule s)
  ultimately show ?thesis using px row r0 ht(1) g(4,5) by blast
qed

theorem window_stays_inside_the_mask_witness:
  "\<exists>g. pipeline_geometry (default_pipeline\<lparr>pc_step := 7\<rparr>) 960 544 4 = Inr g \<and> tg_wt g = 138 \<and> tg_wt g \<le> kMaxCols \<and>
    544 \<le> (tg_r0 g + tg_ht g) * tg_step g"
proof -
  obtain g where g: "pipeline_geometry (default_pipeline\<lparr>pc_step := 7\<rparr>) 960 544 4 = Inr g" "tg_wt g = 138"
    by (simp add: pipeline_geometry_def Let_def default_pipeline_def checked_config_def signed_divide_int_def sgn_if kMaxCols_def)
  from window_stays_inside_the_mask [OF g(1)] g show ?thesis by (simp add: default_pipeline_def)
qed

end
