(* ===== verification/Hydranet_Recorder.thy ===== *)
theory Hydranet_Recorder
  imports Gpu_Pipeline
begin

text \<open>
  \<open>src/vision_cpp/src/hydranet_recorder_node.cpp\<close>, class \<open>HydraNetRecorder\<close>: each camera image goes through the network, the boxes it finds
  and the overlay of its segmentation are drawn on it, and the picture is written to a video and published. The network is the
  parameter \<open>engine\<close>, drawing and the video writer are the parameter \<open>opencv\<close>; the order in which the detection threads
  reserve their cells is given with each image. Log lines and the file's name and codec are left out.
\<close>

section \<open>The node\<close>

record recorder_config =
  rc_in_w :: int
  rc_in_h :: int
  rc_score_thresh :: real
  rc_nms_iou :: real
  rc_max_dets :: int
  rc_alpha :: real
  rc_mean :: "real list"
  rc_stdv :: "real list"
  rc_class_names :: "string list"
  rc_publishes :: bool

record opencv =
  cv_rectangle :: "int \<times> int \<Rightarrow> int \<times> int \<Rightarrow> int \<times> int \<Rightarrow> int \<Rightarrow> 8 word list \<Rightarrow> 8 word list"
  cv_text_size :: "string \<Rightarrow> int \<times> int \<times> int"
  cv_put_text :: "int \<times> int \<Rightarrow> string \<Rightarrow> int \<times> int \<Rightarrow> 8 word list \<Rightarrow> 8 word list"
  cv_opens :: bool

record recorder =
  rs_names :: "string list"
  rs_w :: int
  rs_h :: int
  rs_stride :: int
  rs_cands :: "det_candidate list"
  rs_msg :: camera_image
  rs_open :: bool
  rs_video :: "(int \<times> int \<times> 8 word list) list"
  rs_frames :: int

datatype recorder_error = Frame_Read_Outside | Selection_Failed | Label_Outside | Video_Not_Opened

fun decimal :: "nat \<Rightarrow> string" where
  "decimal n = (if n < 10 then [char_of (48 + n)] else decimal (n div 10) @ [char_of (48 + n mod 10)])"

declare decimal.simps [simp del]

definition recorder_names :: "nat \<Rightarrow> string list \<Rightarrow> string list" where
  "recorder_names K given =
    (let names = filter (\<lambda>n. n \<noteq> []) given in if length names \<noteq> K then map (\<lambda>i. ''cls'' @ decimal i) [0..<K] else names)"

definition new_recorder :: "recorder_config \<Rightarrow> engine \<Rightarrow> det_candidate list \<Rightarrow> recorder" where
  "new_recorder c en cells =
    \<lparr>rs_names = recorder_names (en_classes en) (rc_class_names c), rs_w = 0, rs_h = 0, rs_stride = 0, rs_cands = cells,
     rs_msg = \<lparr>ci_header = \<lparr>stamp = 0, frame_id = []\<rparr>, ci_encoding = [], ci_width = 0, ci_height = 0, ci_step = 0, ci_data = []\<rparr>,
     rs_open = False, rs_video = [], rs_frames = 0\<rparr>"

definition setup_frame :: "int \<Rightarrow> int \<Rightarrow> int \<Rightarrow> recorder \<Rightarrow> recorder" where
  "setup_frame w h stride r = r\<lparr>rs_w := w, rs_h := h, rs_stride := stride,
     rs_msg := (rs_msg r)\<lparr>ci_width := w, ci_height := h, ci_encoding := ''bgr8'', ci_step := w * 3, ci_data := replicate (nat w * nat h * 3) 0\<rparr>\<rparr>"

definition two_decimals :: "real \<Rightarrow> string" where
  \<comment> \<open>\<open>%.2f\<close>\<close>
  "two_decimals v = (let n = nat (rintf (100 * \<bar>v\<bar>)) in
     (if v < 0 then ''-'' else []) @ decimal (n div 100) @ ''.'' @ decimal (n mod 100 div 10) @ decimal (n mod 10))"

definition box_label :: "string \<Rightarrow> real \<Rightarrow> string" where
  \<comment> \<open>\<open>snprintf\<close> keeps 95 characters and the terminator\<close>
  "box_label name v = take 95 (name @ '' '' @ two_decimals v)"

definition draw_box :: "opencv \<Rightarrow> string \<Rightarrow> int \<times> int \<Rightarrow> found_box \<Rightarrow> 8 word list \<Rightarrow> 8 word list" where
  \<comment> \<open>the box, a filled box for its label, and the label\<close>
  "draw_box cv name wh d out =
    (let (x1, y1) = (ctrunc (fb_x1 d), ctrunc (fb_y1 d)); p2 = (ctrunc (fb_x2 d), ctrunc (fb_y2 d));
         out = cv_rectangle cv wh (x1, y1) p2 2 out;
         buf = box_label name (fb_score d);
         (tw, th, bl) = cv_text_size cv buf;
         ty = max y1 (th + bl + 2);
         out = cv_rectangle cv wh (x1, ty - th - bl - 2) (x1 + tw + 2, ty) (- 1) out in
     cv_put_text cv wh buf (x1 + 1, ty - bl - 1) out)"

fun draw_boxes :: "opencv \<Rightarrow> string list \<Rightarrow> int \<times> int \<Rightarrow> found_box list \<Rightarrow> 8 word list \<Rightarrow> 8 word list option" where
  "draw_boxes cv names wh [] out = Some out"
| "draw_boxes cv names wh (d # ds) out =
    (if 0 \<le> fb_label d \<and> fb_label d < int (length names)
     then draw_boxes cv names wh ds (draw_box cv (names ! nat (fb_label d)) wh d out) else None)"

definition save_frame :: "recorder_config \<Rightarrow> opencv \<Rightarrow> header \<Rightarrow> int \<Rightarrow> int \<Rightarrow> 8 word list \<Rightarrow> recorder \<Rightarrow> (recorder_error + camera_image option) \<times> recorder" where
  "save_frame c cv h w ht out r =
    (if \<not> rs_open r \<and> \<not> cv_opens cv then (Inl Video_Not_Opened, r)
     else
      (let r = r\<lparr>rs_open := True, rs_video := rs_video r @ [(w, ht, out)]\<rparr>;
           msg = (rs_msg r)\<lparr>ci_header := h, ci_data := take (length (ci_data (rs_msg r))) out\<rparr> in
       if rc_publishes c then (Inr (Some msg), r\<lparr>rs_msg := msg, rs_frames := rs_frames r + 1\<rparr>)
       else (Inr None, r\<lparr>rs_frames := rs_frames r + 1\<rparr>)))"

definition recorder_image_cb ::
  "recorder_config \<Rightarrow> engine \<Rightarrow> opencv \<Rightarrow> (nat \<times> nat) list \<Rightarrow> camera_image \<Rightarrow> recorder \<Rightarrow> (recorder_error + camera_image option) \<times> recorder" where
  "recorder_image_cb c en cv order img r =
    (case parse_encoding (ci_encoding img) of
       None \<Rightarrow> (Inr None, r)
     | Some (ch, bgr) \<Rightarrow>
        (let w = ci_width img; h = ci_height img; stride = ci_step img; other = (w \<noteq> rs_w r \<or> h \<noteq> rs_h r \<or> stride \<noteq> rs_stride r) in
         if other \<and> rs_open r then (Inr None, r)
         else
          (let r = (if other then setup_frame w h stride r else r); bytes = nat (stride * h); src = take bytes (ci_data img);
               l = \<lparr>sl_w = w, sl_h = h, sl_stride = stride, sl_channels = ch, sl_bgr = bgr\<rparr> in
           if length (ci_data img) < bytes then (Inl Frame_Read_Outside, r)
           else case launch_preprocess src l (nat (rc_in_w c)) (nat (rc_in_h c)) (rc_mean c) (rc_stdv c) of
             None \<Rightarrow> (Inl Frame_Read_Outside, r)
           | Some input \<Rightarrow>
              (case en_run en input of
                 None \<Rightarrow> (Inr None, r)
               | Some (det, lane) \<Rightarrow>
                  (let (n, cands) = fold (k_det det (en_classes en) (rc_score_thresh c)) order (0, rs_cands r); r = r\<lparr>rs_cands := cands\<rparr> in
                   case launch_overlay src l lane (en_lane_c en) (en_lane_h en) (en_lane_w en) (rc_alpha c) of
                     None \<Rightarrow> (Inl Frame_Read_Outside, r)
                   | Some out \<Rightarrow>
                      (case select_detections (int n) cands (rc_nms_iou c) (rc_max_dets c) (of_int w / of_int (rc_in_w c))
                          (of_int h / of_int (rc_in_h c)) w h (- 1) of
                         None \<Rightarrow> (Inl Selection_Failed, r)
                       | Some dets \<Rightarrow>
                          (case draw_boxes cv (rs_names r) (w, h) dets out of
                             None \<Rightarrow> (Inl Label_Outside, r)
                           | Some out \<Rightarrow> save_frame c cv (ci_header img) w h out r)))))))"

text \<open>The images of a recording, up to the first error.\<close>

primrec recorder_run ::
  "recorder_config \<Rightarrow> engine \<Rightarrow> (opencv \<times> (nat \<times> nat) list \<times> camera_image) list \<Rightarrow> recorder \<Rightarrow> recorder_error option \<times> camera_image list \<times> recorder" where
  "recorder_run c en [] r = (None, [], r)"
| "recorder_run c en (e # es) r =
    (case e of (cv, order, img) \<Rightarrow>
      (case recorder_image_cb c en cv order img r of
         (Inl err, r) \<Rightarrow> (Some err, [], r)
       | (Inr m, r) \<Rightarrow> (case recorder_run c en es r of (err, ms, r) \<Rightarrow> (err, (case m of Some m \<Rightarrow> m # ms | None \<Rightarrow> ms), r))))"

section \<open>Labels\<close>

definition label_in :: "nat \<Rightarrow> det_candidate \<Rightarrow> bool" where
  "label_in C d \<longleftrightarrow> 0 \<le> dc_label d \<and> dc_label d < int C"

lemma det_cells_labelled:
  assumes "list_all (\<lambda>ac. snd ac < C) order" "length cells = nat kMaxCand" "\<forall>i < min k (nat kMaxCand). label_in C (cells ! i)"
    and "fold (k_det t C thr) order (k, cells) = (n, cs)"
  shows "length cs = nat kMaxCand \<and> (\<forall>i < min n (nat kMaxCand). label_in C (cs ! i))"
  using assms
proof (induction order arbitrary: k cells)
  case (Cons ac order)
  obtain k1 cells1 where st: "k_det t C thr ac (k, cells) = (k1, cells1)" by fastforce
  have "label_in C (det_entry t C ac)" using Cons.prems(1) by (auto simp: label_in_def det_entry_def split_beta)
  then have "length cells1 = nat kMaxCand" "\<forall>i < min k1 (nat kMaxCand). label_in C (cells1 ! i)"
    using st Cons.prems(2,3) by (auto simp: k_det_def reserve_def nth_list_update less_Suc_eq split: if_splits)
  with Cons st show ?case by simp
qed simp

lemma selected_labels:
  assumes "select_detections n cs t m sx sy fw fh mb = Some ds" "\<forall>i < nat (min n kMaxCand). label_in C (cs ! i)" "d \<in> set ds"
  shows "0 \<le> fb_label d \<and> fb_label d < int C"
proof -
  let ?n = "nat (min n kMaxCand)"
  have "set (greedy_nms cs t (best_first cs [0..<?n])) \<subseteq> {0..<?n}"
    using subseq_set [OF greedy_subseq [of cs t "best_first cs [0..<?n]"]] best_first_count(2) [of cs "[0..<?n]"] by auto
  moreover have "\<exists>i \<in> set (greedy_nms cs t (best_first cs [0..<?n])). d = scaled_box sx sy fw fh (cs ! i)"
    using assms(1,3) by (auto simp: select_detections_def Let_def split: if_splits dest!: in_set_takeD)
  ultimately show ?thesis using assms(2) by (auto simp: scaled_box_def label_in_def)
qed

definition keeps_size :: "opencv \<Rightarrow> bool" where
  \<comment> \<open>drawing changes the pixels of a picture, not their number\<close>
  "keeps_size cv \<longleftrightarrow> (\<forall>wh p q t xs. length (cv_rectangle cv wh p q t xs) = length xs) \<and> (\<forall>wh b p xs. length (cv_put_text cv wh b p xs) = length xs)"

lemma length_draw_box: "keeps_size cv \<Longrightarrow> length (draw_box cv n wh d out) = length out"
  by (cases wh) (simp add: draw_box_def keeps_size_def split_beta Let_def)

lemma draw_boxes_works:
  assumes "\<forall>d \<in> set ds. 0 \<le> fb_label d \<and> fb_label d < int (length names)" "keeps_size cv"
  shows "\<exists>out'. draw_boxes cv names wh ds out = Some out' \<and> length out' = length out"
  using assms(1)
proof (induction ds arbitrary: out)
  case (Cons d ds)
  from Cons.IH [of "draw_box cv (names ! nat (fb_label d)) wh d out"] Cons.prems length_draw_box [OF assms(2)] show ?case by auto
qed simp

lemma length_recorder_names: "length (recorder_names K given) = K"
  by (simp add: recorder_names_def Let_def)

section \<open>The format of a recording\<close>

definition picture_ok :: "int \<Rightarrow> int \<Rightarrow> 8 word list \<Rightarrow> bool" where
  "picture_ok w h out \<longleftrightarrow> length out = 3 * (nat w * nat h)"

definition message_ok :: "int \<Rightarrow> int \<Rightarrow> camera_image \<Rightarrow> bool" where
  "message_ok w h m \<longleftrightarrow> ci_width m = w \<and> ci_height m = h \<and> ci_encoding m = ''bgr8'' \<and> ci_step m = 3 * w \<and> picture_ok w h (ci_data m)"

definition recorder_inv :: "nat \<Rightarrow> recorder \<Rightarrow> bool" where
  "recorder_inv C r \<longleftrightarrow> length (rs_names r) = C \<and> length (rs_cands r) = nat kMaxCand \<and>
     (rs_open r \<longleftrightarrow> rs_video r \<noteq> []) \<and> rs_frames r = int (length (rs_video r)) \<and>
     (\<forall>f \<in> set (rs_video r). fst f = rs_w r \<and> fst (snd f) = rs_h r \<and> picture_ok (rs_w r) (rs_h r) (snd (snd f))) \<and>
     (0 < rs_w r \<longrightarrow> message_ok (rs_w r) (rs_h r) (rs_msg r))"

text \<open>An image with pixels, and detection threads for the network's classes; drawing does not change the size of a picture.\<close>

definition recording_ok :: "nat \<Rightarrow> opencv \<times> (nat \<times> nat) list \<times> camera_image \<Rightarrow> bool" where
  "recording_ok C e \<longleftrightarrow> (case e of (cv, order, img) \<Rightarrow>
     0 < ci_width img \<and> 0 < ci_height img \<and> list_all (\<lambda>ac. snd ac < C) order \<and> keeps_size cv)"

lemma those_length: "those xs = Some ys \<Longrightarrow> length ys = length xs"
  by (induction xs arbitrary: ys) (auto split: option.splits)

lemma overlay_length: "launch_overlay src l logits C lh lw alpha = Some out \<Longrightarrow> picture_ok (sl_w l) (sl_h l) out"
  unfolding launch_overlay_def Let_def picture_ok_def by (drule those_length) simp

text \<open>What one image may change: nothing but the scratch memory, or one more picture of the recording's format.\<close>

lemma save_frame_inv:
  assumes "recorder_inv C r" "0 < rs_w r" "picture_ok (rs_w r) (rs_h r) out"
  shows "case save_frame c cv h (rs_w r) (rs_h r) out r of
      (Inl err, r') \<Rightarrow> err = Video_Not_Opened \<and> r' = r
    | (Inr m, r') \<Rightarrow> recorder_inv C r' \<and> rs_w r' = rs_w r \<and> rs_h r' = rs_h r \<and> rs_video r' = rs_video r @ [(rs_w r, rs_h r, out)] \<and>
        (if rc_publishes c then \<exists>m'. m = Some m' \<and> ci_data m' = out \<and> message_ok (rs_w r) (rs_h r) m' else m = None)"
proof -
  have msg: "message_ok (rs_w r) (rs_h r) (rs_msg r)" using assms(1,2) by (simp add: recorder_inv_def)
  then have "take (length (ci_data (rs_msg r))) out = out" using assms(3) by (simp add: message_ok_def picture_ok_def)
  then show ?thesis using assms msg by (auto simp: save_frame_def recorder_inv_def message_ok_def Let_def)
qed

lemma setup_frame_inv:
  assumes "recorder_inv C r" "\<not> rs_open r" "0 < w" "0 < h"
  shows "recorder_inv C (setup_frame w h stride r)"
  using assms by (auto simp: recorder_inv_def setup_frame_def message_ok_def picture_ok_def)

definition shown :: "camera_image \<Rightarrow> int \<times> int \<times> 8 word list" where
  "shown m = (ci_width m, ci_height m, ci_data m)"

definition well_formed :: "camera_image \<Rightarrow> bool" where
  "well_formed m \<longleftrightarrow> message_ok (ci_width m) (ci_height m) m"

definition cb_result_ok :: "recorder_config \<Rightarrow> nat \<Rightarrow> recorder \<Rightarrow> (recorder_error + camera_image option) \<times> recorder \<Rightarrow> bool" where
  "cb_result_ok c C r res \<longleftrightarrow> (case res of
     (Inl err, r') \<Rightarrow> recorder_inv C r' \<and> rs_video r' = rs_video r \<and> err \<noteq> Label_Outside \<and> (err = Selection_Failed \<longrightarrow> rc_max_dets c < 0)
   | (Inr m, r') \<Rightarrow> recorder_inv C r' \<and> list_all well_formed (case m of None \<Rightarrow> [] | Some m \<Rightarrow> [m]) \<and>
       (\<exists>new. rs_video r' = rs_video r @ new \<and> (if rc_publishes c then map shown (case m of None \<Rightarrow> [] | Some m \<Rightarrow> [m]) = new else m = None)))"

lemma cb_result_error:
  "recorder_inv C r' \<Longrightarrow> rs_video r' = rs_video r \<Longrightarrow> err \<noteq> Label_Outside \<Longrightarrow> (err = Selection_Failed \<Longrightarrow> rc_max_dets c < 0) \<Longrightarrow>
    cb_result_ok c C r (Inl err, r')"
  by (simp add: cb_result_ok_def)

lemma cb_result_nothing: "recorder_inv C r' \<Longrightarrow> rs_video r' = rs_video r \<Longrightarrow> cb_result_ok c C r (Inr None, r')"
  by (simp add: cb_result_ok_def)

lemma cb_result_saved:
  assumes "recorder_inv C r'" "0 < rs_w r'" "picture_ok (rs_w r') (rs_h r') out" "rs_video r' = rs_video r"
  shows "cb_result_ok c C r (save_frame c cv h (rs_w r') (rs_h r') out r')"
proof -
  obtain res q where s: "save_frame c cv h (rs_w r') (rs_h r') out r' = (res, q)" by fastforce
  note i = save_frame_inv [OF assms(1-3), of c cv h, unfolded s]
  show ?thesis
  proof (cases res)
    case (Inl err)
    with i assms(1,4) show ?thesis unfolding s by (auto intro: cb_result_error)
  next
    case (Inr m)
    with i have "recorder_inv C q" "rs_video q = rs_video r @ [(rs_w r', rs_h r', out)]"
      "if rc_publishes c then \<exists>m'. m = Some m' \<and> ci_data m' = out \<and> message_ok (rs_w r') (rs_h r') m' else m = None"
      using assms(4) by simp_all
    then show ?thesis unfolding s Inr
      by (cases "rc_publishes c") (auto simp: cb_result_ok_def shown_def well_formed_def message_ok_def)
  qed
qed

lemma recorder_image_cb_ok:
  assumes inv: "recorder_inv (en_classes en) r" and img: "recording_ok (en_classes en) (cv, order, img)"
  shows "cb_result_ok c (en_classes en) r (recorder_image_cb c en cv order img r)"
proof (cases "parse_encoding (ci_encoding img)")
  case None
  with inv show ?thesis by (simp add: recorder_image_cb_def cb_result_nothing)
next
  case (Some e)
  obtain ch bgr where e: "parse_encoding (ci_encoding img) = Some (ch, bgr)" using Some by (cases e) simp
  let ?w = "ci_width img" and ?h = "ci_height img" and ?stride = "ci_step img" and ?C = "en_classes en"
  let ?other = "?w \<noteq> rs_w r \<or> ?h \<noteq> rs_h r \<or> ?stride \<noteq> rs_stride r"
  let ?bytes = "nat (?stride * ?h)" let ?src = "take ?bytes (ci_data img)"
  let ?l = "\<lparr>sl_w = ?w, sl_h = ?h, sl_stride = ?stride, sl_channels = ch, sl_bgr = bgr\<rparr>"
  have pos: "0 < ?w" "0 < ?h" "list_all (\<lambda>ac. snd ac < ?C) order" "keeps_size cv"
    using img unfolding recording_ok_def prod.case by blast+
  show ?thesis
  proof (cases "?other \<and> rs_open r")
    case True
    with inv show ?thesis by (simp add: recorder_image_cb_def e Let_def cb_result_nothing)
  next
    case False
    define r1 where "r1 = (if ?other then setup_frame ?w ?h ?stride r else r)"
    have r1: "recorder_inv ?C r1" "rs_video r1 = rs_video r" "rs_w r1 = ?w" "rs_h r1 = ?h"
      using inv False setup_frame_inv [OF inv _ pos(1,2)] by (auto simp: r1_def setup_frame_def)
    have cb: "recorder_image_cb c en cv order img r =
      (if length (ci_data img) < ?bytes then (Inl Frame_Read_Outside, r1)
       else case launch_preprocess ?src ?l (nat (rc_in_w c)) (nat (rc_in_h c)) (rc_mean c) (rc_stdv c) of
         None \<Rightarrow> (Inl Frame_Read_Outside, r1)
       | Some input \<Rightarrow>
          (case en_run en input of
             None \<Rightarrow> (Inr None, r1)
           | Some (det, lane) \<Rightarrow>
              (let (n, cands) = fold (k_det det ?C (rc_score_thresh c)) order (0, rs_cands r1); r2 = r1\<lparr>rs_cands := cands\<rparr> in
               case launch_overlay ?src ?l lane (en_lane_c en) (en_lane_h en) (en_lane_w en) (rc_alpha c) of
                 None \<Rightarrow> (Inl Frame_Read_Outside, r2)
               | Some out \<Rightarrow>
                  (case select_detections (int n) cands (rc_nms_iou c) (rc_max_dets c) (of_int ?w / of_int (rc_in_w c))
                      (of_int ?h / of_int (rc_in_h c)) ?w ?h (- 1) of
                     None \<Rightarrow> (Inl Selection_Failed, r2)
                   | Some dets \<Rightarrow>
                      (case draw_boxes cv (rs_names r2) (?w, ?h) dets out of
                         None \<Rightarrow> (Inl Label_Outside, r2)
                       | Some out \<Rightarrow> save_frame c cv (ci_header img) ?w ?h out r2)))))"
      unfolding recorder_image_cb_def e option.case prod.case Let_def if_not_P [OF False] r1_def ..
    have "cb_result_ok c ?C r (let (n, cands) = fold (k_det det ?C (rc_score_thresh c)) order (0, rs_cands r1); r2 = r1\<lparr>rs_cands := cands\<rparr> in
               case launch_overlay ?src ?l lane (en_lane_c en) (en_lane_h en) (en_lane_w en) (rc_alpha c) of
                 None \<Rightarrow> (Inl Frame_Read_Outside, r2)
               | Some out \<Rightarrow>
                  (case select_detections (int n) cands (rc_nms_iou c) (rc_max_dets c) (of_int ?w / of_int (rc_in_w c))
                      (of_int ?h / of_int (rc_in_h c)) ?w ?h (- 1) of
                     None \<Rightarrow> (Inl Selection_Failed, r2)
                   | Some dets \<Rightarrow>
                      (case draw_boxes cv (rs_names r2) (?w, ?h) dets out of
                         None \<Rightarrow> (Inl Label_Outside, r2)
                       | Some out \<Rightarrow> save_frame c cv (ci_header img) ?w ?h out r2)))" for det lane
    proof -
      obtain n cs where f: "fold (k_det det ?C (rc_score_thresh c)) order (0, rs_cands r1) = (n, cs)" by fastforce
      have cells: "length cs = nat kMaxCand" "\<forall>i < min n (nat kMaxCand). label_in ?C (cs ! i)"
        using det_cells_labelled [OF pos(3) _ _ f] r1(1) by (simp_all add: recorder_inv_def)
      define r2 where "r2 = r1\<lparr>rs_cands := cs\<rparr>"
      have r2: "recorder_inv ?C r2" "rs_video r2 = rs_video r" "rs_w r2 = ?w" "rs_h r2 = ?h" "length (rs_names r2) = ?C"
        using r1 cells(1) by (auto simp: r2_def recorder_inv_def)
      show ?thesis
      proof (cases "launch_overlay ?src ?l lane (en_lane_c en) (en_lane_h en) (en_lane_w en) (rc_alpha c)")
        case None
        then show ?thesis unfolding f Let_def prod.case r2_def [symmetric] None option.case
          using r2 by (intro cb_result_error) simp_all
      next
        case (Some out)
        let ?sel = "select_detections (int n) cs (rc_nms_iou c) (rc_max_dets c) (of_int ?w / of_int (rc_in_w c)) (of_int ?h / of_int (rc_in_h c)) ?w ?h (- 1)"
        have pic: "picture_ok ?w ?h out" using overlay_length [OF Some] by simp
        show ?thesis
        proof (cases ?sel)
          case None
          then have "rc_max_dets c < 0" by (auto simp: select_detections_def Let_def split: if_splits)
          then show ?thesis unfolding f Let_def prod.case r2_def [symmetric] Some None option.case
            using r2 by (intro cb_result_error) simp_all
        next
          case sel: (Some dets)
          have "nat (min (int n) kMaxCand) = min n (nat kMaxCand)" by (simp add: kMaxCand_def min_def)
          then have "\<forall>d \<in> set dets. 0 \<le> fb_label d \<and> fb_label d < int (length (rs_names r2))"
            using selected_labels [OF sel] cells(2) r2(5) by simp
          from draw_boxes_works [OF this pos(4), of "(?w, ?h)" out] obtain out' where
            d: "draw_boxes cv (rs_names r2) (?w, ?h) dets out = Some out'" "length out' = length out" by blast
          have "picture_ok (rs_w r2) (rs_h r2) out'" using pic d(2) r2(3,4) by (simp add: picture_ok_def)
          from cb_result_saved [OF r2(1) _ this r2(2)] show ?thesis
            unfolding f Let_def prod.case r2_def [symmetric] Some sel option.case d(1) r2(3,4) using pos(1) by simp
        qed
      qed
    qed
    then show ?thesis unfolding cb
      using r1(1,2) by (auto intro: cb_result_error cb_result_nothing split: option.split)
  qed
qed

lemma recorder_run_ok:
  assumes "recorder_inv (en_classes en) r" "list_all (recording_ok (en_classes en)) es" "recorder_run c en es r = (err, ms, r')"
  shows "recorder_inv (en_classes en) r' \<and> list_all well_formed ms \<and> err \<noteq> Some Label_Outside \<and> (err = Some Selection_Failed \<longrightarrow> rc_max_dets c < 0) \<and>
    (\<exists>new. rs_video r' = rs_video r @ new \<and> (if rc_publishes c then map shown ms = new else ms = []))"
  using assms
proof (induction es arbitrary: r err ms r')
  case (Cons e es)
  obtain cv order img where e: "e = (cv, order, img)" by (cases e)
  obtain res r1 where cb: "recorder_image_cb c en cv order img r = (res, r1)" by fastforce
  have ok: "cb_result_ok c (en_classes en) r (res, r1)"
    using recorder_image_cb_ok [OF Cons.prems(1), of cv order img c] Cons.prems(2) cb by (simp add: e)
  show ?case
  proof (cases res)
    case (Inl x)
    with Cons.prems(3) ok cb show ?thesis by (auto simp: e cb_result_ok_def)
  next
    case (Inr m)
    obtain err1 ms1 r2 where run: "recorder_run c en es r1 = (err1, ms1, r2)" by (metis prod_cases3)
    have step: "recorder_inv (en_classes en) r1" "list_all well_formed (case m of None \<Rightarrow> [] | Some m \<Rightarrow> [m])"
      "\<exists>new. rs_video r1 = rs_video r @ new \<and> (if rc_publishes c then map shown (case m of None \<Rightarrow> [] | Some m \<Rightarrow> [m]) = new else m = None)"
      using ok by (simp_all add: Inr cb_result_ok_def)
    have "list_all (recording_ok (en_classes en)) es" using Cons.prems(2) by simp
    note ih = Cons.IH [OF step(1) this run]
    have out: "err = err1" "ms = (case m of None \<Rightarrow> [] | Some m \<Rightarrow> [m]) @ ms1" "r' = r2"
      using Cons.prems(3) cb run by (auto simp: e Inr split: option.splits)
    from ih step(2,3) show ?thesis unfolding out by (auto split: option.splits if_splits)
  qed
qed simp

lemma new_recorder_inv: "length cells = nat kMaxCand \<Longrightarrow> recorder_inv (en_classes en) (new_recorder c en cells)"
  by (simp add: recorder_inv_def new_recorder_def length_recorder_names)

text \<open>
  C40: A recording keeps one format. Over any sequence of images, of whatever sizes and encodings, whatever the network answers and however the
  run ends: every published message is a packed BGR picture of its width and height, the frames of the video all have the size of
  the first, the frame counter counts them, and what is published is, picture by picture, what is recorded. The class name of
  a box is always found, and the selection of the boxes only fails when their limit is negative.
\<close>

theorem recording_keeps_one_format:
  assumes "length cells = nat kMaxCand" "list_all (recording_ok (en_classes en)) es"
    and "recorder_run c en es (new_recorder c en cells) = (err, ms, r)"
  shows "list_all well_formed ms \<and> (if rc_publishes c then rs_video r = map shown ms else ms = []) \<and>
    (\<exists>w h. \<forall>f \<in> set (rs_video r). fst f = w \<and> fst (snd f) = h \<and> picture_ok w h (snd (snd f))) \<and>
    rs_frames r = int (length (rs_video r)) \<and> err \<noteq> Some Label_Outside \<and> (err = Some Selection_Failed \<longrightarrow> rc_max_dets c < 0)"
proof -
  have "rs_video (new_recorder c en cells) = []" by (simp add: new_recorder_def)
  with recorder_run_ok [OF new_recorder_inv [OF assms(1)] assms(2,3)] show ?thesis
    by (auto simp: recorder_inv_def split: if_splits)
qed

text \<open>Three images, the second of another size, with a network that finds nothing.\<close>

definition small_recorder :: recorder_config where
  "small_recorder = \<lparr>rc_in_w = 1, rc_in_h = 1, rc_score_thresh = 1, rc_nms_iou = 1, rc_max_dets = 5, rc_alpha = 0, rc_mean = [0, 0, 0],
     rc_stdv = [1, 1, 1], rc_class_names = [], rc_publishes = True\<rparr>"

definition small_image :: "int \<Rightarrow> camera_image" where
  "small_image w = \<lparr>ci_header = \<lparr>stamp = 1, frame_id = ''cam''\<rparr>, ci_encoding = ''rgb8'', ci_width = w, ci_height = 1, ci_step = 3 * w,
     ci_data = [1, 2, 3, 4, 5, 6]\<rparr>"

definition plain_cv :: opencv where
  "plain_cv = \<lparr>cv_rectangle = \<lambda>wh p q t xs. xs, cv_text_size = \<lambda>b. (8 * int (length b), 10, 5), cv_put_text = \<lambda>wh b p xs. xs, cv_opens = True\<rparr>"

theorem recording_keeps_one_format_witness:
  "\<exists>err ms r. recorder_run small_recorder tiny_engine [(plain_cv, [], small_image 1), (plain_cv, [], small_image 2), (plain_cv, [], small_image 1)]
      (new_recorder small_recorder tiny_engine (gf_cands (tiny_results 0))) = (err, ms, r) \<and>
    list_all well_formed ms \<and> rs_video r = map shown ms \<and> rs_frames r = int (length (rs_video r))"
proof -
  let ?es = "[(plain_cv, [], small_image 1), (plain_cv, [], small_image 2), (plain_cv, [], small_image 1)]"
  obtain err ms r where run: "recorder_run small_recorder tiny_engine ?es (new_recorder small_recorder tiny_engine (gf_cands (tiny_results 0))) = (err, ms, r)"
    by (metis prod_cases3)
  have "length (gf_cands (tiny_results 0)) = nat kMaxCand" "list_all (recording_ok (en_classes tiny_engine)) ?es"
    by (simp_all add: tiny_results_def recording_ok_def small_image_def plain_cv_def keeps_size_def)
  from recording_keeps_one_format [OF this run] run show ?thesis by (auto simp: small_recorder_def)
qed

text \<open>
  The callback does not compare the size of the message with its data, as the vision node's does: a message that is too short is read
  past its end, and one whose rows are shorter than its width and channels say is, too.
\<close>

lemma short_image_is_read_outside:
  "recorder_image_cb small_recorder tiny_engine plain_cv [] ((small_image 1)\<lparr>ci_data := [7]\<rparr>)
     (new_recorder small_recorder tiny_engine (gf_cands (tiny_results 0))) =
   (Inl Frame_Read_Outside, setup_frame 1 1 3 (new_recorder small_recorder tiny_engine (gf_cands (tiny_results 0))))"
  by (simp add: recorder_image_cb_def small_image_def new_recorder_def parse_encoding_def Let_def)

end
