(* ===== verification/Trt_Engine.thy ===== *)
theory Trt_Engine
  imports Vision_Node
begin

text \<open>
  \<open>src/vision_cpp/src/trt_engine.cpp\<close>, class \<open>TrtEngine\<close>: where the serialised network is cached, when it is built again, which shapes and
  types are accepted and how large the buffers of its tensors are. TensorRT is the parameter \<open>sdk\<close>: it turns an ONNX file into a plan,
  a plan into the list of the network's tensors, and takes the buffers' addresses. The file system is a map from paths to
  contents. The command line of \<open>build_engine.cpp\<close> is read as it does. The log lines are left out.
\<close>

section \<open>Options and files\<close>

record trt_options =
  to_onnx_path :: string
  to_engine_path :: string
  to_fp16 :: bool
  to_rebuild :: bool
  to_workspace_mb :: int
  to_opt_level :: int
  to_in_h :: int
  to_in_w :: int
  to_input_name :: string
  to_lane_name :: string
  to_cls_name :: string
  to_ctr_name :: string
  to_box_name :: string

type_synonym plan = "8 word list"
type_synonym file_system = "string \<Rightarrow> plan option"

datatype trt_type = K_Float | K_Half | K_Other

record tensor_info =
  ti_dims :: "int list"
  ti_type :: trt_type

record trt_sdk =
  sdk_build :: "trt_options \<Rightarrow> plan option"
  sdk_load :: "plan \<Rightarrow> (string \<times> tensor_info) list option"
  sdk_bind :: "string \<Rightarrow> bool"
  sdk_writes :: bool
  sdk_broken_write :: "plan \<Rightarrow> plan option \<Rightarrow> plan option"

record trt_engine =
  te_tensors :: "(string \<times> tensor_info) list"
  te_lane_c :: int
  te_lane_h :: int
  te_lane_w :: int
  te_anchors :: int
  te_classes :: int
  te_half :: "bool list"
  te_io_bytes :: "int list"

definition before_last_dot :: "string \<Rightarrow> string" where
  \<comment> \<open>\<open>base.resize(base.find_last_of('.'))\<close> when there is a dot\<close>
  "before_last_dot s = (if CHR ''.'' \<in> set s then rev (tl (dropWhile (\<lambda>c. c \<noteq> CHR ''.'') (rev s))) else s)"

definition default_engine_path :: "trt_options \<Rightarrow> string" where
  "default_engine_path o1 =
    (if to_engine_path o1 \<noteq> '''' then to_engine_path o1
     else before_last_dot (to_onnx_path o1) @ (if to_fp16 o1 then ''.fp16'' else ''.fp32'') @ ''.engine'')"

definition read_file :: "file_system \<Rightarrow> string \<Rightarrow> plan option" where
  "read_file fs path = (case fs path of None \<Rightarrow> None | Some c \<Rightarrow> if c = [] then None else Some c)"

definition build_engine :: "trt_sdk \<Rightarrow> trt_options \<Rightarrow> file_system \<Rightarrow> bool \<times> file_system" where
  "build_engine sdk o1 fs =
    (case sdk_build sdk o1 of
       None \<Rightarrow> (False, fs)
     | Some plan \<Rightarrow> if plan = [] then (False, fs) else if sdk_writes sdk then (True, fs(default_engine_path o1 \<mapsto> plan))
         else (False, fs(default_engine_path o1 := sdk_broken_write sdk plan (fs (default_engine_path o1)))))"

section \<open>Checking a network\<close>

definition validate :: "trt_options \<Rightarrow> (string \<times> tensor_info) list \<Rightarrow> trt_engine option" where
  "validate o1 ts =
    (if \<not> list_all (\<lambda>n. n \<in> set (map fst ts)) [to_input_name o1, to_lane_name o1, to_cls_name o1, to_ctr_name o1, to_box_name o1] then None
     else
      (let shape = (\<lambda>n. case map_of ts n of Some t \<Rightarrow> ti_dims t | None \<Rightarrow> []);
           inp = shape (to_input_name o1); lane = shape (to_lane_name o1); cls = shape (to_cls_name o1);
           ctr = shape (to_ctr_name o1); box = shape (to_box_name o1) in
       if length inp \<noteq> 4 \<or> inp ! 0 \<noteq> 1 \<or> inp ! 1 \<noteq> 3 \<or> inp ! 2 \<noteq> to_in_h o1 \<or> inp ! 3 \<noteq> to_in_w o1 then None
       else if length lane \<noteq> 4 \<or> lane ! 0 \<noteq> 1 \<or> lane ! 1 < 4 \<or> lane ! 2 \<noteq> to_in_h o1 \<or> lane ! 3 \<noteq> to_in_w o1 then None
       else if length cls \<noteq> 3 \<or> length ctr \<noteq> 3 \<or> length box \<noteq> 3 \<or> cls ! 1 \<noteq> ctr ! 1 \<or> cls ! 1 \<noteq> box ! 1 \<or> ctr ! 2 \<noteq> 1 \<or> box ! 2 \<noteq> 4
       then None
       else Some \<lparr>te_tensors = ts, te_lane_c = lane ! 1, te_lane_h = lane ! 2, te_lane_w = lane ! 3, te_anchors = cls ! 1,
         te_classes = cls ! 2, te_half = [], te_io_bytes = []\<rparr>))"

definition try_load :: "trt_sdk \<Rightarrow> trt_options \<Rightarrow> file_system \<Rightarrow> string \<Rightarrow> trt_engine option" where
  "try_load sdk o1 fs path =
    (case read_file fs path of None \<Rightarrow> None | Some blob \<Rightarrow> (case sdk_load sdk blob of None \<Rightarrow> None | Some ts \<Rightarrow> validate o1 ts))"

definition volume :: "int list \<Rightarrow> int" where
  "volume d = fold (\<lambda>x v. v * x) d 1"

definition allocate_tensor :: "trt_sdk \<Rightarrow> string \<Rightarrow> trt_engine \<Rightarrow> string + trt_engine" where
  "allocate_tensor sdk n e =
    (let t = the (map_of (te_tensors e) n) in
     if ti_type t \<noteq> K_Float \<and> ti_type t \<noteq> K_Half then Inl (''IO tensor '' @ n @ '' must be fp32 or fp16'')
     else
      (let half = ti_type t = K_Half;
           e = e\<lparr>te_half := te_half e @ [half], te_io_bytes := te_io_bytes e @ [volume (ti_dims t) * (if half then 2 else 4)]\<rparr> in
       if sdk_bind sdk n then Inr e else Inl (''setTensorAddress failed for '' @ n)))"

fun allocate_tensors :: "trt_sdk \<Rightarrow> string list \<Rightarrow> trt_engine \<Rightarrow> string + trt_engine" where
  "allocate_tensors sdk [] e = Inr e"
| "allocate_tensors sdk (n # ns) e = (case allocate_tensor sdk n e of Inl err \<Rightarrow> Inl err | Inr e \<Rightarrow> allocate_tensors sdk ns e)"

definition allocate_io :: "trt_sdk \<Rightarrow> trt_options \<Rightarrow> trt_engine \<Rightarrow> string + trt_engine" where
  "allocate_io sdk o1 e =
    allocate_tensors sdk [to_input_name o1, to_lane_name o1, to_cls_name o1, to_ctr_name o1, to_box_name o1] e"

section \<open>The constructor\<close>

definition new_engine :: "trt_sdk \<Rightarrow> trt_options \<Rightarrow> file_system \<Rightarrow> (string + trt_engine) \<times> file_system" where
  "new_engine sdk o1 fs =
    (let path = default_engine_path o1 in
     case (if to_rebuild o1 then None else try_load sdk o1 fs path) of
       Some e \<Rightarrow> (allocate_io sdk o1 e, fs)
     | None \<Rightarrow>
        if to_onnx_path o1 = '''' then (Inl (''No usable engine at '' @ path @ '' and no onnx_path given''), fs)
        else
         (case build_engine sdk o1 fs of
            (False, fs) \<Rightarrow> (Inl ''TensorRT engine build failed'', fs)
          | (True, fs) \<Rightarrow>
             (case try_load sdk o1 fs path of
                None \<Rightarrow> (Inl (''Could not load TensorRT engine '' @ path), fs)
              | Some e \<Rightarrow> (allocate_io sdk o1 e, fs))))"

section \<open>The tool \<open>build_engine\<close>\<close>

definition default_options :: trt_options where
  "default_options = \<lparr>to_onnx_path = '''', to_engine_path = '''', to_fp16 = True, to_rebuild = False, to_workspace_mb = 2048, to_opt_level = 3,
     to_in_h = 544, to_in_w = 960, to_input_name = ''image'', to_lane_name = ''lane_logits'', to_cls_name = ''cls_logits'',
     to_ctr_name = ''centerness'', to_box_name = ''boxes''\<rparr>"

definition is_digit :: "char \<Rightarrow> bool" where
  "is_digit c \<longleftrightarrow> 48 \<le> (of_char c :: nat) \<and> (of_char c :: nat) \<le> 57"

definition is_space :: "char \<Rightarrow> bool" where
  "is_space c \<longleftrightarrow> (of_char c :: nat) = 32 \<or> 9 \<le> (of_char c :: nat) \<and> (of_char c :: nat) \<le> 13"

definition atoi :: "string \<Rightarrow> int" where
  \<comment> \<open>leading spaces, a sign, and the digits that follow; 0 when there are none\<close>
  "atoi s =
    (let s = dropWhile is_space s;
         (neg, s) = (case s of c # cs \<Rightarrow> if c = CHR ''-'' then (True, cs) else if c = CHR ''+'' then (False, cs) else (False, s) | [] \<Rightarrow> (False, s));
         v = fold (\<lambda>c v. 10 * v + int (of_char c) - 48) (takeWhile is_digit s) 0 in
     if neg then - v else v)"

fun tool_options :: "string list \<Rightarrow> trt_options \<Rightarrow> trt_options" where
  \<comment> \<open>the loop over the arguments: an option that wants a value and has none is ignored\<close>
  "tool_options [] o1 = o1"
| "tool_options [a] o1 = (if a = ''--fp32'' then o1\<lparr>to_fp16 := False\<rparr> else o1)"
| "tool_options (a # v # rest) o1 =
    (if a = ''--fp32'' then tool_options (v # rest) (o1\<lparr>to_fp16 := False\<rparr>)
     else if a = ''--out'' then tool_options rest (o1\<lparr>to_engine_path := v\<rparr>)
     else if a = ''--h'' then tool_options rest (o1\<lparr>to_in_h := atoi v\<rparr>)
     else if a = ''--w'' then tool_options rest (o1\<lparr>to_in_w := atoi v\<rparr>)
     else if a = ''--workspace-mb'' then tool_options rest (o1\<lparr>to_workspace_mb := atoi v\<rparr>)
     else tool_options (v # rest) o1)"

definition build_tool :: "trt_sdk \<Rightarrow> string list \<Rightarrow> file_system \<Rightarrow> int \<times> file_system" where
  \<comment> \<open>the exit code of \<open>main\<close> and the files; the list is \<open>argv\<close>\<close>
  "build_tool sdk argv fs =
    (case argv of
       prog # onnx # rest \<Rightarrow>
        (let o1 = tool_options rest (default_options\<lparr>to_onnx_path := onnx\<rparr>) in
         case build_engine sdk o1 fs of (False, fs) \<Rightarrow> (1, fs) | (True, fs) \<Rightarrow> (0, fs))
     | _ \<Rightarrow> (2, fs))"

section \<open>Shapes\<close>

definition tensor_of :: "trt_engine \<Rightarrow> string \<Rightarrow> tensor_info" where
  "tensor_of e n = the (map_of (te_tensors e) n)"

definition element_bytes :: "tensor_info \<Rightarrow> int" where
  "element_bytes t = (if ti_type t = K_Half then 2 else 4)"

lemma list_4: "length xs = 4 \<Longrightarrow> xs = [xs ! 0, xs ! 1, xs ! 2, xs ! 3]"
  by (auto simp: numeral_eq_Suc length_Suc_conv)

lemma tl_3: "length xs = 3 \<Longrightarrow> tl xs = [xs ! 1, xs ! 2]"
  by (auto simp: numeral_eq_Suc length_Suc_conv)

definition well_shaped :: "trt_options \<Rightarrow> trt_engine \<Rightarrow> bool" where
  "well_shaped o1 e \<longleftrightarrow>
     ti_dims (tensor_of e (to_input_name o1)) = [1, 3, to_in_h o1, to_in_w o1] \<and>
     ti_dims (tensor_of e (to_lane_name o1)) = [1, te_lane_c e, to_in_h o1, to_in_w o1] \<and> 4 \<le> te_lane_c e \<and>
     te_lane_h e = to_in_h o1 \<and> te_lane_w e = to_in_w o1 \<and>
     tl (ti_dims (tensor_of e (to_cls_name o1))) = [te_anchors e, te_classes e] \<and>
     tl (ti_dims (tensor_of e (to_ctr_name o1))) = [te_anchors e, 1] \<and>
     tl (ti_dims (tensor_of e (to_box_name o1))) = [te_anchors e, 4]"

lemma validate_shapes:
  assumes "validate o1 ts = Some e"
  shows "well_shaped o1 e \<and> te_tensors e = ts \<and> te_half e = [] \<and> te_io_bytes e = []"
proof -
  have dims: "(case map_of ts n of Some t \<Rightarrow> ti_dims t | None \<Rightarrow> []) = ti_dims (the (map_of ts n))" if "n \<in> set (map fst ts)" for n
    using that by (cases "map_of ts n") (auto simp: map_of_eq_None_iff)
  show ?thesis
    using assms unfolding validate_def Let_def
    by (auto simp: well_shaped_def tensor_of_def dims tl_3 split: if_splits dest!: list_4)
qed

section \<open>The buffers\<close>

definition io_names :: "trt_options \<Rightarrow> string list" where
  "io_names o1 = [to_input_name o1, to_lane_name o1, to_cls_name o1, to_ctr_name o1, to_box_name o1]"

lemma allocate_tensors_ok:
  assumes "allocate_tensors sdk ns e = Inr e'"
  shows "e' = e\<lparr>te_half := te_half e @ map (\<lambda>n. ti_type (tensor_of e n) = K_Half) ns,
      te_io_bytes := te_io_bytes e @ map (\<lambda>n. volume (ti_dims (tensor_of e n)) * element_bytes (tensor_of e n)) ns\<rparr> \<and>
    (\<forall>n \<in> set ns. ti_type (tensor_of e n) \<noteq> K_Other)"
  using assms
proof (induction ns arbitrary: e)
  case (Cons n ns)
  obtain e1 where e1: "allocate_tensor sdk n e = Inr e1" "allocate_tensors sdk ns e1 = Inr e'"
    using Cons.prems by (auto split: sum.splits)
  have e1_eq: "e1 = e\<lparr>te_half := te_half e @ [ti_type (tensor_of e n) = K_Half],
      te_io_bytes := te_io_bytes e @ [volume (ti_dims (tensor_of e n)) * element_bytes (tensor_of e n)]\<rparr>"
    and ty: "ti_type (tensor_of e n) \<noteq> K_Other"
    using e1(1) by (auto simp: allocate_tensor_def Let_def tensor_of_def element_bytes_def split: if_splits)
  have "tensor_of e1 = tensor_of e" by (simp add: e1_eq tensor_of_def fun_eq_iff)
  with Cons.IH [OF e1(2)] ty show ?case by (simp add: e1_eq)
qed simp

lemma allocate_io_ok:
  assumes "validate o1 ts = Some e0" "allocate_io sdk o1 e0 = Inr e"
  shows "well_shaped o1 e \<and> te_half e = map (\<lambda>n. ti_type (tensor_of e n) = K_Half) (io_names o1) \<and>
    te_io_bytes e = map (\<lambda>n. volume (ti_dims (tensor_of e n)) * element_bytes (tensor_of e n)) (io_names o1) \<and>
    (\<forall>n \<in> set (io_names o1). ti_type (tensor_of e n) \<noteq> K_Other)"
proof -
  note v = validate_shapes [OF assms(1)]
  have a: "e = e0\<lparr>te_half := te_half e0 @ map (\<lambda>n. ti_type (tensor_of e0 n) = K_Half) (io_names o1),
      te_io_bytes := te_io_bytes e0 @ map (\<lambda>n. volume (ti_dims (tensor_of e0 n)) * element_bytes (tensor_of e0 n)) (io_names o1)\<rparr> \<and>
    (\<forall>n \<in> set (io_names o1). ti_type (tensor_of e0 n) \<noteq> K_Other)"
    by (rule allocate_tensors_ok) (use assms(2) in \<open>simp add: allocate_io_def io_names_def\<close>)
  then have t: "tensor_of e = tensor_of e0" by (auto simp: tensor_of_def fun_eq_iff)
  have w: "well_shaped o1 e \<longleftrightarrow> well_shaped o1 e0" unfolding well_shaped_def t using a by auto
  from a v show ?thesis unfolding w t by auto
qed

lemma new_engine_loads:
  assumes "new_engine sdk o1 fs = (Inr e, fs')"
  shows "\<exists>e0. try_load sdk o1 fs' (default_engine_path o1) = Some e0 \<and> allocate_io sdk o1 e0 = Inr e"
  using assms by (auto simp: new_engine_def Let_def split: option.splits if_splits prod.splits bool.splits)

lemma try_load_validates: "try_load sdk o1 fs path = Some e0 \<Longrightarrow> \<exists>ts. validate o1 ts = Some e0"
  by (auto simp: try_load_def split: option.splits)

text \<open>
  C39: A constructed engine has the shapes and types that the rest of the node reads. Its input is one image of the configured size, its
  segmentation has the same size and at least four classes, its three detection tensors agree in the number of anchors and have
  one value for the centre and four for the box; all five hold floats or half floats, and each buffer has the bytes of its
  tensor. So the only error the pipeline's constructor can raise for it is that the image is too wide.
\<close>

theorem constructed_engine_is_well_shaped:
  assumes "new_engine sdk o1 fs = (Inr e, fs')"
  shows "well_shaped o1 e \<and> (\<forall>n \<in> set (io_names o1). ti_type (tensor_of e n) = K_Float \<or> ti_type (tensor_of e n) = K_Half) \<and>
    te_io_bytes e = map (\<lambda>n. volume (ti_dims (tensor_of e n)) * element_bytes (tensor_of e n)) (io_names o1) \<and>
    te_half e = map (\<lambda>n. ti_type (tensor_of e n) = K_Half) (io_names o1) \<and>
    (pc_in_w c = to_in_w o1 \<and> pc_in_h c = to_in_h o1 \<longrightarrow>
      (\<forall>err. pipeline_geometry c (te_lane_w e) (te_lane_h e) (te_lane_c e) = Inl err \<longrightarrow> err = ''image too wide for kMaxCols''))"
proof -
  obtain e0 ts where "validate o1 ts = Some e0" "allocate_io sdk o1 e0 = Inr e"
    using new_engine_loads [OF assms] try_load_validates by blast
  note a = allocate_io_ok [OF this]
  have "pipeline_geometry c (te_lane_w e) (te_lane_h e) (te_lane_c e) = Inl err \<longrightarrow> err = ''image too wide for kMaxCols''"
    if "pc_in_w c = to_in_w o1" "pc_in_h c = to_in_h o1" for err
    using a that by (auto simp: pipeline_geometry_def well_shaped_def Let_def split: if_splits)
  moreover have "ti_type t \<noteq> K_Other \<longleftrightarrow> ti_type t = K_Float \<or> ti_type t = K_Half" for t by (cases "ti_type t") simp_all
  ultimately show ?thesis using a by blast
qed

text \<open>
  An engine is built at most once: after a start that succeeded, the next start with the same options, without the demand to rebuild,
  gives the same engine and touches no file, whatever the builder would answer now.
\<close>

theorem saved_engine_is_loaded_again:
  assumes "new_engine sdk o1 fs = (Inr e, fs')" "sdk_load sdk' = sdk_load sdk" "sdk_bind sdk' = sdk_bind sdk"
  shows "new_engine sdk' (o1\<lparr>to_rebuild := False\<rparr>) fs' = (Inr e, fs')"
proof -
  let ?o = "o1\<lparr>to_rebuild := False\<rparr>"
  obtain e0 where e0: "try_load sdk o1 fs' (default_engine_path o1) = Some e0" "allocate_io sdk o1 e0 = Inr e"
    using new_engine_loads [OF assms(1)] by blast
  have path: "default_engine_path ?o = default_engine_path o1" by (simp add: default_engine_path_def)
  have "validate ?o ts = validate o1 ts" for ts by (cases o1) (simp only: validate_def trt_options.simps)
  then have "try_load sdk' ?o fs' (default_engine_path o1) = Some e0"
    using e0(1) assms(2) by (auto simp: try_load_def split: option.splits)
  moreover have "allocate_tensor sdk' = allocate_tensor sdk" unfolding allocate_tensor_def fun_eq_iff assms(3) by blast
  then have "allocate_tensors sdk' ns x = allocate_tensors sdk ns x" for ns x
    by (induction ns arbitrary: x) (simp_all split: sum.split)
  then have "allocate_tensors sdk' = allocate_tensors sdk" by (intro ext)
  then have "allocate_io sdk' ?o e0 = Inr e" using e0(2) by (simp add: allocate_io_def del: allocate_tensors.simps)
  ultimately show ?thesis by (simp add: new_engine_def path)
qed

text \<open>
  The tool prepares the node's start: when it exits with 0 and a network of the plan it wrote passes the node's checks, a node whose
  engine file is the tool's starts without building and without touching a file.
\<close>

lemma tool_prepares_the_node:
  assumes "build_tool sdk (prog # onnx # rest) fs = (0, fs')"
    and "default_engine_path o1 = default_engine_path (tool_options rest (default_options\<lparr>to_onnx_path := onnx\<rparr>))" "\<not> to_rebuild o1"
    and "\<And>blob. blob \<noteq> [] \<Longrightarrow> \<exists>ts. sdk_load sdk' blob = Some ts \<and> validate o1 ts \<noteq> None"
  shows "snd (new_engine sdk' o1 fs') = fs'"
proof -
  let ?o = "tool_options rest (default_options\<lparr>to_onnx_path := onnx\<rparr>)"
  obtain plan where plan: "plan \<noteq> []" "fs' (default_engine_path ?o) = Some plan"
    using assms(1) by (auto simp: build_tool_def build_engine_def Let_def split: option.splits if_splits)
  obtain ts e where "sdk_load sdk' plan = Some ts" "validate o1 ts = Some e" using assms(4) [OF plan(1)] by blast
  with plan assms(2) have "try_load sdk' o1 fs' (default_engine_path o1) = Some e" by (simp add: try_load_def read_file_def)
  with assms(3) show ?thesis by (simp add: new_engine_def)
qed

lemma tool_reads_numbers: "atoi ''544'' = 544 \<and> atoi '' -7x9'' = - 7 \<and> atoi ''x'' = 0"
  by (simp add: atoi_def is_space_def is_digit_def)

text \<open>Networks without an extension in a directory with a dot: the directory's name is cut, so all of them share one file.\<close>

definition image_net :: "string \<Rightarrow> trt_options" where
  "image_net path = \<lparr>to_onnx_path = path, to_engine_path = '''', to_fp16 = True, to_rebuild = False, to_workspace_mb = 2048, to_opt_level = 3, to_in_h = 2, to_in_w = 3,
     to_input_name = ''image'', to_lane_name = ''lane_logits'', to_cls_name = ''cls_logits'', to_ctr_name = ''centerness'', to_box_name = ''boxes''\<rparr>"

lemma dotted_directory_shares_engine:
  "default_engine_path (image_net ''v1.0/front'') = default_engine_path (image_net ''v1.0/rear'') \<and>
   default_engine_path (image_net ''front.onnx'') = ''front.fp16.engine''"
  by (simp add: default_engine_path_def image_net_def before_last_dot_def)

definition small_sdk :: "bool \<Rightarrow> trt_sdk" where
  "small_sdk builds = \<lparr>sdk_build = \<lambda>_. if builds then Some [1] else None,
     sdk_load = \<lambda>_. Some [(''image'', \<lparr>ti_dims = [1, 3, 2, 3], ti_type = K_Half\<rparr>), (''lane_logits'', \<lparr>ti_dims = [1, 4, 2, 3], ti_type = K_Half\<rparr>),
       (''cls_logits'', \<lparr>ti_dims = [1, 7, 5], ti_type = K_Half\<rparr>), (''centerness'', \<lparr>ti_dims = [1, 7, 1], ti_type = K_Half\<rparr>),
       (''boxes'', \<lparr>ti_dims = [1, 7, 4], ti_type = K_Float\<rparr>)],
     sdk_bind = \<lambda>_. True, sdk_writes = True, sdk_broken_write = \<lambda>plan old. old\<rparr>"

lemma small_engine:
  "\<exists>e fs'. new_engine (small_sdk True) (image_net ''net.onnx'') (\<lambda>_. None) = (Inr e, fs') \<and> te_io_bytes e = [36, 48, 70, 14, 112]"
  by (simp add: new_engine_def Let_def image_net_def default_engine_path_def before_last_dot_def try_load_def read_file_def build_engine_def
      small_sdk_def validate_def allocate_io_def allocate_tensor_def volume_def)

theorem constructed_engine_is_well_shaped_witness:
  "\<exists>e fs'. new_engine (small_sdk True) (image_net ''net.onnx'') (\<lambda>_. None) = (Inr e, fs') \<and> well_shaped (image_net ''net.onnx'') e \<and>
    4 \<le> te_lane_c e"
proof -
  obtain e fs' where e: "new_engine (small_sdk True) (image_net ''net.onnx'') (\<lambda>_. None) = (Inr e, fs')" using small_engine by blast
  from constructed_engine_is_well_shaped [OF e] e show ?thesis by (auto simp: well_shaped_def)
qed

theorem saved_engine_is_loaded_again_witness:
  "\<exists>e fs'. new_engine (small_sdk True) (image_net ''net.onnx'') (\<lambda>_. None) = (Inr e, fs') \<and>
    new_engine (small_sdk False) ((image_net ''net.onnx'')\<lparr>to_rebuild := False\<rparr>) fs' = (Inr e, fs')"
proof -
  obtain e fs' where e: "new_engine (small_sdk True) (image_net ''net.onnx'') (\<lambda>_. None) = (Inr e, fs')" using small_engine by blast
  from saved_engine_is_loaded_again [OF e, of "small_sdk False"] e show ?thesis by (auto simp: small_sdk_def)
qed

end
