(* ===== verification/Spec2Isabelle.thy ===== *)
theory Spec2Isabelle
  imports Obstacle_Chain Path_Bridge Lane_Change Mapping_Node Depth_Estimator Intersection_Server Lidar_Processor Centerline_Node
    Hydranet_Recorder Trt_Engine
begin

text \<open>
  A verification of the C++ nodes of a self-driving stack on ROS 2. All paths below are relative to the repository's directory \<open>src/\<close>.

  \<^bold>\<open>The program and its parts.\<close> A camera image goes through a network on the GPU (\<open>vision_cpp\<close>), whose result is turned into
  detections, lane points and stop-line points on the ground. A LiDAR scan is levelled and reduced to obstacle and clearing points
  (\<open>lidar_perception_cpp\<close>). Detections get a distance, a flag that says whether they are in the lane, and a track with an
  identity (\<open>lidar_cam_fusion\<close>). Lane points go into a rolling map (\<open>mapping_cpp\<close>) and become centre lines and lane paths
  (\<open>path_generation_cpp\<close>). A behaviour tree (\<open>bt\<close>) reads the tracks, the signs and the stop line and decides to stop, to change the
  lane or to enter an intersection; action servers carry out lane changes (\<open>lane_change_ws\<close>) and intersections
  (\<open>intersection_ws\<close>), and the path bridge (\<open>mapping_cpp\<close>) sends the path in force to the controller of navigation2.

  \<^bold>\<open>Which theory models what.\<close>
  \<^item> \<open>Prelude\<close>: doubles with their non-finite values, C++'s clamp, hypot, truncation and remainder, and list lemmas. \<open>Messages\<close>:
    \<open>vision_interfaces/msg\<close>, \<open>fusion_interfaces/msg\<close>, headers and transforms.
  \<^item> \<open>Decision\<close>: \<open>bt/include/bt/decision.hpp\<close>, class \<open>Decider\<close>. \<open>Shared_State\<close>: \<open>shared_state.hpp\<close>. \<open>Intersection_Input\<close>:
    \<open>intersection_input.hpp\<close>. \<open>BT_Nodes\<close>: the leaves of the tree in \<open>nodes.hpp\<close>, and the start, the class table,
    the turn list and the obstacle callback of \<open>bt_executor.cpp\<close>.
  \<^item> \<open>Path_Bridge\<close>: \<open>mapping_cpp/src/lane_follow_test.cpp\<close> with the FollowPath server as the other side of a step relation.
    \<open>Lane_Change\<close>: \<open>lane_change_server.cpp\<close> and \<open>lane_path_mux.cpp\<close>.
  \<^item> \<open>Lane_Mapper\<close>: \<open>lane_mapper.hpp\<close>, \<open>lane_mapper.cpp\<close>, the ring buffer of log-odds. \<open>Mapping_Node\<close>: \<open>mapping.cpp\<close>, its queue.
  \<^item> \<open>Depth_Estimator\<close>, \<open>In_Lane_Filter\<close>, \<open>Obstacle_Memory\<close>: the three nodes of \<open>lidar_cam_fusion/src\<close>. \<open>Obstacle_Chain\<close>: filter,
    memory and executor together, with the messages between them.
  \<^item> \<open>Intersection_Planner\<close>, \<open>Intersection_Server\<close>: \<open>intersection_planner.cpp\<close>, \<open>IntersectionServer.cpp\<close>.
  \<^item> \<open>Lidar_Processor\<close>: \<open>lidar_processor.cpp\<close>.
  \<^item> \<open>Centerline_Math\<close>, \<open>Centerline_Generator\<close>, \<open>Centerline_Node\<close>: \<open>centerline_generator.cpp\<close> with its header and \<open>centerline_node.cpp\<close>.
  \<^item> \<open>Skeleton_Order\<close>: \<open>vision_cpp/src/thinning.cpp\<close>. \<open>Detection_Select\<close>: \<open>model_helpers.cpp\<close>. \<open>Ground_Projection\<close>: \<open>ipm.cpp\<close>.
    \<open>Vision_Node\<close>: \<open>vision_node.cpp\<close> and the geometry of \<open>gpu_pipeline.cpp\<close>.
  \<^item> \<open>Thinning_Kernel\<close>, \<open>Component_Kernel\<close>, \<open>Mask_Kernel\<close>, \<open>Image_Kernel\<close>, \<open>Gpu_Results\<close>: the kernels and launchers of
    \<open>gpu_kernels.cu\<close>. \<open>Stale_Memory\<close>: the labelling kernels never read what an earlier frame left. \<open>Gpu_Pipeline\<close>: \<open>gpu_pipeline.cpp\<close>,
    the launches of a frame and the life of the object, with its captured graph.
  \<^item> \<open>Trt_Engine\<close>: \<open>trt_engine.cpp\<close> and \<open>build_engine.cpp\<close>. \<open>Hydranet_Recorder\<close>: \<open>hydranet_recorder_node.cpp\<close>.

  \<^bold>\<open>How state and operations correspond.\<close> A class is a record with its members, a member function a definition that takes the record and
  returns it changed, in the order of the code's statements; a callback also returns what it publishes. An enumeration or a set of
  early returns is a datatype, an exception or an early return a branch of a sum or an option. Unsigned members and indices that can wrap
  are words; Boolean and integer parameters keep their names. A loop is a fold or a structural recursion where it has a bound. A mutex or
  a single executor thread makes operations atomic, so a run is a list of events; the path bridge and the server it talks to are an
  inductive step relation. Threads of a GPU launch are interleaved at their single memory accesses where they share cells: a schedule is
  the list of the threads in the order of their turns.

  \<^bold>\<open>What the groups of lemmas show.\<close>
  \<^item> \<open>Behaviour.\<close> An action is confirmed by consecutive lists and configured for its class; a latched intersection stays in force
    against everything but a fresh STOP; a stop is demanded only within the lifetime of a real sign; a
    turn goal is sent only after the stop it demands; a failed lane change is not repeated at once; at any time the goal the controller
    holds is the intersection path or a lane path sent while following was on. The lemma \<open>rejected_update_loses_goal\<close> shows a defect.
  \<^item> \<open>Perception on the robot.\<close> The ring buffer is refined by a map on grid cells, frames keep its invariant, clouds are used in order;
    identities of obstacles are unique; published distances have their sources; the flag means a place between the lines. The theorem
    at the end of this theory joins the filter, the memory and the tree.
  \<^item> \<open>Planning.\<close> The planner returns for every input, and reads outside its candidate points only for a \<open>min_line_pts\<close> below one; its turns,
    laid along the fitted lines, join the robot to the exit lane; the fraction of blocked poses
    is exact; the server runs one manoeuvre at a time, which ends by its timeout.
  \<^item> \<open>Paths.\<close> The generator's memory keeps its shape, and its widths their limits for parameters that respect them; its paths start at the robot; each white cloud is used once.
  \<^item> \<open>Vision.\<close> Network input, masks, thinning, components, selection, ordering and projection are each equal to a reference definition
    (an interpolation, opening and closing by rectangles, Zhang-Suen steps on the whole image, connected components, a greedy choice, a
    lexicographic sort, a pinhole camera), and the component filter keeps only large components, though a late store can cost one a pixel
    (\<open>late_halving_drops_a_pixel\<close>); the node accepts an image without pixels, which the first kernel reads outside of; the frame that is published depends on the image alone and not on the order of threads, on
    earlier frames or on the graph.

  The contracts that several proofs share are locales, interpreted on the model: \<open>decision_source\<close> (what the shared state asks of its two
  deciders), \<open>ring_index\<close> (the index arithmetic of the map), \<open>rigid_motion\<close> (frames of the planner), \<open>adjoint_pair\<close> (dilation and
  erosion), \<open>thread_system\<close> (rely, guarantee and a cost that each turn lowers, for both union-find kernels).

  \<^bold>\<open>Bounds and fuel.\<close> No definition takes fuel. Two loops without an evident bound are partial functions into the options, and theorems show
  that they return: the probe of the hash table of labels (it has 2^15 slots, more than the 8192 pixels of a lane) and the
  search along an exit lane. The labelling kernels are given turns: \<open>merge_turns n\<close> and \<open>stats_turns n\<close> for \<open>n\<close> pixels are enough because
  every access lowers a cost that starts below them, and \<open>fair\<close> asks that each thread has that many. The thinning makes an even number of
  rounds, at most 64. The limits of the code are constants of the model: 2048 candidates, 8192 skeleton pixels per lane, 2048
  columns. Tracks get 32-bit identities, so their uniqueness is stated for runs with fewer than 2^32 detections, and the generation counter
  of the path bridge likewise.

  \<^bold>\<open>What is assumed.\<close> Floats are real numbers, with NaN and the infinities where a value can be one (the type \<open>dbl\<close>); rounding is not
  modelled, and half floats are not told from floats. The accesses of GPU threads are sequentially consistent. Outside code is a parameter:
  TF lookups and transforms, the clock, the least-squares solver of Eigen, the generator of random pairs, PCL's filters, the network,
  TensorRT's builder and runtime, OpenCV's drawing and video writer, the action server of navigation2. Each theorem states what
  it needs of them as a hypothesis: of the random pairs, that a draw from a range that is not empty lies in it (\<open>draws_in_range\<close>). Parameters
  come from ROS unchecked; where a theorem needs them to be sensible it says so.

  \<^bold>\<open>Not modelled.\<close>
  \<^item> \<open>navigation2/\<close> is a copy of that project; the program only sends it FollowPath goals.
  \<^item> The tree in \<open>bt/trees/main.xml\<close>: its control nodes belong to BehaviorTree.CPP, and the directory of the submodule BehaviorTree.ROS2 is
    empty. The order in which the leaves are ticked is therefore any order.
  \<^item> ROS set-up in constructors and \<open>main\<close>: parameters, topics and their QoS, timers, log lines, the styling of markers.
  \<^item> CUDA's own failures other than a failed capture, streams and events; the calls that configure TensorRT's builder; \<open>cuda_utils.hpp\<close>.
  \<^item> The first halves of \<open>in_lane_filter.cpp\<close> and \<open>lane_path_mux.cpp\<close>, which are commented out.
  \<^item> Python (\<open>vision_py\<close>, scripts, launch files), the simulation, and the tests.
\<close>

section \<open>From a detected box to an action\<close>

text \<open>
  C1: The tree acts on obstacles in the lane only. Start the executor with any parameters it accepts, the obstacle memory fresh and the
  in-lane filter in any state, and run the three nodes in any interleaving, with messages delivered late, twice, out of order or not at
  all, and undecided boxes counted as out of lane. Whenever the tree reads STOP or CHANGE, the decision is the reading of an obstacle
  that the memory published, its class is in the list of classes, with the word for this very action and a trigger distance that
  is not exceeded, and the filter had received a box of this class, with a depth, that lay in the band between its fresh lane lines.
\<close>

theorem actions_answer_obstacles_in_lane:
  assumes "\<not> in_lane_unknown fc" "list_all chain_event_ok es" "executor_start p = Some s" "chain_run fc mc (new_chain s f) es = x"
    and "dec_action (current t (ch_shared x)) = a" "a \<in> {STOP, CHANGE}" "dec_cls (current t (ch_shared x)) = cl"
  shows "(\<exists>m \<in> set (ch_arrays x). \<exists>ob \<in> set (tracked m). current t (ch_shared x) = make_decision a (of_tracked ob)) \<and>
    caused_in_lane fc mc (new_chain s f) es cl \<and>
    cl \<in> set (ep_class_names p) \<and> parse_action (ep_class_action p cl) = a \<and>
    dec_distance (current t (ch_shared x)) \<le> Fin (ep_class_trigger p cl)"
proof -
  let ?dc = "executor_config p"
  have inv: "chain_inv ?dc {cl. caused_in_lane fc mc (new_chain s f) es cl} x"
    using chain_inv_run [OF assms(1-3)] assms(4) by blast
  then have cur: "current t (ch_shared x) = obstacle (ch_shared x)"
    using current_obstacle assms(5,6) by (simp add: chain_inv_def traced_def)
  with inv assms(5,6) obtain d where d: "read_from (ch_arrays x) d" "obstacle (ch_shared x) = make_decision a d"
    "configured_for (rules_for ?dc False) (det_cls d) (det_distance d) (slot a)"
    unfolding chain_inv_def traced_def by (metis make_decision_simps)
  from d(1) obtain m ob where ob: "m \<in> set (ch_arrays x)" "ob \<in> set (tracked m)" "d = of_tracked ob" by (auto simp: read_from_def)
  have cl: "det_cls d = cl" "ob_class_name ob = cl" using assms(7) cur d(2) ob(3) by (simp_all add: of_tracked_def)
  from inv ob(1,2) have "caused_in_lane fc mc (new_chain s f) es cl" unfolding chain_inv_def cl(2) [symmetric] by blast
  moreover obtain r where "classes ?dc cl = Some r" "rule_action r = a" "det_distance d \<le> Fin (trigger_distance r)"
    using d(3) assms(6) by (auto simp: cl(1) configured_for_def rules_for_def slot_inj Let_def split: option.splits if_splits)
  moreover from this(1,2) have "cl \<in> set (ep_class_names p)" "parse_action (ep_class_action p cl) = a" "trigger_distance r = ep_class_trigger p cl"
    by (auto simp: executor_class split: if_splits)
  ultimately show ?thesis using ob d(2) cur by auto
qed

theorem actions_answer_obstacles_in_lane_witness:
  "dec_action (current 4 (ch_shared (chain_run filter_test mem_config (new_chain barrel_shared both_lines) barrel_events))) = CHANGE \<and>
   caused_in_lane filter_test mem_config (new_chain barrel_shared both_lines) barrel_events ''barrel''"
proof -
  have "\<not> in_lane_unknown filter_test" "list_all chain_event_ok barrel_events"
    by (simp_all add: filter_test_def barrel_events_def)
  from actions_answer_obstacles_in_lane [OF this barrel_start refl barrel_run _ refl]
  have "\<exists>cl. caused_in_lane filter_test mem_config (new_chain barrel_shared both_lines) barrel_events cl \<and> cl \<in> set (ep_class_names barrel_params)"
    by auto
  with barrel_run show ?thesis by (simp add: barrel_params_def)
qed

end
